(* ===== verification/Prelude.thy ===== *)
theory Prelude
  imports Main "HOL-Library.Word" "HOL-Library.Monad_Syntax"
begin

text \<open>
  Shared vocabulary of the development: the machine types of the Rust sources, the error
  values its fallible functions return, checked slice access, big- and little-endian byte
  codecs, and the arithmetic lemmas on words the component theories rewrite with.

  Conventions. A \<open>uN\<close> or \<open>iN\<close> of the source is an \<open>N word\<close> (read with \<^const>\<open>unat\<close>
  or \<^const>\<open>sint\<close>); \<open>usize\<close> values that index or count are \<^typ>\<open>nat\<close>; a byte slice is a
  list of bytes. A \<open>Result<T>\<close> is a sum whose left side is an error of type \<open>limbo_error\<close>;
  a Rust panic (index out of range, failed \<open>turso_assert!\<close>) is the error \<open>Panic\<close>.
\<close>

unbundle bit_operations_syntax

section \<open>Machine types and errors\<close>

type_synonym u8 = "8 word"
type_synonym u16 = "16 word"
type_synonym u32 = "32 word"
type_synonym u64 = "64 word"
type_synonym i64 = "64 word"
type_synonym bytes = "8 word list"

datatype limbo_error =
    Corrupt
  | Busy
  | BusySnapshot
  | InternalError
  | Constraint
  | IntegerOverflow
  | Panic

type_synonym 'a result = "limbo_error + 'a"

definition rbind :: "'a result \<Rightarrow> ('a \<Rightarrow> 'b result) \<Rightarrow> 'b result" where
  "rbind r f = (case r of Inl e \<Rightarrow> Inl e | Inr x \<Rightarrow> f x)"

named_theorems result_simps \<open>rewriting of the result type\<close>
named_theorems byte_simps \<open>byte codecs\<close>

lemma rbind_Inr [simp, result_simps]: "rbind (Inr x) f = f x"
  by (simp add: rbind_def)

lemma rbind_Inl [simp, result_simps]: "rbind (Inl e) f = Inl e"
  by (simp add: rbind_def)

lemma rbind_eq_Inr_iff [result_simps]:
  "rbind r f = Inr y \<longleftrightarrow> (\<exists>x. r = Inr x \<and> f x = Inr y)"
  by (cases r) auto

section \<open>Checked slice access\<close>

definition slice_get :: "'a list \<Rightarrow> nat \<Rightarrow> 'a option" where
  "slice_get xs i = (if i < length xs then Some (xs ! i) else None)"

definition slice_set :: "'a list \<Rightarrow> nat \<Rightarrow> 'a \<Rightarrow> 'a list option" where
  "slice_set xs i x = (if i < length xs then Some (xs[i := x]) else None)"

lemma slice_get_append_left [simp]:
  "i < length xs \<Longrightarrow> slice_get (xs @ ys) i = Some (xs ! i)"
  by (simp add: slice_get_def nth_append)

lemma slice_get_append_mid [simp]:
  "i = length xs \<Longrightarrow> slice_get (xs @ y # ys) i = Some y"
  by (simp add: slice_get_def)

lemma slice_get_None_iff [simp]: "slice_get xs i = None \<longleftrightarrow> length xs \<le> i"
  by (simp add: slice_get_def)

lemma slice_get_Some_iff: "slice_get xs i = Some x \<longleftrightarrow> i < length xs \<and> xs ! i = x"
  by (auto simp: slice_get_def)

lemma slice_set_Some_iff: "slice_set xs i x = Some ys \<longleftrightarrow> i < length xs \<and> ys = xs[i := x]"
  by (auto simp: slice_set_def)

section \<open>Words\<close>

lemma unat_drop_bit [byte_simps]: "unat (drop_bit k w) = unat w div 2 ^ k"
  for w :: "'a::len word"
  by (simp only: unat_drop_bit_eq) (simp add: drop_bit_eq_div)

lemma word_and_127: "w AND 127 = take_bit 7 w" for w :: "'a::len word"
  by (simp add: take_bit_eq_mask mask_eq_exp_minus_1)

lemma unat_and_127 [byte_simps]: "unat (w AND 127) = unat w mod 128" for w :: "'a::len word"
  by (simp only: word_and_127 unsigned_take_bit_eq) (simp add: take_bit_eq_mod)

lemma unat_ucast_byte [byte_simps]: "unat (ucast w :: u8) = unat w mod 256"
  for w :: "'a::len word"
  by (simp add: unsigned_ucast_eq take_bit_eq_mod)

lemma unat_ucast_u64_byte [byte_simps]: "unat (ucast (b :: u8) :: u64) = unat b"
proof -
  have "unat b < 2 ^ 64"
    using unsigned_less[of b, where 'a = nat] by (rule less_le_trans) simp
  then show ?thesis by (simp add: unsigned_ucast_eq take_bit_eq_mod)
qed

lemma word_of_nat_unat [simp]: "word_of_nat (unat w) = w" for w :: "'a::len word"
  by (simp add: of_nat_unat)

lemma unat_ucast_up:
  fixes w :: "'a::len word"
  assumes "LENGTH('a) \<le> LENGTH('b::len)"
  shows "unat (ucast w :: 'b word) = unat w"
proof -
  have "unat w < 2 ^ LENGTH('a)" by (rule unsigned_less)
  also have "\<dots> \<le> 2 ^ LENGTH('b)" using assms by (intro power_increasing) simp_all
  finally show ?thesis by (simp only: unsigned_ucast_eq) (simp add: take_bit_nat_eq_self)
qed

section \<open>Endian codecs\<close>

text \<open>\<open>to_be_bytes\<close> and \<open>from_be_bytes\<close> of the unsigned integer types: \<open>n\<close> bytes, most
  significant first. The value is reduced modulo \<open>256 ^ n\<close>, as a cast to the type does.\<close>

fun be_bytes :: "nat \<Rightarrow> nat \<Rightarrow> bytes" where
  "be_bytes 0 v = []"
| "be_bytes (Suc n) v = word_of_nat (v div 256 ^ n) # be_bytes n v"

definition from_be :: "bytes \<Rightarrow> nat" where
  "from_be bs = foldl (\<lambda>acc b. acc * 256 + unat b) 0 bs"

definition le_bytes :: "nat \<Rightarrow> nat \<Rightarrow> bytes" where
  "le_bytes n v = rev (be_bytes n v)"

definition from_le :: "bytes \<Rightarrow> nat" where
  "from_le bs = from_be (rev bs)"

lemma length_be_bytes [simp, byte_simps]: "length (be_bytes n v) = n"
  by (induction n) auto

lemma length_le_bytes [simp, byte_simps]: "length (le_bytes n v) = n"
  by (simp add: le_bytes_def)

lemma foldl_be:
  "foldl (\<lambda>acc b. acc * 256 + unat (b :: u8)) a bs = a * 256 ^ length bs + from_be bs"
proof -
  have "foldl (\<lambda>acc b. acc * 256 + unat b) a bs =
      a * 256 ^ length bs + foldl (\<lambda>acc b. acc * 256 + unat b) 0 bs"
    by (induction bs rule: rev_induct) (simp_all add: algebra_simps)
  then show ?thesis by (simp add: from_be_def)
qed

lemma from_be_Nil [simp, byte_simps]: "from_be [] = 0"
  by (simp add: from_be_def)

lemma from_be_Cons [byte_simps]: "from_be (b # bs) = unat b * 256 ^ length bs + from_be bs"
  using foldl_be[of "unat b" bs] by (simp add: from_be_def)

lemma from_be_append [byte_simps]: "from_be (as @ bs) = from_be as * 256 ^ length bs + from_be bs"
  using foldl_be[of "from_be as" bs] by (simp add: from_be_def)

lemma unat_byte_less [simp]: "unat (b :: u8) < 256"
  using unsigned_less[of b] by simp

lemma unat_byte_of_nat [simp]: "unat (word_of_nat n :: u8) = n mod 256"
  by (simp add: unat_of_nat)

lemma from_be_less: "from_be bs < 256 ^ length bs"
proof (induction bs)
  case Nil
  show ?case by simp
next
  case (Cons b bs)
  have "unat b * 256 ^ length bs + from_be bs < (unat b + 1) * 256 ^ length bs"
    using Cons by (simp add: algebra_simps)
  also have "\<dots> \<le> 256 * 256 ^ length bs"
    using unat_byte_less[of b] by (intro mult_right_mono) (simp_all add: Suc_le_eq)
  finally show ?case by (simp add: from_be_Cons)
qed

lemma from_be_be_bytes [simp, byte_simps]: "from_be (be_bytes n v) = v mod 256 ^ n"
proof (induction n)
  case 0
  show ?case by simp
next
  case (Suc n)
  have "v mod (256 ^ n * 256) = 256 ^ n * (v div 256 ^ n mod 256) + v mod 256 ^ n"
    by (rule mod_mult2_eq)
  with Suc show ?case by (simp add: from_be_Cons mult.commute)
qed

lemma be_bytes_mod: "be_bytes n (v mod 256 ^ n) = be_bytes n v"
proof -
  have "k \<le> n \<Longrightarrow> be_bytes k (v mod 256 ^ n) = be_bytes k v" for k
  proof (induction k)
    case 0
    show ?case by simp
  next
    case (Suc k)
    then obtain d where n: "n = k + Suc d"
      using less_eqE[of "Suc k" n] by auto
    have "v mod (256 ^ k * 256 ^ Suc d) = 256 ^ k * (v div 256 ^ k mod 256 ^ Suc d) + v mod 256 ^ k"
      by (rule mod_mult2_eq)
    then have "v mod 256 ^ n div 256 ^ k = v div 256 ^ k mod 256 ^ Suc d"
      by (simp only: n power_add) simp
    then have "(word_of_nat (v mod 256 ^ n div 256 ^ k) :: u8) = word_of_nat (v div 256 ^ k)"
      by (simp only: word_unat_eq_iff unat_byte_of_nat) (simp add: mod_mod_cancel)
    with Suc show ?case by simp
  qed
  then show ?thesis by simp
qed

lemma be_bytes_from_be [simp, byte_simps]: "length bs = n \<Longrightarrow> be_bytes n (from_be bs) = bs"
proof (induction bs arbitrary: n)
  case Nil
  then show ?case by simp
next
  case (Cons b bs)
  have r: "from_be (b # bs) div 256 ^ length bs = unat b"
    using from_be_less[of bs] by (simp add: from_be_Cons)
  have "be_bytes (length bs) (from_be (b # bs)) = be_bytes (length bs) (from_be bs)"
    using be_bytes_mod[of "length bs" "from_be (b # bs)"] from_be_less[of bs]
    by (simp add: from_be_Cons)
  with Cons r show ?case by auto
qed

text \<open>The codecs at the widths the formats use.\<close>

definition u16_be :: "u16 \<Rightarrow> bytes" where "u16_be w = be_bytes 2 (unat w)"

definition u32_be :: "u32 \<Rightarrow> bytes" where "u32_be w = be_bytes 4 (unat w)"

definition be_u16 :: "bytes \<Rightarrow> u16" where "be_u16 bs = word_of_nat (from_be bs)"

definition be_u32 :: "bytes \<Rightarrow> u32" where "be_u32 bs = word_of_nat (from_be bs)"

lemma length_u16_be [simp]: "length (u16_be w) = 2"
  by (simp add: u16_be_def)

lemma length_u32_be [simp]: "length (u32_be w) = 4"
  by (simp add: u32_be_def)

lemma be_u16_u16_be [simp]: "be_u16 (u16_be w) = w"
proof -
  have "unat w mod 256 ^ 2 = unat w" using unsigned_less[of w, where 'a = nat] by simp
  then show ?thesis by (simp only: be_u16_def u16_be_def from_be_be_bytes) simp
qed

lemma be_u32_u32_be [simp]: "be_u32 (u32_be w) = w"
proof -
  have "unat w mod 256 ^ 4 = unat w" using unsigned_less[of w, where 'a = nat] by simp
  then show ?thesis by (simp only: be_u32_def u32_be_def from_be_be_bytes) simp
qed

lemma u16_be_be_u16 [simp]: "length bs = 2 \<Longrightarrow> u16_be (be_u16 bs) = bs"
  using from_be_less[of bs] by (simp add: be_u16_def u16_be_def unat_of_nat)

lemma u32_be_be_u32 [simp]: "length bs = 4 \<Longrightarrow> u32_be (be_u32 bs) = bs"
  using from_be_less[of bs] by (simp add: be_u32_def u32_be_def unat_of_nat)

text \<open>A range of a slice, and the first chunk when it has the length a codec wrote.\<close>

definition slice_range :: "'a list \<Rightarrow> nat \<Rightarrow> nat \<Rightarrow> 'a list" where
  "slice_range xs i j = take (j - i) (drop i xs)"

lemma slice_range_append_left [simp]:
  "i = 0 \<Longrightarrow> j = length xs \<Longrightarrow> slice_range (xs @ ys) i j = xs"
  by (simp add: slice_range_def)

lemma slice_range_append_skip [simp]:
  "length xs \<le> i \<Longrightarrow> slice_range (xs @ ys) i j = slice_range ys (i - length xs) (j - length xs)"
  by (simp add: slice_range_def)

lemma slice_range_all [simp]: "i = 0 \<Longrightarrow> length xs \<le> j \<Longrightarrow> slice_range xs i j = xs"
  by (simp add: slice_range_def)

lemma length_slice_range [simp]: "j \<le> length xs \<Longrightarrow> length (slice_range xs i j) = j - i"
  by (simp add: slice_range_def)

lemma slice_range_concat: "i \<le> j \<Longrightarrow> slice_range xs i j @ drop j xs = drop i xs"
  by (simp add: slice_range_def drop_drop[symmetric] del: drop_drop)
     (metis append_take_drop_id drop_drop le_add_diff_inverse2)

lemma slice_range_join: "i \<le> j \<Longrightarrow> j \<le> k \<Longrightarrow> slice_range xs i j @ slice_range xs j k = slice_range xs i k"
proof -
  assume ij: "i \<le> j" "j \<le> k"
  then have "k - i = (j - i) + (k - j)" by simp
  then have "take (k - i) (drop i xs) = take (j - i) (drop i xs) @ take (k - j) (drop (j - i) (drop i xs))"
    by (simp only: take_add)
  then show ?thesis using ij by (simp add: slice_range_def)
qed

section \<open>Folds\<close>

lemma foldl_invariant:
  assumes "P a" "\<And>x y. P x \<Longrightarrow> y \<in> set ys \<Longrightarrow> P (f x y)"
  shows "P (foldl f a ys)"
  using assms by (induction ys arbitrary: a) auto

section \<open>Self-delimiting codes\<close>

text \<open>What the readers of the file formats rely on: an encoding is read back, with its length,
  whatever follows it, and is not empty. Sequences of such encodings are read one at a time.\<close>

locale prefix_code =
  fixes enc :: "'a \<Rightarrow> bytes"
    and dec :: "bytes \<Rightarrow> ('a \<times> nat) result"
  assumes dec_enc: "dec (enc x @ rest) = Inr (x, length (enc x))"
    and enc_nonempty: "enc x \<noteq> []"
begin

lemma dec_concat: "dec (concat (map enc (x # xs)) @ rest) = Inr (x, length (enc x))"
  by (simp add: dec_enc)

lemma concat_nonempty: "concat (map enc (x # xs)) @ rest \<noteq> []"
  by (simp add: enc_nonempty)

lemma drop_concat: "drop (length (enc x)) (concat (map enc (x # xs)) @ rest) = concat (map enc xs) @ rest"
  by simp

lemma concat_Nil_iff: "concat (map enc xs) = [] \<longleftrightarrow> xs = []"
  by (cases xs) (simp_all add: enc_nonempty)

lemma enc_inj: "enc x = enc y \<Longrightarrow> x = y"
  using dec_enc[of x "[]"] dec_enc[of y "[]"] by simp

end

end
