(* ===== verification/Varint.thy ===== *)
theory Varint
  imports Prelude
begin

text \<open>
  Variable-length integers of the file format, \<open>core/storage/sqlite3_ondisk.rs\<close>:
  \<open>read_varint\<close>, \<open>read_varint_partial\<close>, \<open>varint_len\<close>, \<open>write_varint\<close> and
  \<open>write_varint_to_vec\<close>. The reference encoding is \<open>varint_enc\<close> on natural numbers; the
  theory shows that the writer produces it, that the reader inverts it whatever follows in the
  buffer, and that the length function predicts the writer.
\<close>

section \<open>The code\<close>

text \<open>The loop over the first eight bytes of \<open>read_varint\<close>, from index \<open>i\<close> with the value
  \<open>v\<close> accumulated so far, and the ninth byte after it.\<close>

function read_varint_loop :: "bytes \<Rightarrow> nat \<Rightarrow> u64 \<Rightarrow> (u64 \<times> nat) result" where
  "read_varint_loop buf i v =
     (if i < 8 then
        (case slice_get buf i of
           Some c \<Rightarrow>
             (let v' = push_bit 7 v + ucast (c AND 0x7f)
              in if c AND 0x80 = 0 then Inr (v', i + 1) else read_varint_loop buf (i + 1) v')
         | None \<Rightarrow> Inl Corrupt)
      else
        (case slice_get buf 8 of
           Some c \<Rightarrow>
             (if drop_bit 48 v = 0 then Inl Corrupt
              else Inr (push_bit 8 v + ucast c, 9))
         | None \<Rightarrow> Inl Corrupt))"
  by pat_completeness auto
termination by (relation "measure (\<lambda>(buf, i, v). 8 - i)") auto

definition read_varint :: "bytes \<Rightarrow> (u64 \<times> nat) result" where
  "read_varint buf = read_varint_loop buf 0 0"

text \<open>\<open>read_varint_partial\<close>: the same loop, where running out of bytes asks for more data.\<close>

function read_varint_partial_loop :: "bytes \<Rightarrow> nat \<Rightarrow> u64 \<Rightarrow> (u64 \<times> nat) option result" where
  "read_varint_partial_loop buf i v =
     (if i < 8 then
        (case slice_get buf i of
           None \<Rightarrow> Inr None
         | Some c \<Rightarrow>
             (let v' = push_bit 7 v + ucast (c AND 0x7f)
              in if c AND 0x80 = 0 then Inr (Some (v', i + 1))
                 else read_varint_partial_loop buf (i + 1) v'))
      else
        (case slice_get buf 8 of
           None \<Rightarrow> Inr None
         | Some c \<Rightarrow>
             (if drop_bit 48 v = 0 then Inl Corrupt
              else Inr (Some (push_bit 8 v + ucast c, 9)))))"
  by pat_completeness auto
termination by (relation "measure (\<lambda>(buf, i, v). 8 - i)") auto

definition read_varint_partial :: "bytes \<Rightarrow> (u64 \<times> nat) option result" where
  "read_varint_partial buf = read_varint_partial_loop buf 0 0"

text \<open>\<open>u64::leading_zeros\<close> of the standard library.\<close>

definition leading_zeros :: "u64 \<Rightarrow> nat" where
  "leading_zeros v = length (takeWhile (\<lambda>k. \<not> bit v k) (rev [0..<64]))"

definition varint_len :: "u64 \<Rightarrow> nat" where
  "varint_len value =
     (if value \<le> 0x7f then 1
      else if value > push_bit 56 1 - 1 then 9
      else (let bits = 64 - leading_zeros value in (bits + 6) div 7))"

text \<open>The nine-byte branch of \<open>write_varint\<close>: \<open>for i in (0..8).rev()\<close>.\<close>

fun write_varint_nine_loop :: "nat \<Rightarrow> bytes \<Rightarrow> u64 \<Rightarrow> bytes option" where
  "write_varint_nine_loop 0 buf value = Some buf"
| "write_varint_nine_loop (Suc i) buf value =
     do {
       buf \<leftarrow> slice_set buf i (ucast ((value AND 0x7f) OR 0x80));
       write_varint_nine_loop i buf (drop_bit 7 value)
     }"

text \<open>The \<open>while bytes != 0\<close> loop that fills \<open>encoded\<close> from the low end.\<close>

function write_varint_encode_loop :: "bytes \<Rightarrow> nat \<Rightarrow> u64 \<Rightarrow> (bytes \<times> nat) option" where
  "write_varint_encode_loop encoded n bs =
     (if bs = 0 then Some (encoded, n)
      else (case slice_set encoded n (ucast (0x80 OR (bs AND 0x7f))) of
              None \<Rightarrow> None
            | Some encoded' \<Rightarrow> write_varint_encode_loop encoded' (n + 1) (drop_bit 7 bs)))"
  by pat_completeness auto
termination
proof (relation "measure (\<lambda>(encoded, n, bs). unat bs)")
  show "wf (measure (\<lambda>(encoded :: bytes, n :: nat, bs). unat (bs :: u64)))" by simp
next
  fix encoded encoded' :: bytes and n :: nat and bs :: u64
  assume "bs \<noteq> 0"
  then have "0 < unat bs" by (simp add: unat_gt_0)
  then have "unat bs div 128 < unat bs" by simp
  then show "((encoded', n + 1, drop_bit 7 bs), (encoded, n, bs))
      \<in> measure (\<lambda>(encoded, n, bs). unat bs)"
    by (simp only: in_measure prod.case unat_drop_bit) simp
qed

text \<open>\<open>for i in 0..n: buf[i] = encoded[n - 1 - i]\<close>.\<close>

fun write_varint_copy_loop :: "nat list \<Rightarrow> bytes \<Rightarrow> bytes \<Rightarrow> nat \<Rightarrow> bytes option" where
  "write_varint_copy_loop [] buf encoded n = Some buf"
| "write_varint_copy_loop (i # is) buf encoded n =
     do {
       b \<leftarrow> slice_get encoded (n - 1 - i);
       buf \<leftarrow> slice_set buf i b;
       write_varint_copy_loop is buf encoded n
     }"

text \<open>\<open>write_varint\<close>: the buffer with the encoding stored at its front, and the number of bytes
  written; \<open>None\<close> is the panic on a buffer that is too short.\<close>

definition write_varint :: "bytes \<Rightarrow> u64 \<Rightarrow> (bytes \<times> nat) option" where
  "write_varint buf value =
     (if value \<le> 0x7f then
        do { buf \<leftarrow> slice_set buf 0 (ucast (value AND 0x7f)); Some (buf, 1) }
      else if value \<le> 0x3fff then
        do {
          buf \<leftarrow> slice_set buf 0 (ucast ((drop_bit 7 value AND 0x7f) OR 0x80));
          buf \<leftarrow> slice_set buf 1 (ucast (value AND 0x7f));
          Some (buf, 2)
        }
      else if value AND push_bit 32 0xff000000 > 0 then
        do {
          buf \<leftarrow> slice_set buf 8 (ucast value);
          buf \<leftarrow> write_varint_nine_loop 8 buf (drop_bit 8 value);
          Some (buf, 9)
        }
      else
        do {
          (encoded, n) \<leftarrow> write_varint_encode_loop (replicate 9 0) 0 value;
          e0 \<leftarrow> slice_get encoded 0;
          encoded \<leftarrow> slice_set encoded 0 (e0 AND 0x7f);
          buf \<leftarrow> write_varint_copy_loop [0..<n] buf encoded n;
          Some (buf, n)
        })"

definition write_varint_to_vec :: "u64 \<Rightarrow> bytes \<Rightarrow> bytes option" where
  "write_varint_to_vec value payload =
     do {
       (varint, n) \<leftarrow> write_varint (replicate 9 0) value;
       Some (payload @ take n varint)
     }"

section \<open>The reference encoding\<close>

text \<open>\<open>k\<close> groups of seven bits of \<open>n\<close>, most significant first, each with the continuation
  bit; a varint is such groups followed by a last byte without it, or by a full ninth byte.\<close>

fun cont7 :: "nat \<Rightarrow> nat \<Rightarrow> bytes" where
  "cont7 0 n = []"
| "cont7 (Suc k) n = word_of_nat (128 + n div 128 ^ k mod 128) # cont7 k n"

fun groups7 :: "nat \<Rightarrow> nat" where
  "groups7 n = (if n < 128 then 1 else Suc (groups7 (n div 128)))"

declare groups7.simps [simp del]

definition varint_enc :: "nat \<Rightarrow> bytes" where
  "varint_enc n =
     (if n < 2 ^ 56 then cont7 (groups7 n - 1) (n div 128) @ [word_of_nat (n mod 128)]
      else cont7 8 (n div 256) @ [word_of_nat (n mod 256)])"


section \<open>The reader inverts the reference encoding\<close>

lemma length_cont7 [simp]: "length (cont7 k n) = k"
  by (induction k) auto

lemma cont7_snoc: "cont7 (Suc k) n = cont7 k (n div 128) @ [word_of_nat (128 + n mod 128)]"
proof (induction k)
  case 0
  show ?case by simp
next
  case (Suc k)
  have "n div 128 ^ Suc k = n div 128 div 128 ^ k"
    by (simp add: div_mult2_eq)
  with Suc show ?case by simp
qed

lemma even_div_128: "u < 256 \<Longrightarrow> even (u div 128) \<longleftrightarrow> u < 128" for u :: nat
proof (cases "u < 128")
  case False
  moreover assume "u < 256"
  ultimately have "u div 128 = 1" by (intro div_nat_eqI) simp_all
  with False show ?thesis by simp
qed simp

lemma byte_cont_iff: "c AND 0x80 = 0 \<longleftrightarrow> unat c < 128" for c :: u8
proof -
  have "c AND 0x80 = 0 \<longleftrightarrow> \<not> bit c 7"
    using and_exp_eq_0_iff_not_bit[of c 7] by simp
  also have "bit c 7 \<longleftrightarrow> bit (unat c) 7"
    by (simp add: bit_unsigned_iff)
  also have "\<dots> \<longleftrightarrow> odd (unat c div 2 ^ 7)"
    by (rule bit_iff_odd)
  also have "(\<not> odd (unat c div 2 ^ 7)) \<longleftrightarrow> unat c < 128"
    using unat_byte_less[of c] by (simp add: even_div_128)
  finally show ?thesis .
qed

lemma varint_step:
  "push_bit 7 (word_of_nat a :: u64) + ucast (c AND 0x7f) = word_of_nat (a * 128 + unat c mod 128)"
  for c :: u8
proof -
  have "(ucast (c AND 0x7f) :: u64) = word_of_nat (unat c mod 128)"
    by (simp add: byte_simps flip: unat_and_127)
  then show ?thesis by (simp add: push_bit_eq_mult)
qed


declare read_varint_loop.simps [simp del]
declare read_varint_partial_loop.simps [simp del]
declare write_varint_encode_loop.simps [simp del]

lemma read_varint_loop_cont7:
  assumes "drop i buf = cont7 k n @ rest" and "i + k \<le> 8"
  shows "read_varint_loop buf i (word_of_nat a) =
         read_varint_loop buf (i + k) (word_of_nat (a * 128 ^ k + n mod 128 ^ k))"
  using assms
proof (induction k arbitrary: i a)
  case 0
  then show ?case by simp
next
  case (Suc k)
  define c :: u8 where "c = word_of_nat (128 + n div 128 ^ k mod 128)"
  have c: "unat c = 128 + n div 128 ^ k mod 128"
    unfolding c_def unat_byte_of_nat
    by (rule mod_less) (use mod_less_divisor[of 128 "n div 128 ^ k"] in linarith)
  have d: "drop i buf = c # cont7 k n @ rest"
    using Suc.prems by (simp add: c_def)
  then have get: "slice_get buf i = Some c"
    by (metis drop_eq_Nil list.distinct(1) not_le nth_via_drop slice_get_Some_iff)
  have d': "drop (i + 1) buf = cont7 k n @ rest"
    using d by (metis Suc_eq_plus1 drop_Suc list.sel(3) tl_drop)
  have e: "(a * 128 + unat c mod 128) * 128 ^ k + n mod 128 ^ k = a * 128 ^ Suc k + n mod 128 ^ Suc k"
    using mod_mult2_eq[of n "128 ^ k" 128] by (simp add: c algebra_simps mod_simps)
  have "read_varint_loop buf i (word_of_nat a) =
        read_varint_loop buf (i + 1) (word_of_nat (a * 128 + unat c mod 128))"
    using Suc.prems(2) get c
    by (subst read_varint_loop.simps) (simp add: byte_cont_iff varint_step Let_def)
  also have "\<dots> = read_varint_loop buf (i + 1 + k) (word_of_nat (a * 128 ^ Suc k + n mod 128 ^ Suc k))"
    using Suc.IH[OF d', of "a * 128 + unat c mod 128"] Suc.prems(2) unfolding e by simp
  finally show ?case by simp
qed

lemma groups7_pos [simp]: "0 < groups7 n"
  by (subst groups7.simps) simp

lemma groups7_Suc: "\<exists>g. groups7 n = Suc g"
  using groups7_pos[of n] by (metis gr0_implies_Suc)

lemma less_groups7: "n < 128 ^ groups7 n"
proof (induction n rule: groups7.induct)
  case (1 n)
  show ?case
  proof (cases "n < 128")
    case True
    then show ?thesis by (simp add: groups7.simps[of n])
  next
    case False
    with 1 have "n div 128 < 128 ^ groups7 (n div 128)" by blast
    then have "n < 128 * 128 ^ groups7 (n div 128)"
      by (simp add: div_less_iff_less_mult mult.commute)
    with False show ?thesis by (simp add: groups7.simps[of n])
  qed
qed

lemma groups7_le: "n < 128 ^ k \<Longrightarrow> 0 < k \<Longrightarrow> groups7 n \<le> k"
proof (induction k arbitrary: n)
  case 0
  then show ?case by simp
next
  case (Suc k)
  show ?case
  proof (cases "n < 128")
    case True
    then show ?thesis by (simp add: groups7.simps[of n])
  next
    case False
    with Suc.prems have "0 < k" by (cases k) auto
    moreover from Suc.prems have "n div 128 < 128 ^ k"
      by (simp add: div_less_iff_less_mult mult.commute)
    ultimately show ?thesis using False Suc.IH by (simp add: groups7.simps[of n])
  qed
qed

lemma length_varint_enc: "length (varint_enc n) = (if n < 2 ^ 56 then groups7 n else 9)"
  by (simp add: varint_enc_def Suc_diff_1 Suc_leI)

lemma div_mod_groups7: "n div 128 mod 128 ^ (groups7 n - 1) = n div 128"
proof -
  obtain g where g: "groups7 n = Suc g"
    using groups7_pos[of n] by (cases "groups7 n") auto
  have "n div 128 < 128 ^ g"
    using less_groups7[of n] by (simp add: g div_less_iff_less_mult mult.commute)
  then show ?thesis by (simp add: g)
qed

lemma varint_read_step:
  assumes "slice_get buf i = Some c" "unat c < 128" "i < 8"
  shows "read_varint_loop buf i (word_of_nat a) = Inr (word_of_nat (a * 128 + unat c), i + 1)"
  using assms by (subst read_varint_loop.simps) (simp add: byte_cont_iff varint_step Let_def)

lemma slice_get_append_len: "slice_get (xs @ ys) (length xs) = slice_get ys 0"
  by (simp add: slice_get_def nth_append)

lemma power_128_8: "(128::nat) ^ 8 = 2 ^ 56" by simp

lemma read_varint_enc:
  assumes "n < 2 ^ 64"
  shows "read_varint (varint_enc n @ rest) = Inr (word_of_nat n, length (varint_enc n))"
proof (cases "n < 2 ^ 56")
  case True
  define g where "g = groups7 n - 1"
  define cs where "cs = cont7 g (n div 128)"
  have g: "groups7 n = Suc g" by (simp add: g_def)
  have "groups7 n \<le> 8" using True by (intro groups7_le) (simp_all add: power_128_8)
  then have g7: "g < 8" by (simp add: g)
  have buf: "varint_enc n @ rest = cs @ word_of_nat (n mod 128) # rest"
    using True by (simp add: varint_enc_def cs_def g_def)
  have "read_varint (varint_enc n @ rest) =
      read_varint_loop (varint_enc n @ rest) g (word_of_nat (n div 128))"
    using read_varint_loop_cont7[of 0 "varint_enc n @ rest" g "n div 128" "word_of_nat (n mod 128) # rest" 0]
      g7 div_mod_groups7[of n] unfolding read_varint_def buf cs_def by (simp add: g)
  also have "\<dots> = Inr (word_of_nat (n div 128 * 128 + unat (word_of_nat (n mod 128) :: u8)), g + 1)"
    using g7 by (intro varint_read_step) (simp_all add: buf cs_def)
  also have "unat (word_of_nat (n mod 128) :: u8) = n mod 128"
    unfolding unat_byte_of_nat by (rule mod_less) (use mod_less_divisor[of 128 n] in linarith)
  finally show ?thesis using True by (simp only: div_mult_mod_eq length_varint_enc if_True g) simp
next
  case False
  define cs where "cs = cont7 8 (n div 256)"
  define m where "m = n div 256"
  have m: "m < 2 ^ 56" using assms by (simp add: m_def div_less_iff_less_mult)
  have buf: "varint_enc n @ rest = cs @ word_of_nat (n mod 256) # rest"
    using False by (simp add: varint_enc_def cs_def)
  have len: "length cs = 8" by (simp only: cs_def length_cont7)
  have "read_varint (varint_enc n @ rest) = read_varint_loop (varint_enc n @ rest) 8 (word_of_nat m)"
    using read_varint_loop_cont7[of 0 "varint_enc n @ rest" 8 "n div 256" "word_of_nat (n mod 256) # rest" 0] m
    unfolding read_varint_def buf cs_def m_def[symmetric] power_128_8 by simp
  also have "\<dots> = Inr (push_bit 8 (word_of_nat m) + ucast (word_of_nat (n mod 256) :: u8), 9)"
  proof -
    have "unat (word_of_nat m :: u64) = m" using m by (simp add: unat_of_nat)
    then have "unat (drop_bit 48 (word_of_nat m :: u64)) = m div 2 ^ 48"
      by (simp only: unat_drop_bit)
    moreover have "0 < m div 2 ^ 48"
      using False by (simp add: m_def div_greater_zero_iff less_eq_div_iff_mult_less_eq)
    ultimately have "drop_bit 48 (word_of_nat m :: u64) \<noteq> 0" by (metis less_not_refl unsigned_0)
    then show ?thesis using len by (subst read_varint_loop.simps) (simp only: buf slice_get_append_mid option.case if_False less_irrefl)
  qed
  also have "push_bit 8 (word_of_nat m) + ucast (word_of_nat (n mod 256) :: u8) = (word_of_nat n :: u64)"
  proof -
    have "(ucast (word_of_nat (n mod 256) :: u8) :: u64) = word_of_nat (n mod 256)"
      by (simp add: word_unat_eq_iff byte_simps unat_of_nat)
    moreover have "(word_of_nat n :: u64) = word_of_nat (m * 256 + n mod 256)"
      by (simp only: m_def div_mult_mod_eq)
    ultimately show ?thesis by (simp add: push_bit_eq_mult)
  qed
  finally show ?thesis using False by (simp add: length_varint_enc)
qed

section \<open>The writer produces the reference encoding\<close>

lemma cont_byte: "ucast ((v AND 0x7f) OR 0x80) = (word_of_nat (128 + unat v mod 128) :: u8)" for v :: u64
proof -
  have "(v AND 127) AND 128 = 0" by (simp add: and.assoc)
  then have 1: "(v AND 127) OR 128 = (v AND 127) + 128"
    by (simp only: disjunctive_add_eq_or)
  have 2: "(v AND 127) = word_of_nat (unat v mod 128)"
    by (simp add: byte_simps flip: unat_and_127)
  have 3: "unat ((word_of_nat (unat v mod 128) :: u64) + 128) = 128 + unat v mod 128"
  proof -
    have "(word_of_nat (unat v mod 128) :: u64) + 128 = word_of_nat (128 + unat v mod 128)" by simp
    moreover have "128 + unat v mod 128 < 2 ^ 64"
      by (rule less_trans[of _ 256]) (use mod_less_divisor[of 128 "unat v"] in simp_all)
    ultimately show ?thesis by (simp only: unat_of_nat) simp
  qed
  show ?thesis by (simp only: word_unat_eq_iff unat_ucast_byte unat_byte_of_nat 1[unfolded 2] 2 3)
qed

lemma last_byte: "ucast (v AND 0x7f) = (word_of_nat (unat v mod 128) :: u8)" for v :: u64
  by (simp only: word_unat_eq_iff unat_ucast_byte unat_byte_of_nat unat_and_127)

lemma full_byte: "ucast v = (word_of_nat (unat v mod 256) :: u8)" for v :: u64
  by (simp only: word_unat_eq_iff unat_ucast_byte unat_byte_of_nat mod_mod_trivial)

lemma write_varint_nine_loop_eq:
  "k \<le> length buf \<Longrightarrow> write_varint_nine_loop k buf v = Some (cont7 k (unat v) @ drop k buf)"
proof (induction k arbitrary: buf v)
  case 0
  show ?case by simp
next
  case (Suc k)
  define buf' where "buf' = buf[k := ucast ((v AND 0x7f) OR 0x80)]"
  have "write_varint_nine_loop (Suc k) buf v = write_varint_nine_loop k buf' (drop_bit 7 v)"
    using Suc.prems by (simp only: write_varint_nine_loop.simps slice_set_def buf'_def) simp
  also have "\<dots> = Some (cont7 k (unat v div 128) @ drop k buf')"
    using Suc.prems by (subst Suc.IH) (simp_all add: buf'_def unat_drop_bit)
  also have "drop k buf' = word_of_nat (128 + unat v mod 128) # drop (Suc k) buf"
    using Suc.prems by (simp only: buf'_def cont_byte) (simp add: Cons_nth_drop_Suc[symmetric])
  finally show ?case by (simp only: cont7_snoc append_assoc append_Cons append_Nil)
qed

lemma cont7_rev_Suc:
  "rev (cont7 (Suc k) n) = word_of_nat (128 + n mod 128) # rev (cont7 k (n div 128))"
  by (simp only: cont7_snoc rev_append) simp

lemma write_varint_encode_loop_eq:
  "unat bs < 128 ^ k \<Longrightarrow> 0 < unat bs \<Longrightarrow> n + groups7 (unat bs) \<le> length enc \<Longrightarrow>
   write_varint_encode_loop enc n bs =
     Some (take n enc @ rev (cont7 (groups7 (unat bs)) (unat bs)) @ drop (n + groups7 (unat bs)) enc,
           n + groups7 (unat bs))"
proof (induction k arbitrary: bs n enc)
  case 0
  then show ?case by simp
next
  case (Suc k)
  define u where "u = unat bs"
  define bs' where "bs' = drop_bit 7 bs"
  define b :: u8 where "b = word_of_nat (128 + u mod 128)"
  have u': "unat bs' = u div 128" by (simp add: bs'_def u_def unat_drop_bit)
  have b: "ucast (0x80 OR (bs AND 0x7f)) = b"
    using cont_byte[of bs] by (simp add: b_def u_def or.commute)
  have n: "n < length enc" using Suc.prems(3) groups7_pos[of "unat bs"] by linarith
  have step: "write_varint_encode_loop enc n bs = write_varint_encode_loop (enc[n := b]) (n + 1) bs'"
    using n Suc.prems(2)
    by (subst write_varint_encode_loop.simps) (simp add: b slice_set_def bs'_def unat_gt_0)
  have upd: "take (Suc n) (enc[n := b]) = take n enc @ [b]"
    using n by (simp add: take_Suc_conv_app_nth)
  show ?case
  proof (cases "u < 128")
    case True
    then have "bs' = 0" using u' by (simp add: unat_eq_0)
    then have "write_varint_encode_loop enc n bs = Some (enc[n := b], n + 1)"
      by (simp add: step write_varint_encode_loop.simps[of _ _ 0])
    moreover have "enc[n := b] = take n enc @ [b] @ drop (Suc n) enc"
      using n by (simp add: upd_conv_take_nth_drop)
    ultimately show ?thesis using True by (simp add: u_def[symmetric] groups7.simps[of u] b_def)
  next
    case False
    then have g: "groups7 u = Suc (groups7 (u div 128))" by (simp add: groups7.simps[of u])
    have "write_varint_encode_loop (enc[n := b]) (n + 1) bs' =
        Some (take (n + 1) (enc[n := b]) @ rev (cont7 (groups7 (u div 128)) (u div 128))
                @ drop (n + 1 + groups7 (u div 128)) (enc[n := b]), n + 1 + groups7 (u div 128))"
      unfolding u'[symmetric]
    proof (rule Suc.IH)
      show "unat bs' < 128 ^ k"
        using Suc.prems(1) by (simp add: u' u_def div_less_iff_less_mult mult.commute)
      show "0 < unat bs'" using False by (simp add: u' div_greater_zero_iff)
      show "n + 1 + groups7 (unat bs') \<le> length (enc[n := b])"
        using Suc.prems(3) g by (simp add: u' u_def)
    qed
    then show ?thesis
      by (simp only: step u_def[symmetric] g cont7_rev_Suc b_def[symmetric]) (simp add: upd)
  qed
qed

lemma write_varint_copy_loop_eq:
  assumes "n \<le> length encoded" "n \<le> length buf" "d \<le> n"
  shows "write_varint_copy_loop [n - d..<n] buf encoded n =
         Some (take (n - d) buf @ rev (take d encoded) @ drop n buf)"
  using assms
proof (induction d arbitrary: buf)
  case 0
  then show ?case by simp
next
  case (Suc d)
  define j where "j = n - Suc d"
  have j: "j < n" "Suc j = n - d" "n - 1 - j = d" using Suc.prems by (auto simp: j_def)
  define buf' where "buf' = buf[j := encoded ! d]"
  have "[j..<n] = j # [n - d..<n]" using j by (simp add: upt_conv_Cons)
  then have "write_varint_copy_loop [j..<n] buf encoded n =
      write_varint_copy_loop [n - d..<n] buf' encoded n"
    using Suc.prems j by (simp add: slice_get_def slice_set_def buf'_def)
  also have "\<dots> = Some (take (n - d) buf' @ rev (take d encoded) @ drop n buf')"
    using Suc.prems by (intro Suc.IH) (auto simp: buf'_def)
  also have "take (n - d) buf' = take j buf @ [encoded ! d]"
    using j Suc.prems unfolding buf'_def j(2)[symmetric] by (simp add: take_Suc_conv_app_nth)
  also have "drop n buf' = drop n buf" using j by (simp add: buf'_def)
  finally show ?case using Suc.prems by (simp add: j_def take_Suc_conv_app_nth)
qed

lemma varint_nine_test:
  "v AND push_bit 32 0xff000000 > 0 \<longleftrightarrow> 2 ^ 56 \<le> unat v" for v :: u64
proof -
  have "push_bit 32 0xff000000 = (push_bit 56 (mask 8) :: u64)"
    by (simp add: push_bit_eq_mult mask_eq_exp_minus_1)
  moreover have "v AND push_bit 56 (mask 8) = push_bit 56 (drop_bit 56 v)"
    by (intro bit_word_eqI) (auto simp: bit_simps)
  ultimately have "v AND push_bit 32 0xff000000 = push_bit 56 (drop_bit 56 v)"
    by (simp only:)
  moreover have "push_bit 56 (drop_bit 56 v) = 0 \<longleftrightarrow> drop_bit 56 v = 0"
  proof
    assume "push_bit 56 (drop_bit 56 v) = 0"
    then have "drop_bit 56 (push_bit 56 (drop_bit 56 v)) = drop_bit 56 0" by (rule arg_cong)
    moreover have "drop_bit 56 (push_bit 56 (drop_bit 56 v)) = drop_bit 56 v"
      by (intro bit_word_eqI) (auto simp: bit_simps dest: bit_imp_le_length)
    ultimately show "drop_bit 56 v = 0" by simp
  qed (simp only: push_bit_of_0)
  moreover have "drop_bit 56 v = 0 \<longleftrightarrow> unat v div 2 ^ 56 = 0"
    unfolding unat_eq_0[symmetric] unat_drop_bit ..
  ultimately show ?thesis
    by (simp only: word_neq_0_conv[symmetric]) (simp add: div_eq_0_iff not_less)
qed

text \<open>A buffer of at least nine bytes receives the reference encoding at its front and is
  otherwise unchanged.\<close>

lemma varint_enc_small:
  assumes "g = groups7 n" "n < 2 ^ 56"
  shows "rev ((rev (cont7 g n))[0 := word_of_nat (n mod 128)]) = varint_enc n"
proof -
  obtain g' where g': "g = Suc g'" using assms(1) groups7_Suc by blast
  then show ?thesis
    using assms(2) assms(1)[symmetric] unfolding varint_enc_def g' cont7_rev_Suc by simp
qed

lemma cont_byte_clear: "(word_of_nat (128 + m mod 128) :: u8) AND 0x7f = word_of_nat (m mod 128)"
proof -
  have "(128 + m mod 128) mod 256 mod 128 = m mod 128 mod 256"
    by (simp add: mod_mod_cancel)
  then show ?thesis
    by (simp only: word_unat_eq_iff unat_and_127 unat_byte_of_nat)
qed

lemma write_varint_eq:
  fixes v :: u64
  assumes "9 \<le> length buf"
  defines "e \<equiv> varint_enc (unat v)"
  shows "write_varint buf v = Some (e @ drop (length e) buf, length e)"
proof -
  define n where "n = unat v"
  have v: "v \<le> 0x7f \<longleftrightarrow> n < 128" "v \<le> 0x3fff \<longleftrightarrow> n < 16384"
    by (simp_all add: n_def word_le_nat_alt less_Suc_eq_le[symmetric])
  obtain b0 b1 tl where buf: "buf = b0 # b1 # tl"
    using assms(1) by (cases buf; cases "tl buf") auto
  consider "n < 128" | "128 \<le> n" "n < 16384" | "16384 \<le> n" "n < 2 ^ 56" | "2 ^ 56 \<le> n"
    by linarith
  then show ?thesis
  proof cases
    case 1
    then have "varint_enc n = [word_of_nat n]"
      by (simp add: varint_enc_def groups7.simps[of n])
    with 1 show ?thesis
      unfolding write_varint_def v e_def n_def[symmetric] last_byte
      by (simp add: buf slice_set_def)
  next
    case 2
    then have "groups7 n = 2"
      by (simp add: groups7.simps[of n] groups7.simps[of "n div 128"] div_less_iff_less_mult)
    with 2 have "varint_enc n = [word_of_nat (128 + n div 128 mod 128), word_of_nat (n mod 128)]"
      by (simp add: varint_enc_def)
    with 2 show ?thesis
      unfolding write_varint_def v e_def n_def[symmetric] last_byte cont_byte unat_drop_bit
      by (simp add: buf slice_set_def)
  next
    case 3
    define g where "g = groups7 n"
    define enc where "enc = rev (cont7 g n) @ drop g (replicate 9 (0 :: u8))"
    obtain g' where g': "g = Suc g'" using g_def groups7_Suc by blast
    have g8: "g \<le> 8" unfolding g_def using 3 by (intro groups7_le) (simp_all add: power_128_8)
    have loop: "write_varint_encode_loop (replicate 9 0) 0 v = Some (enc, g)"
      using write_varint_encode_loop_eq[of v 8 0 "replicate 9 0"] 3 g8
      by (simp only: n_def[symmetric] g_def[symmetric] enc_def power_128_8) simp
    have enc0: "slice_get enc 0 = Some (word_of_nat (128 + n mod 128))"
      unfolding enc_def g' cont7_rev_Suc by (simp add: slice_get_def)
    define enc' where "enc' = enc[0 := word_of_nat (n mod 128)]"
    have set0: "slice_set enc 0 (word_of_nat (n mod 128)) = Some enc'"
      unfolding enc'_def slice_set_def enc_def g' by simp
    have "take g enc' = (rev (cont7 g n))[0 := word_of_nat (n mod 128)]"
      unfolding enc'_def enc_def by (simp add: take_update_swap)
    then have e: "rev (take g enc') = e" "length e = g"
      using varint_enc_small[OF g_def] 3 by (simp_all add: e_def n_def[symmetric] length_varint_enc g_def)
    have "write_varint_copy_loop [0..<g] buf enc' g = Some (e @ drop g buf)"
      using write_varint_copy_loop_eq[of g enc' buf g] assms(1) g8 e
      by (simp add: enc'_def enc_def)
    then show ?thesis using 3 e(2)
      unfolding write_varint_def v varint_nine_test n_def[symmetric] loop
      by (simp add: enc0 cont_byte_clear set0 del: of_nat_add)
  next
    case 4
    have "write_varint_nine_loop 8 (buf[8 := ucast v]) (drop_bit 8 v) =
        Some (cont7 8 (n div 256) @ drop 8 (buf[8 := ucast v]))"
      using assms(1) by (subst write_varint_nine_loop_eq) (simp_all add: n_def unat_drop_bit)
    moreover have "drop 8 (buf[8 := ucast v]) = word_of_nat (n mod 256) # drop 9 buf"
      using assms(1) by (simp add: full_byte n_def Cons_nth_drop_Suc[symmetric])
    ultimately show ?thesis using 4 assms(1)
      unfolding write_varint_def v varint_nine_test n_def[symmetric] e_def varint_enc_def
      by (simp add: slice_set_def)
  qed
qed

lemma length_varint_enc_le: "length (varint_enc n) \<le> 9"
  using groups7_le[of n 8] by (auto simp: length_varint_enc)

lemma write_varint_to_vec_eq:
  "write_varint_to_vec v payload = Some (payload @ varint_enc (unat v))"
  by (simp add: write_varint_to_vec_def write_varint_eq)

section \<open>The length function predicts the writer\<close>

lemma bit_word_iff_unat: "bit v k \<longleftrightarrow> odd (unat v div 2 ^ k)" for v :: u64
proof -
  have "bit v k \<longleftrightarrow> bit (unat v) k" by (simp add: bit_unsigned_iff)
  then show ?thesis by (simp only: bit_iff_odd)
qed

lemma leading_zeros_eq:
  assumes "2 ^ k \<le> unat v" "unat v < 2 ^ Suc k"
  shows "leading_zeros v = 63 - k"
proof -
  have "unat v < 2 ^ 64" using unsigned_less[of v, where 'a = nat] by simp
  with assms(1) have "(2 :: nat) ^ k < 2 ^ 64" by (rule le_less_trans)
  then have k: "k < 64" by (rule power_less_imp_less_exp[rotated]) simp
  have "unat v div 2 ^ k = 1" using assms by (intro div_nat_eqI) simp_all
  then have top: "bit v k" by (simp add: bit_word_iff_unat)
  have above: "\<not> bit v j" if "k < j" for j
  proof -
    have "(2 :: nat) ^ Suc k \<le> 2 ^ j" using that by (intro power_increasing) simp_all
    then have "unat v div 2 ^ j = 0" using assms(2) by simp
    then show ?thesis by (simp add: bit_word_iff_unat)
  qed
  have "[0..<64] = [0..<k] @ k # [Suc k..<64]"
    using upt_add_eq_append[of 0 k "64 - k"] upt_conv_Cons[OF k] k by simp
  then have "rev [0..<64] = rev [Suc k..<64] @ k # rev [0..<k]" by (simp only: rev_append rev.simps) simp
  moreover have "takeWhile (\<lambda>j. \<not> bit v j) (rev [Suc k..<64] @ k # rev [0..<k]) = rev [Suc k..<64]"
    using top above by (subst takeWhile_append2) auto
  ultimately have "takeWhile (\<lambda>j. \<not> bit v j) (rev [0..<64]) = rev [Suc k..<64]"
    by (simp only:)
  then show ?thesis by (simp only: leading_zeros_def) simp
qed

lemma groups7_eq:
  assumes "128 ^ q \<le> n" "n < 128 ^ Suc q"
  shows "groups7 n = Suc q"
proof (rule antisym)
  show "groups7 n \<le> Suc q" using assms(2) by (rule groups7_le) simp
  have "(128 :: nat) ^ q < 128 ^ groups7 n" using assms(1) less_groups7[of n] by (rule le_less_trans)
  then have "q < groups7 n" by (rule power_less_imp_less_exp[rotated]) simp
  then show "Suc q \<le> groups7 n" by simp
qed

lemma varint_len_eq: "varint_len v = length (varint_enc (unat v))"
proof -
  define n where "n = unat v"
  have v: "v \<le> 0x7f \<longleftrightarrow> n < 128" "v > push_bit 56 1 - 1 \<longleftrightarrow> 2 ^ 56 \<le> n"
    by (simp_all add: n_def word_le_nat_alt word_less_nat_alt less_Suc_eq_le[symmetric] Suc_le_eq)
  consider "n < 128" | "128 \<le> n" "n < 2 ^ 56" | "2 ^ 56 \<le> n" by linarith
  then show ?thesis
  proof cases
    case 1
    then show ?thesis
      unfolding varint_len_def v n_def[symmetric] length_varint_enc by (simp add: groups7.simps[of n])
  next
    case 2
    then obtain k where k: "2 ^ k \<le> n" "n < 2 ^ Suc k"
      using ex_power_ivl1[of 2 n] by auto
    define q where "q = k div 7"
    have "(2 :: nat) ^ (7 * q) \<le> 2 ^ k" by (rule power_increasing) (simp_all add: q_def)
    then have lo: "128 ^ q \<le> n" using k(1) by (simp add: power_mult)
    have "(2 :: nat) ^ Suc k \<le> 2 ^ (7 * Suc q)" by (rule power_increasing) (use dividend_less_times_div[of 7 k] in \<open>simp_all add: q_def Suc_le_eq\<close>)
    then have hi: "n < 128 ^ Suc q" using k(2) unfolding power_mult by simp
    have "(2 :: nat) ^ k < 2 ^ 56" using k(1) 2(2) by (rule le_less_trans)
    then have k56: "k < 56" by (rule power_less_imp_less_exp[rotated]) simp
    have "leading_zeros v = 63 - k" using k by (intro leading_zeros_eq) (simp_all add: n_def)
    then have "(64 - leading_zeros v + 6) div 7 = Suc q"
      using k56 by (simp add: q_def)
    then show ?thesis using 2 groups7_eq[OF lo hi]
      unfolding varint_len_def v n_def[symmetric] length_varint_enc Let_def by simp
  next
    case 3
    then show ?thesis unfolding varint_len_def v n_def[symmetric] length_varint_enc by simp
  qed
qed

section \<open>Partial reads\<close>

lemma read_varint_partial_loop_eq:
  "read_varint_partial_loop buf i v =
     (case read_varint_loop buf i v of
        Inr r \<Rightarrow> Inr (Some r)
      | Inl e \<Rightarrow> if length buf < 9 then Inr None else Inl e)"
proof (induction buf i v rule: read_varint_partial_loop.induct)
  case (1 buf i v)
  show ?case
  proof (cases "i < 8 \<and> i < length buf")
    case True
    then have get: "slice_get buf i = Some (buf ! i)" by (simp add: slice_get_def)
    show ?thesis
    proof (cases "(buf ! i) AND 0x80 = 0")
      case False
      with 1 True get show ?thesis
        by (subst (1) read_varint_loop.simps, subst read_varint_partial_loop.simps) (simp add: Let_def)
    qed (use True get in \<open>subst read_varint_loop.simps, subst read_varint_partial_loop.simps, simp add: Let_def\<close>)
  next
    case False
    then show ?thesis
      by (subst read_varint_loop.simps, subst read_varint_partial_loop.simps)
         (auto simp: slice_get_def)
  qed
qed

lemma read_varint_loop_extend:
  "read_varint_loop buf i v = Inr (x, l) \<Longrightarrow>
     l \<le> length buf \<and> l \<le> 9 \<and> read_varint_loop (buf @ rest) i v = Inr (x, l)"
proof (induction buf i v rule: read_varint_loop.induct)
  case (1 buf i v)
  show ?case
  proof (cases "i < 8")
    case True
    with 1(2) have i: "i < length buf"
      by (subst (asm) read_varint_loop.simps) (auto simp: slice_get_def split: if_splits)
    show ?thesis
    proof (cases "(buf ! i) AND 0x80 = 0")
      case True
      with \<open>i < 8\<close> i 1(2) show ?thesis
        by (subst (asm) read_varint_loop.simps, subst read_varint_loop.simps)
           (auto simp: slice_get_def nth_append Let_def)
    next
      case False
      define v' where "v' = push_bit 7 v + ucast (buf ! i AND 0x7f)"
      have step: "read_varint_loop (buf @ r) i v = read_varint_loop (buf @ r) (i + 1) v'" for r
        using False \<open>i < 8\<close> i
        by (subst read_varint_loop.simps) (simp add: slice_get_def nth_append v'_def Let_def)
      show ?thesis
        using 1(1)[OF \<open>i < 8\<close> _ v'_def False] 1(2) step[of "[]"] step[of rest] i
        by (simp add: slice_get_def)
    qed
  next
    case False
    with 1(2) show ?thesis
      by (subst (asm) read_varint_loop.simps, subst read_varint_loop.simps)
         (auto simp: slice_get_def nth_append split: if_splits)
  qed
qed

lemma read_varint_bounds:
  "read_varint buf = Inr (x, l) \<Longrightarrow> l \<le> length buf \<and> l \<le> 9"
  unfolding read_varint_def by (drule read_varint_loop_extend[where rest = "[]"]) simp

lemma varint_enc_nonempty: "varint_enc n \<noteq> []"
  by (simp add: varint_enc_def)

interpretation vc: prefix_code "\<lambda>v. varint_enc (unat v)" read_varint
proof
  fix v :: u64 and rest
  have "unat v < 2 ^ 64" using unsigned_less[of v, where 'a = nat] by simp
  then show "read_varint (varint_enc (unat v) @ rest) = Inr (v, length (varint_enc (unat v)))"
    by (simp add: read_varint_enc)
qed (rule varint_enc_nonempty)

section \<open>Properties\<close>

text \<open>C32: Round trip of the varint codec. A value written by \<open>write_varint\<close> into any buffer
  of at least nine bytes is read back by \<open>read_varint\<close>, together with the number of bytes that
  were written, whatever the buffer holds behind the encoding.\<close>

theorem write_read_varint:
  assumes "9 \<le> length buf"
  shows "\<exists>buf' n. write_varint buf v = Some (buf', n) \<and> length buf' = length buf
           \<and> drop n buf' = drop n buf \<and> read_varint buf' = Inr (v, n)"
proof -
  have "unat v < 2 ^ 64" using unsigned_less[of v, where 'a = nat] by simp
  then show ?thesis
    using write_varint_eq[OF assms, of v] read_varint_enc[of "unat v"]
      length_varint_enc_le[of "unat v"] assms by simp
qed

theorem write_read_varint_witness:
  "\<exists>buf' n. write_varint (replicate 9 7) 300 = Some (buf', n) \<and> length buf' = length (replicate 9 (7 :: u8))
     \<and> drop n buf' = drop n (replicate 9 7) \<and> read_varint buf' = Inr (300, n)"
  by (rule write_read_varint) simp

text \<open>C35: \<open>varint_len\<close> is exact: it is the number of bytes \<open>write_varint\<close> reports and the
  number of bytes \<open>write_varint_to_vec\<close> appends, for every 64-bit value.\<close>

theorem varint_len_exact:
  "(\<exists>varint. write_varint (replicate 9 0) v = Some (varint, varint_len v)) \<and>
   (\<exists>enc. length enc = varint_len v \<and> (\<forall>payload. write_varint_to_vec v payload = Some (payload @ enc)))"
  by (simp add: write_varint_eq varint_len_eq write_varint_to_vec_eq)

text \<open>C36: Reading from a stream. On any buffer \<open>read_varint_partial\<close> gives what \<open>read_varint\<close>
  gives when the varint is complete, asks for more data exactly when it is not and fewer than nine
  bytes are there, and reports corruption only with nine bytes at hand. On every proper prefix of an
  encoding it asks for more.\<close>

theorem read_varint_partial_spec:
  "read_varint_partial buf =
     (case read_varint buf of
        Inr r \<Rightarrow> Inr (Some r)
      | Inl e \<Rightarrow> if length buf < 9 then Inr None else Inl e) \<and>
   (k < varint_len v \<longrightarrow>
      (\<exists>enc. write_varint_to_vec v [] = Some enc \<and> read_varint_partial (take k enc) = Inr None))"
proof (intro conjI impI)
  show partial: "read_varint_partial buf =
     (case read_varint buf of
        Inr r \<Rightarrow> Inr (Some r)
      | Inl e \<Rightarrow> if length buf < 9 then Inr None else Inl e)" for buf
    unfolding read_varint_partial_def read_varint_def by (rule read_varint_partial_loop_eq)
  assume k: "k < varint_len v"
  define enc where "enc = varint_enc (unat v)"
  have "unat v < 2 ^ 64" using unsigned_less[of v, where 'a = nat] by simp
  then have enc: "read_varint enc = Inr (v, length enc)"
    using read_varint_enc[of "unat v" "[]"] by (simp add: enc_def)
  have "\<nexists>r. read_varint (take k enc) = Inr r"
  proof clarify
    fix x l assume "read_varint (take k enc) = Inr (x, l)"
    from read_varint_loop_extend[OF this[unfolded read_varint_def], of "drop k enc"]
    have "l \<le> k" "read_varint enc = Inr (x, l)" by (simp_all add: read_varint_def)
    with enc k show False by (simp add: varint_len_eq enc_def)
  qed
  then obtain e where "read_varint (take k enc) = Inl e" by (cases "read_varint (take k enc)") auto
  then have "read_varint_partial (take k enc) = Inr None"
    using k length_varint_enc_le[of "unat v"] by (simp add: partial varint_len_eq enc_def)
  then show "\<exists>enc. write_varint_to_vec v [] = Some enc \<and> read_varint_partial (take k enc) = Inr None"
    by (simp add: write_varint_to_vec_eq enc_def)
qed

theorem read_varint_partial_spec_witness:
  "1 < varint_len 300 \<and>
   (\<exists>enc. write_varint_to_vec 300 [] = Some enc \<and> read_varint_partial (take 1 enc) = Inr None)"
proof -
  have "1 < varint_len 300" by code_simp
  then show ?thesis using read_varint_partial_spec[of "[]" 1 300] by simp
qed

end
