(* ===== verification/Rw_Lock.thy ===== *)
theory Rw_Lock
  imports Prelude
begin

text \<open>
  \<open>TursoRwLock\<close> of \<open>core/storage/wal.rs\<close>: a read-write lock and a 32-bit value packed into one
  atomic 64-bit word (bit 0 the writer flag, bits 1-31 the reader count, bits 32-63 the value).

  The first part translates the methods as they run without interference, the compare-exchange
  loop of \<open>read\<close> included. The second part splits every method at its atomic accesses and
  interleaves any number of threads; its invariant gives mutual exclusion, an exact reader
  count and the absence of the panics of the methods' assertions under every schedule.
\<close>

section \<open>The methods\<close>

definition WRITER :: u64 where "WRITER = 1"

definition READER_INC :: u64 where "READER_INC = 2"

definition READER_COUNT_MASK :: u64 where "READER_COUNT_MASK = push_bit 1 0x7fffffff"

definition VALUE_MASK :: u64 where "VALUE_MASK = push_bit 32 0xffffffff"

definition READMARK_NOT_USED :: u32 where "READMARK_NOT_USED = 0xffffffff"

definition rw_new :: u64 where "rw_new = 0"

definition has_writer :: "u64 \<Rightarrow> bool" where
  "has_writer v \<longleftrightarrow> v AND WRITER \<noteq> 0"

definition has_readers :: "u64 \<Rightarrow> bool" where
  "has_readers v \<longleftrightarrow> v AND READER_COUNT_MASK \<noteq> 0"

text \<open>\<open>AtomicU64::compare_exchange\<close> of the standard library: whether the exchange happened, and
  the word in memory afterwards.\<close>

definition compare_exchange :: "u64 \<Rightarrow> u64 \<Rightarrow> u64 \<Rightarrow> bool \<times> u64" where
  "compare_exchange mem cur desired = (if mem = cur then (True, desired) else (False, mem))"

function rw_read_loop :: "nat \<Rightarrow> u64 \<Rightarrow> bool \<times> u64" where
  "rw_read_loop count mem =
     (if count < 1000000 then
        (let cur = mem in
         if has_writer cur then (False, mem)
         else (let desired = cur + READER_INC in
               case compare_exchange mem cur desired of
                 (True, mem') \<Rightarrow> (True, mem')
               | (False, mem') \<Rightarrow> rw_read_loop (count + 1) mem'))
      else (False, mem))"
  by pat_completeness auto
termination by (relation "measure (\<lambda>(count, mem). 1000000 - count)") auto

declare rw_read_loop.simps [simp del]

definition rw_read :: "u64 \<Rightarrow> bool \<times> u64" where
  "rw_read mem = rw_read_loop 0 mem"

definition rw_write :: "u64 \<Rightarrow> bool \<times> u64" where
  "rw_write mem =
     (let cur = mem in
      if has_writer cur \<or> has_readers cur then (False, mem)
      else compare_exchange mem cur (cur OR WRITER))"

definition rw_upgrade :: "u64 \<Rightarrow> bool \<times> u64" where
  "rw_upgrade mem =
     (let cur = mem in
      if cur AND NOT VALUE_MASK \<noteq> READER_INC then (False, mem)
      else compare_exchange mem cur ((cur AND VALUE_MASK) OR WRITER))"

text \<open>The release build of \<open>downgrade\<close>: a plain store (the debug build asserts in addition).\<close>

definition rw_downgrade :: "u64 \<Rightarrow> u64" where
  "rw_downgrade mem = (mem AND VALUE_MASK) OR READER_INC"

text \<open>\<open>unlock\<close>: \<open>None\<close> is a failed assertion.\<close>

definition rw_unlock :: "u64 \<Rightarrow> u64 option" where
  "rw_unlock mem =
     (if mem AND WRITER \<noteq> 0 then
        (if has_readers mem then None else Some (mem AND NOT WRITER))
      else
        (if has_readers mem then Some (mem - READER_INC) else None))"

definition rw_get_value :: "u64 \<Rightarrow> u32" where
  "rw_get_value mem = ucast (drop_bit 32 mem)"

definition rw_set_value_exclusive :: "u64 \<Rightarrow> u32 \<Rightarrow> u64 option" where
  "rw_set_value_exclusive mem v =
     (if has_writer mem then Some ((mem AND NOT VALUE_MASK) OR push_bit 32 (ucast v)) else None)"

section \<open>The packed fields\<close>

definition rw_readers :: "u64 \<Rightarrow> nat" where
  "rw_readers mem = unat mem div 2 mod 2 ^ 31"

definition rw_mk :: "u32 \<Rightarrow> nat \<Rightarrow> bool \<Rightarrow> u64" where
  "rw_mk v r w = push_bit 32 (ucast v) OR push_bit 1 (take_bit 31 (word_of_nat r)) OR of_bool w"

lemma bit_rw_mk:
  "bit (rw_mk v r w) n \<longleftrightarrow>
     (if n = 0 then w else if n < 32 then bit r (n - 1) else n < 64 \<and> bit v (n - 32))"
  by (auto simp: rw_mk_def bit_simps of_bool_def bit_1_iff simp del: push_bit_Suc)

lemma rw_mk_zero: "rw_mk 0 0 False = 0"
  by (simp add: rw_mk_def)

named_theorems rw_simps \<open>the lock operations on packed fields\<close>

lemma has_writer_mk [rw_simps]: "has_writer (rw_mk v r w) = w"
proof -
  have "rw_mk v r w AND WRITER \<noteq> 0 \<longleftrightarrow> bit (rw_mk v r w) 0"
    using and_exp_eq_0_iff_not_bit[of "rw_mk v r w" 0] by (simp add: WRITER_def)
  then show ?thesis by (simp add: has_writer_def bit_rw_mk)
qed

lemma rw_mk_or_writer [rw_simps]: "rw_mk v r w OR WRITER = rw_mk v r True"
  by (rule bit_word_eqI) (auto simp: bit_simps bit_rw_mk WRITER_def bit_1_iff)

lemma rw_mk_and_not_writer [rw_simps]: "rw_mk v r w AND NOT WRITER = rw_mk v r False"
  by (rule bit_word_eqI) (auto simp: bit_simps bit_rw_mk WRITER_def bit_1_iff)

lemma VALUE_MASK_eq: "VALUE_MASK = push_bit 32 (mask 32)"
  by (simp add: VALUE_MASK_def mask_eq_exp_minus_1)

lemma READER_COUNT_MASK_eq: "READER_COUNT_MASK = push_bit 1 (mask 31)"
  by (simp add: READER_COUNT_MASK_def mask_eq_exp_minus_1)

lemma rw_mk_and_value [rw_simps]: "rw_mk v r w AND VALUE_MASK = rw_mk v 0 False"
  by (rule bit_word_eqI) (auto simp: bit_simps bit_rw_mk VALUE_MASK_eq)

lemma rw_mk_and_not_value [rw_simps]: "rw_mk v r w AND NOT VALUE_MASK = rw_mk 0 r w"
  by (rule bit_word_eqI) (auto simp: bit_simps bit_rw_mk VALUE_MASK_eq)

lemma rw_mk_or_value [rw_simps]: "rw_mk 0 r w OR push_bit 32 (ucast v) = rw_mk v r w"
  by (rule bit_word_eqI) (auto simp: bit_simps bit_rw_mk dest: bit_imp_le_length)

lemma rw_get_value_mk [rw_simps]: "rw_get_value (rw_mk v r w) = v"
  by (rule bit_word_eqI) (auto simp: rw_get_value_def bit_simps bit_rw_mk)

lemma unat_rw_mk:
  assumes "r < 2 ^ 31"
  shows "unat (rw_mk v r w) = unat v * 2 ^ 32 + r * 2 + of_bool w"
proof -
  define a :: u64 where "a = push_bit 32 (ucast v)"
  define b :: u64 where "b = push_bit 1 (take_bit 31 (word_of_nat r))"
  define c :: u64 where "c = of_bool w"
  have "b AND c = 0"
    by (rule bit_word_eqI) (auto simp: b_def c_def bit_simps of_bool_def bit_1_iff simp del: push_bit_Suc)
  then have bc: "b OR c = b + c" by (simp only: disjunctive_add_eq_or)
  have "a AND (b OR c) = 0"
    by (rule bit_word_eqI) (auto simp: a_def b_def c_def bit_simps of_bool_def bit_1_iff simp del: push_bit_Suc)
  then have abc: "a OR b OR c = a + (b + c)" by (simp only: disjunctive_add_eq_or bc or.assoc)
  have v: "unat v < 2 ^ 32" using unsigned_less[of v, where 'a = nat] by simp
  have "a + (b + c) = word_of_nat (unat v * 2 ^ 32 + r * 2 + of_bool w)"
  proof -
    have "a = word_of_nat (unat v * 2 ^ 32)"
      by (simp add: a_def push_bit_eq_mult mult.commute)
    moreover have "take_bit 31 (word_of_nat r :: u64) = word_of_nat r"
      unfolding word_unat_eq_iff unsigned_take_bit_eq
      using assms by (simp add: unat_of_nat take_bit_eq_mod)
    then have "b = word_of_nat (r * 2)"
      by (simp add: b_def push_bit_eq_mult mult.commute)
    ultimately show ?thesis by (simp add: c_def)
  qed
  moreover have "unat v * 2 ^ 32 + r * 2 + of_bool w < 2 ^ 64"
    using v assms by simp
  ultimately show ?thesis
    unfolding rw_mk_def a_def[symmetric] b_def[symmetric] c_def[symmetric] abc
    by (simp only: unat_of_nat) simp
qed

lemma rw_readers_mk [rw_simps]: "r < 2 ^ 31 \<Longrightarrow> rw_readers (rw_mk v r w) = r"
  by (simp add: rw_readers_def unat_rw_mk)

lemma rw_readers_less [simp]: "rw_readers mem < 2 ^ 31"
  unfolding rw_readers_def by (rule mod_less_divisor) simp

lemma rw_mk_fields: "rw_mk (rw_get_value mem) (rw_readers mem) (has_writer mem) = mem"
proof -
  define u where "u = unat mem"
  have u: "u < 2 ^ 64" using unsigned_less[of mem, where 'a = nat] by (simp add: u_def)
  have w: "has_writer mem \<longleftrightarrow> odd u"
  proof -
    have "has_writer mem \<longleftrightarrow> bit mem 0"
      using and_exp_eq_0_iff_not_bit[of mem 0] by (simp add: has_writer_def WRITER_def)
    also have "\<dots> \<longleftrightarrow> bit u 0" unfolding u_def by (simp only: bit_unsigned_iff) simp
    finally show ?thesis by (simp add: bit_0)
  qed
  have v: "unat (rw_get_value mem) = u div 2 ^ 32"
  proof -
    have "unat (drop_bit 32 mem) = u div 2 ^ 32" by (simp only: unat_drop_bit u_def)
    moreover have "u div 2 ^ 32 < 2 ^ 32" using u by (simp add: div_less_iff_less_mult)
    ultimately show ?thesis
      by (simp only: rw_get_value_def unsigned_ucast_eq take_bit_eq_mod) simp
  qed
  have "unat (rw_mk (rw_get_value mem) (rw_readers mem) (has_writer mem)) =
      u div 2 ^ 32 * 2 ^ 32 + u div 2 mod 2 ^ 31 * 2 + of_bool (odd u)"
    using unat_rw_mk[OF rw_readers_less[of mem], of "rw_get_value mem" "has_writer mem"]
    by (simp only: v w rw_readers_def u_def[symmetric])
  also have "\<dots> = u"
  proof -
    have "u mod (2 * 2 ^ 31) = 2 * (u div 2 mod 2 ^ 31) + u mod 2" by (rule mod_mult2_eq)
    moreover have "u mod 2 = of_bool (odd u)" by (rule mod_2_eq_odd)
    ultimately show ?thesis using div_mult_mod_eq[of u "2 ^ 32"] by simp
  qed
  finally show ?thesis by (simp only: word_unat_eq_iff u_def)
qed

lemma rw_cases:
  obtains v r w where "mem = rw_mk v r w" "r < 2 ^ 31"
  using rw_mk_fields[of mem, symmetric] rw_readers_less[of mem] by (rule that)

lemma rw_mk_eq_iff [rw_simps]:
  "r < 2 ^ 31 \<Longrightarrow> r' < 2 ^ 31 \<Longrightarrow> rw_mk v r w = rw_mk v' r' w' \<longleftrightarrow> v = v' \<and> r = r' \<and> w = w'"
  using rw_get_value_mk[of v r w] rw_get_value_mk[of v' r' w'] rw_readers_mk[of r v w]
    rw_readers_mk[of r' v' w'] has_writer_mk[of v r w] has_writer_mk[of v' r' w'] by auto

lemma has_readers_iff: "has_readers mem \<longleftrightarrow> 0 < rw_readers mem"
proof -
  have "mem AND READER_COUNT_MASK = push_bit 1 (take_bit 31 (drop_bit 1 mem))"
    by (rule bit_word_eqI) (auto simp: READER_COUNT_MASK_eq bit_simps simp del: push_bit_Suc)
  moreover have "push_bit 1 (take_bit 31 (drop_bit 1 mem)) = 0 \<longleftrightarrow> take_bit 31 (drop_bit 1 mem) = 0"
  proof -
    have "drop_bit 1 (push_bit 1 (take_bit 31 (drop_bit 1 mem))) = take_bit 31 (drop_bit 1 mem)"
      by (rule bit_word_eqI) (auto simp: bit_simps simp del: push_bit_Suc drop_bit_Suc)
    then show ?thesis by (metis drop_bit_of_0 push_bit_of_0)
  qed
  moreover have "take_bit 31 (drop_bit 1 mem) = 0 \<longleftrightarrow> rw_readers mem = 0"
    unfolding unat_eq_0[symmetric] unsigned_take_bit_eq unat_drop_bit
    unfolding take_bit_eq_mod rw_readers_def by simp
  ultimately show ?thesis by (simp add: has_readers_def)
qed

lemma has_readers_mk [rw_simps]: "r < 2 ^ 31 \<Longrightarrow> has_readers (rw_mk v r w) \<longleftrightarrow> 0 < r"
  by (simp add: has_readers_iff rw_readers_mk)

lemma rw_mk_inc [rw_simps]: "Suc r < 2 ^ 31 \<Longrightarrow> rw_mk v r w + READER_INC = rw_mk v (Suc r) w"
proof -
  assume r: "Suc r < 2 ^ 31"
  have "unat (rw_mk v r w + READER_INC) = (unat (rw_mk v r w) + 2) mod 2 ^ 64"
    by (simp add: unat_word_ariths READER_INC_def)
  also have "unat (rw_mk v r w) + 2 = unat (rw_mk v (Suc r) w)"
    using unat_rw_mk[of r v w] unat_rw_mk[OF r, of v w] r by simp
  also have "\<dots> mod 2 ^ 64 = \<dots>"
    using unsigned_less[of "rw_mk v (Suc r) w", where 'a = nat] by simp
  finally show ?thesis by (simp only: word_unat_eq_iff)
qed

lemma rw_mk_dec [rw_simps]: "0 < r \<Longrightarrow> r < 2 ^ 31 \<Longrightarrow> rw_mk v r w - READER_INC = rw_mk v (r - 1) w"
  using rw_mk_inc[of "r - 1" v w] by (metis Suc_pred' add_diff_cancel)

lemma rw_mk_or_inc [rw_simps]: "rw_mk v 0 False OR READER_INC = rw_mk v 1 False"
proof -
  have inc: "READER_INC = push_bit 1 1" by (simp add: READER_INC_def)
  show ?thesis
    unfolding inc by (rule bit_word_eqI) (auto simp: bit_simps bit_rw_mk bit_1_iff simp del: push_bit_Suc)
qed

lemma READER_INC_mk: "READER_INC = rw_mk 0 1 False"
  using rw_mk_or_inc[of 0] by (simp add: rw_mk_zero)

lemma rw_new_mk: "rw_new = rw_mk 0 0 False"
  by (simp add: rw_mk_zero rw_new_def)

section \<open>The contract of a read-write lock\<close>

text \<open>What the clients of the lock rely on: a mode (free, so many readers, or one writer) and a
  value that only the writer changes. A failed attempt changes nothing.\<close>

datatype rw_mode = Free | Readers nat | Writer

definition rw_mode_of :: "u64 \<Rightarrow> rw_mode" where
  "rw_mode_of mem =
     (if has_writer mem then Writer
      else if rw_readers mem = 0 then Free else Readers (rw_readers mem))"

definition rw_ok :: "u64 \<Rightarrow> bool" where
  "rw_ok mem \<longleftrightarrow> (has_writer mem \<longrightarrow> rw_readers mem = 0)"

fun add_reader :: "rw_mode \<Rightarrow> rw_mode" where
  "add_reader Free = Readers 1"
| "add_reader (Readers n) = Readers (Suc n)"
| "add_reader Writer = Writer"

fun drop_holder :: "rw_mode \<Rightarrow> rw_mode" where
  "drop_holder (Readers n) = (if n \<le> 1 then Free else Readers (n - 1))"
| "drop_holder m = Free"

fun reader_count :: "rw_mode \<Rightarrow> nat" where
  "reader_count (Readers n) = n"
| "reader_count m = 0"

locale lock_contract =
  fixes lmode :: "'l \<Rightarrow> rw_mode"
    and lvalue :: "'l \<Rightarrow> u32"
    and lok :: "'l \<Rightarrow> bool"
    and cap :: nat
    and lread :: "'l \<Rightarrow> bool \<times> 'l"
    and lwrite :: "'l \<Rightarrow> bool \<times> 'l"
    and lset :: "'l \<Rightarrow> u32 \<Rightarrow> 'l option"
    and lunlock :: "'l \<Rightarrow> 'l option"
  assumes read_law: "lok l \<Longrightarrow> reader_count (lmode l) < cap \<Longrightarrow>
      (if lmode l = Writer then lread l = (False, l)
       else \<exists>l'. lread l = (True, l') \<and> lok l' \<and> lmode l' = add_reader (lmode l) \<and> lvalue l' = lvalue l)"
    and write_law: "lok l \<Longrightarrow>
      (if lmode l = Free
       then \<exists>l'. lwrite l = (True, l') \<and> lok l' \<and> lmode l' = Writer \<and> lvalue l' = lvalue l
       else lwrite l = (False, l))"
    and set_law: "lok l \<Longrightarrow> lmode l = Writer \<Longrightarrow>
      \<exists>l'. lset l v = Some l' \<and> lok l' \<and> lmode l' = Writer \<and> lvalue l' = v"
    and unlock_law: "lok l \<Longrightarrow> lmode l \<noteq> Free \<Longrightarrow>
      \<exists>l'. lunlock l = Some l' \<and> lok l' \<and> lmode l' = drop_holder (lmode l) \<and> lvalue l' = lvalue l"
begin

text \<open>Taking the lock exclusively to change the value and releasing it: on a free lock this
  never panics, and the result is a free lock with the new value.\<close>

lemma exclusive_update:
  assumes "lok l" "lmode l = Free"
  shows "\<exists>l1 l2 l3. lwrite l = (True, l1) \<and> lset l1 v = Some l2 \<and> lunlock l2 = Some l3
           \<and> lok l3 \<and> lmode l3 = Free \<and> lvalue l3 = v"
proof -
  obtain l1 where l1: "lwrite l = (True, l1)" "lok l1" "lmode l1 = Writer"
    using write_law[OF assms(1)] assms(2) by auto
  obtain l2 where l2: "lset l1 v = Some l2" "lok l2" "lmode l2 = Writer" "lvalue l2 = v"
    using set_law[OF l1(2,3)] by blast
  obtain l3 where "lunlock l2 = Some l3" "lok l3" "lmode l3 = drop_holder (lmode l2)" "lvalue l3 = lvalue l2"
    using unlock_law[OF l2(2)] l2(3) by auto
  with l1 l2 show ?thesis by auto
qed

text \<open>A reader that joins and leaves restores mode and value.\<close>

lemma join_leave:
  assumes "lok l" "lmode l \<noteq> Writer" "lmode l \<noteq> Readers 0" "reader_count (lmode l) < cap"
  shows "\<exists>l1 l2. lread l = (True, l1) \<and> lunlock l1 = Some l2
           \<and> lok l2 \<and> lmode l2 = lmode l \<and> lvalue l2 = lvalue l"
proof -
  obtain l1 where l1: "lread l = (True, l1)" "lok l1" "lmode l1 = add_reader (lmode l)" "lvalue l1 = lvalue l"
    using read_law[OF assms(1,4)] assms(2) by auto
  moreover have "lmode l1 \<noteq> Free" using l1(3) assms(2) by (cases "lmode l") auto
  ultimately obtain l2 where l2: "lunlock l1 = Some l2" "lok l2" "lmode l2 = drop_holder (lmode l1)" "lvalue l2 = lvalue l1"
    using unlock_law by blast
  moreover have "drop_holder (add_reader (lmode l)) = lmode l"
    using assms(2,3) by (cases "lmode l") auto
  ultimately show ?thesis using l1 by auto
qed

end

lemma rw_read_eq:
  "rw_read mem = (if has_writer mem then (False, mem) else (True, mem + READER_INC))"
  unfolding rw_read_def by (subst rw_read_loop.simps) (simp add: compare_exchange_def Let_def)

lemma rw_write_eq:
  "rw_write mem = (if has_writer mem \<or> has_readers mem then (False, mem) else (True, mem OR WRITER))"
  by (simp add: rw_write_def compare_exchange_def Let_def)

lemma rw_upgrade_eq:
  "rw_upgrade mem = (if rw_readers mem = 1 \<and> \<not> has_writer mem
                     then (True, (mem AND VALUE_MASK) OR WRITER) else (False, mem))"
proof (rule rw_cases[of mem])
  fix v r w assume "mem = rw_mk v r w" "r < 2 ^ 31"
  then show ?thesis
    by (simp add: rw_upgrade_def compare_exchange_def Let_def rw_simps READER_INC_mk)
qed

lemma has_writer_and: "mem AND WRITER \<noteq> 0 \<longleftrightarrow> has_writer mem"
  by (simp add: has_writer_def)

lemma rw_unlock_eq:
  "rw_unlock mem =
     (if has_writer mem then (if has_readers mem then None else Some (mem AND NOT WRITER))
      else if has_readers mem then Some (mem - READER_INC) else None)"
  by (simp add: rw_unlock_def has_writer_def)

lemmas rw_eqs = rw_read_eq rw_write_eq rw_upgrade_eq rw_unlock_eq rw_set_value_exclusive_def
  rw_downgrade_def

lemma rw_mode_mk [rw_simps]:
  "r < 2 ^ 31 \<Longrightarrow> rw_mode_of (rw_mk v r w) = (if w then Writer else if r = 0 then Free else Readers r)"
  by (simp add: rw_mode_of_def rw_simps)

lemma rw_ok_mk [rw_simps]: "r < 2 ^ 31 \<Longrightarrow> rw_ok (rw_mk v r w) \<longleftrightarrow> (w \<longrightarrow> r = 0)"
  by (simp add: rw_ok_def rw_simps)

interpretation turso_lock: lock_contract rw_mode_of rw_get_value rw_ok "2 ^ 31 - 1"
  rw_read rw_write rw_set_value_exclusive rw_unlock
proof
  fix mem :: u64 and v' :: u32
  obtain v r w where m: "mem = rw_mk v r w" and r: "r < 2 ^ 31" by (rule rw_cases)
  {
    assume ok: "rw_ok mem" and cap: "reader_count (rw_mode_of mem) < 2 ^ 31 - 1"
    have "Suc r < 2 ^ 31" if "\<not> w" using cap that r by (simp add: m rw_simps split: if_splits)
    then show "if rw_mode_of mem = Writer then rw_read mem = (False, mem)
      else \<exists>l'. rw_read mem = (True, l') \<and> rw_ok l' \<and> rw_mode_of l' = add_reader (rw_mode_of mem)
             \<and> rw_get_value l' = rw_get_value mem"
      using r by (simp add: m rw_read_eq rw_simps)
  }
  {
    assume ok: "rw_ok mem"
    show "if rw_mode_of mem = Free
      then \<exists>l'. rw_write mem = (True, l') \<and> rw_ok l' \<and> rw_mode_of l' = Writer \<and> rw_get_value l' = rw_get_value mem
      else rw_write mem = (False, mem)"
      using r ok by (simp add: m rw_write_eq rw_simps)
  }
  {
    assume "rw_ok mem" "rw_mode_of mem = Writer"
    then show "\<exists>l'. rw_set_value_exclusive mem v' = Some l' \<and> rw_ok l' \<and> rw_mode_of l' = Writer \<and> rw_get_value l' = v'"
      using r by (simp add: m rw_set_value_exclusive_def rw_simps split: if_splits)
  }
  {
    assume "rw_ok mem" "rw_mode_of mem \<noteq> Free"
    then show "\<exists>l'. rw_unlock mem = Some l' \<and> rw_ok l' \<and> rw_mode_of l' = drop_holder (rw_mode_of mem)
      \<and> rw_get_value l' = rw_get_value mem"
      using r by (auto simp: m rw_unlock_eq rw_simps split: if_splits)
  }
qed

section \<open>Threads\<close>

text \<open>Every method split at its atomic accesses. A program counter carries what the thread has
  loaded; \<open>HoldRead\<close> and \<open>HoldWrite\<close> are the states between calls in which the thread owns the
  lock. The methods whose contract names a held lock are called in those states only.\<close>

datatype rw_pc =
    Idle
  | ReadLoop nat
  | ReadCas nat u64
  | WriteCas u64
  | HoldRead
  | HoldWrite
  | UpgradeCas u64
  | DowngradeStore u64
  | SetStore u64 u32
  | UnlockWriter
  | UnlockReader
  | Panicked

datatype rw_act = ARead | AWrite | AUpgrade | ADowngrade | ASet u32 | AUnlock

text \<open>Calling a method: up to and including its first load.\<close>

fun rw_call :: "rw_act \<Rightarrow> u64 \<Rightarrow> rw_pc \<Rightarrow> (u64 \<times> rw_pc) option" where
  "rw_call ARead mem pc = (if pc = Idle then Some (mem, ReadLoop 0) else None)"
| "rw_call AWrite mem pc =
     (if pc = Idle then
        Some (mem, if has_writer mem \<or> has_readers mem then Idle else WriteCas mem)
      else None)"
| "rw_call AUpgrade mem pc =
     (if pc = HoldRead then
        Some (mem, if mem AND NOT VALUE_MASK \<noteq> READER_INC then HoldRead else UpgradeCas mem)
      else None)"
| "rw_call ADowngrade mem pc =
     (if pc = HoldWrite then Some (mem, if has_writer mem then DowngradeStore mem else Panicked)
      else None)"
| "rw_call (ASet v) mem pc =
     (if pc = HoldWrite then Some (mem, if has_writer mem then SetStore mem v else Panicked)
      else None)"
| "rw_call AUnlock mem pc =
     (if pc = HoldRead \<or> pc = HoldWrite then
        Some (mem, if mem AND WRITER \<noteq> 0 then UnlockWriter
                   else if has_readers mem then UnlockReader else Panicked)
      else None)"

text \<open>Continuing inside a method: its next atomic access.\<close>

fun rw_resume :: "u64 \<Rightarrow> rw_pc \<Rightarrow> (u64 \<times> rw_pc) option" where
  "rw_resume mem (ReadLoop count) =
     Some (mem, if count < 1000000 then (if has_writer mem then Idle else ReadCas count mem) else Idle)"
| "rw_resume mem (ReadCas count cur) =
     (let (ok, mem') = compare_exchange mem cur (cur + READER_INC)
      in Some (mem', if ok then HoldRead else ReadLoop (count + 1)))"
| "rw_resume mem (WriteCas cur) =
     (let (ok, mem') = compare_exchange mem cur (cur OR WRITER)
      in Some (mem', if ok then HoldWrite else Idle))"
| "rw_resume mem (UpgradeCas cur) =
     (let (ok, mem') = compare_exchange mem cur ((cur AND VALUE_MASK) OR WRITER)
      in Some (mem', if ok then HoldWrite else HoldRead))"
| "rw_resume mem (DowngradeStore cur) = Some ((cur AND VALUE_MASK) OR READER_INC, HoldRead)"
| "rw_resume mem (SetStore cur v) =
     Some ((cur AND NOT VALUE_MASK) OR push_bit 32 (ucast v), HoldWrite)"
| "rw_resume mem UnlockWriter =
     Some (mem AND NOT WRITER, if has_readers mem then Panicked else Idle)"
| "rw_resume mem UnlockReader = Some (mem - READER_INC, Idle)"
| "rw_resume mem Idle = None"
| "rw_resume mem HoldRead = None"
| "rw_resume mem HoldWrite = None"
| "rw_resume mem Panicked = None"

definition rw_thread_step :: "rw_act option \<Rightarrow> u64 \<Rightarrow> rw_pc \<Rightarrow> (u64 \<times> rw_pc) option" where
  "rw_thread_step a mem pc = (case a of Some act \<Rightarrow> rw_call act mem pc | None \<Rightarrow> rw_resume mem pc)"

fun owns_write :: "rw_pc \<Rightarrow> bool" where
  "owns_write HoldWrite = True"
| "owns_write (DowngradeStore cur) = True"
| "owns_write (SetStore cur v) = True"
| "owns_write UnlockWriter = True"
| "owns_write pc = False"

fun owns_read :: "rw_pc \<Rightarrow> bool" where
  "owns_read HoldRead = True"
| "owns_read (UpgradeCas cur) = True"
| "owns_read UnlockReader = True"
| "owns_read pc = False"

inductive rw_reach :: "nat \<Rightarrow> u64 \<Rightarrow> rw_pc list \<Rightarrow> bool" for n where
  rw_init: "rw_reach n rw_new (replicate n Idle)"
| rw_step: "rw_reach n mem ps \<Longrightarrow> i < length ps \<Longrightarrow>
    rw_thread_step a mem (ps ! i) = Some (mem', pc') \<Longrightarrow> rw_reach n mem' (ps[i := pc'])"

text \<open>What a thread's program counter says about the word it has loaded.\<close>

fun pc_ok :: "u64 \<Rightarrow> rw_pc \<Rightarrow> bool" where
  "pc_ok mem (ReadCas count cur) \<longleftrightarrow> \<not> has_writer cur"
| "pc_ok mem (WriteCas cur) \<longleftrightarrow> \<not> has_writer cur \<and> \<not> has_readers cur"
| "pc_ok mem (UpgradeCas cur) \<longleftrightarrow> rw_readers cur = 1 \<and> \<not> has_writer cur"
| "pc_ok mem (DowngradeStore cur) \<longleftrightarrow> cur = mem"
| "pc_ok mem (SetStore cur v) \<longleftrightarrow> cur = mem"
| "pc_ok mem Panicked \<longleftrightarrow> False"
| "pc_ok mem pc \<longleftrightarrow> True"

definition owners :: "(rw_pc \<Rightarrow> bool) \<Rightarrow> rw_pc list \<Rightarrow> nat" where
  "owners P ps = length (filter P ps)"

lemma owners_update:
  "i < length ps \<Longrightarrow> owners P (ps[i := pc]) + of_bool (P (ps ! i)) = owners P ps + of_bool (P pc)"
proof (induction ps arbitrary: i)
  case Nil
  then show ?case by simp
next
  case (Cons q ps)
  then show ?case by (cases i) (auto simp: owners_def)
qed

lemma owners_pos: "pc \<in> set ps \<Longrightarrow> P pc \<Longrightarrow> 0 < owners P ps"
  by (auto simp: owners_def filter_empty_conv length_greater_0_conv)

lemma owners_le: "owners P ps \<le> length ps"
  by (simp add: owners_def)

text \<open>One step of one thread keeps the packed fields in agreement with the ownership it claims.\<close>

definition step_effect :: "u64 \<Rightarrow> rw_pc \<Rightarrow> u64 \<Rightarrow> rw_pc \<Rightarrow> bool" where
  "step_effect mem pc mem' pc' \<longleftrightarrow> pc_ok mem' pc' \<and> rw_ok mem'
    \<and> rw_readers mem' + of_bool (owns_read pc) = rw_readers mem + of_bool (owns_read pc')
    \<and> of_bool (has_writer mem') + of_bool (owns_write pc) =
        (of_bool (has_writer mem) + of_bool (owns_write pc') :: nat)
    \<and> (mem' = mem \<or> \<not> has_writer mem \<or> owns_write pc)
    \<and> (rw_get_value mem' = rw_get_value mem \<or> owns_write pc)"

lemma rw_call_effect:
  assumes "rw_call a (rw_mk v r w) pc = Some (mem', pc')" "r < 2 ^ 31" "w \<Longrightarrow> r = 0"
    and "owns_write pc \<Longrightarrow> w" "owns_read pc \<Longrightarrow> 0 < r"
  shows "step_effect (rw_mk v r w) pc mem' pc'"
  using assms
  by (cases a) (auto simp: step_effect_def rw_simps READER_INC_mk has_writer_and split: if_splits)

lemma rw_resume_effect:
  assumes "rw_resume (rw_mk v r w) pc = Some (mem', pc')" "r < 2 ^ 31" "w \<Longrightarrow> r = 0"
    and "pc_ok (rw_mk v r w) pc" "owns_write pc \<Longrightarrow> w" "owns_read pc \<Longrightarrow> 0 < r"
    and "\<not> owns_read pc \<Longrightarrow> Suc r < 2 ^ 31"
  shows "step_effect (rw_mk v r w) pc mem' pc'"
  using assms
  by (cases pc) (auto simp: step_effect_def rw_simps compare_exchange_def split: if_splits)

lemma rw_thread_step_effect:
  assumes "rw_thread_step a mem pc = Some (mem', pc')" "rw_ok mem" "pc_ok mem pc"
    and "owns_write pc \<Longrightarrow> has_writer mem" "owns_read pc \<Longrightarrow> 0 < rw_readers mem"
    and "\<not> owns_read pc \<Longrightarrow> Suc (rw_readers mem) < 2 ^ 31"
  shows "step_effect mem pc mem' pc'"
proof (rule rw_cases[of mem])
  fix v r w assume m: "mem = rw_mk v r w" "r < 2 ^ 31"
  show ?thesis
  proof (cases a)
    case None
    with assms m show ?thesis
      using rw_resume_effect[of v r w pc mem' pc'] by (simp add: rw_thread_step_def rw_simps)
  next
    case (Some act)
    with assms m show ?thesis
      using rw_call_effect[of act v r w pc mem' pc'] by (simp add: rw_thread_step_def rw_simps)
  qed
qed

definition rw_inv :: "nat \<Rightarrow> u64 \<Rightarrow> rw_pc list \<Rightarrow> bool" where
  "rw_inv n mem ps \<longleftrightarrow> length ps = n \<and> rw_ok mem
     \<and> rw_readers mem = owners owns_read ps \<and> of_bool (has_writer mem) = owners owns_write ps
     \<and> (\<forall>i < n. pc_ok mem (ps ! i))"

lemma rw_inv_owner:
  assumes "rw_inv n mem ps" "i < n"
  shows "owns_write (ps ! i) \<Longrightarrow> has_writer mem" "owns_read (ps ! i) \<Longrightarrow> 0 < rw_readers mem"
  using assms owners_pos[of "ps ! i" ps owns_write] owners_pos[of "ps ! i" ps owns_read]
  by (auto simp: rw_inv_def of_bool_def split: if_splits)

lemma rw_inv_one_writer: "rw_inv n mem ps \<Longrightarrow> owners owns_write ps \<le> 1"
  by (cases "has_writer mem") (simp_all add: rw_inv_def)

lemma two_owners:
  assumes "i < length ps" "j < length ps" "i \<noteq> j" "P (ps ! i)" "P (ps ! j)"
  shows "2 \<le> owners P ps"
proof -
  have "card {i, j} \<le> card {k. k < length ps \<and> P (ps ! k)}"
    using assms by (intro card_mono) auto
  then show ?thesis using assms(3) by (simp add: owners_def length_filter_conv_card)
qed

lemma rw_inv_step:
  assumes inv: "rw_inv n mem ps" and n: "n < 2 ^ 31" and i: "i < n"
    and step: "rw_thread_step a mem (ps ! i) = Some (mem', pc')"
  shows "step_effect mem (ps ! i) mem' pc'" "rw_inv n mem' (ps[i := pc'])"
proof -
  have len: "length ps = n" using inv by (simp add: rw_inv_def)
  have "Suc (rw_readers mem) < 2 ^ 31" if "\<not> owns_read (ps ! i)"
  proof -
    have "owners owns_read ps + 1 = owners owns_read (ps[i := HoldRead])"
      using owners_update[of i ps owns_read HoldRead] i that len by simp
    also have "\<dots> \<le> n" using owners_le[of owns_read "ps[i := HoldRead]"] len by simp
    finally show ?thesis using n inv by (simp add: rw_inv_def)
  qed
  then show eff: "step_effect mem (ps ! i) mem' pc'"
    using inv i rw_inv_owner[OF inv i] by (intro rw_thread_step_effect[OF step]) (auto simp: rw_inv_def)
  have "pc_ok mem' (ps[i := pc'] ! j)" if j: "j < n" for j
  proof (cases "j = i")
    case True
    then show ?thesis using eff i len by (simp add: step_effect_def)
  next
    case False
    have ok: "pc_ok mem (ps ! j)" using inv j by (simp add: rw_inv_def)
    have "mem' = mem \<or> \<not> owns_write (ps ! j)"
    proof (rule ccontr)
      assume "\<not> ?thesis"
      then have "owns_write (ps ! j)" "owns_write (ps ! i)"
        using eff rw_inv_owner(1)[OF inv j] by (auto simp: step_effect_def)
      then have "2 \<le> owners owns_write ps" using two_owners[of i ps j owns_write] i j False len by simp
      with rw_inv_one_writer[OF inv] show False by simp
    qed
    then have "pc_ok mem' (ps ! j)" using ok by (cases "ps ! j") auto
    then show ?thesis using False by simp
  qed
  then show "rw_inv n mem' (ps[i := pc'])"
    using eff inv i owners_update[of i ps owns_read pc'] owners_update[of i ps owns_write pc'] len
    by (auto simp: rw_inv_def step_effect_def)
qed

lemma rw_reach_inv:
  assumes "rw_reach n mem ps" "n < 2 ^ 31"
  shows "rw_inv n mem ps"
  using assms
proof (induction rule: rw_reach.induct)
  case rw_init
  show ?case by (auto simp: rw_inv_def owners_def rw_new_mk rw_simps)
next
  case (rw_step mem ps i a mem' pc')
  then show ?case using rw_inv_step(2)[of n mem ps i a mem' pc'] by (simp add: rw_inv_def)
qed

section \<open>Properties\<close>

text \<open>C8: Mutual exclusion of \<open>TursoRwLock\<close> under every interleaving of the atomic accesses of
  fewer than \<open>2 ^ 31\<close> threads: the packed reader count is exactly the number of threads that own
  the lock shared, the writer bit is set exactly when one thread owns it exclusively, a writer
  excludes every other owner, and no assertion of the methods ever fails.\<close>

theorem rw_mutual_exclusion:
  assumes "rw_reach n mem ps" "n < 2 ^ 31"
  shows "rw_readers mem = owners owns_read ps
    \<and> of_bool (has_writer mem) = owners owns_write ps
    \<and> Panicked \<notin> set ps
    \<and> (\<forall>i j. i < n \<longrightarrow> j < n \<longrightarrow> i \<noteq> j \<longrightarrow> owns_write (ps ! i) \<longrightarrow>
         \<not> owns_write (ps ! j) \<and> \<not> owns_read (ps ! j))"
proof -
  have inv: "rw_inv n mem ps" using assms by (rule rw_reach_inv)
  have one: "owners owns_write ps \<le> 1" using inv by (rule rw_inv_one_writer)
  have "Panicked \<notin> set ps" using inv by (auto simp: rw_inv_def in_set_conv_nth)
  moreover have "\<not> owns_write (ps ! j) \<and> \<not> owns_read (ps ! j)"
    if ij: "i < n" "j < n" "i \<noteq> j" "owns_write (ps ! i)" for i j
  proof -
    have "has_writer mem" using rw_inv_owner(1)[OF inv ij(1) ij(4)] .
    then have "rw_readers mem = 0" using inv by (simp add: rw_inv_def rw_ok_def)
    then have "\<not> owns_read (ps ! j)" using rw_inv_owner(2)[OF inv ij(2)] by auto
    moreover have "\<not> owns_write (ps ! j)"
      using two_owners[of i ps j owns_write] ij one inv by (auto simp: rw_inv_def)
    ultimately show ?thesis by simp
  qed
  ultimately show ?thesis using inv by (auto simp: rw_inv_def)
qed

theorem rw_mutual_exclusion_witness:
  "rw_reach 2 1 [HoldWrite, Idle] \<and> rw_readers 1 = 0 \<and> has_writer 1
   \<and> owners owns_write [HoldWrite, Idle] = 1 \<and> \<not> owns_read ([HoldWrite, Idle] ! 1)"
proof -
  have "rw_reach 2 rw_new [Idle, Idle]" using rw_init[of 2] by (simp add: numeral_2_eq_2)
  then have "rw_reach 2 rw_new ([Idle, Idle][0 := WriteCas rw_new])"
    by (rule rw_step[where a = "Some AWrite"])
       (simp_all add: rw_thread_step_def has_writer_def has_readers_def rw_new_def)
  then have "rw_reach 2 1 ([WriteCas rw_new, Idle][0 := HoldWrite])"
    by (intro rw_step[where a = None and i = 0 and mem = rw_new])
       (simp_all add: rw_thread_step_def compare_exchange_def rw_new_def WRITER_def)
  then have r: "rw_reach 2 1 [HoldWrite, Idle]" by simp
  from rw_mutual_exclusion[OF r] show ?thesis
    using r by (simp add: owners_def has_writer_def WRITER_def)
qed

text \<open>C37: Stability of the read mark. While some thread owns the lock shared, no step of any
  thread changes the value stored in the lock, and the thread's own steps change it only while it
  owns the lock exclusively.\<close>

theorem rw_value_stable:
  assumes "rw_reach n mem ps" "n < 2 ^ 31" "i < n" "j < n"
    and "rw_thread_step a mem (ps ! i) = Some (mem', pc')"
    and "owns_read (ps ! j) \<or> \<not> owns_write (ps ! i)"
  shows "rw_get_value mem' = rw_get_value mem"
proof -
  have inv: "rw_inv n mem ps" using assms(1,2) by (rule rw_reach_inv)
  have "\<not> owns_write (ps ! i)"
  proof
    assume "owns_write (ps ! i)"
    then have "has_writer mem" by (rule rw_inv_owner(1)[OF inv assms(3)])
    then have "rw_readers mem = 0" using inv by (simp add: rw_inv_def rw_ok_def)
    then show False using rw_inv_owner(2)[OF inv assms(4)] assms(6) \<open>owns_write (ps ! i)\<close> by auto
  qed
  then show ?thesis using rw_inv_step(1)[OF inv assms(2,3,5)] by (simp add: step_effect_def)
qed

theorem rw_value_stable_witness:
  "rw_reach 2 2 [HoldRead, Idle] \<and> rw_thread_step (Some ARead) 2 Idle = Some (2, ReadLoop 0)
   \<and> rw_get_value 2 = 0"
proof -
  have "rw_reach 2 rw_new [Idle, Idle]" using rw_init[of 2] by (simp add: numeral_2_eq_2)
  then have "rw_reach 2 rw_new ([Idle, Idle][0 := ReadLoop 0])"
    by (rule rw_step[where a = "Some ARead"]) (simp_all add: rw_thread_step_def)
  then have "rw_reach 2 rw_new ([ReadLoop 0, Idle][0 := ReadCas 0 rw_new])"
    by (intro rw_step[where a = None and i = 0 and mem = rw_new])
       (simp_all add: rw_thread_step_def has_writer_def rw_new_def)
  then have r1: "rw_reach 2 rw_new [ReadCas 0 rw_new, Idle]" by simp
  have st: "rw_thread_step None rw_new ([ReadCas 0 rw_new, Idle] ! 0) = Some (2, HoldRead)"
    by (simp add: rw_thread_step_def compare_exchange_def rw_new_def READER_INC_def)
  then have "rw_reach 2 2 ([ReadCas 0 rw_new, Idle][0 := HoldRead])"
    by (intro rw_step[OF r1, where i = 0]) simp_all
  then have r2: "rw_reach 2 2 [HoldRead, Idle]" by simp
  have "rw_get_value 2 = rw_get_value rw_new"
    using rw_value_stable[OF r1 _ _ _ st, of 1] by simp
  then show ?thesis using r2 by (simp add: rw_thread_step_def rw_get_value_def rw_new_def)
qed

end
