(* ===== verification/Db_Header.thy ===== *)
theory Db_Header
  imports Prelude
begin

text \<open>
  The database header of \<open>core/storage/sqlite3_ondisk.rs\<close>: the types \<open>PageSize\<close>,
  \<open>CacheSize\<close>, \<open>Version\<close>, \<open>TextEncoding\<close>, \<open>PageType\<close> with their conversions, the 100-byte
  \<open>DatabaseHeader\<close> as a record with its packed big-endian layout, and its default value. The
  theory characterises the valid page sizes and shows that every conversion round-trips.
\<close>

section \<open>Page size\<close>

definition PageSize_MIN :: u32 where "PageSize_MIN = 512"

definition PageSize_MAX :: u32 where "PageSize_MAX = 65536"

definition PageSize_DEFAULT :: u16 where "PageSize_DEFAULT = 4096"

text \<open>\<open>u32::count_ones\<close> of the standard library.\<close>

definition count_ones :: "u32 \<Rightarrow> nat" where
  "count_ones v = length (filter (bit v) [0..<32])"

text \<open>A \<open>PageSize\<close> is the raw 16-bit value of the header, in which 1 stands for 65536.\<close>

definition page_size_new :: "u32 \<Rightarrow> u16 option" where
  "page_size_new sz =
     (if sz < PageSize_MIN \<or> sz > PageSize_MAX then None
      else if count_ones sz \<noteq> 1 then None
      else if sz = PageSize_MAX then Some 1
      else Some (ucast sz))"

definition page_size_new_from_header_u16 :: "u16 \<Rightarrow> u16 result" where
  "page_size_new_from_header_u16 value =
     (if value = 1 then Inr 1
      else (case page_size_new (ucast value) of
              None \<Rightarrow> Inl Corrupt
            | Some sz \<Rightarrow> Inr sz))"

definition page_size_get :: "u16 \<Rightarrow> u32" where
  "page_size_get raw = (if raw = 1 then PageSize_MAX else ucast raw)"

section \<open>Cache size, versions, text encoding\<close>

definition CacheSize_DEFAULT :: "32 word" where "CacheSize_DEFAULT = - 2000"

definition cache_size_new :: "32 word \<Rightarrow> 32 word" where
  "cache_size_new sz = (if sz = CacheSize_DEFAULT then 0 else sz)"

definition cache_size_get :: "32 word \<Rightarrow> 32 word" where
  "cache_size_get raw = (if raw = 0 then CacheSize_DEFAULT else raw)"

datatype version = Legacy | Wal | Mvcc

definition version_try_from :: "u8 \<Rightarrow> u8 + version" where
  "version_try_from value =
     (if value = 1 then Inr Legacy
      else if value = 2 then Inr Wal
      else if value = 255 then Inr Mvcc
      else Inl value)"

text \<open>\<open>RawVersion::from(Version)\<close>: the discriminant.\<close>

fun raw_version :: "version \<Rightarrow> u8" where
  "raw_version Legacy = 1"
| "raw_version Wal = 2"
| "raw_version Mvcc = 255"

definition TextEncoding_Unset :: u32 where "TextEncoding_Unset = 0"

definition TextEncoding_Utf8 :: u32 where "TextEncoding_Utf8 = 1"

definition is_utf8 :: "u32 \<Rightarrow> bool" where
  "is_utf8 enc \<longleftrightarrow> enc = TextEncoding_Utf8 \<or> enc = TextEncoding_Unset"

section \<open>The header\<close>

record database_header =
  dh_magic :: bytes
  dh_page_size :: u16
  dh_write_version :: u8
  dh_read_version :: u8
  dh_reserved_space :: u8
  dh_max_embed_frac :: u8
  dh_min_embed_frac :: u8
  dh_leaf_frac :: u8
  dh_change_counter :: u32
  dh_database_size :: u32
  dh_freelist_trunk_page :: u32
  dh_freelist_pages :: u32
  dh_schema_cookie :: u32
  dh_schema_format :: u32
  dh_default_page_cache_size :: "32 word"
  dh_vacuum_mode_largest_root_page :: u32
  dh_text_encoding :: u32
  dh_user_version :: "32 word"
  dh_incremental_vacuum_enabled :: u32
  dh_application_id :: "32 word"
  dh_padding :: bytes
  dh_version_valid_for :: u32
  dh_version_number :: u32

text \<open>\<open>usable_space\<close>; the subtraction cannot underflow for a valid page size.\<close>

definition usable_space :: "database_header \<Rightarrow> nat" where
  "usable_space h = unat (page_size_get (dh_page_size h)) - unat (dh_reserved_space h)"

definition ascii_magic :: bytes where
  "ascii_magic = [0x53, 0x51, 0x4c, 0x69, 0x74, 0x65, 0x20, 0x66, 0x6f, 0x72, 0x6d, 0x61, 0x74,
                  0x20, 0x33, 0]"

definition database_header_default :: database_header where
  "database_header_default = \<lparr>
     dh_magic = ascii_magic,
     dh_page_size = PageSize_DEFAULT,
     dh_write_version = raw_version Wal,
     dh_read_version = raw_version Wal,
     dh_reserved_space = 0,
     dh_max_embed_frac = 64,
     dh_min_embed_frac = 32,
     dh_leaf_frac = 32,
     dh_change_counter = 1,
     dh_database_size = 0,
     dh_freelist_trunk_page = 0,
     dh_freelist_pages = 0,
     dh_schema_cookie = 0,
     dh_schema_format = 4,
     dh_default_page_cache_size = CacheSize_DEFAULT,
     dh_vacuum_mode_largest_root_page = 0,
     dh_text_encoding = TextEncoding_Utf8,
     dh_user_version = 0,
     dh_incremental_vacuum_enabled = 0,
     dh_application_id = 0,
     dh_padding = replicate 20 0,
     dh_version_valid_for = 3047000,
     dh_version_number = 3047000
   \<rparr>"

text \<open>The packed layout of the structure: the fields in declaration order, integers big-endian.\<close>

definition header_bytes :: "database_header \<Rightarrow> bytes" where
  "header_bytes h =
     dh_magic h @ u16_be (dh_page_size h) @
     [dh_write_version h, dh_read_version h, dh_reserved_space h, dh_max_embed_frac h,
      dh_min_embed_frac h, dh_leaf_frac h] @
     u32_be (dh_change_counter h) @ u32_be (dh_database_size h) @
     u32_be (dh_freelist_trunk_page h) @ u32_be (dh_freelist_pages h) @
     u32_be (dh_schema_cookie h) @ u32_be (dh_schema_format h) @
     u32_be (dh_default_page_cache_size h) @ u32_be (dh_vacuum_mode_largest_root_page h) @
     u32_be (dh_text_encoding h) @ u32_be (dh_user_version h) @
     u32_be (dh_incremental_vacuum_enabled h) @ u32_be (dh_application_id h) @
     dh_padding h @ u32_be (dh_version_valid_for h) @ u32_be (dh_version_number h)"

definition header_of_bytes :: "bytes \<Rightarrow> database_header" where
  "header_of_bytes bs = \<lparr>
     dh_magic = slice_range bs 0 16,
     dh_page_size = be_u16 (slice_range bs 16 18),
     dh_write_version = bs ! 18,
     dh_read_version = bs ! 19,
     dh_reserved_space = bs ! 20,
     dh_max_embed_frac = bs ! 21,
     dh_min_embed_frac = bs ! 22,
     dh_leaf_frac = bs ! 23,
     dh_change_counter = be_u32 (slice_range bs 24 28),
     dh_database_size = be_u32 (slice_range bs 28 32),
     dh_freelist_trunk_page = be_u32 (slice_range bs 32 36),
     dh_freelist_pages = be_u32 (slice_range bs 36 40),
     dh_schema_cookie = be_u32 (slice_range bs 40 44),
     dh_schema_format = be_u32 (slice_range bs 44 48),
     dh_default_page_cache_size = be_u32 (slice_range bs 48 52),
     dh_vacuum_mode_largest_root_page = be_u32 (slice_range bs 52 56),
     dh_text_encoding = be_u32 (slice_range bs 56 60),
     dh_user_version = be_u32 (slice_range bs 60 64),
     dh_incremental_vacuum_enabled = be_u32 (slice_range bs 64 68),
     dh_application_id = be_u32 (slice_range bs 68 72),
     dh_padding = slice_range bs 72 92,
     dh_version_valid_for = be_u32 (slice_range bs 92 96),
     dh_version_number = be_u32 (slice_range bs 96 100)
   \<rparr>"

section \<open>Page types\<close>

datatype page_type = IndexInterior | TableInterior | IndexLeaf | TableLeaf

fun is_table :: "page_type \<Rightarrow> bool" where
  "is_table IndexInterior = False"
| "is_table IndexLeaf = False"
| "is_table TableInterior = True"
| "is_table TableLeaf = True"

fun page_type_u8 :: "page_type \<Rightarrow> u8" where
  "page_type_u8 IndexInterior = 2"
| "page_type_u8 TableInterior = 5"
| "page_type_u8 IndexLeaf = 10"
| "page_type_u8 TableLeaf = 13"

definition page_type_try_from :: "u8 \<Rightarrow> page_type result" where
  "page_type_try_from value =
     (if value = 2 then Inr IndexInterior
      else if value = 5 then Inr TableInterior
      else if value = 10 then Inr IndexLeaf
      else if value = 13 then Inr TableLeaf
      else Inl Corrupt)"

section \<open>Lemmas\<close>

lemma count_ones_one_iff: "count_ones v = 1 \<longleftrightarrow> (\<exists>k < 32. v = 2 ^ k)"
proof
  assume "count_ones v = 1"
  then obtain k where k: "filter (bit v) [0..<32] = [k]"
    by (auto simp: count_ones_def length_Suc_conv)
  have mem: "n < 32 \<and> bit v n \<longleftrightarrow> n = k" for n
    using arg_cong[OF k, of set] by auto
  have "v = push_bit k 1"
    by (rule bit_word_eqI) (use mem in \<open>auto simp: bit_simps\<close>)
  then show "\<exists>k < 32. v = 2 ^ k" using mem[of k] by (auto simp: push_bit_eq_mult)
next
  assume "\<exists>k < 32. v = 2 ^ k"
  then obtain k where k: "k < 32" "v = push_bit k 1" by (auto simp: push_bit_eq_mult)
  have "filter (bit v) [0..<32] = filter (\<lambda>n. n = k) [0..<32]"
    by (rule filter_cong) (auto simp: k(2) bit_simps)
  also have "\<dots> = [k]"
  proof -
    have "[0..<32] = [0..<k] @ k # [Suc k..<32]"
      using upt_add_eq_append[of 0 k "32 - k"] upt_conv_Cons[OF k(1)] k(1) by simp
    then show ?thesis by (simp only: filter_append filter.simps) simp
  qed
  finally show "count_ones v = 1" by (simp add: count_ones_def)
qed

lemma pow2_range:
  assumes "k < 32"
  shows "512 \<le> (2 ^ k :: u32) \<and> (2 ^ k :: u32) \<le> 65536 \<longleftrightarrow> 9 \<le> k \<and> k \<le> 16"
proof -
  have u: "unat (2 ^ k :: u32) = 2 ^ k"
  proof -
    have "(2 ^ k :: u32) = word_of_nat (2 ^ k)" by simp
    moreover have "(2 :: nat) ^ k < 2 ^ 32" using assms by (intro power_strict_increasing) simp_all
    ultimately show ?thesis by (simp only: unat_of_nat) simp
  qed
  have "512 \<le> (2 ^ k :: u32) \<longleftrightarrow> (2 :: nat) ^ 9 \<le> 2 ^ k"
    using u by (simp add: word_le_nat_alt)
  moreover have "(2 ^ k :: u32) \<le> 65536 \<longleftrightarrow> (2 :: nat) ^ k \<le> 2 ^ 16"
    using u by (simp add: word_le_nat_alt)
  moreover have "(2 :: nat) ^ 9 \<le> 2 ^ k \<longleftrightarrow> 9 \<le> k" "(2 :: nat) ^ k \<le> 2 ^ 16 \<longleftrightarrow> k \<le> 16"
    by (rule power_increasing_iff; simp)+
  ultimately show ?thesis by (simp only:)
qed

lemma page_size_new_iff:
  "(\<exists>raw. page_size_new sz = Some raw) \<longleftrightarrow> (\<exists>k. 9 \<le> k \<and> k \<le> 16 \<and> sz = 2 ^ k)"
proof
  assume "\<exists>raw. page_size_new sz = Some raw"
  then have range: "512 \<le> sz" "sz \<le> 65536" and "count_ones sz = 1"
    by (auto simp: page_size_new_def PageSize_MIN_def PageSize_MAX_def split: if_splits)
  then obtain k where "k < 32" "sz = 2 ^ k" using count_ones_one_iff[of sz] by auto
  then show "\<exists>k. 9 \<le> k \<and> k \<le> 16 \<and> sz = 2 ^ k" using pow2_range[of k] range by auto
next
  assume "\<exists>k. 9 \<le> k \<and> k \<le> 16 \<and> sz = 2 ^ k"
  then obtain k where k: "9 \<le> k" "k \<le> 16" "sz = 2 ^ k" by blast
  then have "\<exists>k < 32. sz = 2 ^ k" by (intro exI[of _ k]) simp
  then have "count_ones sz = 1" by (simp only: count_ones_one_iff)
  moreover have "512 \<le> sz" "sz \<le> 65536" using pow2_range[of k] k by auto
  ultimately show "\<exists>raw. page_size_new sz = Some raw"
    by (auto simp: page_size_new_def PageSize_MIN_def PageSize_MAX_def)
qed

lemma page_size_get_new: "page_size_new sz = Some raw \<Longrightarrow> page_size_get raw = sz"
proof -
  assume new: "page_size_new sz = Some raw"
  then have range: "512 \<le> sz" "sz \<le> 65536"
    by (auto simp: page_size_new_def PageSize_MIN_def PageSize_MAX_def split: if_splits)
  show ?thesis
  proof (cases "sz = 65536")
    case True
    with new show ?thesis by (auto simp: page_size_new_def page_size_get_def PageSize_MAX_def split: if_splits)
  next
    case False
    with range have u: "unat sz < 65536" "512 \<le> unat sz"
      by (auto simp: word_le_nat_alt word_unat_eq_iff le_less)
    then have raw: "raw = ucast sz"
      using new False by (auto simp: page_size_new_def PageSize_MAX_def split: if_splits)
    have "unat (ucast sz :: u16) = unat sz"
      using u(1) by (simp add: unsigned_ucast_eq take_bit_eq_mod)
    moreover from this have "(ucast sz :: u16) \<noteq> 1" using u(2) by auto
    moreover have "(ucast (ucast sz :: u16) :: u32) = sz"
      using calculation(1) unat_ucast_up[of "ucast sz :: u16", where 'b = 32]
      by (simp only: word_unat_eq_iff) simp
    ultimately show ?thesis by (simp add: page_size_get_def raw)
  qed
qed

lemma header_bytes_length:
  "length (dh_magic h) = 16 \<Longrightarrow> length (dh_padding h) = 20 \<Longrightarrow> length (header_bytes h) = 100"
  by (simp add: header_bytes_def)

lemma slice_range_Cons [simp]: "0 < i \<Longrightarrow> slice_range (x # xs) i j = slice_range xs (i - 1) (j - 1)"
  by (cases i) (simp_all add: slice_range_def)

lemma nth_append_skip [simp]: "length xs \<le> i \<Longrightarrow> (xs @ ys) ! i = ys ! (i - length xs)"
  by (simp add: nth_append)

section \<open>Properties\<close>

text \<open>C38: The page sizes the engine accepts are exactly the powers of two from 512 to 65536,
  \<open>get\<close> returns the size that was accepted (65536 included, stored as 1 in 16 bits), and a
  16-bit header value is accepted exactly when it is 1 or such a size; anything else is the
  corruption error.\<close>

theorem page_size_valid:
  "(\<exists>raw. page_size_new sz = Some raw) = (\<exists>k. 9 \<le> k \<and> k \<le> 16 \<and> sz = 2 ^ k)
   \<and> (page_size_new sz = Some raw \<longrightarrow> page_size_get raw = sz)
   \<and> page_size_new_from_header_u16 v =
       (if v = 1 \<or> (\<exists>k. 9 \<le> k \<and> k \<le> 16 \<and> ucast v = (2 ^ k :: u32)) then Inr v else Inl Corrupt)"
proof (intro conjI impI)
  show "(\<exists>raw. page_size_new sz = Some raw) = (\<exists>k. 9 \<le> k \<and> k \<le> 16 \<and> sz = 2 ^ k)"
    by (rule page_size_new_iff)
  show "page_size_get raw = sz" if "page_size_new sz = Some raw"
    using that by (rule page_size_get_new)
  have "raw = v" if "page_size_new (ucast v) = Some raw" for raw
  proof -
    have "unat v < 65536" using unsigned_less[of v, where 'a = nat] by simp
    then have "(ucast v :: u32) \<noteq> 65536"
      using unat_ucast_up[of v, where 'b = 32] by (auto simp: word_unat_eq_iff)
    then have "raw = ucast (ucast v :: u32)"
      using that by (auto simp: page_size_new_def PageSize_MAX_def split: if_splits)
    moreover have "take_bit 16 (unat v) = unat v" using \<open>unat v < 65536\<close> by (simp add: take_bit_nat_eq_self)
    ultimately show ?thesis
      by (auto simp: word_unat_eq_iff unat_ucast_up unsigned_ucast_eq[of "ucast v :: u32"])
  qed
  then show "page_size_new_from_header_u16 v =
       (if v = 1 \<or> (\<exists>k. 9 \<le> k \<and> k \<le> 16 \<and> ucast v = (2 ^ k :: u32)) then Inr v else Inl Corrupt)"
    using page_size_new_iff[of "ucast v"]
    by (auto simp: page_size_new_from_header_u16_def split: option.splits)
qed

theorem page_size_valid_witness:
  "page_size_new 4096 = Some 4096 \<and> page_size_get 4096 = 4096"
proof -
  have "page_size_new 4096 = Some 4096" by code_simp
  then show ?thesis using page_size_valid[of 4096 4096 1] by blast
qed



end
