(* ===== verification/Wal_Format.thy ===== *)
theory Wal_Format
  imports Db_Header
begin

text \<open>
  The format of the write-ahead log, \<open>core/storage/sqlite3_ondisk.rs\<close>: \<open>WalHeader\<close>,
  \<open>WalFrameHeader\<close>, \<open>checksum_wal\<close>, \<open>prepare_wal_frame\<close>, \<open>parse_wal_frame_header\<close> and the
  header image of \<open>begin_write_wal_header\<close>. The byte order of the target
  (\<open>cfg!(target_endian)\<close>) is the parameter \<open>big\<close> of the definitions that depend on it.
\<close>

section \<open>Headers\<close>

definition WAL_HEADER_SIZE :: nat where "WAL_HEADER_SIZE = 32"

definition WAL_FRAME_HEADER_SIZE :: nat where "WAL_FRAME_HEADER_SIZE = 24"

definition WAL_MAGIC_LE :: u32 where "WAL_MAGIC_LE = 0x377f0682"

definition WAL_MAGIC_BE :: u32 where "WAL_MAGIC_BE = 0x377f0683"

record wal_header =
  wh_magic :: u32
  wh_file_format :: u32
  wh_page_size :: u32
  wh_checkpoint_seq :: u32
  wh_salt_1 :: u32
  wh_salt_2 :: u32
  wh_checksum_1 :: u32
  wh_checksum_2 :: u32

definition wal_header_new :: "bool \<Rightarrow> wal_header" where
  "wal_header_new big = \<lparr>
     wh_magic = (if big then WAL_MAGIC_BE else WAL_MAGIC_LE),
     wh_file_format = 3007000,
     wh_page_size = 0,
     wh_checkpoint_seq = 0,
     wh_salt_1 = 0,
     wh_salt_2 = 0,
     wh_checksum_1 = 0,
     wh_checksum_2 = 0
   \<rparr>"

record wal_frame_header =
  fh_page_number :: u32
  fh_db_size :: u32
  fh_salt_1 :: u32
  fh_salt_2 :: u32
  fh_checksum_1 :: u32
  fh_checksum_2 :: u32

definition is_commit_frame :: "wal_frame_header \<Rightarrow> bool" where
  "is_commit_frame h \<longleftrightarrow> fh_db_size h > 0"

section \<open>Checksums\<close>

text \<open>\<open>from_ne_bytes\<close>, \<open>to_ne_bytes\<close> and \<open>swap_bytes\<close> of the standard library.\<close>

definition u32_from_ne :: "bool \<Rightarrow> bytes \<Rightarrow> u32" where
  "u32_from_ne big bs = word_of_nat (if big then from_be bs else from_le bs)"

definition u32_to_ne :: "bool \<Rightarrow> u32 \<Rightarrow> bytes" where
  "u32_to_ne big w = (if big then be_bytes 4 (unat w) else le_bytes 4 (unat w))"

definition swap_bytes :: "u32 \<Rightarrow> u32" where
  "swap_bytes w = word_of_nat (from_le (be_bytes 4 (unat w)))"

text \<open>One 32-bit input of the checksum: read in native order, swapped when the log has the other
  order.\<close>

definition checksum_word :: "bool \<Rightarrow> bool \<Rightarrow> bytes \<Rightarrow> u32" where
  "checksum_word big native_endian bs =
     (if native_endian then u32_from_ne big bs else swap_bytes (u32_from_ne big bs))"

function checksum_loop :: "bool \<Rightarrow> bool \<Rightarrow> bytes \<Rightarrow> u32 \<Rightarrow> u32 \<Rightarrow> u32 \<times> u32" where
  "checksum_loop big native_endian buf s0 s1 =
     (if buf = [] then (s0, s1)
      else (let v0 = checksum_word big native_endian (slice_range buf 0 4);
                v1 = checksum_word big native_endian (slice_range buf 4 8);
                s0' = s0 + (v0 + s1);
                s1' = s1 + (v1 + s0')
            in checksum_loop big native_endian (drop 8 buf) s0' s1'))"
  by pat_completeness auto
termination
  by (relation "measure (\<lambda>(big, native_endian, buf, s0, s1). length buf)") auto

declare checksum_loop.simps [simp del]

text \<open>\<open>None\<close> is the failed assertion on the length.\<close>

definition checksum_wal :: "bool \<Rightarrow> bytes \<Rightarrow> u32 \<times> u32 \<Rightarrow> bool \<Rightarrow> (u32 \<times> u32) option" where
  "checksum_wal big buf input native_endian =
     (if length buf mod 8 \<noteq> 0 then None
      else Some (checksum_loop big native_endian buf (fst input) (snd input)))"

section \<open>Images\<close>

text \<open>\<open>WalHeader::as_bytes\<close>: the \<open>repr(C)\<close> structure in native byte order.\<close>

definition wal_header_as_bytes :: "bool \<Rightarrow> wal_header \<Rightarrow> bytes" where
  "wal_header_as_bytes big h =
     u32_to_ne big (wh_magic h) @ u32_to_ne big (wh_file_format h) @
     u32_to_ne big (wh_page_size h) @ u32_to_ne big (wh_checkpoint_seq h) @
     u32_to_ne big (wh_salt_1 h) @ u32_to_ne big (wh_salt_2 h) @
     u32_to_ne big (wh_checksum_1 h) @ u32_to_ne big (wh_checksum_2 h)"

text \<open>The buffer \<open>begin_write_wal_header\<close> writes at offset 0 of the log.\<close>

definition wal_header_image :: "wal_header \<Rightarrow> bytes" where
  "wal_header_image h =
     u32_be (wh_magic h) @ u32_be (wh_file_format h) @
     u32_be (wh_page_size h) @ u32_be (wh_checkpoint_seq h) @
     u32_be (wh_salt_1 h) @ u32_be (wh_salt_2 h) @
     u32_be (wh_checksum_1 h) @ u32_be (wh_checksum_2 h)"

definition parse_wal_frame_header :: "bytes \<Rightarrow> (wal_frame_header \<times> bytes) option" where
  "parse_wal_frame_header frame =
     (if length frame < WAL_FRAME_HEADER_SIZE then None
      else Some (\<lparr>
        fh_page_number = be_u32 (slice_range frame 0 4),
        fh_db_size = be_u32 (slice_range frame 4 8),
        fh_salt_1 = be_u32 (slice_range frame 8 12),
        fh_salt_2 = be_u32 (slice_range frame 12 16),
        fh_checksum_1 = be_u32 (slice_range frame 16 20),
        fh_checksum_2 = be_u32 (slice_range frame 20 24)
      \<rparr>, drop WAL_FRAME_HEADER_SIZE frame))"

text \<open>\<open>prepare_wal_frame\<close>: the frame buffer of the pool has \<open>24 + page_size\<close> bytes, so copying
  a page of another length panics.\<close>

definition prepare_wal_frame ::
    "bool \<Rightarrow> wal_header \<Rightarrow> u32 \<times> u32 \<Rightarrow> u32 \<Rightarrow> u32 \<Rightarrow> u32 \<Rightarrow> bytes \<Rightarrow> ((u32 \<times> u32) \<times> bytes) option" where
  "prepare_wal_frame big wal_hdr prev_checksums page_size page_number db_size page =
     (if length page \<noteq> unat page_size then None
      else (let expects_be = (wh_magic wal_hdr AND 1 = 1);
                use_native_endian = (big = expects_be)
            in do {
              header_checksum \<leftarrow>
                checksum_wal big (u32_be page_number @ u32_be db_size) prev_checksums use_native_endian;
              final_checksum \<leftarrow> checksum_wal big page header_checksum use_native_endian;
              Some (final_checksum,
                u32_be page_number @ u32_be db_size @ u32_be (wh_salt_1 wal_hdr) @
                u32_be (wh_salt_2 wal_hdr) @ u32_be (fst final_checksum) @
                u32_be (snd final_checksum) @ page)
            }))"

text \<open>The checksum \<open>prepare_wal_header\<close> stores in the header: over the first 24 bytes of the
  structure in memory.\<close>

definition wal_header_seal :: "bool \<Rightarrow> wal_header \<Rightarrow> wal_header option" where
  "wal_header_seal big h =
     do {
       (c1, c2) \<leftarrow> checksum_wal big (slice_range (wal_header_as_bytes big h) 0 (WAL_HEADER_SIZE - 8)) (0, 0)
                    (wh_magic h AND 1 \<noteq> 0);
       Some (h\<lparr>wh_checksum_1 := c1, wh_checksum_2 := c2\<rparr>)
     }"

section \<open>Lemmas\<close>

lemma checksum_wal_Some: "length buf mod 8 = 0 \<Longrightarrow> \<exists>c. checksum_wal big buf i n = Some c"
  by (simp add: checksum_wal_def)

lemma checksum_loop_append:
  assumes "length xs mod 8 = 0"
  shows "checksum_loop big n (xs @ ys) s0 s1 =
         (let (t0, t1) = checksum_loop big n xs s0 s1 in checksum_loop big n ys t0 t1)"
  using assms
proof (induction big n xs s0 s1 rule: checksum_loop.induct)
  case (1 big n buf s0 s1)
  show ?case
  proof (cases "buf = []")
    case True
    then show ?thesis by (simp add: checksum_loop.simps[of big n "[]"])
  next
    case False
    with 1(2) have len: "8 \<le> length buf"
      by (cases "length buf < 8") auto
    then have "slice_range (buf @ ys) 0 4 = slice_range buf 0 4"
      "slice_range (buf @ ys) 4 8 = slice_range buf 4 8" "drop 8 (buf @ ys) = drop 8 buf @ ys"
      by (simp_all add: slice_range_def)
    moreover have "length (drop 8 buf) mod 8 = 0" using 1(2) len by (simp add: le_mod_geq)
    ultimately show ?thesis using False 1(1)[OF False refl refl refl refl]
      by (simp only: checksum_loop.simps[of big n buf] checksum_loop.simps[of big n "buf @ ys"]
          Let_def append_is_Nil_conv) simp
  qed
qed

lemma from_le_le_bytes: "from_le (le_bytes n v) = v mod 256 ^ n"
  by (simp add: from_le_def le_bytes_def)

lemma unat_u32_mod: "unat (w :: u32) mod 256 ^ 4 = unat w"
  using unsigned_less[of w, where 'a = nat] by simp

lemma u32_from_to_ne [simp]: "u32_from_ne big (u32_to_ne big w) = w"
  unfolding u32_from_ne_def u32_to_ne_def
  by (cases big) (simp_all only: if_True if_False from_be_be_bytes from_le_le_bytes unat_u32_mod word_of_nat_unat)

lemma length_u32_to_ne [simp]: "length (u32_to_ne big w) = 4"
  by (simp add: u32_to_ne_def)

text \<open>The checksum of the header in memory is the checksum of its image in the log.\<close>

lemma checksum_word_native: "checksum_word big big (u32_to_ne big w) = checksum_word big True (u32_be w)"
proof (cases big)
  case False
  have "u32_from_ne False (u32_to_ne False w) = w" by (rule u32_from_to_ne)
  with False show ?thesis
    by (simp add: checksum_word_def swap_bytes_def u32_be_def
        u32_from_ne_def[of False "be_bytes 4 (unat w)"])
qed (simp add: checksum_word_def u32_be_def u32_to_ne_def)

lemma checksum_loop_two:
  assumes "length a = 4" "length b = 4"
  shows "checksum_loop big n (a @ b @ rest) s0 s1 =
    (let s0' = s0 + (checksum_word big n a + s1); s1' = s1 + (checksum_word big n b + s0')
     in checksum_loop big n rest s0' s1')"
proof -
  have "a @ b @ rest \<noteq> []" using assms by auto
  moreover have "slice_range (a @ b @ rest) 0 4 = a" "slice_range (a @ b @ rest) 4 8 = b"
    "drop 8 (a @ b @ rest) = rest"
    using assms by (simp_all add: slice_range_def)
  ultimately show ?thesis
    by (subst checksum_loop.simps) (simp only: if_False Let_def)
qed

lemma checksum_loop_native:
  "checksum_loop big big (u32_to_ne big a @ u32_to_ne big b @ xs) s0 s1 =
   checksum_loop big True (u32_be a @ u32_be b @ ys) s0 s1"
  if "\<And>s0 s1. checksum_loop big big xs s0 s1 = checksum_loop big True ys s0 s1"
  using that by (simp add: checksum_loop_two checksum_word_native Let_def)

lemma magic_parity:
  "WAL_MAGIC_BE AND 1 = 1" "WAL_MAGIC_LE AND 1 = 0"
  by (simp_all add: WAL_MAGIC_BE_def WAL_MAGIC_LE_def)

lemma length_wal_header_image [simp]: "length (wal_header_image h) = 32"
  by (simp add: wal_header_image_def)

lemma sealed_header_checksum:
  assumes "wal_header_seal big h = Some h'"
    and "wh_magic h = (if big then WAL_MAGIC_BE else WAL_MAGIC_LE)"
  shows "checksum_wal big (slice_range (wal_header_image h') 0 24) (0, 0) True =
           Some (wh_checksum_1 h', wh_checksum_2 h')"
proof -
  let ?w = "[wh_magic h, wh_file_format h, wh_page_size h, wh_checkpoint_seq h, wh_salt_1 h, wh_salt_2 h]"
  have n: "(wh_magic h AND 1 \<noteq> 0) = big"
    using assms(2) magic_parity by (cases big) simp_all
  have nil: "checksum_loop big n [] s0 s1 = (s0, s1)" for n s0 s1
    by (subst checksum_loop.simps) simp
  have mem: "slice_range (wal_header_as_bytes big h) 0 (WAL_HEADER_SIZE - 8) =
      concat (map (u32_to_ne big) ?w)"
    by (simp add: wal_header_as_bytes_def WAL_HEADER_SIZE_def slice_range_def)
  have img: "slice_range (wal_header_image h') 0 24 = concat (map u32_be ?w)"
    using assms(1) unfolding wal_header_seal_def
    by (auto simp: wal_header_image_def slice_range_def split: bind_splits)
  have "checksum_loop big big (concat (map (u32_to_ne big) ?w)) 0 0 =
      checksum_loop big True (concat (map u32_be ?w)) 0 0"
    unfolding list.map concat.simps by (intro checksum_loop_native) (simp add: nil)
  then show ?thesis
    using assms(1) unfolding wal_header_seal_def mem n img
    by (auto simp: checksum_wal_def split: bind_splits prod.splits)
qed

end
