(* ===== verification/Wal_Shared.thy ===== *)
theory Wal_Shared
  imports Rw_Lock Wal_Format
begin

text \<open>
  The state every connection to one log shares, \<open>WalFileShared\<close> of \<open>core/storage/wal.rs\<close>:
  \<open>WalSharedMetadata\<close> and \<open>WalSharedRuntime\<close> in one record, the frame cache (page number to
  the frames that hold it) as an association list, and the initial state with its five read
  marks. Frame numbers are natural numbers; page numbers are natural numbers as well.
\<close>

section \<open>The frame cache\<close>

type_synonym frame_cache = "(nat \<times> nat list) list"

text \<open>\<open>entry(page).or_default().extend(frames)\<close>.\<close>

fun fc_extend :: "frame_cache \<Rightarrow> nat \<Rightarrow> nat list \<Rightarrow> frame_cache" where
  "fc_extend [] page frames = [(page, frames)]"
| "fc_extend ((p, fs) # cache) page frames =
     (if p = page then (p, fs @ frames) # cache else (p, fs) # fc_extend cache page frames)"

definition fc_get :: "frame_cache \<Rightarrow> nat \<Rightarrow> nat list" where
  "fc_get cache page = (case map_of cache page of None \<Rightarrow> [] | Some fs \<Rightarrow> fs)"

definition fc_keys :: "frame_cache \<Rightarrow> nat set" where
  "fc_keys cache = fst ` set cache"

lemma fc_get_Nil [simp]: "fc_get [] page = []"
  by (simp add: fc_get_def)

lemma fc_get_Cons: "fc_get ((p, fs) # cache) page = (if p = page then fs else fc_get cache page)"
  by (simp add: fc_get_def)

lemma fc_get_extend [simp]:
  "fc_get (fc_extend cache page frames) q =
     (if q = page then fc_get cache page @ frames else fc_get cache q)"
  by (induction cache page frames rule: fc_extend.induct) (auto simp: fc_get_Cons)

lemma fc_extend_keys [simp]: "fst ` set (fc_extend cache page frames) = insert page (fst ` set cache)"
  by (induction cache page frames rule: fc_extend.induct) auto

lemma fc_extend_distinct [simp]:
  "distinct (map fst cache) \<Longrightarrow> distinct (map fst (fc_extend cache page frames))"
  by (induction cache page frames rule: fc_extend.induct) (auto simp: image_iff)

lemma fc_get_absent: "page \<notin> fst ` set cache \<Longrightarrow> fc_get cache page = []"
  by (induction cache) (auto simp: fc_get_Cons)

lemma fc_get_member:
  "distinct (map fst cache) \<Longrightarrow> (p, fs) \<in> set cache \<Longrightarrow> fc_get cache p = fs"
  by (simp add: fc_get_def)

lemma fc_get_map:
  "fc_get (map (\<lambda>(p, fs). (p, f fs)) cache) page =
     (if page \<in> fst ` set cache then f (fc_get cache page) else [])"
  by (induction cache) (force simp: fc_get_Cons)+

lemma fc_get_filter_nonempty:
  "fc_get (filter (\<lambda>(p, fs). fs \<noteq> []) cache) page = fc_get cache page"
  if "distinct (map fst cache)"
  using that
proof (induction cache)
  case Nil
  show ?case by simp
next
  case (Cons e cache)
  obtain p fs where e: "e = (p, fs)" by (cases e)
  have "p \<notin> fst ` set (filter (\<lambda>(p, fs). fs \<noteq> []) cache)" using Cons.prems e by auto
  then show ?case using Cons e fc_get_absent[of p] by (auto simp: fc_get_Cons image_iff)
qed

section \<open>Fallback coverage\<close>

record overflow_fallback_coverage =
  cov_checkpoint_seq :: u32
  cov_salt_1 :: u32
  cov_salt_2 :: u32
  cov_max_frame :: nat
  cov_valid :: bool

definition coverage_default :: overflow_fallback_coverage where
  "coverage_default = \<lparr> cov_checkpoint_seq = 0, cov_salt_1 = 0, cov_salt_2 = 0,
     cov_max_frame = 0, cov_valid = False \<rparr>"

definition coverage_clear :: "overflow_fallback_coverage \<Rightarrow> overflow_fallback_coverage" where
  "coverage_clear c = coverage_default"

definition coverage_record ::
    "overflow_fallback_coverage \<Rightarrow> u32 \<Rightarrow> u32 \<Rightarrow> u32 \<Rightarrow> nat \<Rightarrow> overflow_fallback_coverage" where
  "coverage_record c checkpoint_seq salt_1 salt_2 max_frame =
     (if max_frame = 0 then coverage_clear c
      else c\<lparr> cov_checkpoint_seq := checkpoint_seq, cov_salt_1 := salt_1, cov_salt_2 := salt_2,
             cov_max_frame := max_frame, cov_valid := True \<rparr>)"

section \<open>The shared state\<close>

record wal_shared =
  ws_enabled :: bool
  ws_wal_header :: wal_header
  ws_min_frame :: nat
  ws_max_frame :: nat
  ws_nbackfills :: nat
  ws_transaction_count :: nat
  ws_last_checksum :: "u32 \<times> u32"
  ws_loaded :: bool
  ws_loaded_from_disk_scan :: bool
  ws_initialized :: bool
  ws_frame_cache :: frame_cache
  ws_file_open :: bool
  ws_read_locks :: "u64 list"
  ws_vacuum_lock :: u64
  ws_write_lock :: u64
  ws_checkpoint_lock :: u64
  ws_epoch :: u32
  ws_coverage :: overflow_fallback_coverage

text \<open>The five read locks a constructor builds: \<open>write\<close>, \<open>set_value_exclusive\<close>, \<open>unlock\<close> on a
  fresh lock each, the first two with the value 0 and the others unused.\<close>

definition init_read_lock :: "nat \<Rightarrow> u64 option" where
  "init_read_lock i =
     do {
       l \<leftarrow> rw_set_value_exclusive (snd (rw_write rw_new)) (if i < 2 then 0 else READMARK_NOT_USED);
       rw_unlock l
     }"

definition init_read_locks :: "u64 list" where
  "init_read_locks = List.map_filter init_read_lock [0..<5]"

definition wal_shared_new_noop :: "bool \<Rightarrow> wal_shared" where
  "wal_shared_new_noop big = \<lparr>
     ws_enabled = False, ws_wal_header = wal_header_new big, ws_min_frame = 0, ws_max_frame = 0,
     ws_nbackfills = 0, ws_transaction_count = 0, ws_last_checksum = (0, 0), ws_loaded = True,
     ws_loaded_from_disk_scan = False, ws_initialized = False, ws_frame_cache = [],
     ws_file_open = False, ws_read_locks = init_read_locks, ws_vacuum_lock = rw_new,
     ws_write_lock = rw_new, ws_checkpoint_lock = rw_new, ws_epoch = 0,
     ws_coverage = coverage_default
   \<rparr>"

lemma init_read_lock_eq: "init_read_lock i = Some (rw_mk (if i < 2 then 0 else READMARK_NOT_USED) 0 False)"
  by (simp add: init_read_lock_def rw_eqs rw_new_mk rw_simps)

lemma init_read_locks_eq:
  "init_read_locks = [rw_mk 0 0 False, rw_mk 0 0 False, rw_mk READMARK_NOT_USED 0 False,
     rw_mk READMARK_NOT_USED 0 False, rw_mk READMARK_NOT_USED 0 False]"
  by (simp add: init_read_locks_def map_filter_def init_read_lock_eq upt_rec numeral_eq_Suc)

end
