(* ===== verification/Wal_Coordination.thy ===== *)
theory Wal_Coordination
  imports Wal_Shared
begin

text \<open>
  \<open>InProcessWalCoordination\<close> of \<open>core/storage/wal.rs\<close>: the operations through which the
  connections of a process use the shared log state. An operation takes the shared state and
  returns it updated; \<open>None\<close> is a failed assertion (a panic), \<open>Inl\<close> an error value.
\<close>

section \<open>Types\<close>

record wal_snapshot =
  sn_max_frame :: nat
  sn_nbackfills :: nat
  sn_last_checksum :: "u32 \<times> u32"
  sn_checkpoint_seq :: u32
  sn_transaction_count :: nat

definition snapshot_min_frame :: "wal_snapshot \<Rightarrow> nat" where
  "snapshot_min_frame s = sn_nbackfills s + 1"

datatype read_guard_kind = NoGuard | DbFile | ReadMark nat

definition NO_LOCK_HELD :: nat where "NO_LOCK_HELD = 2 ^ 64 - 1"

definition guard_from_lock_index :: "nat \<Rightarrow> read_guard_kind" where
  "guard_from_lock_index idx =
     (if idx = NO_LOCK_HELD then NoGuard else if idx = 0 then DbFile else ReadMark idx)"

fun guard_lock_index :: "read_guard_kind \<Rightarrow> nat" where
  "guard_lock_index NoGuard = NO_LOCK_HELD"
| "guard_lock_index DbFile = 0"
| "guard_lock_index (ReadMark idx) = idx"

record wal_commit_state =
  cm_max_frame :: nat
  cm_last_checksum :: "u32 \<times> u32"
  cm_transaction_count :: nat

datatype checkpoint_guard_kind = Read0 | WriterGuard

datatype checkpoint_mode =
    Passive "nat option"
  | Full
  | Restart
  | Truncate "nat option"

fun should_restart_log :: "checkpoint_mode \<Rightarrow> bool" where
  "should_restart_log (Truncate ub) = True"
| "should_restart_log Restart = True"
| "should_restart_log m = False"

fun require_all_backfilled :: "checkpoint_mode \<Rightarrow> bool" where
  "require_all_backfilled (Passive ub) = False"
| "require_all_backfilled m = True"

section \<open>Locks\<close>

definition try_read_mark_shared :: "wal_shared \<Rightarrow> nat \<Rightarrow> bool \<times> wal_shared" where
  "try_read_mark_shared sh slot =
     (let (ok, l) = rw_read (ws_read_locks sh ! slot)
      in (ok, sh\<lparr>ws_read_locks := (ws_read_locks sh)[slot := l]\<rparr>))"

definition try_read_mark_exclusive :: "wal_shared \<Rightarrow> nat \<Rightarrow> bool \<times> wal_shared" where
  "try_read_mark_exclusive sh slot =
     (let (ok, l) = rw_write (ws_read_locks sh ! slot)
      in (ok, sh\<lparr>ws_read_locks := (ws_read_locks sh)[slot := l]\<rparr>))"

definition unlock_read_mark :: "wal_shared \<Rightarrow> nat \<Rightarrow> wal_shared option" where
  "unlock_read_mark sh slot =
     do {
       l \<leftarrow> rw_unlock (ws_read_locks sh ! slot);
       Some (sh\<lparr>ws_read_locks := (ws_read_locks sh)[slot := l]\<rparr>)
     }"

definition read_mark_value :: "wal_shared \<Rightarrow> nat \<Rightarrow> u32" where
  "read_mark_value sh slot = rw_get_value (ws_read_locks sh ! slot)"

definition set_read_mark_value_exclusive :: "wal_shared \<Rightarrow> nat \<Rightarrow> u32 \<Rightarrow> wal_shared option" where
  "set_read_mark_value_exclusive sh slot v =
     do {
       l \<leftarrow> rw_set_value_exclusive (ws_read_locks sh ! slot) v;
       Some (sh\<lparr>ws_read_locks := (ws_read_locks sh)[slot := l]\<rparr>)
     }"

definition try_upgrade_read_mark :: "wal_shared \<Rightarrow> nat \<Rightarrow> bool \<times> wal_shared" where
  "try_upgrade_read_mark sh slot =
     (let (ok, l) = rw_upgrade (ws_read_locks sh ! slot)
      in (ok, sh\<lparr>ws_read_locks := (ws_read_locks sh)[slot := l]\<rparr>))"

definition downgrade_read_mark :: "wal_shared \<Rightarrow> nat \<Rightarrow> wal_shared" where
  "downgrade_read_mark sh slot =
     sh\<lparr>ws_read_locks := (ws_read_locks sh)[slot := rw_downgrade (ws_read_locks sh ! slot)]\<rparr>"

definition try_write_lock :: "wal_shared \<Rightarrow> bool \<times> wal_shared" where
  "try_write_lock sh =
     (let (ok, l) = rw_write (ws_write_lock sh) in (ok, sh\<lparr>ws_write_lock := l\<rparr>))"

definition unlock_write_lock :: "wal_shared \<Rightarrow> wal_shared option" where
  "unlock_write_lock sh =
     do { l \<leftarrow> rw_unlock (ws_write_lock sh); Some (sh\<lparr>ws_write_lock := l\<rparr>) }"

definition try_checkpoint_lock :: "wal_shared \<Rightarrow> bool \<times> wal_shared" where
  "try_checkpoint_lock sh =
     (let (ok, l) = rw_write (ws_checkpoint_lock sh) in (ok, sh\<lparr>ws_checkpoint_lock := l\<rparr>))"

definition unlock_checkpoint_lock :: "wal_shared \<Rightarrow> wal_shared option" where
  "unlock_checkpoint_lock sh =
     do { l \<leftarrow> rw_unlock (ws_checkpoint_lock sh); Some (sh\<lparr>ws_checkpoint_lock := l\<rparr>) }"

section \<open>Metadata and the frame cache\<close>

definition load_snapshot :: "wal_shared \<Rightarrow> wal_snapshot" where
  "load_snapshot sh = \<lparr>
     sn_max_frame = ws_max_frame sh,
     sn_nbackfills = ws_nbackfills sh,
     sn_last_checksum = ws_last_checksum sh,
     sn_checkpoint_seq = wh_checkpoint_seq (ws_wal_header sh),
     sn_transaction_count = ws_transaction_count sh
   \<rparr>"

definition publish_commit :: "wal_shared \<Rightarrow> wal_commit_state \<Rightarrow> wal_shared" where
  "publish_commit sh commit =
     sh\<lparr>ws_max_frame := cm_max_frame commit,
        ws_last_checksum := cm_last_checksum commit,
        ws_transaction_count := cm_transaction_count commit\<rparr>"

definition publish_backfill :: "wal_shared \<Rightarrow> nat \<Rightarrow> wal_shared" where
  "publish_backfill sh max_frame = sh\<lparr>ws_nbackfills := max_frame\<rparr>"

text \<open>\<open>iter().rfind(pred)\<close>: the last element that satisfies the predicate.\<close>

definition rfind :: "('a \<Rightarrow> bool) \<Rightarrow> 'a list \<Rightarrow> 'a option" where
  "rfind P xs = (case filter P xs of [] \<Rightarrow> None | ys \<Rightarrow> Some (last ys))"

definition coord_find_frame :: "wal_shared \<Rightarrow> nat \<Rightarrow> nat \<Rightarrow> nat \<Rightarrow> nat option \<Rightarrow> nat option" where
  "coord_find_frame sh page_id min_frame max_frame frame_watermark =
     (let in_range = (case frame_watermark of
                        Some x \<Rightarrow> (\<lambda>f. f \<le> x)
                      | None \<Rightarrow> (\<lambda>f. min_frame \<le> f \<and> f \<le> max_frame))
      in map_of (ws_frame_cache sh) page_id \<bind> rfind in_range)"

fun latest_frames :: "nat \<Rightarrow> nat \<Rightarrow> frame_cache \<Rightarrow> (nat \<times> nat) list" where
  "latest_frames min_frame max_frame [] = []"
| "latest_frames min_frame max_frame ((page_id, frames) # cache) =
     (case rfind (\<lambda>f. min_frame \<le> f \<and> f \<le> max_frame) frames of
        Some frame_id \<Rightarrow> (page_id, frame_id) # latest_frames min_frame max_frame cache
      | None \<Rightarrow> latest_frames min_frame max_frame cache)"

definition iter_latest_frames :: "wal_shared \<Rightarrow> nat \<Rightarrow> nat \<Rightarrow> (nat \<times> nat) list" where
  "iter_latest_frames sh min_frame max_frame =
     sort_key fst (latest_frames min_frame max_frame (ws_frame_cache sh))"

definition checkpoint_epoch :: "wal_shared \<Rightarrow> u32" where
  "checkpoint_epoch sh = ws_epoch sh"

text \<open>\<open>fetch_add\<close>: the previous epoch, and the state with the next one.\<close>

definition bump_checkpoint_epoch :: "wal_shared \<Rightarrow> u32 \<times> wal_shared" where
  "bump_checkpoint_epoch sh = (ws_epoch sh, sh\<lparr>ws_epoch := ws_epoch sh + 1\<rparr>)"

definition cache_frame :: "wal_shared \<Rightarrow> nat \<Rightarrow> nat \<Rightarrow> wal_shared" where
  "cache_frame sh page_id frame_id =
     sh\<lparr>ws_frame_cache := fc_extend (ws_frame_cache sh) page_id [frame_id]\<rparr>"

text \<open>\<open>while frames.last() > max_frame: frames.pop()\<close>.\<close>

definition pop_above :: "nat \<Rightarrow> nat list \<Rightarrow> nat list" where
  "pop_above max_frame frames = rev (dropWhile (\<lambda>f. f > max_frame) (rev frames))"

definition rollback_cache :: "wal_shared \<Rightarrow> nat \<Rightarrow> wal_shared" where
  "rollback_cache sh max_frame =
     sh\<lparr>ws_frame_cache := filter (\<lambda>(p, fs). fs \<noteq> [])
           (map (\<lambda>(p, fs). (p, pop_above max_frame fs)) (ws_frame_cache sh))\<rparr>"

definition mark_initialized :: "wal_shared \<Rightarrow> wal_shared" where
  "mark_initialized sh = sh\<lparr>ws_initialized := True\<rparr>"

section \<open>Transactions\<close>

text \<open>The search for the largest usable read mark not above the snapshot: the index (\<open>None\<close> for
  -1) and the mark.\<close>

definition best_mark :: "wal_shared \<Rightarrow> u32 \<Rightarrow> nat option \<times> u32" where
  "best_mark sh max_frame =
     foldl (\<lambda>(best_idx, best) idx.
              let mark = read_mark_value sh idx
              in if mark \<noteq> READMARK_NOT_USED \<and> mark \<le> max_frame \<and> mark > best
                 then (Some idx, mark) else (best_idx, best))
       (None, 0) [1..<5]"

text \<open>The loop that claims the first free slot for the snapshot's frame.\<close>

fun claim_mark :: "wal_shared \<Rightarrow> u32 \<Rightarrow> nat list \<Rightarrow> (nat option \<times> wal_shared) option" where
  "claim_mark sh max_frame [] = Some (None, sh)"
| "claim_mark sh max_frame (idx # idxs) =
     (case try_read_mark_exclusive sh idx of
        (False, sh') \<Rightarrow> claim_mark sh' max_frame idxs
      | (True, sh') \<Rightarrow>
          do {
            sh2 \<leftarrow> set_read_mark_value_exclusive sh' idx max_frame;
            sh3 \<leftarrow> unlock_read_mark sh2 idx;
            Some (Some idx, sh3)
          })"

definition coord_try_begin_read_tx ::
    "wal_shared \<Rightarrow> wal_snapshot \<Rightarrow> (read_guard_kind option \<times> wal_shared) option" where
  "coord_try_begin_read_tx sh snapshot =
     (if sn_max_frame snapshot > 2 ^ 32 - 1 then None
      else if sn_max_frame snapshot = sn_nbackfills snapshot then
        (case try_read_mark_shared sh 0 of
           (False, sh1) \<Rightarrow> Some (None, sh1)
         | (True, sh1) \<Rightarrow>
             if load_snapshot sh1 \<noteq> snapshot
             then do { sh2 \<leftarrow> unlock_read_mark sh1 0; Some (None, sh2) }
             else Some (Some DbFile, sh1))
      else do {
        let max_mark = word_of_nat (sn_max_frame snapshot);
        let (best_idx, best) = best_mark sh max_mark;
        (best_idx, best, sh1) \<leftarrow>
          (if best_idx = None \<or> unat best < sn_max_frame snapshot
           then do {
             (claimed, sh1) \<leftarrow> claim_mark sh max_mark [1..<5];
             Some (case claimed of Some idx \<Rightarrow> (Some idx, max_mark, sh1) | None \<Rightarrow> (best_idx, best, sh1))
           }
           else Some (best_idx, best, sh));
        case best_idx of
          None \<Rightarrow> Some (None, sh1)
        | Some idx \<Rightarrow>
            (case try_read_mark_shared sh1 idx of
               (False, sh2) \<Rightarrow> Some (None, sh2)
             | (True, sh2) \<Rightarrow>
                 if read_mark_value sh2 idx \<noteq> best \<or> load_snapshot sh2 \<noteq> snapshot
                 then do { sh3 \<leftarrow> unlock_read_mark sh2 idx; Some (None, sh3) }
                 else Some (Some (ReadMark idx), sh2))
      })"

fun coord_end_read_tx :: "wal_shared \<Rightarrow> read_guard_kind \<Rightarrow> wal_shared option" where
  "coord_end_read_tx sh NoGuard = Some sh"
| "coord_end_read_tx sh DbFile = unlock_read_mark sh 0"
| "coord_end_read_tx sh (ReadMark slot) = unlock_read_mark sh slot"

definition coord_try_begin_write_tx :: "wal_shared \<Rightarrow> bool \<times> wal_shared" where
  "coord_try_begin_write_tx sh = try_write_lock sh"

definition coord_end_write_tx :: "wal_shared \<Rightarrow> wal_shared option" where
  "coord_end_write_tx sh = unlock_write_lock sh"

section \<open>Checkpoints\<close>

text \<open>Acquiring the locks of a checkpoint. A lock that is not available is reported as busy after
  the locks taken so far have been released.\<close>

definition acquire_checkpoint_guard ::
    "wal_shared \<Rightarrow> checkpoint_mode \<Rightarrow> (checkpoint_guard_kind result \<times> wal_shared) option" where
  "acquire_checkpoint_guard sh mode =
     (case try_checkpoint_lock sh of
        (False, sh1) \<Rightarrow> Some (Inl Busy, sh1)
      | (True, sh1) \<Rightarrow>
          (case mode of
             Passive ub \<Rightarrow>
               (case try_read_mark_exclusive sh1 0 of
                  (False, sh2) \<Rightarrow>
                    do { sh3 \<leftarrow> unlock_checkpoint_lock sh2; Some (Inl Busy, sh3) }
                | (True, sh2) \<Rightarrow> Some (Inr Read0, sh2))
           | Full \<Rightarrow>
               (case try_read_mark_exclusive sh1 0 of
                  (False, sh2) \<Rightarrow>
                    do { sh3 \<leftarrow> unlock_checkpoint_lock sh2; Some (Inl Busy, sh3) }
                | (True, sh2) \<Rightarrow>
                    (case try_write_lock sh2 of
                       (False, sh3) \<Rightarrow>
                         do {
                           sh4 \<leftarrow> unlock_read_mark sh3 0;
                           sh5 \<leftarrow> unlock_checkpoint_lock sh4;
                           Some (Inl Busy, sh5)
                         }
                     | (True, sh3) \<Rightarrow> Some (Inr WriterGuard, sh3)))
           | _ \<Rightarrow>
               (case try_read_mark_exclusive sh1 0 of
                  (False, sh2) \<Rightarrow>
                    do { sh3 \<leftarrow> unlock_checkpoint_lock sh2; Some (Inl Busy, sh3) }
                | (True, sh2) \<Rightarrow>
                    (case try_write_lock sh2 of
                       (False, sh3) \<Rightarrow>
                         do {
                           sh4 \<leftarrow> unlock_checkpoint_lock sh3;
                           sh5 \<leftarrow> unlock_read_mark sh4 0;
                           Some (Inl Busy, sh5)
                         }
                     | (True, sh3) \<Rightarrow> Some (Inr WriterGuard, sh3)))))"

definition acquire_vacuum_checkpoint_guard_from_held_lock ::
    "wal_shared \<Rightarrow> (checkpoint_guard_kind result \<times> wal_shared) option" where
  "acquire_vacuum_checkpoint_guard_from_held_lock sh =
     (case try_read_mark_exclusive sh 0 of
        (False, sh1) \<Rightarrow> do { sh2 \<leftarrow> unlock_checkpoint_lock sh1; Some (Inl Busy, sh2) }
      | (True, sh1) \<Rightarrow>
          (case try_write_lock sh1 of
             (False, sh2) \<Rightarrow>
               do {
                 sh3 \<leftarrow> unlock_read_mark sh2 0;
                 sh4 \<leftarrow> unlock_checkpoint_lock sh3;
                 Some (Inl Busy, sh4)
               }
           | (True, sh2) \<Rightarrow> Some (Inr WriterGuard, sh2)))"

fun release_checkpoint_guard :: "wal_shared \<Rightarrow> checkpoint_guard_kind \<Rightarrow> wal_shared option" where
  "release_checkpoint_guard sh WriterGuard =
     do {
       sh1 \<leftarrow> unlock_write_lock sh;
       sh2 \<leftarrow> unlock_read_mark sh1 0;
       unlock_checkpoint_lock sh2
     }"
| "release_checkpoint_guard sh Read0 =
     do { sh1 \<leftarrow> unlock_read_mark sh 0; unlock_checkpoint_lock sh1 }"

text \<open>The scan over the read marks that bounds what a checkpoint may copy.\<close>

fun safe_frame_loop :: "wal_shared \<Rightarrow> nat \<Rightarrow> nat list \<Rightarrow> (nat \<times> wal_shared) option" where
  "safe_frame_loop sh max_safe_frame [] = Some (max_safe_frame, sh)"
| "safe_frame_loop sh max_safe_frame (idx # idxs) =
     (let this_mark = read_mark_value sh idx
      in if this_mark < word_of_nat max_safe_frame
         then (case try_read_mark_exclusive sh idx of
                 (True, sh1) \<Rightarrow>
                   do {
                     let v = (if idx = 1 then word_of_nat max_safe_frame else READMARK_NOT_USED);
                     sh2 \<leftarrow> set_read_mark_value_exclusive sh1 idx v;
                     sh3 \<leftarrow> unlock_read_mark sh2 idx;
                     safe_frame_loop sh3 max_safe_frame idxs
                   }
               | (False, sh1) \<Rightarrow> safe_frame_loop sh1 (unat this_mark) idxs)
         else safe_frame_loop sh max_safe_frame idxs)"

definition determine_max_safe_checkpoint_frame :: "wal_shared \<Rightarrow> nat \<Rightarrow> (nat \<times> wal_shared) option" where
  "determine_max_safe_checkpoint_frame sh max_frame =
     (if max_frame > 2 ^ 32 - 1 then None else safe_frame_loop sh max_frame [1..<5])"

section \<open>Restarting the log\<close>

text \<open>\<open>WalFileShared::restart_wal_header\<close>; \<open>rnd\<close> is the number \<open>io.generate_random_number\<close>
  returns.\<close>

fun set_marks :: "u64 list \<Rightarrow> u32 list \<Rightarrow> u64 list option" where
  "set_marks [] vs = Some []"
| "set_marks (l # ls) [] = Some (l # ls)"
| "set_marks (l # ls) (v # vs) =
     do { l' \<leftarrow> rw_set_value_exclusive l v; ls' \<leftarrow> set_marks ls vs; Some (l' # ls') }"

definition restart_wal_header :: "wal_shared \<Rightarrow> u32 \<Rightarrow> wal_shared option" where
  "restart_wal_header sh rnd =
     (let hdr = (ws_wal_header sh)\<lparr>
            wh_checkpoint_seq := wh_checkpoint_seq (ws_wal_header sh) + 1,
            wh_salt_1 := wh_salt_1 (ws_wal_header sh) + 1,
            wh_salt_2 := rnd\<rparr>
      in do {
        locks \<leftarrow> set_marks (ws_read_locks sh)
                   [0, 0, READMARK_NOT_USED, READMARK_NOT_USED, READMARK_NOT_USED];
        Some (sh\<lparr>ws_wal_header := hdr, ws_max_frame := 0, ws_nbackfills := 0,
                 ws_last_checksum := (wh_checksum_1 hdr, wh_checksum_2 hdr),
                 ws_initialized := False, ws_frame_cache := [], ws_read_locks := locks\<rparr>)
      })"

fun unlock_all :: "wal_shared \<Rightarrow> nat list \<Rightarrow> wal_shared option" where
  "unlock_all sh [] = Some sh"
| "unlock_all sh (j # js) = do { sh1 \<leftarrow> unlock_read_mark sh j; unlock_all sh1 js }"

text \<open>The loop of \<open>begin_restart\<close> over the read marks 1 to 4.\<close>

fun restart_locks :: "wal_shared \<Rightarrow> nat list \<Rightarrow> (unit result \<times> wal_shared) option" where
  "restart_locks sh [] = Some (Inr (), sh)"
| "restart_locks sh (idx # idxs) =
     (case try_read_mark_exclusive sh idx of
        (False, sh1) \<Rightarrow> do { sh2 \<leftarrow> unlock_all sh1 [1..<idx]; Some (Inl Busy, sh2) }
      | (True, sh1) \<Rightarrow>
          do {
            sh2 \<leftarrow> set_read_mark_value_exclusive sh1 idx READMARK_NOT_USED;
            restart_locks sh2 idxs
          })"

definition begin_restart :: "wal_shared \<Rightarrow> u32 \<Rightarrow> (wal_snapshot result \<times> wal_shared) option" where
  "begin_restart sh rnd =
     do {
       (r, sh1) \<leftarrow> restart_locks sh [1..<5];
       case r of
         Inl e \<Rightarrow> Some (Inl e, sh1)
       | Inr _ \<Rightarrow> do { sh2 \<leftarrow> restart_wal_header sh1 rnd; Some (Inr (load_snapshot sh2), sh2) }
     }"

definition end_restart :: "wal_shared \<Rightarrow> wal_shared option" where
  "end_restart sh = unlock_all sh [1..<5]"

definition try_restart_log_for_write ::
    "wal_shared \<Rightarrow> u32 \<Rightarrow> (wal_snapshot option result \<times> wal_shared) option" where
  "try_restart_log_for_write sh rnd =
     (case try_upgrade_read_mark sh 0 of
        (False, sh1) \<Rightarrow> Some (Inr None, sh1)
      | (True, sh1) \<Rightarrow>
          do {
            (r, sh2) \<leftarrow> begin_restart sh1 rnd;
            let sh3 = downgrade_read_mark sh2 0;
            case r of
              Inr snapshot \<Rightarrow> do { sh4 \<leftarrow> end_restart sh3; Some (Inr (Some snapshot), sh4) }
            | Inl e \<Rightarrow> Some (Inl e, sh3)
          })"

text \<open>\<open>prepare_wal_header\<close>: \<open>None\<close> inside the result means that the header is initialized. The two
  random numbers are used when both salts are zero.\<close>

definition prepare_wal_header ::
    "bool \<Rightarrow> wal_shared \<Rightarrow> u32 \<Rightarrow> u32 \<Rightarrow> u16 \<Rightarrow> (wal_header option \<times> wal_shared) option" where
  "prepare_wal_header big sh rnd1 rnd2 page_size =
     (if ws_initialized sh then Some (None, sh)
      else (let hdr0 = (ws_wal_header sh)\<lparr>wh_magic := (if big then WAL_MAGIC_BE else WAL_MAGIC_LE)\<rparr>;
                hdr1 = (if wh_page_size hdr0 = 0 then hdr0\<lparr>wh_page_size := page_size_get page_size\<rparr> else hdr0);
                hdr2 = (if wh_salt_1 hdr1 = 0 \<and> wh_salt_2 hdr1 = 0
                        then hdr1\<lparr>wh_salt_1 := rnd1, wh_salt_2 := rnd2\<rparr> else hdr1)
            in do {
              hdr \<leftarrow> wal_header_seal big hdr2;
              Some (Some hdr, sh\<lparr>ws_wal_header := hdr,
                                 ws_last_checksum := (wh_checksum_1 hdr, wh_checksum_2 hdr)\<rparr>)
            }))"

definition prepare_truncate :: "wal_shared \<Rightarrow> (unit result \<times> wal_shared) option" where
  "prepare_truncate sh =
     (if ws_enabled sh
      then Some (if ws_file_open sh then Inr () else Inl InternalError, sh\<lparr>ws_initialized := False\<rparr>)
      else None)"

section \<open>Slots\<close>

definition slot_mode :: "wal_shared \<Rightarrow> nat \<Rightarrow> rw_mode" where
  "slot_mode sh i = rw_mode_of (ws_read_locks sh ! i)"

definition mark :: "wal_shared \<Rightarrow> nat \<Rightarrow> nat" where
  "mark sh i = unat (read_mark_value sh i)"

definition locks_ok :: "wal_shared \<Rightarrow> bool" where
  "locks_ok sh \<longleftrightarrow> length (ws_read_locks sh) = 5 \<and> (\<forall>i < 5. rw_ok (ws_read_locks sh ! i))"

text \<open>Two states that differ in their read locks only.\<close>

definition same_but_marks :: "wal_shared \<Rightarrow> wal_shared \<Rightarrow> bool" where
  "same_but_marks sh sh' \<longleftrightarrow> (\<exists>ls. sh' = sh\<lparr>ws_read_locks := ls\<rparr>)"

lemma same_but_marks_refl [simp]: "same_but_marks sh sh"
  unfolding same_but_marks_def by (rule exI[of _ "ws_read_locks sh"]) simp

lemma same_but_marks_trans: "same_but_marks a b \<Longrightarrow> same_but_marks b c \<Longrightarrow> same_but_marks a c"
  by (auto simp: same_but_marks_def)

lemma same_but_marks_update [simp]: "same_but_marks sh (sh\<lparr>ws_read_locks := ls\<rparr>)"
  by (auto simp: same_but_marks_def)

lemma same_but_marks_snapshot: "same_but_marks sh sh' \<Longrightarrow> load_snapshot sh' = load_snapshot sh"
  by (auto simp: same_but_marks_def load_snapshot_def)

lemma mark_less: "mark sh i < 2 ^ 32"
  unfolding mark_def using unsigned_less[of "read_mark_value sh i", where 'a = nat] by simp

text \<open>The lock operations at the level of slots.\<close>

lemma slot_exclusive_busy:
  "locks_ok sh \<Longrightarrow> i < 5 \<Longrightarrow> slot_mode sh i \<noteq> Free \<Longrightarrow> try_read_mark_exclusive sh i = (False, sh)"
  using turso_lock.write_law[of "ws_read_locks sh ! i"]
  by (simp add: locks_ok_def slot_mode_def try_read_mark_exclusive_def)

lemma slot_exclusive_free:
  assumes "locks_ok sh" "i < 5" "slot_mode sh i = Free"
  shows "\<exists>l. try_read_mark_exclusive sh i = (True, sh\<lparr>ws_read_locks := (ws_read_locks sh)[i := l]\<rparr>)
    \<and> rw_ok l \<and> rw_mode_of l = Writer \<and> rw_get_value l = read_mark_value sh i"
  using turso_lock.write_law[of "ws_read_locks sh ! i"] assms
  by (auto simp: locks_ok_def slot_mode_def try_read_mark_exclusive_def read_mark_value_def)

text \<open>Claiming a free slot for a new value: \<open>write\<close>, \<open>set_value_exclusive\<close>, \<open>unlock\<close>.\<close>

lemma slot_reset:
  assumes "locks_ok sh" "i < 5" "slot_mode sh i = Free"
  shows "\<exists>sh1 sh2 sh3 l. try_read_mark_exclusive sh i = (True, sh1)
    \<and> set_read_mark_value_exclusive sh1 i v = Some sh2 \<and> unlock_read_mark sh2 i = Some sh3
    \<and> sh3 = sh\<lparr>ws_read_locks := (ws_read_locks sh)[i := l]\<rparr>
    \<and> rw_ok l \<and> rw_mode_of l = Free \<and> rw_get_value l = v"
proof -
  have ok: "rw_ok (ws_read_locks sh ! i)" "rw_mode_of (ws_read_locks sh ! i) = Free"
    and len: "i < length (ws_read_locks sh)" using assms by (auto simp: locks_ok_def slot_mode_def)
  obtain l1 l2 l3 where "rw_write (ws_read_locks sh ! i) = (True, l1)" "rw_set_value_exclusive l1 v = Some l2"
    "rw_unlock l2 = Some l3" "rw_ok l3" "rw_mode_of l3 = Free" "rw_get_value l3 = v"
    using turso_lock.exclusive_update[OF ok] by blast
  then show ?thesis
    using len
    by (simp add: try_read_mark_exclusive_def set_read_mark_value_exclusive_def unlock_read_mark_def) blast
qed

lemma slot_update [simp]:
  "i < length (ws_read_locks sh) \<Longrightarrow>
     slot_mode (sh\<lparr>ws_read_locks := (ws_read_locks sh)[i := l]\<rparr>) j = (if j = i then rw_mode_of l else slot_mode sh j)"
  "i < length (ws_read_locks sh) \<Longrightarrow>
     mark (sh\<lparr>ws_read_locks := (ws_read_locks sh)[i := l]\<rparr>) j = (if j = i then unat (rw_get_value l) else mark sh j)"
  by (simp_all add: slot_mode_def mark_def read_mark_value_def)

lemma locks_ok_update [simp]:
  "locks_ok sh \<Longrightarrow> rw_ok l \<Longrightarrow> locks_ok (sh\<lparr>ws_read_locks := (ws_read_locks sh)[i := l]\<rparr>)"
  by (cases "i < 5") (auto simp: locks_ok_def nth_list_update)

lemma locks_ok_length: "locks_ok sh \<Longrightarrow> length (ws_read_locks sh) = 5"
  by (simp add: locks_ok_def)

section \<open>The safe frame of a checkpoint\<close>

definition safe_scan :: "wal_shared \<Rightarrow> nat \<Rightarrow> nat set \<Rightarrow> nat \<Rightarrow> wal_shared \<Rightarrow> bool" where
  "safe_scan sh m I S sh' \<longleftrightarrow>
     S \<le> m \<and> same_but_marks sh sh' \<and> locks_ok sh'
     \<and> (\<forall>i < 5. slot_mode sh' i = slot_mode sh i)
     \<and> (\<forall>i < 5. i \<notin> I \<or> slot_mode sh i \<noteq> Free \<longrightarrow> mark sh' i = mark sh i)
     \<and> (\<forall>i \<in> I. S \<le> mark sh' i \<and> mark sh i \<le> mark sh' i)
     \<and> (S = m \<or> (\<exists>i \<in> I. slot_mode sh i \<noteq> Free \<and> mark sh i = S))"

lemma safe_scan_reset:
  assumes scan: "safe_scan sh3 m I S sh'" and sh3: "sh3 = sh\<lparr>ws_read_locks := (ws_read_locks sh)[i := l]\<rparr>"
    and len: "i < length (ws_read_locks sh)" and i: "i \<notin> I"
    and free: "slot_mode sh i = Free" "rw_mode_of l = Free" "mark sh i < m" "m \<le> unat (rw_get_value l)" "i < 5"
  shows "safe_scan sh m (insert i I) S sh'"
proof -
  have other: "slot_mode sh3 j = slot_mode sh j" "j \<noteq> i \<Longrightarrow> mark sh3 j = mark sh j" for j
    using len free by (simp_all add: sh3)
  have at_i: "mark sh3 i = unat (rw_get_value l)" using len by (simp add: sh3)
  have "same_but_marks sh sh'"
    using same_but_marks_trans[of sh sh3 sh'] scan by (simp add: safe_scan_def sh3)
  moreover have "mark sh' i = mark sh3 i" using scan i free(5) by (auto simp: safe_scan_def)
  moreover have "j \<in> I \<Longrightarrow> j \<noteq> i" for j using i by auto
  ultimately show ?thesis
    using scan other at_i free unfolding safe_scan_def by (auto; metis le_trans order.strict_implies_order)
qed

lemma safe_frame_loop_spec:
  assumes "locks_ok sh" "set idxs \<subseteq> {1..<5}" "distinct idxs" "m < 2 ^ 32"
  shows "\<exists>S sh'. safe_frame_loop sh m idxs = Some (S, sh') \<and> safe_scan sh m (set idxs) S sh'"
  using assms
proof (induction idxs arbitrary: sh m)
  case Nil
  then show ?case by (simp add: safe_scan_def)
next
  case (Cons i idxs)
  have i: "i < 5" using Cons.prems(2) by auto
  have len: "i < length (ws_read_locks sh)" using i Cons.prems(1) by (simp add: locks_ok_def)
  have m: "unat (word_of_nat m :: u32) = m" using Cons.prems(4) by (simp add: unat_of_nat)
  have lt: "read_mark_value sh i < word_of_nat m \<longleftrightarrow> mark sh i < m"
    using m by (simp add: word_less_nat_alt mark_def)
  have sub: "set idxs \<subseteq> {1..<5}" "distinct idxs" "i \<notin> set idxs" using Cons.prems by auto
  consider "\<not> mark sh i < m" | "mark sh i < m" "slot_mode sh i = Free" | "mark sh i < m" "slot_mode sh i \<noteq> Free"
    by blast
  then show ?case
  proof cases
    case 1
    obtain S sh' where S: "safe_frame_loop sh m idxs = Some (S, sh')" "safe_scan sh m (set idxs) S sh'"
      using Cons.IH[OF Cons.prems(1) sub(1,2) Cons.prems(4)] by blast
    have "safe_frame_loop sh m (i # idxs) = Some (S, sh')" using 1 lt S(1) by (simp add: Let_def)
    moreover have "safe_scan sh m (set (i # idxs)) S sh'" using S(2) 1 i sub(3) by (auto simp: safe_scan_def)
    ultimately show ?thesis by blast
  next
    case 2
    define v where "v = (if i = 1 then word_of_nat m else READMARK_NOT_USED :: u32)"
    have v: "m \<le> unat v" using m Cons.prems(4) by (simp add: v_def READMARK_NOT_USED_def)
    obtain sh1 sh2 sh3 l where st: "try_read_mark_exclusive sh i = (True, sh1)"
      "set_read_mark_value_exclusive sh1 i v = Some sh2" "unlock_read_mark sh2 i = Some sh3"
      and sh3: "sh3 = sh\<lparr>ws_read_locks := (ws_read_locks sh)[i := l]\<rparr>" "rw_ok l" "rw_mode_of l = Free" "rw_get_value l = v"
      using slot_reset[OF Cons.prems(1) i 2(2)] by blast
    have ok3: "locks_ok sh3" using Cons.prems(1) sh3 by simp
    obtain S sh' where S: "safe_frame_loop sh3 m idxs = Some (S, sh')" "safe_scan sh3 m (set idxs) S sh'"
      using Cons.IH[OF ok3 sub(1,2) Cons.prems(4)] by blast
    have "safe_frame_loop sh m (i # idxs) = Some (S, sh')"
      using 2 lt S(1) st by (simp add: Let_def v_def)
    moreover have "safe_scan sh m (set (i # idxs)) S sh'"
      using safe_scan_reset[OF S(2) sh3(1) len sub(3)] 2 sh3 v i by simp
    ultimately show ?thesis by blast
  next
    case 3
    have small: "mark sh i < 2 ^ 32" by (rule mark_less)
    obtain S sh' where S: "safe_frame_loop sh (mark sh i) idxs = Some (S, sh')" "safe_scan sh (mark sh i) (set idxs) S sh'"
      using Cons.IH[OF Cons.prems(1) sub(1,2) small] by blast
    have "safe_frame_loop sh m (i # idxs) = Some (S, sh')"
      using 3 lt S(1) slot_exclusive_busy[OF Cons.prems(1) i 3(2)] by (simp add: Let_def mark_def)
    moreover have "safe_scan sh m (set (i # idxs)) S sh'" using S(2) 3 i sub(3) by (auto simp: safe_scan_def)
    ultimately show ?thesis by blast
  qed
qed

section \<open>Read transactions\<close>

lemma slot_shared_busy:
  "locks_ok sh \<Longrightarrow> i < 5 \<Longrightarrow> slot_mode sh i = Writer \<Longrightarrow> try_read_mark_shared sh i = (False, sh)"
  using turso_lock.read_law[of "ws_read_locks sh ! i"]
  by (simp add: locks_ok_def slot_mode_def try_read_mark_shared_def)

definition reader_room :: "wal_shared \<Rightarrow> bool" where
  "reader_room sh \<longleftrightarrow> (\<forall>i < 5. reader_count (slot_mode sh i) < 2 ^ 31 - 1)"

lemma slot_shared_free:
  assumes "locks_ok sh" "i < 5" "slot_mode sh i \<noteq> Writer" "reader_room sh"
  shows "\<exists>l. try_read_mark_shared sh i = (True, sh\<lparr>ws_read_locks := (ws_read_locks sh)[i := l]\<rparr>)
    \<and> rw_ok l \<and> rw_mode_of l = add_reader (slot_mode sh i) \<and> rw_get_value l = read_mark_value sh i"
  using turso_lock.read_law[of "ws_read_locks sh ! i"] assms
  by (auto simp: locks_ok_def slot_mode_def try_read_mark_shared_def read_mark_value_def reader_room_def)

lemma slot_unlock:
  assumes "locks_ok sh" "i < 5" "slot_mode sh i \<noteq> Free"
  shows "\<exists>l. unlock_read_mark sh i = Some (sh\<lparr>ws_read_locks := (ws_read_locks sh)[i := l]\<rparr>)
    \<and> rw_ok l \<and> rw_mode_of l = drop_holder (slot_mode sh i) \<and> rw_get_value l = read_mark_value sh i"
  using turso_lock.unlock_law[of "ws_read_locks sh ! i"] assms
  by (auto simp: locks_ok_def slot_mode_def unlock_read_mark_def read_mark_value_def)

lemma claim_mark_spec:
  assumes "locks_ok sh" "set idxs \<subseteq> {1..<5}"
  shows "claim_mark sh v idxs = Some (None, sh)
    \<or> (\<exists>i l. claim_mark sh v idxs = Some (Some i, sh\<lparr>ws_read_locks := (ws_read_locks sh)[i := l]\<rparr>)
         \<and> i \<in> set idxs \<and> slot_mode sh i = Free \<and> rw_ok l \<and> rw_mode_of l = Free \<and> rw_get_value l = v)"
  using assms
proof (induction idxs)
  case Nil
  show ?case by simp
next
  case (Cons i idxs)
  then have i: "i < 5" by simp
  show ?case
  proof (cases "slot_mode sh i = Free")
    case True
    then show ?thesis using slot_reset[OF Cons.prems(1) i True, of v] by fastforce
  next
    case False
    then show ?thesis using slot_exclusive_busy[OF Cons.prems(1) i False] Cons by auto
  qed
qed

lemma best_mark_spec:
  "best_mark sh mx = (bi, b) \<Longrightarrow>
     (case bi of None \<Rightarrow> b = 0 | Some i \<Rightarrow> i \<in> {1..<5} \<and> b = read_mark_value sh i \<and> b \<le> mx)"
proof -
  let ?P = "\<lambda>x. (case fst x of None \<Rightarrow> snd x = 0
      | Some i \<Rightarrow> i \<in> {1..<5} \<and> snd x = read_mark_value sh i \<and> snd x \<le> mx)"
  have "?P (best_mark sh mx)"
    unfolding best_mark_def
    by (rule foldl_invariant) (auto simp: Let_def case_prod_beta split: option.splits)
  then show "best_mark sh mx = (bi, b) \<Longrightarrow> ?thesis" by (auto split: option.splits)
qed

text \<open>What a successful or refused begin leaves behind: at most one slot changes, and it gains one
  reader. A free slot may have been given the snapshot's frame; a slot with readers keeps its mark.\<close>

definition read_begun :: "wal_shared \<Rightarrow> read_guard_kind option \<Rightarrow> wal_shared \<Rightarrow> bool" where
  "read_begun sh r sh' \<longleftrightarrow>
     (case r of
        None \<Rightarrow> sh' = sh
      | Some NoGuard \<Rightarrow> False
      | Some DbFile \<Rightarrow>
          ws_max_frame sh = ws_nbackfills sh
          \<and> (\<exists>l. sh' = sh\<lparr>ws_read_locks := (ws_read_locks sh)[0 := l]\<rparr> \<and> rw_ok l
               \<and> slot_mode sh 0 \<noteq> Writer \<and> rw_mode_of l = add_reader (slot_mode sh 0)
               \<and> rw_get_value l = read_mark_value sh 0)
      | Some (ReadMark i) \<Rightarrow>
          ws_max_frame sh \<noteq> ws_nbackfills sh \<and> 1 \<le> i \<and> i < 5
          \<and> (\<exists>l. sh' = sh\<lparr>ws_read_locks := (ws_read_locks sh)[i := l]\<rparr> \<and> rw_ok l
               \<and> slot_mode sh i \<noteq> Writer \<and> rw_mode_of l = add_reader (slot_mode sh i)
               \<and> unat (rw_get_value l) \<le> ws_max_frame sh
               \<and> (unat (rw_get_value l) = mark sh i
                  \<or> slot_mode sh i = Free \<and> unat (rw_get_value l) = ws_max_frame sh)))"

lemma load_snapshot_locks [simp]: "load_snapshot (sh\<lparr>ws_read_locks := ls\<rparr>) = load_snapshot sh"
  by (simp add: load_snapshot_def)

lemma begin_read_dbfile:
  assumes "locks_ok sh" "reader_room sh" "ws_max_frame sh < 2 ^ 32" "ws_max_frame sh = ws_nbackfills sh"
  shows "\<exists>r sh'. coord_try_begin_read_tx sh (load_snapshot sh) = Some (r, sh') \<and> read_begun sh r sh'
     \<and> (r = None \<longleftrightarrow> slot_mode sh 0 = Writer)"
proof (cases "slot_mode sh 0 = Writer")
  case True
  then show ?thesis using assms slot_shared_busy[of sh 0]
    by (simp add: coord_try_begin_read_tx_def read_begun_def load_snapshot_def)
next
  case False
  then obtain l where l: "try_read_mark_shared sh 0 = (True, sh\<lparr>ws_read_locks := (ws_read_locks sh)[0 := l]\<rparr>)"
    "rw_ok l" "rw_mode_of l = add_reader (slot_mode sh 0)" "rw_get_value l = read_mark_value sh 0"
    using slot_shared_free[of sh 0] assms by auto
  have "coord_try_begin_read_tx sh (load_snapshot sh) = Some (Some DbFile, sh\<lparr>ws_read_locks := (ws_read_locks sh)[0 := l]\<rparr>)"
    using assms l(1) by (simp add: coord_try_begin_read_tx_def) (simp add: load_snapshot_def)
  then show ?thesis using False assms l by (auto simp: read_begun_def)
qed

lemma begin_read_join:
  assumes ok: "locks_ok sh" "reader_room sh" and i: "i \<in> {1..<5}"
  shows "(case try_read_mark_shared sh i of
            (False, sh2) \<Rightarrow> Some (None, sh2)
          | (True, sh2) \<Rightarrow>
              if read_mark_value sh2 i \<noteq> read_mark_value sh i \<or> load_snapshot sh2 \<noteq> load_snapshot sh
              then do { sh3 \<leftarrow> unlock_read_mark sh2 i; Some (None, sh3) }
              else Some (Some (ReadMark i), sh2)) =
         (if slot_mode sh i = Writer then Some (None, sh)
          else Some (Some (ReadMark i), snd (try_read_mark_shared sh i)))"
proof (cases "slot_mode sh i = Writer")
  case True
  then show ?thesis using slot_shared_busy[of sh i] ok i by simp
next
  case False
  then obtain l where l: "try_read_mark_shared sh i = (True, sh\<lparr>ws_read_locks := (ws_read_locks sh)[i := l]\<rparr>)"
    "rw_get_value l = read_mark_value sh i"
    using slot_shared_free[of sh i] ok i by auto
  moreover have "i < length (ws_read_locks sh)" using ok i by (simp add: locks_ok_def)
  ultimately show ?thesis using False by (simp add: read_mark_value_def)
qed


lemma begin_read_readmark:
  assumes ok: "locks_ok sh" "reader_room sh" and mx: "ws_max_frame sh < 2 ^ 32"
    and nb: "ws_max_frame sh \<noteq> ws_nbackfills sh"
  shows "\<exists>r sh'. coord_try_begin_read_tx sh (load_snapshot sh) = Some (r, sh') \<and> read_begun sh r sh'"
proof -
  define v :: u32 where "v = word_of_nat (ws_max_frame sh)"
  have v: "unat v = ws_max_frame sh" using mx by (simp add: v_def unat_of_nat)
  have snap: "sn_max_frame (load_snapshot sh) = ws_max_frame sh" "sn_nbackfills (load_snapshot sh) = ws_nbackfills sh"
    by (simp_all add: load_snapshot_def)
  obtain bi b where best: "best_mark sh v = (bi, b)" by (cases "best_mark sh v")
  note bspec = best_mark_spec[OF best]
  have start: "coord_try_begin_read_tx sh (load_snapshot sh) =
     do {
       (bi', b', sh1) \<leftarrow>
         (if bi = None \<or> unat b < ws_max_frame sh
          then do { (claimed, sh1) \<leftarrow> claim_mark sh v [1..<5];
                    Some (case claimed of Some idx \<Rightarrow> (Some idx, v, sh1) | None \<Rightarrow> (bi, b, sh1)) }
          else Some (bi, b, sh));
       case bi' of
         None \<Rightarrow> Some (None, sh1)
       | Some idx \<Rightarrow>
           (case try_read_mark_shared sh1 idx of
              (False, sh2) \<Rightarrow> Some (None, sh2)
            | (True, sh2) \<Rightarrow>
                if read_mark_value sh2 idx \<noteq> b' \<or> load_snapshot sh2 \<noteq> load_snapshot sh
                then do { sh3 \<leftarrow> unlock_read_mark sh2 idx; Some (None, sh3) }
                else Some (Some (ReadMark idx), sh2))
     }"
    using mx nb best unfolding coord_try_begin_read_tx_def snap v_def[symmetric] by simp
  have unclaimed: "\<exists>r sh'. (case bi of
         None \<Rightarrow> Some (None, sh)
       | Some idx \<Rightarrow>
           (case try_read_mark_shared sh idx of
              (False, sh2) \<Rightarrow> Some (None, sh2)
            | (True, sh2) \<Rightarrow>
                if read_mark_value sh2 idx \<noteq> b \<or> load_snapshot sh2 \<noteq> load_snapshot sh
                then do { sh3 \<leftarrow> unlock_read_mark sh2 idx; Some (None, sh3) }
                else Some (Some (ReadMark idx), sh2))) = Some (r, sh') \<and> read_begun sh r sh'"
  proof (cases bi)
    case None
    then show ?thesis by (simp add: read_begun_def)
  next
    case (Some i)
    then have i: "i \<in> {1..<5}" and b: "b = read_mark_value sh i" "b \<le> v" using bspec by auto
    show ?thesis
    proof (cases "slot_mode sh i = Writer")
      case True
      then show ?thesis unfolding Some option.case b(1) begin_read_join[OF ok i] by (simp add: read_begun_def)
    next
      case False
      then obtain l where l: "try_read_mark_shared sh i = (True, sh\<lparr>ws_read_locks := (ws_read_locks sh)[i := l]\<rparr>)"
        "rw_ok l" "rw_mode_of l = add_reader (slot_mode sh i)" "rw_get_value l = read_mark_value sh i"
        using slot_shared_free[of sh i] ok i by auto
      moreover have "unat (read_mark_value sh i) \<le> ws_max_frame sh" using b v by (simp add: word_le_nat_alt)
      ultimately show ?thesis unfolding Some option.case b(1) begin_read_join[OF ok i]
        using False i nb by (auto simp: read_begun_def mark_def)
    qed
  qed
  have claimed: "\<exists>r sh'. (case try_read_mark_shared sh1 i of
              (False, sh2) \<Rightarrow> Some (None, sh2)
            | (True, sh2) \<Rightarrow>
                if read_mark_value sh2 i \<noteq> v \<or> load_snapshot sh2 \<noteq> load_snapshot sh
                then do { sh3 \<leftarrow> unlock_read_mark sh2 i; Some (None, sh3) }
                else Some (Some (ReadMark i), sh2)) = Some (r, sh') \<and> read_begun sh r sh'"
    if sh1: "sh1 = sh\<lparr>ws_read_locks := (ws_read_locks sh)[i := l]\<rparr>" and i: "i \<in> set [1..<5]"
      and free: "slot_mode sh i = Free" "rw_ok l" "rw_mode_of l = Free" "rw_get_value l = v" for i l sh1
  proof -
    have len: "i < length (ws_read_locks sh)" using ok i by (simp add: locks_ok_def)
    have ok1: "locks_ok sh1" "reader_room sh1" "i < 5" "i \<in> {1..<5}" "slot_mode sh1 i \<noteq> Writer"
      using ok free i len by (auto simp: sh1 reader_room_def)
    have val: "read_mark_value sh1 i = v" using len free(4) by (simp add: sh1 read_mark_value_def)
    obtain l2 where "try_read_mark_shared sh1 i = (True, sh1\<lparr>ws_read_locks := (ws_read_locks sh1)[i := l2]\<rparr>)"
      "rw_ok l2" "rw_mode_of l2 = add_reader (slot_mode sh1 i)" "rw_get_value l2 = read_mark_value sh1 i"
      using slot_shared_free[OF ok1(1,3,5,2)] by blast
    then show ?thesis
      using begin_read_join[OF ok1(1,2,4)] len free i nb v val ok1(5)
      by (auto simp: read_begun_def sh1)
  qed
  show ?thesis
  proof (cases "bi = None \<or> unat b < ws_max_frame sh")
    case False
    then show ?thesis using unclaimed unfolding start by (auto simp: if_not_P)
  next
    case True
    with claim_mark_spec[OF ok(1), of "[1..<5]" v] unclaimed claimed show ?thesis
      unfolding start by auto
  qed
qed

lemma begin_read_spec:
  assumes "locks_ok sh" "reader_room sh" "ws_max_frame sh < 2 ^ 32"
  shows "\<exists>r sh'. coord_try_begin_read_tx sh (load_snapshot sh) = Some (r, sh') \<and> read_begun sh r sh'"
  using begin_read_dbfile[OF assms] begin_read_readmark[OF assms] by (cases "ws_max_frame sh = ws_nbackfills sh") blast+

section \<open>Checkpoint guards\<close>

definition guards_ok :: "wal_shared \<Rightarrow> bool" where
  "guards_ok sh \<longleftrightarrow> locks_ok sh \<and> rw_ok (ws_write_lock sh) \<and> rw_ok (ws_checkpoint_lock sh)"

lemma write_then_unlock:
  assumes "rw_ok l" "rw_mode_of l = Free"
  shows "\<exists>l'. rw_write l = (True, l') \<and> rw_unlock l' = Some l \<and> rw_ok l' \<and> rw_mode_of l' = Writer
    \<and> rw_get_value l' = rw_get_value l"
proof (rule rw_cases[of l])
  fix v r w assume l: "l = rw_mk v r w" "r < 2 ^ 31"
  then have "r = 0" "\<not> w" using assms by (auto simp: rw_simps split: if_splits)
  then show ?thesis using l by (simp add: rw_write_eq rw_unlock_eq rw_simps)
qed

lemma write_busy: "rw_ok l \<Longrightarrow> rw_mode_of l \<noteq> Free \<Longrightarrow> rw_write l = (False, l)"
  using turso_lock.write_law[of l] by simp

text \<open>The guard a mode asks for, and the locks that have to be free for it.\<close>

definition guard_for :: "checkpoint_mode \<Rightarrow> checkpoint_guard_kind" where
  "guard_for mode = (case mode of Passive _ \<Rightarrow> Read0 | _ \<Rightarrow> WriterGuard)"

definition guard_available :: "wal_shared \<Rightarrow> checkpoint_mode \<Rightarrow> bool" where
  "guard_available sh mode \<longleftrightarrow>
     rw_mode_of (ws_checkpoint_lock sh) = Free \<and> slot_mode sh 0 = Free
     \<and> (guard_for mode = WriterGuard \<longrightarrow> rw_mode_of (ws_write_lock sh) = Free)"

definition guard_held :: "wal_shared \<Rightarrow> checkpoint_guard_kind \<Rightarrow> wal_shared \<Rightarrow> bool" where
  "guard_held sh g sh' \<longleftrightarrow>
     (\<exists>c l w. sh' = sh\<lparr>ws_checkpoint_lock := c, ws_read_locks := (ws_read_locks sh)[0 := l], ws_write_lock := w\<rparr>
        \<and> rw_ok c \<and> rw_mode_of c = Writer
        \<and> rw_ok l \<and> rw_mode_of l = Writer \<and> rw_get_value l = read_mark_value sh 0
        \<and> rw_ok w \<and> (if g = WriterGuard then rw_mode_of w = Writer else w = ws_write_lock sh))"

lemma acquire_guard_spec:
  assumes ok: "guards_ok sh"
  shows "if guard_available sh mode
    then \<exists>sh'. acquire_checkpoint_guard sh mode = Some (Inr (guard_for mode), sh')
           \<and> guard_held sh (guard_for mode) sh' \<and> release_checkpoint_guard sh' (guard_for mode) = Some sh
    else acquire_checkpoint_guard sh mode = Some (Inl Busy, sh)"
proof -
  note defs = acquire_checkpoint_guard_def try_checkpoint_lock_def try_read_mark_exclusive_def try_write_lock_def
    unlock_checkpoint_lock_def unlock_read_mark_def unlock_write_lock_def
  have okc: "rw_ok (ws_checkpoint_lock sh)" and okw: "rw_ok (ws_write_lock sh)" and ok0: "rw_ok (ws_read_locks sh ! 0)"
    and len: "0 < length (ws_read_locks sh)" using ok by (auto simp: guards_ok_def locks_ok_def)
  show ?thesis
  proof (cases "rw_mode_of (ws_checkpoint_lock sh) = Free")
    case False
    then show ?thesis using write_busy[OF okc] by (simp add: defs guard_available_def)
  next
    case C: True
    obtain c where c: "rw_write (ws_checkpoint_lock sh) = (True, c)" "rw_unlock c = Some (ws_checkpoint_lock sh)"
      "rw_ok c" "rw_mode_of c = Writer" using write_then_unlock[OF okc C] by blast
    show ?thesis
    proof (cases "slot_mode sh 0 = Free")
      case False
      then show ?thesis using write_busy[OF ok0] c
        by (cases mode) (simp_all add: defs guard_available_def slot_mode_def)
    next
      case R: True
      obtain l where l: "rw_write (ws_read_locks sh ! 0) = (True, l)" "rw_unlock l = Some (ws_read_locks sh ! 0)"
        "rw_ok l" "rw_mode_of l = Writer" "rw_get_value l = rw_get_value (ws_read_locks sh ! 0)"
        using write_then_unlock[OF ok0] R by (auto simp: slot_mode_def)
      show ?thesis
      proof (cases "rw_mode_of (ws_write_lock sh) = Free")
        case False
        then show ?thesis using C R c l len okw write_busy[OF okw]
          by (cases mode) (auto simp: defs guard_available_def guard_for_def guard_held_def read_mark_value_def)
      next
        case W: True
        obtain w where "rw_write (ws_write_lock sh) = (True, w)" "rw_unlock w = Some (ws_write_lock sh)"
          "rw_ok w" "rw_mode_of w = Writer" using write_then_unlock[OF okw W] by blast
        then show ?thesis using C R W c l len okw
          by (cases mode) (auto simp: defs guard_available_def guard_for_def guard_held_def read_mark_value_def)
      qed
    qed
  qed
qed

section \<open>Restarts\<close>

text \<open>\<open>relocked sh sh' A\<close>: only read locks changed, the modes changed exactly as the function
  \<open>A\<close> says.\<close>

definition relocked :: "wal_shared \<Rightarrow> wal_shared \<Rightarrow> (nat \<Rightarrow> rw_mode) \<Rightarrow> bool" where
  "relocked sh sh' A \<longleftrightarrow> same_but_marks sh sh' \<and> locks_ok sh' \<and> (\<forall>i < 5. slot_mode sh' i = A i)"

lemma unlock_all_spec:
  assumes "locks_ok sh" "distinct js" "set js \<subseteq> {..<5}" "\<forall>j \<in> set js. slot_mode sh j = Writer"
  shows "\<exists>sh'. unlock_all sh js = Some sh'
    \<and> relocked sh sh' (\<lambda>i. if i \<in> set js then Free else slot_mode sh i) \<and> (\<forall>i < 5. mark sh' i = mark sh i)"
  using assms
proof (induction js arbitrary: sh)
  case Nil
  then show ?case by (simp add: relocked_def)
next
  case (Cons j js)
  obtain l where l: "unlock_read_mark sh j = Some (sh\<lparr>ws_read_locks := (ws_read_locks sh)[j := l]\<rparr>)"
    "rw_ok l" "rw_mode_of l = Free" "rw_get_value l = read_mark_value sh j"
    using slot_unlock[of sh j] Cons.prems by auto
  define sh1 where "sh1 = sh\<lparr>ws_read_locks := (ws_read_locks sh)[j := l]\<rparr>"
  have j: "j < length (ws_read_locks sh)" using Cons.prems by (simp add: locks_ok_def)
  have sh1: "locks_ok sh1" "slot_mode sh1 i = (if i = j then Free else slot_mode sh i)" "mark sh1 i = mark sh i" for i
    using l Cons.prems(1) j by (simp_all add: sh1_def) (simp add: mark_def)
  obtain sh' where sh': "unlock_all sh1 js = Some sh'"
    "relocked sh1 sh' (\<lambda>i. if i \<in> set js then Free else slot_mode sh1 i)" "\<forall>i < 5. mark sh' i = mark sh1 i"
    using Cons.IH[OF sh1(1)] Cons.prems sh1(2) by fastforce
  have "same_but_marks sh sh'"
    using same_but_marks_trans[of sh sh1 sh'] sh'(2) by (simp add: relocked_def sh1_def)
  then have "relocked sh sh' (\<lambda>i. if i \<in> set (j # js) then Free else slot_mode sh i)"
    using sh'(2) sh1 by (simp add: relocked_def)
  moreover have "unlock_all sh (j # js) = Some sh'" using l(1) sh'(1) by (simp add: sh1_def)
  ultimately show ?case using sh'(3) sh1(3) by auto
qed

text \<open>One step of the loop on a free slot.\<close>

lemma slot_take_reset:
  assumes "locks_ok sh" "i < 5" "slot_mode sh i = Free"
  shows "\<exists>sh1 l. try_read_mark_exclusive sh i = (True, sh1)
    \<and> set_read_mark_value_exclusive sh1 i v = Some (sh\<lparr>ws_read_locks := (ws_read_locks sh)[i := l]\<rparr>)
    \<and> rw_ok l \<and> rw_mode_of l = Writer \<and> rw_get_value l = v"
proof -
  obtain l where l: "try_read_mark_exclusive sh i = (True, sh\<lparr>ws_read_locks := (ws_read_locks sh)[i := l]\<rparr>)"
    "rw_ok l" "rw_mode_of l = Writer" using slot_exclusive_free[OF assms] by blast
  have "i < length (ws_read_locks sh)" using assms by (simp add: locks_ok_def)
  then show ?thesis using l turso_lock.set_law[OF l(2,3), of v]
    by (auto simp: set_read_mark_value_exclusive_def)
qed

definition restart_marks_kept :: "wal_shared \<Rightarrow> wal_shared \<Rightarrow> nat set \<Rightarrow> bool" where
  "restart_marks_kept sh sh' I \<longleftrightarrow>
     (\<forall>i < 5. mark sh' i = mark sh i \<or> i \<in> I \<and> slot_mode sh i = Free \<and> mark sh' i = unat READMARK_NOT_USED)"

lemma restart_locks_spec:
  assumes "locks_ok sh" "1 \<le> k" "k \<le> 5" "\<forall>i. 1 \<le> i \<and> i < k \<longrightarrow> slot_mode sh i = Writer"
  shows "if \<forall>i. k \<le> i \<and> i < 5 \<longrightarrow> slot_mode sh i = Free
    then \<exists>sh'. restart_locks sh [k..<5] = Some (Inr (), sh')
           \<and> relocked sh sh' (\<lambda>i. if 1 \<le> i then Writer else slot_mode sh i)
           \<and> restart_marks_kept sh sh' {k..<5}
    else \<exists>sh'. restart_locks sh [k..<5] = Some (Inl Busy, sh')
           \<and> relocked sh sh' (\<lambda>i. if 1 \<le> i \<and> i < k then Free else slot_mode sh i)
           \<and> restart_marks_kept sh sh' {k..<5}"
  using assms
proof (induction "5 - k" arbitrary: k sh)
  case 0
  then have "k = 5" by simp
  then show ?case using 0 by (auto simp: relocked_def restart_marks_kept_def)
next
  case (Suc d)
  then have k: "k < 5" and upt: "[k..<5] = k # [Suc k..<5]" by (simp_all add: upt_conv_Cons)
  show ?case
  proof (cases "slot_mode sh k = Free")
    case False
    obtain sh' where sh': "unlock_all sh [1..<k] = Some sh'"
      "relocked sh sh' (\<lambda>i. if i \<in> set [1..<k] then Free else slot_mode sh i)" "\<forall>i < 5. mark sh' i = mark sh i"
      using unlock_all_spec[OF Suc.prems(1), of "[1..<k]"] Suc.prems k by fastforce
    have "restart_locks sh [k..<5] = Some (Inl Busy, sh')"
      using slot_exclusive_busy[OF Suc.prems(1) k False] sh'(1) by (simp add: upt)
    moreover have "relocked sh sh' (\<lambda>i. if 1 \<le> i \<and> i < k then Free else slot_mode sh i)"
      using sh'(2) by (simp add: relocked_def)
    ultimately show ?thesis using False k sh'(3) by (auto simp: restart_marks_kept_def)
  next
    case True
    obtain sh1 l where l: "try_read_mark_exclusive sh k = (True, sh1)"
      "set_read_mark_value_exclusive sh1 k READMARK_NOT_USED = Some (sh\<lparr>ws_read_locks := (ws_read_locks sh)[k := l]\<rparr>)"
      "rw_ok l" "rw_mode_of l = Writer" "rw_get_value l = READMARK_NOT_USED"
      using slot_take_reset[OF Suc.prems(1) k True] by blast
    define sh2 where "sh2 = sh\<lparr>ws_read_locks := (ws_read_locks sh)[k := l]\<rparr>"
    have klen: "k < length (ws_read_locks sh)" using Suc.prems(1) k by (simp add: locks_ok_def)
    have sh2: "locks_ok sh2" "slot_mode sh2 i = (if i = k then Writer else slot_mode sh i)"
      "mark sh2 i = (if i = k then unat READMARK_NOT_USED else mark sh i)" "same_but_marks sh sh2" for i
      using l Suc.prems(1) klen by (simp_all add: sh2_def)
    have loop: "restart_locks sh [k..<5] = restart_locks sh2 [Suc k..<5]"
      using l by (simp add: upt sh2_def)
    have "\<forall>i. 1 \<le> i \<and> i < Suc k \<longrightarrow> slot_mode sh2 i = Writer"
      using Suc.prems(4) by (simp add: sh2 less_Suc_eq)
    then have IH: "if \<forall>i. Suc k \<le> i \<and> i < 5 \<longrightarrow> slot_mode sh2 i = Free
      then \<exists>sh'. restart_locks sh2 [Suc k..<5] = Some (Inr (), sh')
           \<and> relocked sh2 sh' (\<lambda>i. if 1 \<le> i then Writer else slot_mode sh2 i)
           \<and> restart_marks_kept sh2 sh' {Suc k..<5}
      else \<exists>sh'. restart_locks sh2 [Suc k..<5] = Some (Inl Busy, sh')
           \<and> relocked sh2 sh' (\<lambda>i. if 1 \<le> i \<and> i < Suc k then Free else slot_mode sh2 i)
           \<and> restart_marks_kept sh2 sh' {Suc k..<5}"
      using Suc.hyps(2) k sh2(1) by (intro Suc.hyps(1)) auto
    have cond: "(\<forall>i. Suc k \<le> i \<and> i < 5 \<longrightarrow> slot_mode sh2 i = Free) \<longleftrightarrow> (\<forall>i. k \<le> i \<and> i < 5 \<longrightarrow> slot_mode sh i = Free)"
      using True by (auto simp: sh2 Suc_le_eq) (metis le_neq_implies_less)
    have marks: "restart_marks_kept sh sh' {k..<5}" if "restart_marks_kept sh2 sh' {Suc k..<5}" for sh'
      unfolding restart_marks_kept_def
    proof (intro allI impI)
      fix i :: nat assume i: "i < 5"
      show "mark sh' i = mark sh i \<or> i \<in> {k..<5} \<and> slot_mode sh i = Free \<and> mark sh' i = unat READMARK_NOT_USED"
        using that[unfolded restart_marks_kept_def, rule_format, OF i] True k i by (cases "i = k") (auto simp: sh2)
    qed
    have lockA: "relocked sh sh' (\<lambda>i. if 1 \<le> i then Writer else slot_mode sh i)"
      if "relocked sh2 sh' (\<lambda>i. if 1 \<le> i then Writer else slot_mode sh2 i)" for sh'
      using that same_but_marks_trans[OF sh2(4)] Suc.prems(2) by (auto simp: relocked_def sh2)
    have lockB: "relocked sh sh' (\<lambda>i. if 1 \<le> i \<and> i < k then Free else slot_mode sh i)"
      if "relocked sh2 sh' (\<lambda>i. if 1 \<le> i \<and> i < Suc k then Free else slot_mode sh2 i)" for sh'
      using that same_but_marks_trans[OF sh2(4)] Suc.prems(2) True by (auto simp: relocked_def sh2 less_Suc_eq)
    show ?thesis using IH marks lockA lockB unfolding loop cond by (auto split: if_splits)
  qed
qed


lemma set_marks_spec:
  assumes "length ls = length vs" "\<forall>l \<in> set ls. rw_ok l \<and> rw_mode_of l = Writer"
  shows "\<exists>ls'. set_marks ls vs = Some ls' \<and> length ls' = length ls
    \<and> (\<forall>i < length ls. rw_ok (ls' ! i) \<and> rw_mode_of (ls' ! i) = Writer \<and> rw_get_value (ls' ! i) = vs ! i)"
  using assms
proof (induction ls vs rule: list_induct2)
  case Nil
  then show ?case by simp
next
  case (Cons l ls v vs)
  obtain ls' where ls': "set_marks ls vs = Some ls'" "length ls' = length ls"
    "\<forall>i < length ls. rw_ok (ls' ! i) \<and> rw_mode_of (ls' ! i) = Writer \<and> rw_get_value (ls' ! i) = vs ! i"
    using Cons by auto
  obtain l' where "rw_set_value_exclusive l v = Some l'" "rw_ok l'" "rw_mode_of l' = Writer" "rw_get_value l' = v"
    using turso_lock.set_law[of l v] Cons.prems by auto
  then show ?case using ls' by (auto simp: nth_Cons split: nat.split)
qed

text \<open>What a restart leaves: an empty log of the next generation whose header is not on disk yet,
  and fresh read marks under the given lock modes.\<close>

definition restarted :: "wal_shared \<Rightarrow> u32 \<Rightarrow> (nat \<Rightarrow> rw_mode) \<Rightarrow> wal_shared \<Rightarrow> bool" where
  "restarted sh rnd A sh' \<longleftrightarrow>
     (let hdr = (ws_wal_header sh)\<lparr>wh_checkpoint_seq := wh_checkpoint_seq (ws_wal_header sh) + 1,
                  wh_salt_1 := wh_salt_1 (ws_wal_header sh) + 1, wh_salt_2 := rnd\<rparr>
      in same_but_marks (sh\<lparr>ws_wal_header := hdr, ws_max_frame := 0, ws_nbackfills := 0,
             ws_last_checksum := (wh_checksum_1 hdr, wh_checksum_2 hdr),
             ws_initialized := False, ws_frame_cache := []\<rparr>) sh')
     \<and> locks_ok sh'
     \<and> (\<forall>i < 5. slot_mode sh' i = A i \<and> mark sh' i = (if i \<le> 1 then 0 else unat READMARK_NOT_USED))"

lemma restart_wal_header_spec:
  assumes "locks_ok sh" "\<forall>i < 5. slot_mode sh i = Writer"
  shows "\<exists>sh'. restart_wal_header sh rnd = Some sh' \<and> restarted sh rnd (\<lambda>_. Writer) sh'"
proof -
  let ?vs = "[0, 0, READMARK_NOT_USED, READMARK_NOT_USED, READMARK_NOT_USED]"
  obtain ls' where "set_marks (ws_read_locks sh) ?vs = Some ls'" "length ls' = 5"
    "\<forall>i < 5. rw_ok (ls' ! i) \<and> rw_mode_of (ls' ! i) = Writer \<and> rw_get_value (ls' ! i) = ?vs ! i"
    using set_marks_spec[of "ws_read_locks sh" ?vs] assms
    by (fastforce simp: locks_ok_def slot_mode_def in_set_conv_nth)
  moreover have "unat (?vs ! i) = (if i \<le> 1 then 0 else unat READMARK_NOT_USED)" if "i < 5" for i
    using that by (auto simp: less_Suc_eq numeral_eq_Suc)
  ultimately show ?thesis
    by (simp add: restart_wal_header_def restarted_def Let_def locks_ok_def slot_mode_def mark_def
        read_mark_value_def same_but_marks_def) (rule exI[of _ ls'], simp)
qed

lemma begin_restart_spec:
  assumes ok: "locks_ok sh" and held: "slot_mode sh 0 = Writer"
  shows "if \<forall>i. 1 \<le> i \<and> i < 5 \<longrightarrow> slot_mode sh i = Free
    then \<exists>sh'. begin_restart sh rnd = Some (Inr (load_snapshot sh'), sh') \<and> restarted sh rnd (\<lambda>_. Writer) sh'
    else \<exists>sh'. begin_restart sh rnd = Some (Inl Busy, sh')
           \<and> relocked sh sh' (slot_mode sh) \<and> restart_marks_kept sh sh' {1..<5}"
proof (cases "\<forall>i. 1 \<le> i \<and> i < 5 \<longrightarrow> slot_mode sh i = Free")
  case True
  then obtain sh1 where sh1: "restart_locks sh [1..<5] = Some (Inr (), sh1)"
    "relocked sh sh1 (\<lambda>i. if 1 \<le> i then Writer else slot_mode sh i)"
    using restart_locks_spec[OF ok, of 1] by auto
  then have "locks_ok sh1" "\<forall>i < 5. slot_mode sh1 i = Writer"
    using held by (auto simp: relocked_def not_less_eq_eq)
  then obtain sh2 where sh2: "restart_wal_header sh1 rnd = Some sh2" "restarted sh1 rnd (\<lambda>_. Writer) sh2"
    using restart_wal_header_spec by blast
  obtain ls where "sh1 = sh\<lparr>ws_read_locks := ls\<rparr>" using sh1(2) by (auto simp: relocked_def same_but_marks_def)
  then have "restarted sh rnd (\<lambda>_. Writer) sh2" using sh2(2) by (auto simp: restarted_def same_but_marks_def Let_def)
  then show ?thesis using True sh1(1) sh2(1) by (auto simp: begin_restart_def)
next
  case False
  then obtain sh1 where sh1: "restart_locks sh [1..<5] = Some (Inl Busy, sh1)"
    "relocked sh sh1 (slot_mode sh)" "restart_marks_kept sh sh1 {1..<5}"
    using restart_locks_spec[OF ok, of 1] by (auto simp: relocked_def split: if_splits)
  then show ?thesis using False by (auto simp: begin_restart_def)
qed

lemma end_restart_spec:
  assumes "locks_ok sh" "\<forall>i. 1 \<le> i \<and> i < 5 \<longrightarrow> slot_mode sh i = Writer"
  shows "\<exists>sh'. end_restart sh = Some sh'
    \<and> relocked sh sh' (\<lambda>i. if 1 \<le> i then Free else slot_mode sh i) \<and> (\<forall>i < 5. mark sh' i = mark sh i)"
  using unlock_all_spec[OF assms(1), of "[1..<5]"] assms(2)
  by (auto simp: end_restart_def relocked_def subset_iff)

lemma upgrade_law:
  assumes "rw_ok mem"
  shows "if rw_mode_of mem = Readers 1
    then \<exists>l. rw_upgrade mem = (True, l) \<and> rw_ok l \<and> rw_mode_of l = Writer \<and> rw_get_value l = rw_get_value mem
    else rw_upgrade mem = (False, mem)"
proof (rule rw_cases[of mem])
  fix v r w assume l: "mem = rw_mk v r w" "r < 2 ^ 31"
  then show ?thesis using assms by (cases w) (simp_all add: rw_upgrade_eq rw_simps)
qed

lemma downgrade_law:
  assumes "rw_ok mem" "rw_mode_of mem = Writer"
  shows "rw_ok (rw_downgrade mem) \<and> rw_mode_of (rw_downgrade mem) = Readers 1
    \<and> rw_get_value (rw_downgrade mem) = rw_get_value mem"
proof (rule rw_cases[of mem])
  fix v r w assume l: "mem = rw_mk v r w" "r < 2 ^ 31"
  then have "w" "r = 0" using assms by (auto simp: rw_simps split: if_splits)
  then show ?thesis using l by (simp add: rw_downgrade_def rw_simps)
qed

lemma slot_upgrade:
  assumes "locks_ok sh" "i < 5"
  shows "if slot_mode sh i = Readers 1
    then \<exists>l. try_upgrade_read_mark sh i = (True, sh\<lparr>ws_read_locks := (ws_read_locks sh)[i := l]\<rparr>)
          \<and> rw_ok l \<and> rw_mode_of l = Writer \<and> rw_get_value l = read_mark_value sh i
    else try_upgrade_read_mark sh i = (False, sh)"
  using upgrade_law[of "ws_read_locks sh ! i"] assms
  by (fastforce simp: locks_ok_def slot_mode_def try_upgrade_read_mark_def read_mark_value_def)

lemma slot_downgrade:
  assumes "locks_ok sh" "i < 5" "slot_mode sh i = Writer"
  shows "\<exists>l. downgrade_read_mark sh i = sh\<lparr>ws_read_locks := (ws_read_locks sh)[i := l]\<rparr>
    \<and> rw_ok l \<and> rw_mode_of l = Readers 1 \<and> rw_get_value l = read_mark_value sh i"
  using downgrade_law[of "ws_read_locks sh ! i"] assms
  by (auto simp: locks_ok_def slot_mode_def downgrade_read_mark_def read_mark_value_def)

text \<open>A change of one slot's lock word, read as a change of modes.\<close>

lemma relocked_update:
  assumes "locks_ok sh" "i < 5" "rw_ok l" "rw_get_value l = read_mark_value sh i"
    "sh' = sh\<lparr>ws_read_locks := (ws_read_locks sh)[i := l]\<rparr>"
  shows "relocked sh sh' (\<lambda>j. if j = i then rw_mode_of l else slot_mode sh j)" "mark sh' j = mark sh j"
proof -
  have "i < length (ws_read_locks sh)" using assms by (simp add: locks_ok_def)
  then show "relocked sh sh' (\<lambda>j. if j = i then rw_mode_of l else slot_mode sh j)" "mark sh' j = mark sh j"
    using assms by (simp_all add: relocked_def) (simp add: mark_def)
qed

lemma upgrade_relocked:
  assumes "locks_ok sh" "slot_mode sh 0 = Readers 1"
  obtains sh' where "try_upgrade_read_mark sh 0 = (True, sh')"
    "relocked sh sh' (\<lambda>j. if j = 0 then Writer else slot_mode sh j)" "\<forall>j < 5. mark sh' j = mark sh j"
proof -
  obtain l where l: "try_upgrade_read_mark sh 0 = (True, sh\<lparr>ws_read_locks := (ws_read_locks sh)[0 := l]\<rparr>)"
    "rw_ok l" "rw_mode_of l = Writer" "rw_get_value l = read_mark_value sh 0"
    using slot_upgrade[OF assms(1), of 0] assms(2) by auto
  show thesis
    by (rule that[OF l(1)]) (use relocked_update[OF assms(1) _ l(2,4) refl, unfolded l(3)] in simp_all)
qed

lemma downgrade_relocked:
  assumes "locks_ok sh" "slot_mode sh 0 = Writer"
  obtains sh' where "downgrade_read_mark sh 0 = sh'"
    "relocked sh sh' (\<lambda>j. if j = 0 then Readers 1 else slot_mode sh j)" "\<forall>j < 5. mark sh' j = mark sh j"
proof -
  obtain l where l: "downgrade_read_mark sh 0 = sh\<lparr>ws_read_locks := (ws_read_locks sh)[0 := l]\<rparr>"
    "rw_ok l" "rw_mode_of l = Readers 1" "rw_get_value l = read_mark_value sh 0"
    using slot_downgrade[OF assms(1) _ assms(2)] by auto
  show thesis
    by (rule that[OF l(1)]) (use relocked_update[OF assms(1) _ l(2,4) refl, unfolded l(3)] in simp_all)
qed

lemma relocked_trans:
  "relocked a b A \<Longrightarrow> relocked b c B \<Longrightarrow> (\<And>i. i < 5 \<Longrightarrow> B i = C i) \<Longrightarrow> relocked a c C"
  using same_but_marks_trans[of a b c] by (simp add: relocked_def)

lemma restarted_relock:
  assumes "restarted sh rnd A sh1" "relocked sh1 sh' B" "\<forall>i < 5. mark sh' i = mark sh1 i"
  shows "restarted sh rnd B sh'"
  using assms same_but_marks_trans[OF _ conjunct1[OF assms(2)[unfolded relocked_def]]]
  by (simp add: restarted_def relocked_def Let_def)

lemma restarted_from: "relocked sh sh1 B \<Longrightarrow> restarted sh1 rnd A sh' = restarted sh rnd A sh'"
proof -
  assume "relocked sh sh1 B"
  then obtain ls where "sh1 = sh\<lparr>ws_read_locks := ls\<rparr>" by (auto simp: relocked_def same_but_marks_def)
  then show ?thesis by (simp add: restarted_def same_but_marks_def Let_def)
qed

text \<open>A writer that is the only reader of the database file may restart the log; everything else
  leaves the slots as they were.\<close>

lemma try_restart_spec:
  assumes ok: "locks_ok sh"
  shows "if slot_mode sh 0 \<noteq> Readers 1 then try_restart_log_for_write sh rnd = Some (Inr None, sh)
    else if \<forall>i. 1 \<le> i \<and> i < 5 \<longrightarrow> slot_mode sh i = Free
    then \<exists>sh'. try_restart_log_for_write sh rnd = Some (Inr (Some (load_snapshot sh')), sh')
           \<and> restarted sh rnd (\<lambda>i. if i = 0 then Readers 1 else Free) sh'
    else \<exists>sh'. try_restart_log_for_write sh rnd = Some (Inl Busy, sh')
           \<and> relocked sh sh' (slot_mode sh) \<and> restart_marks_kept sh sh' {1..<5}"
proof (cases "slot_mode sh 0 = Readers 1")
  case False
  then show ?thesis using slot_upgrade[OF ok, of 0] by (simp add: try_restart_log_for_write_def)
next
  case True
  obtain sh1 where up: "try_upgrade_read_mark sh 0 = (True, sh1)"
    and sh1: "relocked sh sh1 (\<lambda>j. if j = 0 then Writer else slot_mode sh j)" "\<forall>j < 5. mark sh1 j = mark sh j"
    using upgrade_relocked[OF ok True] .
  have m1: "locks_ok sh1" "slot_mode sh1 0 = Writer" "\<And>i. i < 5 \<Longrightarrow> slot_mode sh1 i = (if i = 0 then Writer else slot_mode sh i)"
    using sh1(1) by (auto simp: relocked_def)
  have all: "(\<forall>i. 1 \<le> i \<and> i < 5 \<longrightarrow> slot_mode sh1 i = Free) \<longleftrightarrow> (\<forall>i. 1 \<le> i \<and> i < 5 \<longrightarrow> slot_mode sh i = Free)"
    by (auto simp: m1(3))
  note start = begin_restart_spec[OF m1(1,2), of rnd, unfolded all]
  show ?thesis
  proof (cases "\<forall>i. 1 \<le> i \<and> i < 5 \<longrightarrow> slot_mode sh i = Free")
    case F: True
    obtain sh2 where sh2: "begin_restart sh1 rnd = Some (Inr (load_snapshot sh2), sh2)" "restarted sh1 rnd (\<lambda>_. Writer) sh2"
      using start[unfolded if_P[OF F]] by blast
    have ok2: "locks_ok sh2" "\<And>i. i < 5 \<Longrightarrow> slot_mode sh2 i = Writer" using sh2(2) by (auto simp: restarted_def)
    obtain sh3 where sh3: "downgrade_read_mark sh2 0 = sh3"
      "relocked sh2 sh3 (\<lambda>j. if j = 0 then Readers 1 else slot_mode sh2 j)" "\<forall>j < 5. mark sh3 j = mark sh2 j"
      using downgrade_relocked[OF ok2(1) ok2(2)[of 0]] by auto
    obtain sh4 where sh4: "end_restart sh3 = Some sh4"
      "relocked sh3 sh4 (\<lambda>i. if 1 \<le> i then Free else slot_mode sh3 i)" "\<forall>i < 5. mark sh4 i = mark sh3 i"
      using end_restart_spec[of sh3] sh3(2) ok2(2) by (auto simp: relocked_def)
    have "relocked sh2 sh4 (\<lambda>i. if i = 0 then Readers 1 else Free)"
      using relocked_trans[OF sh3(2) sh4(2)] sh3(2) by (auto simp: relocked_def)
    then have "restarted sh rnd (\<lambda>i. if i = 0 then Readers 1 else Free) sh4"
      using restarted_relock[OF sh2(2)] sh4(3) sh3(3) restarted_from[OF sh1(1)] by simp
    moreover have "load_snapshot sh4 = load_snapshot sh2"
      using same_but_marks_snapshot[of sh3 sh4] same_but_marks_snapshot[of sh2 sh3] sh4(2) sh3(2)
      by (simp add: relocked_def)
    moreover have "try_restart_log_for_write sh rnd = Some (Inr (Some (load_snapshot sh2)), sh4)"
      using up sh2(1) sh3(1) sh4(1) by (simp add: try_restart_log_for_write_def)
    ultimately show ?thesis unfolding if_P[OF F] unfolding True by auto
  next
    case B: False
    obtain sh2 where sh2: "begin_restart sh1 rnd = Some (Inl Busy, sh2)" "relocked sh1 sh2 (slot_mode sh1)"
      "restart_marks_kept sh1 sh2 {1..<5}"
      using start[unfolded if_not_P[OF B]] by blast
    have ok2: "locks_ok sh2" "slot_mode sh2 0 = Writer" using sh2(2) m1(2) by (auto simp: relocked_def)
    obtain sh3 where sh3: "downgrade_read_mark sh2 0 = sh3"
      "relocked sh2 sh3 (\<lambda>j. if j = 0 then Readers 1 else slot_mode sh2 j)" "\<forall>j < 5. mark sh3 j = mark sh2 j"
      using downgrade_relocked[OF ok2] .
    have "relocked sh1 sh3 (slot_mode sh)"
      by (rule relocked_trans[OF sh2(2) sh3(2)]) (use sh2(2) m1(3) True in \<open>auto simp: relocked_def\<close>)
    then have "relocked sh sh3 (slot_mode sh)" using relocked_trans[OF sh1(1)] by blast
    moreover have "restart_marks_kept sh sh3 {1..<5}"
      unfolding restart_marks_kept_def
    proof (intro allI impI)
      fix i :: nat assume i: "i < 5"
      show "mark sh3 i = mark sh i \<or> i \<in> {1..<5} \<and> slot_mode sh i = Free \<and> mark sh3 i = unat READMARK_NOT_USED"
        using sh2(3)[unfolded restart_marks_kept_def, rule_format, OF i] sh3(3) sh1(2) i m1(3)[OF i] by auto
    qed
    moreover have "try_restart_log_for_write sh rnd = Some (Inl Busy, sh3)"
      using up sh2(1) sh3(1) by (simp add: try_restart_log_for_write_def)
    ultimately show ?thesis unfolding if_not_P[OF B] unfolding True by auto
  qed
qed

section \<open>Frames\<close>

text \<open>The frames of a page are cached in the order they were written; \<open>newest\<close> is the last of
  them that satisfies a predicate.\<close>

definition cache_ok :: "frame_cache \<Rightarrow> bool" where
  "cache_ok cache \<longleftrightarrow> distinct (map fst cache) \<and> (\<forall>p. sorted_wrt (<) (fc_get cache p))"

definition newest :: "(nat \<Rightarrow> bool) \<Rightarrow> nat list \<Rightarrow> nat option" where
  "newest P fs = (if \<exists>f \<in> set fs. P f then Some (Max {f \<in> set fs. P f}) else None)"

lemma rfind_snoc [simp]: "rfind P (xs @ [x]) = (if P x then Some x else rfind P xs)"
  by (cases "filter P xs") (simp_all add: rfind_def)

lemma rfind_newest: "sorted_wrt (<) fs \<Longrightarrow> rfind P fs = newest P fs"
proof (induction fs rule: rev_induct)
  case Nil
  then show ?case by (simp add: newest_def rfind_def)
next
  case (snoc x xs)
  then have lt: "\<forall>y \<in> set xs. y < x" and IH: "rfind P xs = newest P xs" by (simp_all add: sorted_wrt_append)
  show ?case
  proof (cases "P x")
    case True
    have "Max {f \<in> set (xs @ [x]). P f} = x"
      using lt True by (intro Max_eqI) (auto simp: less_imp_le)
    then show ?thesis using True by (simp add: newest_def)
  next
    case False
    then have "{f. (f = x \<or> f \<in> set xs) \<and> P f} = {f \<in> set xs. P f}" by auto
    then show ?thesis using False IH by (simp add: newest_def)
  qed
qed

lemma newest_Some: "newest P fs = Some f \<longleftrightarrow> f \<in> set fs \<and> P f \<and> (\<forall>g \<in> set fs. P g \<longrightarrow> g \<le> f)"
proof -
  have "finite {f \<in> set fs. P f}" by simp
  then show ?thesis
    using Max_in[of "{f \<in> set fs. P f}"] Max_ge[of "{f \<in> set fs. P f}"] Max_eqI[of "{f \<in> set fs. P f}" f]
    by (auto simp: newest_def)
qed

lemma newest_None: "newest P fs = None \<longleftrightarrow> (\<forall>f \<in> set fs. \<not> P f)"
  by (simp add: newest_def)

lemma find_frame_newest:
  assumes "cache_ok (ws_frame_cache sh)"
  shows "coord_find_frame sh page lo hi watermark =
    newest (case watermark of Some x \<Rightarrow> (\<lambda>f. f \<le> x) | None \<Rightarrow> (\<lambda>f. lo \<le> f \<and> f \<le> hi))
      (fc_get (ws_frame_cache sh) page)"
proof (cases "map_of (ws_frame_cache sh) page")
  case None
  then show ?thesis by (simp add: coord_find_frame_def fc_get_def newest_def)
next
  case (Some fs)
  then have "sorted_wrt (<) fs" using assms unfolding cache_ok_def fc_get_def by (metis option.simps(5))
  then show ?thesis using Some by (simp add: coord_find_frame_def fc_get_def rfind_newest Let_def)
qed

lemma pop_above_filter: "sorted_wrt (<) fs \<Longrightarrow> pop_above m fs = filter (\<lambda>f. f \<le> m) fs"
proof (induction fs rule: rev_induct)
  case Nil
  then show ?case by (simp add: pop_above_def)
next
  case (snoc x xs)
  then have lt: "\<forall>y \<in> set xs. y < x" and IH: "pop_above m xs = filter (\<lambda>f. f \<le> m) xs" by (simp_all add: sorted_wrt_append)
  show ?case
  proof (cases "x \<le> m")
    case True
    then have "filter (\<lambda>f. f \<le> m) xs = xs" using lt by (auto simp: filter_id_conv)
    then show ?thesis using True by (simp add: pop_above_def)
  next
    case False
    then show ?thesis using IH by (simp add: pop_above_def)
  qed
qed

lemma cache_frame_get [simp]:
  "fc_get (ws_frame_cache (cache_frame sh page f)) q =
     (if q = page then fc_get (ws_frame_cache sh) page @ [f] else fc_get (ws_frame_cache sh) q)"
  by (simp add: cache_frame_def)

lemma cache_frame_ok:
  assumes "cache_ok (ws_frame_cache sh)" "\<forall>g \<in> set (fc_get (ws_frame_cache sh) page). g < f"
  shows "cache_ok (ws_frame_cache (cache_frame sh page f))"
  using assms by (simp add: cache_ok_def cache_frame_def sorted_wrt_append)

lemma rollback_cache_get:
  assumes "cache_ok (ws_frame_cache sh)"
  shows "fc_get (ws_frame_cache (rollback_cache sh m)) page = filter (\<lambda>f. f \<le> m) (fc_get (ws_frame_cache sh) page)"
proof -
  let ?c = "ws_frame_cache sh"
  have d: "distinct (map fst (map (\<lambda>(p, fs). (p, pop_above m fs)) ?c))"
    using assms by (simp add: cache_ok_def comp_def case_prod_beta)
  have "fc_get (ws_frame_cache (rollback_cache sh m)) page =
      (if page \<in> fst ` set ?c then pop_above m (fc_get ?c page) else [])"
    unfolding rollback_cache_def by (simp add: fc_get_filter_nonempty[OF d] fc_get_map)
  then show ?thesis using assms fc_get_absent[of page ?c] by (simp add: cache_ok_def pop_above_filter)
qed

lemma rollback_cache_ok: "cache_ok (ws_frame_cache sh) \<Longrightarrow> cache_ok (ws_frame_cache (rollback_cache sh m))"
proof -
  assume ok: "cache_ok (ws_frame_cache sh)"
  have "distinct (map fst (ws_frame_cache (rollback_cache sh m)))"
    using ok by (auto simp: cache_ok_def rollback_cache_def comp_def case_prod_beta intro: distinct_map_filter)
  then show ?thesis using ok unfolding cache_ok_def by (simp add: rollback_cache_get ok[unfolded cache_ok_def] cache_ok_def sorted_wrt_filter)
qed

text \<open>The frames a checkpoint copies: for every page the newest frame of the range, each page
  once, in page order.\<close>

lemma latest_frames_fst: "fst ` set (latest_frames lo hi cache) \<subseteq> fst ` set cache"
  by (induction lo hi cache rule: latest_frames.induct) (auto split: option.splits)

lemma latest_frames_spec:
  assumes "distinct (map fst cache)" "\<forall>p. sorted_wrt (<) (fc_get cache p)"
  shows "distinct (map fst (latest_frames lo hi cache))
    \<and> ((p, f) \<in> set (latest_frames lo hi cache) \<longleftrightarrow> newest (\<lambda>f. lo \<le> f \<and> f \<le> hi) (fc_get cache p) = Some f)"
  using assms
proof (induction lo hi cache rule: latest_frames.induct)
  case (1 lo hi)
  then show ?case by (simp add: newest_def)
next
  case (2 lo hi q fs cache)
  have fs: "sorted_wrt (<) fs" using 2(4)[rule_format, of q] by (simp add: fc_get_Cons)
  have q: "q \<notin> fst ` set cache" using "2.prems"(1) by simp
  have rest: "sorted_wrt (<) (fc_get cache r)" for r
    using 2(4)[rule_format, of r] q fc_get_absent[of q cache] by (cases "r = q") (simp_all add: fc_get_Cons)
  have out: "q \<notin> fst ` set (latest_frames lo hi cache)" using q latest_frames_fst[of lo hi cache] by blast
  have IH: "distinct (map fst (latest_frames lo hi cache))"
    "(p, f) \<in> set (latest_frames lo hi cache) \<longleftrightarrow> newest (\<lambda>f. lo \<le> f \<and> f \<le> hi) (fc_get cache p) = Some f"
    using 2 rest by (auto split: option.splits)
  have notin: "(q, g) \<notin> set (latest_frames lo hi cache)" for g using out by force
  show ?case
    using IH out notin by (auto simp: rfind_newest[OF fs] fc_get_Cons split: option.splits)
qed

section \<open>Properties\<close>

lemma rw_new_free [simp]: "rw_ok rw_new" "rw_mode_of rw_new = Free"
  by (simp_all add: rw_new_mk rw_simps)

lemma init_locks:
  assumes "ws_read_locks sh = init_read_locks"
  shows "locks_ok sh" "i < 5 \<Longrightarrow> slot_mode sh i = Free"
proof -
  have len: "length (ws_read_locks sh) = 5" using assms by (simp add: init_read_locks_eq)
  have mk: "\<forall>l \<in> set (ws_read_locks sh). \<exists>v. l = rw_mk v 0 False" using assms by (auto simp: init_read_locks_eq)
  have free: "rw_ok (rw_mk v 0 False)" "rw_mode_of (rw_mk v 0 False) = Free" for v by (simp_all add: rw_simps)
  have "\<exists>v. ws_read_locks sh ! i = rw_mk v 0 False" if "i < 5" for i using mk len that by simp
  then show "locks_ok sh" "i < 5 \<Longrightarrow> slot_mode sh i = Free"
    using len free by (fastforce simp: locks_ok_def slot_mode_def)+
qed

lemma noop_locks: "locks_ok (wal_shared_new_noop False)" "i < 5 \<Longrightarrow> slot_mode (wal_shared_new_noop False) i = Free"
  "guards_ok (wal_shared_new_noop False)"
  using init_locks[of "wal_shared_new_noop False"] by (simp_all add: wal_shared_new_noop_def guards_ok_def)

text \<open>C12: The frame up to which a checkpoint may copy is the smaller of the newest frame and the
  marks of the readers in use: no reader is behind it, and unless it is the newest frame some reader
  holds it there. The marks of readers in use do not change.\<close>

theorem checkpoint_frame_is_safe:
  assumes "locks_ok sh" and "m < 2 ^ 32"
  shows "\<exists>S sh'. determine_max_safe_checkpoint_frame sh m = Some (S, sh') \<and> S \<le> m
    \<and> (\<forall>i. 1 \<le> i \<and> i < 5 \<and> slot_mode sh i \<noteq> Free \<longrightarrow> S \<le> mark sh i \<and> mark sh' i = mark sh i)
    \<and> (S = m \<or> (\<exists>i. 1 \<le> i \<and> i < 5 \<and> slot_mode sh i \<noteq> Free \<and> mark sh i = S))"
proof -
  obtain S sh' where S: "safe_frame_loop sh m [1..<5] = Some (S, sh')" "safe_scan sh m {1..<5} S sh'"
    using safe_frame_loop_spec[OF assms(1) _ _ assms(2), of "[1..<5]"] by auto
  have "S \<le> mark sh i \<and> mark sh' i = mark sh i" if i: "1 \<le> i" "i < 5" "slot_mode sh i \<noteq> Free" for i
  proof -
    have "mark sh' i = mark sh i" using S(2) i unfolding safe_scan_def by blast
    moreover have "S \<le> mark sh' i" using S(2) i unfolding safe_scan_def by (meson atLeastLessThan_iff)
    ultimately show ?thesis by simp
  qed
  moreover have "S \<le> m" "S = m \<or> (\<exists>i. 1 \<le> i \<and> i < 5 \<and> slot_mode sh i \<noteq> Free \<and> mark sh i = S)"
    using S(2) unfolding safe_scan_def by (auto 4 3)
  ultimately show ?thesis using S(1) assms(2) by (auto simp: determine_max_safe_checkpoint_frame_def)
qed

theorem checkpoint_frame_is_safe_witness:
  "\<exists>S sh'. determine_max_safe_checkpoint_frame (wal_shared_new_noop False) 7 = Some (S, sh') \<and> S = 7"
  using checkpoint_frame_is_safe[OF noop_locks(1), of 7] noop_locks(2) by auto

text \<open>C13: Acquiring the checkpoint guard is all or nothing: when one of its locks is taken the attempt
  is refused with the state unchanged, otherwise the guard is held, and releasing it restores the
  state.\<close>

theorem checkpoint_guard_all_or_nothing:
  assumes "guards_ok sh"
  shows "if rw_mode_of (ws_checkpoint_lock sh) = Free \<and> slot_mode sh 0 = Free
           \<and> (guard_for mode = WriterGuard \<longrightarrow> rw_mode_of (ws_write_lock sh) = Free)
    then \<exists>sh'. acquire_checkpoint_guard sh mode = Some (Inr (guard_for mode), sh')
           \<and> guard_held sh (guard_for mode) sh' \<and> release_checkpoint_guard sh' (guard_for mode) = Some sh
    else acquire_checkpoint_guard sh mode = Some (Inl Busy, sh)"
  using acquire_guard_spec[OF assms, of mode] by (simp add: guard_available_def)

theorem checkpoint_guard_all_or_nothing_witness:
  "\<exists>sh'. acquire_checkpoint_guard (wal_shared_new_noop False) Restart = Some (Inr WriterGuard, sh')
     \<and> release_checkpoint_guard sh' WriterGuard = Some (wal_shared_new_noop False)"
proof -
  have "rw_mode_of (ws_checkpoint_lock (wal_shared_new_noop False)) = Free" "rw_mode_of (ws_write_lock (wal_shared_new_noop False)) = Free"
    by (simp_all add: wal_shared_new_noop_def)
  then show ?thesis using checkpoint_guard_all_or_nothing[OF noop_locks(3), of Restart] noop_locks(2)[of 0] by (auto simp: guard_for_def)
qed

lemma busy_write: "rw_mode_of l \<noteq> Free \<Longrightarrow> rw_ok l \<Longrightarrow> rw_write l = (False, l)"
  by (rule rw_cases[of l]) (simp add: rw_write_eq rw_simps split: if_splits)

lemma free_write:
  assumes "rw_mode_of l = Free" "rw_ok l"
  shows "\<exists>v. l = rw_mk v 0 False"
  using assms by (cases rule: rw_cases[of l]) (auto simp: rw_simps split: if_splits)

lemma one_reader_mk:
  assumes "rw_mode_of l = Readers 1" "rw_ok l"
  shows "\<exists>v. l = rw_mk v 1 False"
  using assms by (cases rule: rw_cases[of l]) (auto simp: rw_simps split: if_splits)

lemma restart_busy:
  assumes ok: "locks_ok sh" and one: "slot_mode sh 0 = Readers 1" and k: "1 \<le> k" "k < 5" "slot_mode sh k \<noteq> Free"
    and free: "\<forall>i. 1 \<le> i \<and> i < k \<longrightarrow> slot_mode sh i = Free"
  shows "try_restart_log_for_write sh rnd = Some (Inl Busy, sh\<lparr>ws_read_locks :=
    map (\<lambda>i. if 1 \<le> i \<and> i < k then rw_mk READMARK_NOT_USED 0 False else ws_read_locks sh ! i) [0..<5]\<rparr>)"
proof -
  obtain a b c d e where ls: "ws_read_locks sh = [a, b, c, d, e]"
    using ok by (auto simp: locks_ok_def numeral_eq_Suc length_Suc_conv)
  have oks: "rw_ok a" "rw_ok b" "rw_ok c" "rw_ok d" "rw_ok e"
    using ok by (auto simp: locks_ok_def ls numeral_eq_Suc less_Suc_eq all_conj_distrib)
  obtain va where a: "a = rw_mk va 1 False" using one_reader_mk[OF _ oks(1)] one by (auto simp: slot_mode_def ls)
  have up: "[Suc 0..<5] = [1, 2, 3, 4]" "[0..<5] = [0, 1, 2, 3, 4]" "[Suc 0..<2] = [1]" "[Suc 0..<3] = [1, 2]" "[Suc 0..<4] = [1, 2, 3]" by (simp_all add: upt_rec)
  have setm: "rw_set_value_exclusive (rw_mk v r True) u = Some (rw_mk u r True)" for v r u
    by (simp add: rw_set_value_exclusive_def rw_simps)
  note ev = try_restart_log_for_write_def begin_restart_def up try_upgrade_read_mark_def rw_upgrade_eq rw_downgrade_def
    downgrade_read_mark_def try_read_mark_exclusive_def set_read_mark_value_exclusive_def unlock_read_mark_def rw_unlock_eq setm rw_simps Let_def ls a
  note free_mode = free_write[OF _ oks(2)] free_write[OF _ oks(3)] free_write[OF _ oks(4)]
  note busy_mode = busy_write[OF _ oks(2)] busy_write[OF _ oks(3)] busy_write[OF _ oks(4)] busy_write[OF _ oks(5)]
  have w: "rw_write (rw_mk v 0 False) = (True, rw_mk v 0 True)" for v by (simp add: rw_write_eq rw_simps)
  consider "k = 1" | "k = 2" | "k = 3" | "k = 4" using k by linarith
  then show ?thesis
  proof cases
    case 1
    then have "rw_write b = (False, b)" using k(3) busy_mode by (simp add: slot_mode_def ls)
    then show ?thesis using 1 by (simp add: ev w)
  next
    case 2
    then have "rw_write c = (False, c)" using k(3) busy_mode by (simp add: slot_mode_def ls)
    moreover obtain vb where "b = rw_mk vb 0 False" using free free_mode(1) 2 by (auto simp: slot_mode_def ls)
    ultimately show ?thesis using 2 by (simp add: ev w)
  next
    case 3
    then have "rw_write d = (False, d)" using k(3) busy_mode by (simp add: slot_mode_def ls)
    moreover obtain vb vc where "b = rw_mk vb 0 False" "c = rw_mk vc 0 False"
      using free[rule_format, of 1] free[rule_format, of 2] free_mode(1,2) 3 by (auto simp: slot_mode_def ls)
    ultimately show ?thesis using 3 by (simp add: ev w)
  next
    case 4
    then have "rw_write e = (False, e)" using k(3) busy_mode by (simp add: slot_mode_def ls)
    moreover obtain vb vc vd where "b = rw_mk vb 0 False" "c = rw_mk vc 0 False" "d = rw_mk vd 0 False"
      using free[rule_format, of 1] free[rule_format, of 2] free[rule_format, of 3] free_mode 4 by (auto simp: slot_mode_def ls)
    ultimately show ?thesis using 4 by (simp add: ev w)
  qed
qed

text \<open>A state with the writer in slot 0 and a reader of the log in slot 2.\<close>

definition demo_reader_state :: wal_shared where
  "demo_reader_state = (wal_shared_new_noop False)\<lparr>ws_read_locks :=
     [rw_mk 0 1 False, rw_mk 0 0 False, rw_mk 3 1 False, rw_mk READMARK_NOT_USED 0 False, rw_mk READMARK_NOT_USED 0 False]\<rparr>"

lemma all_slots: "(\<forall>i < 5. P i) = (P 0 \<and> P 1 \<and> P 2 \<and> P 3 \<and> P (4 :: nat))"
  by (auto simp: less_Suc_eq numeral_eq_Suc)

lemma demo_reader_locks:
  "locks_ok demo_reader_state" "slot_mode demo_reader_state 0 = Readers 1"
  "slot_mode demo_reader_state 1 = Free" "slot_mode demo_reader_state 2 = Readers 1"
  by (simp_all add: demo_reader_state_def locks_ok_def slot_mode_def rw_simps all_slots)


text \<open>C16: A lookup returns the newest frame of the page between the bounds of the reader, and none
  exactly if the page has no frame there.\<close>

theorem find_frame_is_newest:
  assumes "cache_ok (ws_frame_cache sh)"
  shows "case coord_find_frame sh page lo hi None of
      Some f \<Rightarrow> f \<in> set (fc_get (ws_frame_cache sh) page) \<and> lo \<le> f \<and> f \<le> hi
        \<and> (\<forall>g \<in> set (fc_get (ws_frame_cache sh) page). g \<le> hi \<longrightarrow> g \<le> f)
    | None \<Rightarrow> \<forall>g \<in> set (fc_get (ws_frame_cache sh) page). \<not> (lo \<le> g \<and> g \<le> hi)"
proof -
  let ?N = "newest (\<lambda>f. lo \<le> f \<and> f \<le> hi) (fc_get (ws_frame_cache sh) page)"
  have eq: "coord_find_frame sh page lo hi None = ?N" using find_frame_newest[OF assms] by simp
  show ?thesis
  proof (cases ?N)
    case None
    then have "\<forall>g \<in> set (fc_get (ws_frame_cache sh) page). \<not> (lo \<le> g \<and> g \<le> hi)" by (simp add: newest_None)
    then show ?thesis using eq None by simp
  next
    case (Some f)
    then have f: "f \<in> set (fc_get (ws_frame_cache sh) page)" "lo \<le> f" "f \<le> hi"
      "\<And>g. g \<in> set (fc_get (ws_frame_cache sh) page) \<Longrightarrow> lo \<le> g \<Longrightarrow> g \<le> hi \<Longrightarrow> g \<le> f" by (auto simp: newest_Some)
    then have "g \<le> f" if "g \<in> set (fc_get (ws_frame_cache sh) page)" "g \<le> hi" for g using that by (cases "lo \<le> g") auto
    then show ?thesis using eq Some f(1-3) by simp
  qed
qed

theorem find_frame_is_newest_witness:
  "cache_ok [(5, [1, 3, 8])] \<and> coord_find_frame ((wal_shared_new_noop False)\<lparr>ws_frame_cache := [(5, [1, 3, 8])]\<rparr>) 5 2 7 None = Some 3"
proof -
  let ?sh = "(wal_shared_new_noop False)\<lparr>ws_frame_cache := [(5, [1, 3, 8])]\<rparr>"
  have ok: "cache_ok [(5, [1, 3, 8])]" by (auto simp: cache_ok_def fc_get_Cons)
  have "case coord_find_frame ?sh 5 2 7 None of Some f \<Rightarrow> f = 3 | None \<Rightarrow> False"
    using find_frame_is_newest[of ?sh 5 2 7] ok by (auto simp: fc_get_Cons split: option.splits)
  then show ?thesis using ok by (auto split: option.splits)
qed

text \<open>C17: The rollback of the frame index removes exactly the frames after the one it rolls back to.\<close>

theorem rollback_keeps_older_frames:
  assumes "cache_ok (ws_frame_cache sh)"
  shows "fc_get (ws_frame_cache (rollback_cache sh m)) page = filter (\<lambda>f. f \<le> m) (fc_get (ws_frame_cache sh) page)
    \<and> cache_ok (ws_frame_cache (rollback_cache sh m))"
  using rollback_cache_get[OF assms] rollback_cache_ok[OF assms] by simp

theorem rollback_keeps_older_frames_witness:
  "cache_ok [(5, [1, 3, 8])] \<and>
   fc_get (ws_frame_cache (rollback_cache ((wal_shared_new_noop False)\<lparr>ws_frame_cache := [(5, [1, 3, 8])]\<rparr>) 3)) 5 = [1, 3]"
proof -
  let ?sh = "(wal_shared_new_noop False)\<lparr>ws_frame_cache := [(5, [1, 3, 8])]\<rparr>"
  have ok: "cache_ok [(5, [1, 3, 8])]" by (auto simp: cache_ok_def fc_get_Cons)
  then show ?thesis using rollback_keeps_older_frames[of ?sh 3 5] by (simp add: fc_get_Cons)
qed

end
