(* ===== verification/Wal_File.thy ===== *)
theory Wal_File
  imports Wal_Coordination
begin

text \<open>
  \<open>WalFile\<close> of \<open>core/storage/wal.rs\<close>: the log as one connection sees it. The record holds the
  fields of the structure; an operation takes the shared state and the connection's record and
  returns both. The coordination backend is \<open>InProcessWalCoordination\<close>
  (\<open>Wal_Coordination\<close>), whose \<open>ensure_local_frame_cache_covers\<close> does nothing. Pages are
  written unencrypted and without page checksums (\<open>EncryptionOrChecksum::None\<close>). File operations
  are values: an operation returns the bytes it writes and where.
\<close>

section \<open>Checkpoint results\<close>

record checkpoint_result =
  cr_max_frame :: nat
  cr_total_backfilled :: nat
  cr_checkpoint_backfilled :: nat
  cr_guard :: "checkpoint_guard_kind option"
  cr_db_truncate_sent :: bool
  cr_db_sync_sent :: bool
  cr_wal_truncate_sent :: bool
  cr_wal_sync_sent :: bool

definition checkpoint_result_new :: "nat \<Rightarrow> nat \<Rightarrow> nat \<Rightarrow> checkpoint_result" where
  "checkpoint_result_new max_frame total_backfilled backfilled = \<lparr>
     cr_max_frame = max_frame, cr_total_backfilled = total_backfilled, cr_checkpoint_backfilled = backfilled,
     cr_guard = None, cr_db_truncate_sent = False, cr_db_sync_sent = False,
     cr_wal_truncate_sent = False, cr_wal_sync_sent = False \<rparr>"

definition everything_backfilled :: "checkpoint_result \<Rightarrow> bool" where
  "everything_backfilled r \<longleftrightarrow> cr_max_frame r = cr_total_backfilled r"

definition should_truncate :: "checkpoint_result \<Rightarrow> bool" where
  "should_truncate r \<longleftrightarrow> everything_backfilled r"

text \<open>Taking the guard out of a result drops it, which releases its locks.\<close>

definition release_guard :: "wal_shared \<Rightarrow> checkpoint_result \<Rightarrow> (wal_shared \<times> checkpoint_result) option" where
  "release_guard sh r =
     (case cr_guard r of
        None \<Rightarrow> Some (sh, r)
      | Some g \<Rightarrow> do { sh1 \<leftarrow> release_checkpoint_guard sh g; Some (sh1, r\<lparr>cr_guard := None\<rparr>) })"

section \<open>State\<close>

datatype checkpoint_state =
    CkStart
  | CkProcessing
  | CkDetermineResult
  | CkFinalize "checkpoint_result option"

record ongoing_checkpoint =
  oc_min_frame :: nat
  oc_max_frame :: nat
  oc_current_page :: nat
  oc_state :: checkpoint_state
  oc_pages :: "(nat \<times> nat) list"

definition ongoing_new :: ongoing_checkpoint where
  "ongoing_new = \<lparr> oc_min_frame = 0, oc_max_frame = 0, oc_current_page = 0, oc_state = CkStart, oc_pages = [] \<rparr>"

definition ongoing_reset :: "ongoing_checkpoint \<Rightarrow> ongoing_checkpoint" where
  "ongoing_reset oc = oc\<lparr> oc_min_frame := 0, oc_max_frame := 0, oc_current_page := 0,
     oc_pages := [], oc_state := CkStart \<rparr>"

datatype vacuum_lock_guard = VacuumRead | VacuumWrite

datatype checkpoint_lock_source = Acquire | HeldByCaller

record wal_file =
  wf_max_frame :: nat
  wf_min_frame :: nat
  wf_last_checksum :: "u32 \<times> u32"
  wf_checkpoint_seq :: u32
  wf_transaction_count :: nat
  wf_lock_index :: nat
  wf_write_lock_held :: bool
  wf_vacuum_guard :: "vacuum_lock_guard option"
  wf_unpublished :: bool
  wf_syncing :: bool
  wf_checkpoint_threshold :: nat
  wf_checkpoint_guard :: "checkpoint_guard_kind option"
  wf_ongoing :: ongoing_checkpoint

definition wal_file_new :: "u32 \<times> u32 \<Rightarrow> nat \<Rightarrow> wal_file" where
  "wal_file_new last_checksum max_frame = \<lparr>
     wf_max_frame = max_frame, wf_min_frame = 0, wf_last_checksum = last_checksum,
     wf_checkpoint_seq = 0, wf_transaction_count = 0, wf_lock_index = NO_LOCK_HELD,
     wf_write_lock_held = False, wf_vacuum_guard = None, wf_unpublished = False, wf_syncing = False,
     wf_checkpoint_threshold = 1000, wf_checkpoint_guard = None, wf_ongoing = ongoing_new \<rparr>"

section \<open>Connection state\<close>

record wal_connection_state =
  cs_snapshot :: wal_snapshot
  cs_read_guard :: read_guard_kind

definition with_snapshot :: "wal_connection_state \<Rightarrow> wal_snapshot \<Rightarrow> wal_connection_state" where
  "with_snapshot st snapshot = st\<lparr>cs_snapshot := snapshot\<rparr>"

text \<open>\<open>saturating_sub\<close> is the subtraction of natural numbers.\<close>

definition connection_state :: "wal_file \<Rightarrow> wal_connection_state" where
  "connection_state w = \<lparr>
     cs_snapshot = \<lparr> sn_max_frame = wf_max_frame w, sn_nbackfills = wf_min_frame w - 1,
       sn_last_checksum = wf_last_checksum w, sn_checkpoint_seq = wf_checkpoint_seq w,
       sn_transaction_count = wf_transaction_count w \<rparr>,
     cs_read_guard = guard_from_lock_index (wf_lock_index w) \<rparr>"

definition install_connection_state :: "wal_file \<Rightarrow> wal_connection_state \<Rightarrow> wal_file" where
  "install_connection_state w st = w\<lparr>
     wf_max_frame := sn_max_frame (cs_snapshot st),
     wf_min_frame := snapshot_min_frame (cs_snapshot st),
     wf_last_checksum := sn_last_checksum (cs_snapshot st),
     wf_checkpoint_seq := sn_checkpoint_seq (cs_snapshot st),
     wf_transaction_count := sn_transaction_count (cs_snapshot st),
     wf_lock_index := guard_lock_index (cs_read_guard st) \<rparr>"

definition db_changed_against :: "wal_snapshot \<Rightarrow> wal_connection_state \<Rightarrow> bool" where
  "db_changed_against snapshot local_state \<longleftrightarrow> snapshot \<noteq> cs_snapshot local_state"

definition mvcc_refresh_if_db_changed :: "wal_shared \<Rightarrow> wal_file \<Rightarrow> bool \<times> wal_file" where
  "mvcc_refresh_if_db_changed sh w =
     (let snapshot = load_snapshot sh;
          local_state = connection_state w;
          changed = db_changed_against snapshot local_state
      in (changed, if changed then install_connection_state w (with_snapshot local_state snapshot) else w))"

section \<open>The vacuum lock\<close>

definition vacuum_try_read :: "wal_shared \<Rightarrow> bool \<times> wal_shared" where
  "vacuum_try_read sh = (let (ok, l) = rw_read (ws_vacuum_lock sh) in (ok, sh\<lparr>ws_vacuum_lock := l\<rparr>))"

definition vacuum_try_write :: "wal_shared \<Rightarrow> bool \<times> wal_shared" where
  "vacuum_try_write sh = (let (ok, l) = rw_write (ws_vacuum_lock sh) in (ok, sh\<lparr>ws_vacuum_lock := l\<rparr>))"

definition vacuum_guard_drop :: "wal_shared \<Rightarrow> wal_shared option" where
  "vacuum_guard_drop sh = do { l \<leftarrow> rw_unlock (ws_vacuum_lock sh); Some (sh\<lparr>ws_vacuum_lock := l\<rparr>) }"

definition has_vacuum_read_lock_guard :: "wal_file \<Rightarrow> bool" where
  "has_vacuum_read_lock_guard w \<longleftrightarrow> wf_vacuum_guard w = Some VacuumRead"

definition install_vacuum_lock_guard :: "wal_file \<Rightarrow> vacuum_lock_guard \<Rightarrow> wal_file option" where
  "install_vacuum_lock_guard w g =
     (if wf_vacuum_guard w = None then Some (w\<lparr>wf_vacuum_guard := Some g\<rparr>) else None)"

definition release_vacuum_read_lock_guard :: "wal_shared \<Rightarrow> wal_file \<Rightarrow> (wal_shared \<times> wal_file) option" where
  "release_vacuum_read_lock_guard sh w =
     (if has_vacuum_read_lock_guard w
      then do { sh1 \<leftarrow> vacuum_guard_drop sh; Some (sh1, w\<lparr>wf_vacuum_guard := None\<rparr>) } else None)"

definition release_vacuum_write_lock_guard :: "wal_shared \<Rightarrow> wal_file \<Rightarrow> (wal_shared \<times> wal_file) option" where
  "release_vacuum_write_lock_guard sh w =
     (if wf_vacuum_guard w = Some VacuumWrite
      then do { sh1 \<leftarrow> vacuum_guard_drop sh; Some (sh1, w\<lparr>wf_vacuum_guard := None\<rparr>) } else None)"

section \<open>Read transactions\<close>

datatype try_begin_read_result =
    BeginOk bool
  | BeginRetry
  | BeginErr limbo_error
  | BeginBusy

text \<open>\<open>try_begin_read_tx\<close> in its two parts: up to the load of the shared snapshot, which no lock
  protects, and from the acquisition of a read mark that validates it.\<close>

definition try_begin_read_load :: "wal_shared \<Rightarrow> wal_file \<Rightarrow> (wal_snapshot option \<times> wal_shared) option" where
  "try_begin_read_load sh w =
     (if wf_lock_index w \<noteq> NO_LOCK_HELD then None
      else if wf_vacuum_guard w \<noteq> None then None
      else case vacuum_try_read sh of
             (False, sh1) \<Rightarrow> Some (None, sh1)
           | (True, sh1) \<Rightarrow> Some (Some (load_snapshot sh1), sh1))"

definition try_begin_read_lock ::
    "wal_shared \<Rightarrow> wal_file \<Rightarrow> wal_snapshot \<Rightarrow> (try_begin_read_result \<times> wal_shared \<times> wal_file) option" where
  "try_begin_read_lock sh w shared_snapshot =
     (let db_changed = db_changed_against shared_snapshot (connection_state w)
      in do {
        (guard, sh1) \<leftarrow> coord_try_begin_read_tx sh shared_snapshot;
        case guard of
          None \<Rightarrow> do { sh2 \<leftarrow> vacuum_guard_drop sh1; Some (BeginRetry, sh2, w) }
        | Some read_guard \<Rightarrow>
            do {
              w1 \<leftarrow> install_vacuum_lock_guard w VacuumRead;
              Some (BeginOk db_changed, sh1, install_connection_state w1
                \<lparr> cs_snapshot = shared_snapshot, cs_read_guard = read_guard \<rparr>)
            }
      })"

definition wal_try_begin_read_tx ::
    "wal_shared \<Rightarrow> wal_file \<Rightarrow> (try_begin_read_result \<times> wal_shared \<times> wal_file) option" where
  "wal_try_begin_read_tx sh w =
     do {
       (loaded, sh1) \<leftarrow> try_begin_read_load sh w;
       case loaded of
         None \<Rightarrow> Some (BeginBusy, sh1, w)
       | Some snapshot \<Rightarrow> try_begin_read_lock sh1 w snapshot
     }"

text \<open>The retry loop. \<open>cnt\<close> counts the retries, \<open>others cnt\<close> is what the other connections do to the shared
  state before the retry \<open>cnt\<close>, and the pauses between the attempts are part of the result.\<close>

datatype begin_backoff = SpinAgain | YieldNow | SleepMicros nat

definition begin_backoff_of :: "nat \<Rightarrow> begin_backoff" where
  "begin_backoff_of cnt =
     (if cnt > 5 then if cnt < 10 then YieldNow else SleepMicros ((cnt - 9) * (cnt - 9) * 39) else SpinAgain)"

function begin_read_loop ::
    "(nat \<Rightarrow> wal_shared \<Rightarrow> wal_shared) \<Rightarrow> nat \<Rightarrow> wal_shared \<Rightarrow> wal_file
      \<Rightarrow> (bool result \<times> wal_shared \<times> wal_file \<times> begin_backoff list) option" where
  "begin_read_loop others cnt sh w =
     do {
       (r, sh1, w1) \<leftarrow> wal_try_begin_read_tx sh w;
       case r of
         BeginOk changed \<Rightarrow> Some (Inr changed, sh1, w1, [])
       | BeginErr e \<Rightarrow> Some (Inl e, sh1, w1, [])
       | BeginBusy \<Rightarrow> Some (Inl Busy, sh1, w1, [])
       | BeginRetry \<Rightarrow>
           if cnt + 1 > 100 then Some (Inl Busy, sh1, w1, [])
           else do {
             (r, sh2, w2, pauses) \<leftarrow> begin_read_loop others (cnt + 1) (others (cnt + 1) sh1) w1;
             Some (r, sh2, w2, begin_backoff_of (cnt + 1) # pauses)
           }
     }"
  by pat_completeness auto
termination
  by (relation "measure (\<lambda>(others, cnt, sh, w). 101 - cnt)") auto

declare begin_read_loop.simps [simp del]

definition wal_begin_read_tx ::
    "(nat \<Rightarrow> wal_shared \<Rightarrow> wal_shared) \<Rightarrow> wal_shared \<Rightarrow> wal_file
      \<Rightarrow> (bool result \<times> wal_shared \<times> wal_file \<times> begin_backoff list) option" where
  "wal_begin_read_tx others sh w = begin_read_loop others 0 sh w"

definition wal_end_read_tx :: "wal_shared \<Rightarrow> wal_file \<Rightarrow> (wal_shared \<times> wal_file) option" where
  "wal_end_read_tx sh w =
     (let slot = wf_lock_index w
      in if slot \<noteq> NO_LOCK_HELD
         then do {
           sh1 \<leftarrow> coord_end_read_tx sh (guard_from_lock_index slot);
           release_vacuum_read_lock_guard sh1 (w\<lparr>wf_lock_index := NO_LOCK_HELD\<rparr>)
         }
         else if has_vacuum_read_lock_guard w then None else Some (sh, w))"

section \<open>Write transactions\<close>

definition apply_restart_snapshot :: "wal_file \<Rightarrow> wal_snapshot \<Rightarrow> wal_file" where
  "apply_restart_snapshot w snapshot = w\<lparr>
     wf_last_checksum := sn_last_checksum snapshot, wf_max_frame := sn_max_frame snapshot,
     wf_min_frame := 0, wf_checkpoint_seq := sn_checkpoint_seq snapshot \<rparr>"

text \<open>\<open>rnd\<close> is the random number a restart of the log draws for the new salt.\<close>

definition try_restart_log_before_write ::
    "wal_shared \<Rightarrow> wal_file \<Rightarrow> u32 \<Rightarrow> (unit result \<times> wal_shared \<times> wal_file) option" where
  "try_restart_log_before_write sh w rnd =
     (let snapshot = load_snapshot sh;
          max_frame = sn_max_frame snapshot;
          nbackfills = sn_nbackfills snapshot
      in if wf_lock_index w \<noteq> 0 then Some (Inr (), sh, w)
         else if nbackfills = 0 then Some (Inr (), sh, w)
         else if max_frame < nbackfills then None
         else if max_frame \<noteq> nbackfills then Some (Inr (), sh, w)
         else do {
           (r, sh1) \<leftarrow> try_restart_log_for_write sh rnd;
           case r of
             Inl e \<Rightarrow> Some (Inl e, sh1, w)
           | Inr None \<Rightarrow> Some (Inr (), sh1, w)
           | Inr (Some restart_snapshot) \<Rightarrow>
               Some (Inr (), snd (bump_checkpoint_epoch sh1), apply_restart_snapshot w restart_snapshot)
         })"

definition wal_begin_write_tx ::
    "wal_shared \<Rightarrow> wal_file \<Rightarrow> u32 \<Rightarrow> (unit result \<times> wal_shared \<times> wal_file) option" where
  "wal_begin_write_tx sh w rnd =
     (if wf_lock_index w = NO_LOCK_HELD then None
      else if wf_write_lock_held w then None
      else case coord_try_begin_write_tx sh of
             (False, sh1) \<Rightarrow> Some (Inl Busy, sh1, w)
           | (True, sh1) \<Rightarrow>
               if db_changed_against (load_snapshot sh1) (connection_state w)
               then do { sh2 \<leftarrow> coord_end_write_tx sh1; Some (Inl BusySnapshot, sh2, w) }
               else do {
                 (r, sh2, w2) \<leftarrow> try_restart_log_before_write sh1 (w\<lparr>wf_write_lock_held := True\<rparr>) rnd;
                 if r = Inl Busy \<or> r = Inr ()
                 then Some (Inr (), sh2, w2)
                 else do {
                   sh3 \<leftarrow> coord_end_write_tx sh2;
                   Some (r, sh3, w2\<lparr>wf_write_lock_held := False\<rparr>)
                 }
               })"

definition wal_end_write_tx :: "wal_shared \<Rightarrow> wal_file \<Rightarrow> (wal_shared \<times> wal_file) option" where
  "wal_end_write_tx sh w =
     (if wf_write_lock_held w
      then do { sh1 \<leftarrow> coord_end_write_tx sh; Some (sh1, w\<lparr>wf_write_lock_held := False\<rparr>) }
      else None)"

definition holds_read_lock :: "wal_file \<Rightarrow> bool" where
  "holds_read_lock w \<longleftrightarrow> wf_lock_index w \<noteq> NO_LOCK_HELD"

section \<open>Reading frames\<close>

text \<open>\<open>raw_api\<close> is the feature \<open>conn_raw_api\<close>, without which a watermark is refused.\<close>

definition wal_find_frame :: "bool \<Rightarrow> wal_shared \<Rightarrow> wal_file \<Rightarrow> nat \<Rightarrow> nat option \<Rightarrow> nat option option" where
  "wal_find_frame raw_api sh w page_id frame_watermark =
     (if \<not> raw_api \<and> frame_watermark \<noteq> None then None
      else if \<not> (case frame_watermark of None \<Rightarrow> 0 | Some x \<Rightarrow> x) \<le> wf_max_frame w then None
      else if (case frame_watermark of None \<Rightarrow> False | Some x \<Rightarrow> x < sn_nbackfills (load_snapshot sh)) then None
      else if wf_lock_index w = 0 \<and> wf_max_frame w < wf_min_frame w then Some None
      else Some (coord_find_frame sh page_id (wf_min_frame w) (wf_max_frame w) frame_watermark))"

definition should_checkpoint :: "wal_shared \<Rightarrow> wal_file \<Rightarrow> bool" where
  "should_checkpoint sh w \<longleftrightarrow>
     (let snapshot = load_snapshot sh
      in sn_max_frame snapshot > wf_checkpoint_threshold w + sn_nbackfills snapshot)"

definition wal_page_size :: "wal_shared \<Rightarrow> u32" where
  "wal_page_size sh = wh_page_size (ws_wal_header sh)"

text \<open>The sum of the page size and the frame header is a \<open>u32\<close>.\<close>

definition frame_offset :: "wal_shared \<Rightarrow> nat \<Rightarrow> nat option" where
  "frame_offset sh frame_id =
     (if frame_id = 0 then None
      else Some (WAL_HEADER_SIZE +
             (frame_id - 1) * unat (wal_page_size sh + word_of_nat WAL_FRAME_HEADER_SIZE)))"

text \<open>\<open>changed_pages_after\<close>, over the frames of the log as \<open>read_frame_raw\<close> returns them: the page
  numbers of the frames after the watermark, each once, in the order of their first frame.\<close>

fun changed_pages :: "(nat \<Rightarrow> bytes) \<Rightarrow> nat list \<Rightarrow> u32 list \<Rightarrow> u32 list option" where
  "changed_pages raw [] seen = Some []"
| "changed_pages raw (frame_no # frames) seen =
     do {
       (header, page) \<leftarrow> parse_wal_frame_header (raw frame_no);
       let n = fh_page_number header;
       if n \<in> set seen then changed_pages raw frames seen
       else do { ns \<leftarrow> changed_pages raw frames (n # seen); Some (n # ns) }
     }"

definition changed_pages_after :: "wal_file \<Rightarrow> (nat \<Rightarrow> bytes) \<Rightarrow> nat \<Rightarrow> u32 list option" where
  "changed_pages_after w raw frame_watermark =
     (if wf_max_frame w < frame_watermark then None
      else changed_pages raw [frame_watermark + 1..<wf_max_frame w + 1] [])"

section \<open>Appending frames\<close>

definition complete_append_frame ::
    "wal_shared \<Rightarrow> wal_file \<Rightarrow> nat \<Rightarrow> nat \<Rightarrow> u32 \<times> u32 \<Rightarrow> wal_shared \<times> wal_file" where
  "complete_append_frame sh w page_id frame_id checksums =
     (cache_frame sh page_id frame_id, w\<lparr>wf_last_checksum := checksums, wf_max_frame := frame_id\<rparr>)"

definition finish_append_frames_commit :: "wal_shared \<Rightarrow> wal_file \<Rightarrow> wal_shared \<times> wal_file" where
  "finish_append_frames_commit sh w =
     (let transaction_count = wf_transaction_count w + 1
      in (publish_commit sh \<lparr> cm_max_frame = wf_max_frame w, cm_last_checksum = wf_last_checksum w,
            cm_transaction_count = transaction_count \<rparr>,
          w\<lparr>wf_transaction_count := transaction_count, wf_unpublished := False\<rparr>))"

definition wal_file_handle :: "wal_shared \<Rightarrow> unit result option" where
  "wal_file_handle sh =
     (if ws_enabled sh then Some (if ws_file_open sh then Inr () else Inl InternalError) else None)"

text \<open>\<open>prepare_wal_start\<close>: the header to write at offset 0, and whether the frames of the previous
  generation are truncated after it. \<open>file_len\<close> is the size of the log file, if it is known.\<close>

definition prepare_wal_start ::
    "bool \<Rightarrow> wal_shared \<Rightarrow> wal_file \<Rightarrow> u32 \<Rightarrow> u32 \<Rightarrow> u16 \<Rightarrow> nat option
      \<Rightarrow> ((bytes \<times> bool) option result \<times> wal_shared \<times> wal_file) option" where
  "prepare_wal_start big sh w rnd1 rnd2 page_size file_len =
     (if ws_initialized sh then Some (Inr None, sh, w)
      else do {
        (header, sh1) \<leftarrow> prepare_wal_header big sh rnd1 rnd2 page_size;
        case header of
          None \<Rightarrow> Some (Inr None, sh1, w)
        | Some h \<Rightarrow>
            do {
              let w1 = w\<lparr>wf_last_checksum := (wh_checksum_1 h, wh_checksum_2 h), wf_max_frame := 0\<rparr>;
              f \<leftarrow> wal_file_handle sh1;
              case f of
                Inl e \<Rightarrow> Some (Inl e, sh1, w1)
              | Inr _ \<Rightarrow>
                  Some (Inr (Some (wal_header_image h,
                    (case file_len of None \<Rightarrow> False | Some n \<Rightarrow> n > WAL_HEADER_SIZE))), sh1, w1)
            }
      })"

text \<open>The completion of the sync \<open>prepare_wal_finish\<close> submits.\<close>

definition prepare_wal_finish :: "wal_shared \<Rightarrow> (unit result \<times> wal_shared) option" where
  "prepare_wal_finish sh =
     do {
       f \<leftarrow> wal_file_handle sh;
       case f of Inl e \<Rightarrow> Some (Inl e, sh) | Inr _ \<Rightarrow> Some (Inr (), mark_initialized sh)
     }"

record prepared_frames =
  pf_offset :: nat
  pf_bufs :: "bytes list"
  pf_metadata :: "(nat \<times> nat \<times> (u32 \<times> u32)) list"
  pf_final_checksum :: "u32 \<times> u32"
  pf_final_max_frame :: nat
  pf_epoch :: u32

definition IOV_MAX :: nat where "IOV_MAX = 1024"

text \<open>Where the frames of a batch start: after the previous batch, or after the log as this
  connection or the shared state knows it.\<close>

definition next_frame_seed ::
    "wal_shared \<Rightarrow> wal_file \<Rightarrow> prepared_frames option \<Rightarrow> ((u32 \<times> u32) \<times> nat) \<times> wal_file" where
  "next_frame_seed sh w prev =
     (case prev of
        Some p \<Rightarrow> ((pf_final_checksum p, pf_final_max_frame p + 1), w)
      | None \<Rightarrow>
          (let snapshot = load_snapshot sh;
               local_state = connection_state w;
               local_snapshot = cs_snapshot local_state;
               from_local = ((sn_last_checksum local_snapshot, sn_max_frame local_snapshot + 1), w);
               local_prepared_zero_frame_header =
                 (sn_max_frame snapshot = 0 \<and> ws_initialized sh \<and> sn_max_frame local_snapshot = 0
                  \<and> sn_checkpoint_seq local_snapshot = sn_checkpoint_seq snapshot
                  \<and> sn_transaction_count local_snapshot = sn_transaction_count snapshot
                  \<and> sn_last_checksum local_snapshot \<noteq> sn_last_checksum snapshot)
           in if local_prepared_zero_frame_header then from_local
              else if snapshot \<noteq> local_snapshot then
                (if wf_unpublished w then from_local
                 else ((sn_last_checksum snapshot, sn_max_frame snapshot + 1),
                       install_connection_state w (with_snapshot local_state snapshot)))
              else from_local))"

text \<open>The loop over the pages of a batch; \<open>last_db_size\<close> goes into the last frame.\<close>

fun prepare_frames_loop ::
    "bool \<Rightarrow> wal_header \<Rightarrow> u32 \<times> u32 \<Rightarrow> nat \<Rightarrow> u32 \<Rightarrow> (nat \<times> bytes) list
      \<Rightarrow> (bytes list \<times> (nat \<times> nat \<times> (u32 \<times> u32)) list \<times> (u32 \<times> u32) \<times> nat) option" where
  "prepare_frames_loop big header checksum frame_id last_db_size [] = Some ([], [], checksum, frame_id)"
| "prepare_frames_loop big header checksum frame_id last_db_size ((page_id, data) # pages) =
     do {
       (checksum', buf) \<leftarrow> prepare_wal_frame big header checksum (wh_page_size header)
          (word_of_nat page_id) (if pages = [] then last_db_size else 0) data;
       (bufs, metadata, final, next) \<leftarrow>
          prepare_frames_loop big header checksum' (frame_id + 1) last_db_size pages;
       Some (buf # bufs, (page_id, frame_id, checksum') # metadata, final, next)
     }"

definition prepare_frames ::
    "bool \<Rightarrow> wal_shared \<Rightarrow> wal_file \<Rightarrow> (nat \<times> bytes) list \<Rightarrow> u16 \<Rightarrow> u32 option \<Rightarrow> prepared_frames option
      \<Rightarrow> (prepared_frames \<times> wal_file) option" where
  "prepare_frames big sh w pages page_sz db_size_on_commit prev =
     (if pages = [] then None
      else if length pages > IOV_MAX then None
      else if \<not> ws_initialized sh then None
      else if wal_page_size sh \<noteq> page_size_get page_sz then None
      else do {
        let ((checksum, first_frame_id), w1) = next_frame_seed sh w prev;
        (bufs, metadata, final, next) \<leftarrow> prepare_frames_loop big (ws_wal_header sh) checksum first_frame_id
           (case db_size_on_commit of None \<Rightarrow> 0 | Some n \<Rightarrow> n) pages;
        offset \<leftarrow> frame_offset sh first_frame_id;
        Some (\<lparr> pf_offset = offset, pf_bufs = bufs, pf_metadata = metadata, pf_final_checksum = final,
                pf_final_max_frame = next - 1, pf_epoch = checkpoint_epoch sh \<rparr>, w1)
      })"

fun complete_frames ::
    "wal_shared \<Rightarrow> wal_file \<Rightarrow> (nat \<times> nat \<times> (u32 \<times> u32)) list \<Rightarrow> wal_shared \<times> wal_file" where
  "complete_frames sh w [] = (sh, w)"
| "complete_frames sh w ((page_id, frame_id, checksum) # metadata) =
     (case complete_append_frame sh w page_id frame_id checksum of
        (sh1, w1) \<Rightarrow> complete_frames sh1 w1 metadata)"

fun commit_prepared_frames :: "wal_shared \<Rightarrow> wal_file \<Rightarrow> prepared_frames list \<Rightarrow> wal_shared \<times> wal_file" where
  "commit_prepared_frames sh w [] = (sh, w)"
| "commit_prepared_frames sh w (batch # batches) =
     (case complete_frames sh w (pf_metadata batch) of
        (sh1, w1) \<Rightarrow>
          commit_prepared_frames sh1
            (w1\<lparr>wf_last_checksum := pf_final_checksum batch, wf_max_frame := pf_final_max_frame batch\<rparr>) batches)"

text \<open>\<open>append_frames_vectored\<close>, the write of spilled pages: the offset and the frames of the single
  write, and the state after it.\<close>

definition append_frames_vectored ::
    "bool \<Rightarrow> wal_shared \<Rightarrow> wal_file \<Rightarrow> (nat \<times> bytes) list \<Rightarrow> u16
      \<Rightarrow> ((nat \<times> bytes list) result \<times> wal_shared \<times> wal_file) option" where
  "append_frames_vectored big sh w pages page_sz =
     (if length pages > IOV_MAX then None
      else if \<not> ws_initialized sh then None
      else if wal_page_size sh \<noteq> page_size_get page_sz then None
      else do {
        let first_frame_id = wf_max_frame w + 1;
        (bufs, metadata, final, next) \<leftarrow>
           prepare_frames_loop big (ws_wal_header sh) (wf_last_checksum w) first_frame_id 0 pages;
        offset \<leftarrow> frame_offset sh first_frame_id;
        f \<leftarrow> wal_file_handle sh;
        case f of
          Inl e \<Rightarrow> Some (Inl e, sh, w)
        | Inr _ \<Rightarrow> (case complete_frames sh w metadata of (sh1, w1) \<Rightarrow> Some (Inr (offset, bufs), sh1, w1))
      })"

section \<open>Commit\<close>

text \<open>The log calls of \<open>Pager::commit_dirty_pages_inner\<close> (\<open>core/storage/pager.rs\<close>), from
  \<open>PrepareWal\<close> to \<open>WalCommitDone\<close>: the dirty pages go to the log in batches of at most \<open>IOV_MAX\<close>
  chained frames, the last frame carries the database size, and the state of the log advances
  after every write has completed. \<open>io_ok\<close> says whether the writes and the sync succeeded.\<close>

function iov_batches :: "'a list \<Rightarrow> 'a list list" where
  "iov_batches xs = (if xs = [] then [] else take IOV_MAX xs # iov_batches (drop IOV_MAX xs))"
  by auto

termination iov_batches
  by (relation "measure length") (auto simp: IOV_MAX_def)

declare iov_batches.simps [simp del]

fun prepare_batches ::
    "bool \<Rightarrow> wal_shared \<Rightarrow> wal_file \<Rightarrow> u16 \<Rightarrow> u32 \<Rightarrow> prepared_frames option \<Rightarrow> (nat \<times> bytes) list list
      \<Rightarrow> (prepared_frames list \<times> wal_file) option" where
  "prepare_batches big sh w page_sz db_size prev [] = Some ([], w)"
| "prepare_batches big sh w page_sz db_size prev (batch # batches) =
     do {
       (prepared, w1) \<leftarrow> prepare_frames big sh w batch page_sz (if batches = [] then Some db_size else None) prev;
       (rest, w2) \<leftarrow> prepare_batches big sh w1 page_sz db_size (Some prepared) batches;
       Some (prepared # rest, w2)
     }"

definition wal_commit ::
    "bool \<Rightarrow> wal_shared \<Rightarrow> wal_file \<Rightarrow> u32 \<Rightarrow> u32 \<Rightarrow> u16 \<Rightarrow> nat option \<Rightarrow> bool \<Rightarrow> u32 \<Rightarrow> (nat \<times> bytes) list
      \<Rightarrow> (prepared_frames list result \<times> wal_shared \<times> wal_file) option" where
  "wal_commit big sh w rnd1 rnd2 page_sz file_len io_ok db_size pages =
     do {
       (r, sh1, w1) \<leftarrow> prepare_wal_start big sh w rnd1 rnd2 page_sz file_len;
       case r of
         Inl e \<Rightarrow> Some (Inl e, sh1, w1)
       | Inr started \<Rightarrow>
           do {
             (r2, sh2) \<leftarrow> (if started = None then Some (Inr (), sh1) else prepare_wal_finish sh1);
             case r2 of
               Inl e \<Rightarrow> Some (Inl e, sh2, w1)
             | Inr _ \<Rightarrow>
                 if pages = [] then Some (Inr [], sh2, w1)
                 else do {
                   (prepared, w2) \<leftarrow> prepare_batches big sh2 w1 page_sz db_size None (iov_batches pages);
                   if \<not> io_ok then Some (Inl InternalError, sh2, w2)
                   else (case commit_prepared_frames sh2 w2 prepared of
                           (sh3, w3) \<Rightarrow>
                             (case finish_append_frames_commit sh3 w3 of (sh4, w4) \<Rightarrow> Some (Inr prepared, sh4, w4)))
                 }
           }
     }"

section \<open>Rollback\<close>

definition reset_internal_states :: "wal_file \<Rightarrow> wal_file" where
  "reset_internal_states w = w\<lparr>wf_ongoing := ongoing_reset (wf_ongoing w), wf_syncing := False\<rparr>"

text \<open>\<open>rollback_to\<close> is the frame and checksum of a savepoint.\<close>

definition wal_rollback ::
    "wal_shared \<Rightarrow> wal_file \<Rightarrow> (nat \<times> (u32 \<times> u32)) option \<Rightarrow> wal_shared \<times> wal_file" where
  "wal_rollback sh w rollback_to =
     (let snapshot = load_snapshot sh;
          max_frame = (case rollback_to of None \<Rightarrow> sn_max_frame snapshot | Some (f, c) \<Rightarrow> f);
          last_checksum = (case rollback_to of None \<Rightarrow> sn_last_checksum snapshot | Some (f, c) \<Rightarrow> c);
          w1 = w\<lparr>wf_last_checksum := last_checksum, wf_max_frame := max_frame\<rparr>
      in (rollback_cache sh max_frame, if rollback_to = None then reset_internal_states w1 else w1))"

definition update_max_frame :: "wal_shared \<Rightarrow> wal_file \<Rightarrow> wal_file" where
  "update_max_frame sh w = w\<lparr>wf_max_frame := sn_max_frame (load_snapshot sh)\<rparr>"

section \<open>Vacuum\<close>

definition try_begin_vacuum_checkpoint_lock :: "wal_shared \<Rightarrow> unit result \<times> wal_shared" where
  "try_begin_vacuum_checkpoint_lock sh =
     (case try_checkpoint_lock sh of (ok, sh1) \<Rightarrow> (if ok then Inr () else Inl Busy, sh1))"

definition release_vacuum_checkpoint_lock :: "wal_shared \<Rightarrow> wal_shared option" where
  "release_vacuum_checkpoint_lock sh = unlock_checkpoint_lock sh"

text \<open>The check that no read lock is held: every lock is taken and released.\<close>

fun check_read_locks_free :: "wal_shared \<Rightarrow> nat list \<Rightarrow> wal_shared option" where
  "check_read_locks_free sh [] = Some sh"
| "check_read_locks_free sh (idx # idxs) =
     (case try_read_mark_exclusive sh idx of
        (False, sh1) \<Rightarrow> None
      | (True, sh1) \<Rightarrow> do { sh2 \<leftarrow> unlock_read_mark sh1 idx; check_read_locks_free sh2 idxs })"

definition begin_vacuum_blocking_tx :: "wal_shared \<Rightarrow> wal_file \<Rightarrow> (unit result \<times> wal_shared \<times> wal_file) option" where
  "begin_vacuum_blocking_tx sh w =
     (if wf_lock_index w \<noteq> NO_LOCK_HELD then None
      else if wf_write_lock_held w then None
      else if wf_vacuum_guard w \<noteq> None then None
      else case vacuum_try_write sh of
             (False, sh1) \<Rightarrow> Some (Inl Busy, sh1, w)
           | (True, sh1) \<Rightarrow>
               do {
                 sh2 \<leftarrow> check_read_locks_free sh1 [0..<length (ws_read_locks sh1)];
                 let w1 = install_connection_state w \<lparr> cs_snapshot = load_snapshot sh2, cs_read_guard = NoGuard \<rparr>;
                 (case try_write_lock sh2 of
                    (False, sh3) \<Rightarrow> None
                  | (True, sh3) \<Rightarrow>
                      do {
                        w2 \<leftarrow> install_vacuum_lock_guard (w1\<lparr>wf_write_lock_held := True\<rparr>) VacuumWrite;
                        Some (Inr (), sh3, w2)
                      })
               })"

definition release_vacuum_lock :: "wal_shared \<Rightarrow> wal_file \<Rightarrow> (wal_shared \<times> wal_file) option" where
  "release_vacuum_lock sh w =
     (if wf_write_lock_held w then None else release_vacuum_write_lock_guard sh w)"

section \<open>Checkpoint\<close>

text \<open>Taking the guard out of the connection drops it.\<close>

definition drop_checkpoint_guard :: "wal_shared \<Rightarrow> wal_file \<Rightarrow> (wal_shared \<times> wal_file) option" where
  "drop_checkpoint_guard sh w =
     (case wf_checkpoint_guard w of
        None \<Rightarrow> Some (sh, w)
      | Some g \<Rightarrow> do { sh1 \<leftarrow> release_checkpoint_guard sh g; Some (sh1, w\<lparr>wf_checkpoint_guard := None\<rparr>) })"

definition guard_fits :: "checkpoint_guard_kind option \<Rightarrow> checkpoint_mode \<Rightarrow> bool" where
  "guard_fits guard mode =
     (case (guard, mode) of
        (Some Read0, Passive ub) \<Rightarrow> True
      | (Some WriterGuard, Restart) \<Rightarrow> True
      | (Some WriterGuard, Truncate ub) \<Rightarrow> True
      | _ \<Rightarrow> False)"

definition acquire_proper_checkpoint_guard ::
    "wal_shared \<Rightarrow> wal_file \<Rightarrow> checkpoint_mode \<Rightarrow> checkpoint_lock_source
      \<Rightarrow> (unit result \<times> wal_shared \<times> wal_file) option" where
  "acquire_proper_checkpoint_guard sh w mode lock_source =
     (if guard_fits (wf_checkpoint_guard w) mode then Some (Inr (), sh, w)
      else do {
        (sh1, w1) \<leftarrow> drop_checkpoint_guard sh w;
        (r, sh2) \<leftarrow> (case lock_source of
                       Acquire \<Rightarrow> acquire_checkpoint_guard sh1 mode
                     | HeldByCaller \<Rightarrow> acquire_vacuum_checkpoint_guard_from_held_lock sh1);
        case r of
          Inl e \<Rightarrow> Some (Inl e, sh2, w1)
        | Inr g \<Rightarrow> Some (Inr (), sh2, w1\<lparr>wf_checkpoint_guard := Some g\<rparr>)
      })"

text \<open>The state \<open>Start\<close> of \<open>checkpoint_inner\<close>, which is not atomic: it loads the bounds of the log before it
  takes the locks. \<open>checkpoint_load\<close> is the part before the locks: an early return of a result
  (\<open>Inl\<close>), or the loaded \<open>nbackfills\<close> with which the other part goes on (\<open>Inr\<close>).\<close>

definition checkpoint_load :: "wal_shared \<Rightarrow> checkpoint_mode \<Rightarrow> checkpoint_lock_source \<Rightarrow> (checkpoint_result + nat) option" where
  "checkpoint_load sh mode lock_source =
     (let snapshot = load_snapshot sh;
          max_frame = sn_max_frame snapshot;
          nbackfills = sn_nbackfills snapshot;
          needs_backfill = (max_frame > nbackfills)
      in if lock_source = HeldByCaller \<and> \<not> needs_backfill then None
         else if \<not> needs_backfill \<and> \<not> should_restart_log mode
         then Some (Inl (checkpoint_result_new max_frame nbackfills 0))
         else Some (Inr nbackfills))"

definition checkpoint_bound :: "checkpoint_mode \<Rightarrow> nat \<Rightarrow> nat result" where
  "checkpoint_bound mode max_frame =
     (case mode of
        Truncate (Some ub) \<Rightarrow> if max_frame > ub then Inl Busy else Inr max_frame
      | Passive (Some ub) \<Rightarrow> Inr (min max_frame ub)
      | _ \<Rightarrow> Inr max_frame)"

text \<open>The part under the locks, up to the transition to \<open>Processing\<close>.\<close>

definition checkpoint_start ::
    "wal_shared \<Rightarrow> wal_file \<Rightarrow> checkpoint_mode \<Rightarrow> checkpoint_lock_source \<Rightarrow> nat
      \<Rightarrow> (unit result \<times> wal_shared \<times> wal_file) option" where
  "checkpoint_start sh w mode lock_source nbackfills =
     do {
       (r, sh1, w1) \<leftarrow> acquire_proper_checkpoint_guard sh w mode lock_source;
       case r of
         Inl e \<Rightarrow> Some (Inl e, sh1, w1)
       | Inr _ \<Rightarrow>
           do {
             (safe, sh2) \<leftarrow> determine_max_safe_checkpoint_frame sh1 (sn_max_frame (load_snapshot sh1));
             case checkpoint_bound mode safe of
               Inl e \<Rightarrow> Some (Inl e, sh2, w1)
             | Inr bound \<Rightarrow>
                 (let to_checkpoint = sort_key (\<lambda>(page, frame). frame)
                        (iter_latest_frames sh2 (nbackfills + 1) bound)
                  in Some (Inr (), sh2, w1\<lparr>wf_ongoing := (wf_ongoing w1)\<lparr>
                       oc_min_frame := nbackfills + 1, oc_max_frame := bound, oc_pages := to_checkpoint,
                       oc_current_page := 0, oc_state := CkProcessing\<rparr>\<rparr>))
           }
     }"

text \<open>The state \<open>DetermineResult\<close>, entered when every page has been written to the database file.\<close>

definition checkpoint_determine_result ::
    "wal_shared \<Rightarrow> wal_file \<Rightarrow> checkpoint_mode \<Rightarrow> u32 \<Rightarrow> (unit result \<times> wal_shared \<times> wal_file) option" where
  "checkpoint_determine_result sh w mode rnd =
     (let oc = wf_ongoing w;
          result = checkpoint_result_new (sn_max_frame (load_snapshot sh)) (oc_max_frame oc)
                     (oc_max_frame oc - (oc_min_frame oc - 1));
          finalize = (\<lambda>w. w\<lparr>wf_ongoing := (wf_ongoing w)\<lparr>oc_state := CkFinalize (Some result)\<rparr>\<rparr>)
      in if oc_current_page oc < length (oc_pages oc) \<or> oc_min_frame oc = 0 then None
         else if require_all_backfilled mode \<and> \<not> everything_backfilled result then Some (Inl Busy, sh, w)
         else if should_restart_log mode then
           (if wf_checkpoint_guard w \<noteq> Some WriterGuard then None
            else do {
              (r, sh1) \<leftarrow> begin_restart sh rnd;
              case r of
                Inl e \<Rightarrow> Some (Inl e, sh1, w)
              | Inr snapshot \<Rightarrow> Some (Inr (), sh1, finalize (apply_restart_snapshot w snapshot))
            })
         else Some (Inr (), sh, finalize w))"

text \<open>The state \<open>Finalize\<close>.\<close>

definition checkpoint_finalize ::
    "wal_shared \<Rightarrow> wal_file \<Rightarrow> checkpoint_mode \<Rightarrow> (checkpoint_result \<times> wal_shared \<times> wal_file) option" where
  "checkpoint_finalize sh w mode =
     do {
       sh1 \<leftarrow> (if should_restart_log mode then end_restart sh else Some sh);
       result \<leftarrow> (case oc_state (wf_ongoing w) of CkFinalize r \<Rightarrow> r | _ \<Rightarrow> None);
       let sh2 = snd (bump_checkpoint_epoch sh1);
       (result', sh3, w1) \<leftarrow>
         (if should_truncate result
          then Some (result\<lparr>cr_guard := wf_checkpoint_guard w\<rparr>, sh2, w\<lparr>wf_checkpoint_guard := None\<rparr>)
          else do { (sh3, w1) \<leftarrow> drop_checkpoint_guard sh2 w; Some (result, sh3, w1) });
       Some (result', sh3, w1\<lparr>wf_ongoing := (wf_ongoing w1)\<lparr>oc_pages := [], oc_current_page := 0,
                                oc_state := CkStart\<rparr>\<rparr>)
     }"

text \<open>What \<open>checkpoint\<close> does after an error: the guard is dropped and the machine starts over.\<close>

definition checkpoint_failed :: "wal_shared \<Rightarrow> wal_file \<Rightarrow> (wal_shared \<times> wal_file) option" where
  "checkpoint_failed sh w =
     do {
       (sh1, w1) \<leftarrow> drop_checkpoint_guard sh w;
       Some (sh1, w1\<lparr>wf_ongoing := (wf_ongoing w1)\<lparr>oc_state := CkStart\<rparr>\<rparr>)
     }"

definition abort_checkpoint :: "wal_shared \<Rightarrow> wal_file \<Rightarrow> (wal_shared \<times> wal_file) option" where
  "abort_checkpoint sh w =
     do { (sh1, w1) \<leftarrow> drop_checkpoint_guard sh w; Some (sh1, reset_internal_states w1) }"

datatype truncate_io = TruncateWal | SyncWal | TruncateDone

definition truncate_log ::
    "wal_shared \<Rightarrow> checkpoint_result \<Rightarrow> (truncate_io result \<times> wal_shared \<times> checkpoint_result) option" where
  "truncate_log sh result =
     do {
       (f, sh1) \<leftarrow> prepare_truncate sh;
       case f of
         Inl e \<Rightarrow> Some (Inl e, sh1, result)
       | Inr _ \<Rightarrow>
           if \<not> cr_wal_truncate_sent result
           then Some (Inr TruncateWal, sh1,
                  result\<lparr>cr_wal_truncate_sent := True, cr_max_frame := 0, cr_total_backfilled := 0\<rparr>)
           else if \<not> cr_wal_sync_sent result
           then Some (Inr SyncWal, sh1, result\<lparr>cr_wal_sync_sent := True\<rparr>)
           else Some (Inr TruncateDone, sh1, result)
     }"

section \<open>Beginning a read transaction\<close>

lemma read_then_unlock:
  assumes "rw_ok l" "rw_mode_of l \<noteq> Writer" "reader_count (rw_mode_of l) < 2 ^ 31 - 1"
  shows "\<exists>l1. rw_read l = (True, l1) \<and> rw_unlock l1 = Some l \<and> rw_mode_of l1 = add_reader (rw_mode_of l)"
proof (rule rw_cases[of l])
  fix v r w assume l: "l = rw_mk v r w" "r < 2 ^ 31"
  then have "\<not> w" "r + 1 < 2 ^ 31" using assms by (auto simp: rw_simps split: if_splits)
  then show ?thesis using l by (auto simp: rw_read_eq rw_unlock_eq rw_simps)
qed

text \<open>What a begin needs: the locks are as their operations leave them, there is room for one more
  reader, and the frame numbers fit a mark.\<close>

definition can_begin :: "wal_shared \<Rightarrow> bool" where
  "can_begin sh \<longleftrightarrow> locks_ok sh \<and> reader_room sh \<and> ws_max_frame sh < 2 ^ 32 \<and> rw_ok (ws_vacuum_lock sh)
     \<and> reader_count (rw_mode_of (ws_vacuum_lock sh)) < 2 ^ 31 - 1"

definition no_tx :: "wal_file \<Rightarrow> bool" where
  "no_tx w \<longleftrightarrow> wf_lock_index w = NO_LOCK_HELD \<and> wf_vacuum_guard w = None"

text \<open>The connection reads the end of the log.\<close>

definition read_tx_of :: "wal_shared \<Rightarrow> wal_file \<Rightarrow> bool" where
  "read_tx_of sh w \<longleftrightarrow> wf_lock_index w < 5 \<and> wf_vacuum_guard w = Some VacuumRead
     \<and> wf_max_frame w = ws_max_frame sh \<and> wf_min_frame w = ws_nbackfills sh + 1 \<and> wf_last_checksum w = ws_last_checksum sh"

text \<open>The locks of a reader in slot \<open>i\<close> have been taken, and nothing else.\<close>

definition read_locked :: "wal_shared \<Rightarrow> nat \<Rightarrow> wal_shared \<Rightarrow> bool" where
  "read_locked sh i sh' \<longleftrightarrow>
     (\<exists>l v. sh' = sh\<lparr>ws_vacuum_lock := v, ws_read_locks := (ws_read_locks sh)[i := l]\<rparr>
        \<and> slot_mode sh i \<noteq> Writer \<and> rw_mode_of l = add_reader (slot_mode sh i)
        \<and> rw_mode_of v = add_reader (rw_mode_of (ws_vacuum_lock sh))
        \<and> (if i = 0 then ws_max_frame sh = ws_nbackfills sh else ws_max_frame sh \<noteq> ws_nbackfills sh \<and> unat (rw_get_value l) \<le> ws_max_frame sh))"

lemma read_locked_put:
  assumes "slot_mode sh i \<noteq> Writer" "rw_mode_of l = add_reader (slot_mode sh i)"
    "rw_mode_of v = add_reader (rw_mode_of (ws_vacuum_lock sh))"
    "if i = 0 then ws_max_frame sh = ws_nbackfills sh else ws_max_frame sh \<noteq> ws_nbackfills sh \<and> unat (rw_get_value l) \<le> ws_max_frame sh"
  shows "read_locked sh i (sh\<lparr>ws_vacuum_lock := v, ws_read_locks := (ws_read_locks sh)[i := l]\<rparr>)"
  unfolding read_locked_def using assms by (intro exI[of _ l] exI[of _ v]) simp

lemma try_begin_total:
  assumes ok: "can_begin sh" and w: "no_tx w"
  shows "\<exists>r sh' w'. wal_try_begin_read_tx sh w = Some (r, sh', w')
    \<and> (if rw_mode_of (ws_vacuum_lock sh) = Writer then r = BeginBusy \<and> sh' = sh \<and> w' = w
       else r = BeginRetry \<and> sh' = sh \<and> w' = w
         \<or> (\<exists>changed. r = BeginOk changed) \<and> read_tx_of sh w' \<and> read_locked sh (wf_lock_index w') sh')"
proof (cases "rw_mode_of (ws_vacuum_lock sh) = Writer")
  case True
  then have "rw_read (ws_vacuum_lock sh) = (False, ws_vacuum_lock sh)"
    using turso_lock.read_law[of "ws_vacuum_lock sh"] ok by (auto simp: can_begin_def)
  then show ?thesis using w True by (simp add: wal_try_begin_read_tx_def try_begin_read_load_def vacuum_try_read_def no_tx_def)
next
  case False
  obtain l1 where l1: "rw_read (ws_vacuum_lock sh) = (True, l1)" "rw_unlock l1 = Some (ws_vacuum_lock sh)"
    "rw_mode_of l1 = add_reader (rw_mode_of (ws_vacuum_lock sh))"
    using read_then_unlock[of "ws_vacuum_lock sh"] ok False by (auto simp: can_begin_def)
  define sh1 where "sh1 = sh\<lparr>ws_vacuum_lock := l1\<rparr>"
  have ld: "try_begin_read_load sh w = Some (Some (load_snapshot sh1), sh1)"
    using w l1 by (simp add: try_begin_read_load_def vacuum_try_read_def no_tx_def sh1_def)
  have sh1: "ws_read_locks sh1 = ws_read_locks sh" "ws_max_frame sh1 = ws_max_frame sh" "ws_nbackfills sh1 = ws_nbackfills sh"
    "ws_last_checksum sh1 = ws_last_checksum sh" by (simp_all add: sh1_def)
  have "locks_ok sh1" "reader_room sh1" using ok sh1(1) by (simp_all add: can_begin_def locks_ok_def reader_room_def slot_mode_def)
  then obtain g sh2 where g: "coord_try_begin_read_tx sh1 (load_snapshot sh1) = Some (g, sh2)" "read_begun sh1 g sh2"
    using begin_read_spec[of sh1] ok sh1(2) by (auto simp: can_begin_def)
  show ?thesis
  proof (cases g)
    case None
    then have "sh2 = sh1" using g(2) by (simp add: read_begun_def)
    then have "wal_try_begin_read_tx sh w = Some (BeginRetry, sh1\<lparr>ws_vacuum_lock := ws_vacuum_lock sh\<rparr>, w)"
      using ld g(1) None l1(2) by (simp add: wal_try_begin_read_tx_def try_begin_read_lock_def vacuum_guard_drop_def sh1_def Let_def)
    then show ?thesis using False by (simp add: sh1_def)
  next
    case (Some rg)
    have idx: "guard_lock_index rg < 5" using g(2) Some by (cases rg) (auto simp: read_begun_def)
    have "read_locked sh (guard_lock_index rg) sh2"
    proof (cases rg)
      case DbFile
      then obtain l where l: "sh2 = sh1\<lparr>ws_read_locks := (ws_read_locks sh1)[0 := l]\<rparr>" "slot_mode sh1 0 \<noteq> Writer"
        "rw_mode_of l = add_reader (slot_mode sh1 0)" "ws_max_frame sh1 = ws_nbackfills sh1"
        using g(2) Some by (auto simp: read_begun_def)
      then show ?thesis using read_locked_put[of sh 0 l l1] l1(3) DbFile by (simp add: sh1_def slot_mode_def)
    next
      case (ReadMark i)
      then obtain l where l: "sh2 = sh1\<lparr>ws_read_locks := (ws_read_locks sh1)[i := l]\<rparr>" "slot_mode sh1 i \<noteq> Writer"
        "rw_mode_of l = add_reader (slot_mode sh1 i)" "unat (rw_get_value l) \<le> ws_max_frame sh1" "ws_max_frame sh1 \<noteq> ws_nbackfills sh1" "1 \<le> i"
        using g(2) Some by (auto simp: read_begun_def)
      then show ?thesis using read_locked_put[of sh i l l1] l1(3) ReadMark by (simp add: sh1_def slot_mode_def)
    qed (use g(2) Some in \<open>simp add: read_begun_def\<close>)
    moreover have "wal_try_begin_read_tx sh w = Some (BeginOk (db_changed_against (load_snapshot sh1) (connection_state w)), sh2,
        install_connection_state (w\<lparr>wf_vacuum_guard := Some VacuumRead\<rparr>) \<lparr> cs_snapshot = load_snapshot sh1, cs_read_guard = rg \<rparr>)"
      using ld g(1) Some w by (simp add: wal_try_begin_read_tx_def try_begin_read_lock_def install_vacuum_lock_guard_def no_tx_def Let_def)
    ultimately show ?thesis using idx sh1 False
      by (simp add: read_tx_of_def install_connection_state_def load_snapshot_def snapshot_min_frame_def)
  qed
qed

text \<open>The shared state at the attempts, as long as they fail.\<close>

fun begin_states :: "(nat \<Rightarrow> wal_shared \<Rightarrow> wal_shared) \<Rightarrow> wal_shared \<Rightarrow> nat \<Rightarrow> wal_shared" where
  "begin_states others sh 0 = sh"
| "begin_states others sh (Suc n) = others (Suc n) (begin_states others sh n)"

text \<open>The attempt \<open>n\<close> is the last one.\<close>

definition begin_ends_at :: "(nat \<Rightarrow> wal_shared \<Rightarrow> wal_shared) \<Rightarrow> wal_shared \<Rightarrow> wal_file \<Rightarrow> nat \<Rightarrow> bool result \<Rightarrow> wal_shared \<Rightarrow> wal_file \<Rightarrow> bool" where
  "begin_ends_at others sh w n r sh' w' \<longleftrightarrow>
     (case r of
        Inr changed \<Rightarrow> read_tx_of (begin_states others sh n) w' \<and> read_locked (begin_states others sh n) (wf_lock_index w') sh'
      | Inl e \<Rightarrow> e = Busy \<and> sh' = begin_states others sh n \<and> w' = w
          \<and> (rw_mode_of (ws_vacuum_lock (begin_states others sh n)) = Writer
             \<or> n = 100 \<and> wal_try_begin_read_tx (begin_states others sh n) w = Some (BeginRetry, begin_states others sh n, w)))"

definition begin_run :: "(nat \<Rightarrow> wal_shared \<Rightarrow> wal_shared) \<Rightarrow> wal_shared \<Rightarrow> wal_file \<Rightarrow> nat \<Rightarrow> nat \<Rightarrow> bool" where
  "begin_run others sh w cnt n \<longleftrightarrow> cnt \<le> n \<and> n \<le> 100
    \<and> (\<forall>m. cnt \<le> m \<and> m < n \<longrightarrow> wal_try_begin_read_tx (begin_states others sh m) w = Some (BeginRetry, begin_states others sh m, w))
    \<and> (\<exists>r sh' w'. begin_read_loop others cnt (begin_states others sh cnt) w = Some (r, sh', w', map begin_backoff_of [cnt + 1..<n + 1])
         \<and> begin_ends_at others sh w n r sh' w')"

lemma begin_run_stop:
  assumes "can_begin (begin_states others sh cnt)" "no_tx w" "cnt \<le> 100"
    "cnt = 100 \<or> wal_try_begin_read_tx (begin_states others sh cnt) w \<noteq> Some (BeginRetry, begin_states others sh cnt, w)"
  shows "begin_run others sh w cnt cnt"
proof -
  let ?S = "begin_states others sh cnt"
  obtain r sh' w' where t: "wal_try_begin_read_tx ?S w = Some (r, sh', w')"
    "if rw_mode_of (ws_vacuum_lock ?S) = Writer then r = BeginBusy \<and> sh' = ?S \<and> w' = w
       else r = BeginRetry \<and> sh' = ?S \<and> w' = w
         \<or> (\<exists>changed. r = BeginOk changed) \<and> read_tx_of ?S w' \<and> read_locked ?S (wf_lock_index w') sh'"
    using try_begin_total[OF assms(1,2)] by blast
  consider (busy) "rw_mode_of (ws_vacuum_lock ?S) = Writer" "r = BeginBusy" "sh' = ?S" "w' = w"
    | (retry) "cnt = 100" "r = BeginRetry" "sh' = ?S" "w' = w"
    | (ok) changed where "r = BeginOk changed" "read_tx_of ?S w'" "read_locked ?S (wf_lock_index w') sh'"
    using t assms(4) by (cases "rw_mode_of (ws_vacuum_lock ?S) = Writer") auto
  then have "\<exists>r sh' w'. begin_read_loop others cnt ?S w = Some (r, sh', w', []) \<and> begin_ends_at others sh w cnt r sh' w'"
  proof cases
    case busy
    then have "begin_read_loop others cnt ?S w = Some (Inl Busy, ?S, w, [])" using t(1) by (subst begin_read_loop.simps) simp
    then show ?thesis using busy by (auto simp: begin_ends_at_def)
  next
    case retry
    then have "begin_read_loop others cnt ?S w = Some (Inl Busy, ?S, w, [])" using t(1) by (subst begin_read_loop.simps) simp
    then show ?thesis using retry t(1) by (auto simp: begin_ends_at_def)
  next
    case ok
    then have "begin_read_loop others cnt ?S w = Some (Inr changed, sh', w', [])" using t(1) by (subst begin_read_loop.simps) simp
    then show ?thesis using ok by (auto simp: begin_ends_at_def)
  qed
  then show ?thesis using assms(3) by (auto simp: begin_run_def)
qed

lemma begin_run_retry:
  assumes t: "wal_try_begin_read_tx (begin_states others sh cnt) w = Some (BeginRetry, begin_states others sh cnt, w)"
    and r: "begin_run others sh w (Suc cnt) n"
  shows "begin_run others sh w cnt n"
proof -
  obtain r sh' w' where l: "begin_read_loop others (Suc cnt) (begin_states others sh (Suc cnt)) w
      = Some (r, sh', w', map begin_backoff_of [Suc (Suc cnt)..<Suc n])" "begin_ends_at others sh w n r sh' w'"
    and n: "Suc cnt \<le> n" "n \<le> 100"
    using r by (auto simp: begin_run_def)
  have "map begin_backoff_of [Suc cnt..<Suc n] = begin_backoff_of (Suc cnt) # map begin_backoff_of [Suc (Suc cnt)..<Suc n]"
    using n by (subst upt_conv_Cons) simp_all
  then have "begin_read_loop others cnt (begin_states others sh cnt) w = Some (r, sh', w', map begin_backoff_of [Suc cnt..<Suc n])"
    using t l(1) n by (subst begin_read_loop.simps) (simp del: upt_Suc)
  moreover have "\<forall>m. cnt \<le> m \<and> m < n \<longrightarrow> wal_try_begin_read_tx (begin_states others sh m) w = Some (BeginRetry, begin_states others sh m, w)"
    using r t unfolding begin_run_def by (metis Suc_leI le_neq_implies_less)
  ultimately show ?thesis using n l(2) by (auto simp: begin_run_def simp del: upt_Suc)
qed

lemma begin_run_exists:
  assumes ok: "\<forall>n \<le> 100. can_begin (begin_states others sh n)" and w: "no_tx w"
  shows "cnt \<le> 100 \<Longrightarrow> \<exists>n. begin_run others sh w cnt n"
proof (induction k \<equiv> "100 - cnt" arbitrary: cnt rule: less_induct)
  case less
  have ok: "can_begin (begin_states others sh cnt)" using assms(1) less.prems by blast
  show ?case
  proof (cases "cnt = 100 \<or> wal_try_begin_read_tx (begin_states others sh cnt) w \<noteq> Some (BeginRetry, begin_states others sh cnt, w)")
    case True
    then show ?thesis using begin_run_stop[OF ok w less.prems] by blast
  next
    case False
    then have "100 - Suc cnt < 100 - cnt" "Suc cnt \<le> 100" using less.prems by linarith+
    from less.hyps[OF this] show ?thesis using begin_run_retry False by blast
  qed
qed

text \<open>The time a begin sleeps.\<close>

definition backoff_micros :: "begin_backoff list \<Rightarrow> nat" where
  "backoff_micros ps = sum_list (map (\<lambda>p. case p of SleepMicros d \<Rightarrow> d | _ \<Rightarrow> 0) ps)"

lemma backoff_sum:
  "6 * backoff_micros (map begin_backoff_of [1..<n + 10]) = 39 * (n * (n + 1) * (2 * n + 1))"
proof (induction n)
  case 0
  have "[1..<10] = [1, 2, 3, 4, 5, 6, 7, 8, 9 :: nat]" by (simp add: upt_rec)
  then show ?case by (simp add: backoff_micros_def begin_backoff_of_def)
next
  case (Suc n)
  have "[1..<Suc n + 10] = [1..<n + 10] @ [n + 10]" using upt_Suc[of 1 "n + 10"] by simp
  then have "backoff_micros (map begin_backoff_of [1..<Suc n + 10]) = backoff_micros (map begin_backoff_of [1..<n + 10]) + 39 * (n + 1) * (n + 1)"
    by (simp add: backoff_micros_def begin_backoff_of_def algebra_simps)
  then show ?case using Suc.IH by (simp add: algebra_simps)
qed

lemma backoff_mono: "n \<le> k \<Longrightarrow> backoff_micros (map begin_backoff_of [1..<n + 1]) \<le> backoff_micros (map begin_backoff_of [1..<k + 1])"
  using upt_add_eq_append[of 1 "n + 1" "k - n"] by (simp add: backoff_micros_def del: upt_Suc)

lemma backoff_bound:
  assumes "n \<le> 100"
  shows "backoff_micros (map begin_backoff_of [1..<n + 1]) \<le> 9958494"
proof -
  define total where "total = backoff_micros (map begin_backoff_of [1..<100 + 1])"
  have e: "91 + 10 = 100 + (1 :: nat)" by simp
  have "6 * total = 39 * (91 * (91 + 1) * (2 * 91 + 1))" using backoff_sum[of 91] unfolding e total_def .
  then have t: "total = 9958494" by simp
  have "backoff_micros (map begin_backoff_of [1..<n + 1]) \<le> total" unfolding total_def by (rule backoff_mono[OF assms])
  then show ?thesis unfolding t .
qed

text \<open>C15: The begin of a read transaction returns, whatever the other connections do between its
  attempts, and never panics. There are at most a hundred retries, and the pauses before them sleep
  less than ten seconds in total. The last attempt succeeded: the connection reads the end of the log
  of that moment and holds a shared lock of a read mark not above it, and a shared vacuum lock,
  and nothing else has changed. Or the result is \<open>Busy\<close>, because a vacuum holds its lock or because the
  hundredth retry failed too, and the attempts have changed nothing.\<close>

theorem begin_read_returns:
  assumes "\<forall>n \<le> 100. can_begin (begin_states others sh n)" and "no_tx w"
  shows "\<exists>n \<le> 100. \<exists>r sh' w'. wal_begin_read_tx others sh w = Some (r, sh', w', map begin_backoff_of [1..<n + 1])
    \<and> backoff_micros (map begin_backoff_of [1..<n + 1]) \<le> 9958494
    \<and> (\<forall>m < n. wal_try_begin_read_tx (begin_states others sh m) w = Some (BeginRetry, begin_states others sh m, w))
    \<and> (case r of
         Inr changed \<Rightarrow> read_tx_of (begin_states others sh n) w' \<and> read_locked (begin_states others sh n) (wf_lock_index w') sh'
       | Inl e \<Rightarrow> e = Busy \<and> sh' = begin_states others sh n \<and> w' = w
           \<and> (rw_mode_of (ws_vacuum_lock (begin_states others sh n)) = Writer
              \<or> n = 100 \<and> wal_try_begin_read_tx (begin_states others sh n) w = Some (BeginRetry, begin_states others sh n, w)))"
proof -
  obtain n where n: "begin_run others sh w 0 n" using begin_run_exists[OF assms, of 0] by auto
  then have le: "n \<le> 100" and tries: "\<forall>m < n. wal_try_begin_read_tx (begin_states others sh m) w = Some (BeginRetry, begin_states others sh m, w)"
    and ends: "\<exists>r sh' w'. wal_begin_read_tx others sh w = Some (r, sh', w', map begin_backoff_of [1..<n + 1]) \<and> begin_ends_at others sh w n r sh' w'"
    by (simp_all add: begin_run_def wal_begin_read_tx_def del: upt_Suc)
  show ?thesis using le tries ends backoff_bound[OF le] unfolding begin_ends_at_def by blast
qed

text \<open>A checkpoint holds read lock 0 at the first attempt and has released it before the first retry.\<close>

definition demo_checkpointing :: wal_shared where
  "demo_checkpointing = (wal_shared_new_noop False)\<lparr>ws_read_locks :=
     [rw_mk 0 0 True, rw_mk 0 0 False, rw_mk READMARK_NOT_USED 0 False, rw_mk READMARK_NOT_USED 0 False, rw_mk READMARK_NOT_USED 0 False]\<rparr>"

definition demo_released :: "nat \<Rightarrow> wal_shared \<Rightarrow> wal_shared" where
  "demo_released n sh = wal_shared_new_noop False"

lemma demo_begin_states: "begin_states demo_released demo_checkpointing n = (if n = 0 then demo_checkpointing else wal_shared_new_noop False)"
  by (cases n) (simp_all add: demo_released_def)

lemma demo_can_begin: "can_begin (begin_states demo_released demo_checkpointing n)"
proof -
  have "reader_room (wal_shared_new_noop False)" using noop_locks(2) by (simp add: reader_room_def)
  then have "can_begin (wal_shared_new_noop False)" using noop_locks(1) by (simp add: can_begin_def wal_shared_new_noop_def)
  moreover have "can_begin demo_checkpointing"
    by (simp add: can_begin_def demo_checkpointing_def locks_ok_def reader_room_def slot_mode_def all_slots rw_simps wal_shared_new_noop_def)
  ultimately show ?thesis by (simp add: demo_begin_states)
qed

lemma demo_checkpointing_locks:
  "slot_mode demo_checkpointing 0 = Writer" "rw_mode_of (ws_vacuum_lock demo_checkpointing) = Free"
  "ws_max_frame demo_checkpointing = ws_nbackfills demo_checkpointing"
  by (simp_all add: demo_checkpointing_def slot_mode_def rw_simps wal_shared_new_noop_def)

lemma demo_attempt:
  "wal_try_begin_read_tx (wal_shared_new_noop False) (wal_file_new (0, 0) 0)
     \<noteq> Some (BeginRetry, wal_shared_new_noop False, wal_file_new (0, 0) 0)"
  by (simp add: wal_try_begin_read_tx_def try_begin_read_load_def try_begin_read_lock_def vacuum_try_read_def
      wal_shared_new_noop_def wal_file_new_def coord_try_begin_read_tx_def load_snapshot_def
      try_read_mark_shared_def rw_read_eq rw_unlock_eq rw_simps rw_new_mk vacuum_guard_drop_def init_read_locks_eq
      install_vacuum_lock_guard_def Let_def)

theorem begin_read_returns_witness:
  "\<exists>changed sh' w'. wal_begin_read_tx demo_released demo_checkpointing (wal_file_new (0, 0) 0) = Some (Inr changed, sh', w', [SpinAgain])
     \<and> read_tx_of (wal_shared_new_noop False) w' \<and> read_locked (wal_shared_new_noop False) (wf_lock_index w') sh'"
proof -
  let ?w = "wal_file_new (0, 0) 0" and ?S = "begin_states demo_released demo_checkpointing"
  have w: "no_tx ?w" by (simp add: no_tx_def wal_file_new_def)
  obtain n r sh' w' where r: "wal_begin_read_tx demo_released demo_checkpointing ?w = Some (r, sh', w', map begin_backoff_of [1..<n + 1])"
    "\<forall>m < n. wal_try_begin_read_tx (?S m) ?w = Some (BeginRetry, ?S m, ?w)"
    "case r of
         Inr changed \<Rightarrow> read_tx_of (?S n) w' \<and> read_locked (?S n) (wf_lock_index w') sh'
       | Inl e \<Rightarrow> e = Busy \<and> sh' = ?S n \<and> w' = ?w
           \<and> (rw_mode_of (ws_vacuum_lock (?S n)) = Writer \<or> n = 100 \<and> wal_try_begin_read_tx (?S n) ?w = Some (BeginRetry, ?S n, ?w))"
    using begin_read_returns[of demo_released demo_checkpointing, OF _ w] demo_can_begin by blast
  have "n \<noteq> 0"
  proof
    assume "n = 0"
    then show False using r(3) demo_checkpointing_locks by (cases r) (auto simp: read_locked_def split: if_splits)
  qed
  moreover have "\<not> 1 < n" using r(2) demo_attempt by (auto simp: demo_begin_states dest!: spec[of _ 1])
  ultimately have n: "n = 1" by linarith
  have "\<exists>changed. r = Inr changed" using r(3) n by (cases r) (auto simp: demo_released_def wal_shared_new_noop_def)
  then show ?thesis using r(1,3) n by (auto simp: demo_released_def begin_backoff_of_def)
qed

end
