(* ===== verification/Wal_Recovery.thy ===== *)
theory Wal_Recovery
  imports Wal_Shared
begin

text \<open>
  Rebuilding the shared state from a log file, \<open>build_shared_wal\<close> and \<open>StreamingWalReader\<close> of
  \<open>core/storage/sqlite3_ondisk.rs\<close>. The file is a list of bytes; a read returns the bytes it
  asks for. The theory shows that a log of frames written by \<open>prepare_wal_frame\<close> is recovered up
  to its last commit frame, whatever follows, and in particular after a crash at any byte.
\<close>

section \<open>The streaming reader\<close>

record streaming_state =
  st_frame_idx :: nat
  st_cumulative_checksum :: "u32 \<times> u32"
  st_last_valid_checksum :: "u32 \<times> u32"
  st_last_valid_frame :: nat
  st_pending_frames :: frame_cache
  st_page_size :: nat
  st_use_native_endian :: bool
  st_header_valid :: bool

record wal_reader =
  rd_state :: streaming_state
  rd_off :: nat
  rd_page :: nat
  rd_done :: bool

definition streaming_reader_new :: wal_reader where
  "streaming_reader_new = \<lparr>
     rd_state = \<lparr> st_frame_idx = 1, st_cumulative_checksum = (0, 0), st_last_valid_checksum = (0, 0),
                  st_last_valid_frame = 0, st_pending_frames = [], st_page_size = 0,
                  st_use_native_endian = False, st_header_valid = False \<rparr>,
     rd_off = 0, rd_page = 0, rd_done = False
   \<rparr>"

text \<open>\<open>flush_pending_frames\<close>: the pending frames up to the last valid frame join the cache.\<close>

fun flush_drain :: "nat \<Rightarrow> frame_cache \<Rightarrow> frame_cache \<Rightarrow> frame_cache" where
  "flush_drain last_valid [] cache = cache"
| "flush_drain last_valid ((page, frames) # pending) cache =
     (let frames' = filter (\<lambda>f. f \<le> last_valid) frames
      in flush_drain last_valid pending (if frames' \<noteq> [] then fc_extend cache page frames' else cache))"

definition flush_pending_frames ::
    "streaming_state \<Rightarrow> wal_shared \<Rightarrow> streaming_state \<times> wal_shared" where
  "flush_pending_frames st sh =
     (if st_pending_frames st = [] then (st, sh)
      else (st\<lparr>st_pending_frames := []\<rparr>,
            sh\<lparr>ws_frame_cache := flush_drain (st_last_valid_frame st) (st_pending_frames st) (ws_frame_cache sh),
               ws_max_frame := st_last_valid_frame st\<rparr>))"

text \<open>The body of the loop of \<open>process_frames\<close> for the frame at \<open>pos\<close>: \<open>Inl\<close> is \<open>break\<close>, and the
  option is the assertion inside \<open>checksum_wal\<close>.\<close>

definition process_frame ::
    "bool \<Rightarrow> bytes \<Rightarrow> wal_header \<Rightarrow> bool \<Rightarrow> nat \<Rightarrow> streaming_state \<Rightarrow> wal_shared
     \<Rightarrow> (unit + streaming_state \<times> wal_shared) option" where
  "process_frame big buf header use_native pos st sh =
     (let frame_size = WAL_FRAME_HEADER_SIZE + st_page_size st;
          fh = slice_range buf pos (pos + WAL_FRAME_HEADER_SIZE);
          page = slice_range buf (pos + WAL_FRAME_HEADER_SIZE) (pos + frame_size);
          page_no = be_u32 (slice_range fh 0 4);
          db_size = be_u32 (slice_range fh 4 8);
          s1 = be_u32 (slice_range fh 8 12);
          s2 = be_u32 (slice_range fh 12 16);
          c1 = be_u32 (slice_range fh 16 20);
          c2 = be_u32 (slice_range fh 20 24)
      in if page_no = 0 then Some (Inl ())
         else if s1 \<noteq> wh_salt_1 header \<or> s2 \<noteq> wh_salt_2 header then Some (Inl ())
         else do {
           seed \<leftarrow> checksum_wal big (slice_range fh 0 8) (st_cumulative_checksum st) use_native;
           calc \<leftarrow> checksum_wal big page seed use_native;
           if calc \<noteq> (c1, c2) then Some (Inl ())
           else (let st1 = st\<lparr>st_cumulative_checksum := calc,
                              st_pending_frames :=
                                fc_extend (st_pending_frames st) (unat page_no) [st_frame_idx st]\<rparr>;
                     (st2, sh2) =
                       (if db_size > 0
                        then flush_pending_frames
                               (st1\<lparr>st_last_valid_frame := st_frame_idx st1, st_last_valid_checksum := calc\<rparr>) sh
                        else (st1, sh))
                 in Some (Inr (st2\<lparr>st_frame_idx := st_frame_idx st2 + 1\<rparr>, sh2)))
         })"

lemma process_frame_page_size:
  "process_frame big buf header n pos st sh = Some (Inr (st', sh')) \<Longrightarrow> st_page_size st' = st_page_size st"
  by (auto simp: process_frame_def flush_pending_frames_def Let_def split: if_splits bind_splits)

text \<open>\<open>process_frames\<close>: the number of bytes processed and the state after it.\<close>

function process_frames_loop ::
    "bool \<Rightarrow> bytes \<Rightarrow> wal_header \<Rightarrow> bool \<Rightarrow> nat \<Rightarrow> streaming_state \<Rightarrow> wal_shared
     \<Rightarrow> (nat \<times> streaming_state \<times> wal_shared) option" where
  "process_frames_loop big buf header use_native pos st sh =
     (let frame_size = WAL_FRAME_HEADER_SIZE + st_page_size st in
      if pos + frame_size \<le> length buf then
        (case process_frame big buf header use_native pos st sh of
           None \<Rightarrow> None
         | Some (Inl _) \<Rightarrow> Some (pos, st, sh)
         | Some (Inr (st', sh')) \<Rightarrow>
             process_frames_loop big buf header use_native (pos + frame_size) st' sh')
      else Some (pos, st, sh))"
  by pat_completeness auto
termination
  by (relation "measure (\<lambda>(big, buf, header, use_native, pos, st, sh). length buf - pos)")
     (auto simp: WAL_FRAME_HEADER_SIZE_def)

declare process_frames_loop.simps [simp del]

definition process_frames ::
    "bool \<Rightarrow> bytes \<Rightarrow> wal_header \<Rightarrow> bool \<Rightarrow> streaming_state \<Rightarrow> wal_shared
     \<Rightarrow> (nat \<times> streaming_state \<times> wal_shared) option" where
  "process_frames big buf header use_native st sh =
     process_frames_loop big buf header use_native 0 st sh"

definition finalize_loading :: "wal_reader \<Rightarrow> wal_shared \<Rightarrow> wal_reader \<times> wal_shared" where
  "finalize_loading rd sh =
     (let st = rd_state rd;
          max_frame = st_last_valid_frame st;
          header = ws_wal_header sh;
          sh1 = (if max_frame > 0 then
                   sh\<lparr>ws_frame_cache := filter (\<lambda>(p, fs). fs \<noteq> [])
                         (map (\<lambda>(p, fs). (p, filter (\<lambda>f. f \<le> max_frame) fs)) (ws_frame_cache sh)),
                      ws_coverage := coverage_record (ws_coverage sh) (wh_checkpoint_seq header)
                         (wh_salt_1 header) (wh_salt_2 header) max_frame\<rparr>
                 else sh\<lparr>ws_coverage := coverage_clear (ws_coverage sh)\<rparr>)
      in (rd\<lparr>rd_done := True\<rparr>,
          sh1\<lparr>ws_max_frame := max_frame,
              ws_last_checksum := st_last_valid_checksum st,
              ws_initialized := ws_initialized sh1 \<or> st_header_valid st,
              ws_nbackfills := 0,
              ws_loaded := True\<rparr>))"

text \<open>\<open>handle_header_read\<close> on the 32 bytes at the start of the file.\<close>

definition parse_wal_header :: "bytes \<Rightarrow> wal_header" where
  "parse_wal_header s = \<lparr>
     wh_magic = be_u32 (slice_range s 0 4),
     wh_file_format = be_u32 (slice_range s 4 8),
     wh_page_size = be_u32 (slice_range s 8 12),
     wh_checkpoint_seq = be_u32 (slice_range s 12 16),
     wh_salt_1 = be_u32 (slice_range s 16 20),
     wh_salt_2 = be_u32 (slice_range s 20 24),
     wh_checksum_1 = be_u32 (slice_range s 24 28),
     wh_checksum_2 = be_u32 (slice_range s 28 32)
   \<rparr>"

definition handle_header_read ::
    "bool \<Rightarrow> bytes \<Rightarrow> wal_reader \<Rightarrow> wal_shared \<Rightarrow> (wal_reader \<times> wal_shared) option" where
  "handle_header_read big s rd sh =
     (if length s \<noteq> WAL_HEADER_SIZE then Some (finalize_loading rd sh)
      else (let h = parse_wal_header s;
                use_native = (big = (wh_magic h AND 1 \<noteq> 0));
                sh' = sh\<lparr>ws_wal_header := h\<rparr>
            in do {
              calc \<leftarrow> checksum_wal big (slice_range s 0 24) (0, 0) use_native;
              if page_size_new (wh_page_size h) = None \<or> calc \<noteq> (wh_checksum_1 h, wh_checksum_2 h)
              then Some (finalize_loading rd sh')
              else Some
                (rd\<lparr>rd_state := (rd_state rd)\<lparr>
                       st_page_size := unat (wh_page_size h),
                       st_use_native_endian := use_native,
                       st_cumulative_checksum := (wh_checksum_1 h, wh_checksum_2 h),
                       st_last_valid_checksum := (wh_checksum_1 h, wh_checksum_2 h),
                       st_header_valid := True\<rparr>,
                    rd_off := WAL_HEADER_SIZE,
                    rd_page := unat (wh_page_size h)\<rparr>, sh')
            }))"

definition handle_chunk_read ::
    "bool \<Rightarrow> nat \<Rightarrow> bytes \<Rightarrow> wal_reader \<Rightarrow> wal_shared \<Rightarrow> (wal_reader \<times> wal_shared) option" where
  "handle_chunk_read big file_size buf rd sh =
     do {
       (consumed, st', sh') \<leftarrow>
         process_frames big buf (ws_wal_header sh) (st_use_native_endian (rd_state rd)) (rd_state rd) sh;
       let rd' = rd\<lparr>rd_state := st', rd_off := rd_off rd + consumed\<rparr>;
       Some (if consumed < length buf \<or> rd_off rd' \<ge> file_size then finalize_loading rd' sh'
             else (rd', sh'))
     }"

text \<open>The size of the chunk \<open>submit_one_chunk\<close> reads at an offset.\<close>

definition chunk_size :: "nat \<Rightarrow> nat \<Rightarrow> nat \<Rightarrow> nat" where
  "chunk_size page_size file_size offset =
     (let frame_size = WAL_FRAME_HEADER_SIZE + page_size;
          aligned = (16 * 1024 * 1024 div frame_size) * frame_size
      in min (max aligned frame_size) (file_size - offset))"

definition submit_one_chunk ::
    "bool \<Rightarrow> bytes \<Rightarrow> wal_reader \<Rightarrow> wal_shared \<Rightarrow> (wal_reader \<times> wal_shared) result" where
  "submit_one_chunk big file rd sh =
     (if rd_page rd = 0 then Inl InternalError
      else (let offset = rd_off rd;
                read_size = chunk_size (rd_page rd) (length file) offset
            in if read_size = 0 then Inr (rd, sh)
               else (case handle_chunk_read big (length file) (slice_range file offset (offset + read_size)) rd sh of
                       None \<Rightarrow> Inl Panic
                     | Some r \<Rightarrow> Inr r)))"

function build_loop :: "bool \<Rightarrow> bytes \<Rightarrow> wal_reader \<Rightarrow> wal_shared \<Rightarrow> wal_shared result" where
  "build_loop big file rd sh =
     (if rd_done rd then Inr sh
      else if rd_off rd \<ge> length file then Inr (snd (finalize_loading rd sh))
      else (case submit_one_chunk big file rd sh of
              Inl e \<Rightarrow> Inl e
            | Inr (rd', sh') \<Rightarrow>
                if rd_off rd' \<le> rd_off rd then Inr (snd (finalize_loading rd' sh'))
                else build_loop big file rd' sh'))"
  by pat_completeness auto
termination
  by (relation "measure (\<lambda>(big, file, rd, sh). length file - rd_off rd)") auto

declare build_loop.simps [simp del]

definition wal_shared_init :: "bool \<Rightarrow> wal_shared" where
  "wal_shared_init big = \<lparr>
     ws_enabled = True, ws_wal_header = wal_header_new big, ws_min_frame = 0, ws_max_frame = 0,
     ws_nbackfills = 0, ws_transaction_count = 0, ws_last_checksum = (0, 0), ws_loaded = False,
     ws_loaded_from_disk_scan = True, ws_initialized = False, ws_frame_cache = [],
     ws_file_open = True, ws_read_locks = init_read_locks, ws_vacuum_lock = rw_new,
     ws_write_lock = rw_new, ws_checkpoint_lock = rw_new, ws_epoch = 0,
     ws_coverage = coverage_default
   \<rparr>"

definition build_shared_wal :: "bool \<Rightarrow> bytes \<Rightarrow> wal_shared result" where
  "build_shared_wal big file =
     (if length file < WAL_HEADER_SIZE then Inr ((wal_shared_init big)\<lparr>ws_loaded := True\<rparr>)
      else (case handle_header_read big (slice_range file 0 WAL_HEADER_SIZE) streaming_reader_new
                   (wal_shared_init big) of
              None \<Rightarrow> Inl Panic
            | Some (rd, sh) \<Rightarrow> build_loop big file rd sh))"

section \<open>The log as a list of entries\<close>

text \<open>An entry is a page number, the database size of a commit frame (zero otherwise) and the page.
  Encoding a list of entries chains the checksums of \<open>prepare_wal_frame\<close>.\<close>

type_synonym log_entry = "u32 \<times> u32 \<times> bytes"

fun encode_log :: "bool \<Rightarrow> wal_header \<Rightarrow> u32 \<times> u32 \<Rightarrow> log_entry list \<Rightarrow> ((u32 \<times> u32) \<times> bytes) option" where
  "encode_log big hdr cs [] = Some (cs, [])"
| "encode_log big hdr cs ((page_no, db_size, page) # es) =
     do {
       (cs1, frame) \<leftarrow> prepare_wal_frame big hdr cs (wh_page_size hdr) page_no db_size page;
       (cs2, bs) \<leftarrow> encode_log big hdr cs1 es;
       Some (cs2, frame @ bs)
     }"

definition log_checksum :: "bool \<Rightarrow> wal_header \<Rightarrow> u32 \<times> u32 \<Rightarrow> log_entry list \<Rightarrow> (u32 \<times> u32) option" where
  "log_checksum big hdr cs es = map_option fst (encode_log big hdr cs es)"

definition entry_ok :: "wal_header \<Rightarrow> log_entry \<Rightarrow> bool" where
  "entry_ok hdr e \<longleftrightarrow> fst e \<noteq> 0 \<and> length (snd (snd e)) = unat (wh_page_size hdr)"

text \<open>The frames of a page, in ascending order, and the number of the last commit frame.\<close>

definition page_frames :: "nat \<Rightarrow> log_entry list \<Rightarrow> nat list" where
  "page_frames p es = map Suc (filter (\<lambda>i. unat (fst (es ! i)) = p) [0..<length es])"

definition last_commit :: "log_entry list \<Rightarrow> nat" where
  "last_commit es =
     (let commits = filter (\<lambda>i. fst (snd (es ! i)) > 0) [0..<length es]
      in if commits = [] then 0 else Suc (last commits))"

lemma page_frames_Nil [simp]: "page_frames p [] = []"
  by (simp add: page_frames_def)

lemma page_frames_snoc:
  "page_frames p (es @ [e]) = page_frames p es @ (if unat (fst e) = p then [Suc (length es)] else [])"
proof -
  have "filter (\<lambda>i. unat (fst ((es @ [e]) ! i)) = p) [0..<length es] =
      filter (\<lambda>i. unat (fst (es ! i)) = p) [0..<length es]"
    by (rule filter_cong) (auto simp: nth_append)
  then show ?thesis by (simp add: page_frames_def)
qed

lemma last_commit_Nil [simp]: "last_commit [] = 0"
  by (simp add: last_commit_def)

lemma last_commit_snoc:
  "last_commit (es @ [e]) = (if fst (snd e) > 0 then Suc (length es) else last_commit es)"
proof -
  have "filter (\<lambda>i. fst (snd ((es @ [e]) ! i)) > 0) [0..<length es] =
      filter (\<lambda>i. fst (snd (es ! i)) > 0) [0..<length es]"
    by (rule filter_cong) (auto simp: nth_append)
  then show ?thesis by (simp add: last_commit_def Let_def)
qed

lemma last_commit_le: "last_commit es \<le> length es"
  by (induction es rule: rev_induct) (auto simp: last_commit_snoc)

lemma page_frames_bounds: "f \<in> set (page_frames p es) \<Longrightarrow> 0 < f \<and> f \<le> length es"
  by (auto simp: page_frames_def)

lemma page_frames_take: "page_frames p (take n es) = filter (\<lambda>f. f \<le> n) (page_frames p es)"
proof (induction es rule: rev_induct)
  case Nil
  show ?case by simp
next
  case (snoc e es)
  show ?case
  proof (cases "n \<le> length es")
    case True
    then show ?thesis using snoc by (simp add: page_frames_snoc)
  next
    case False
    then have "filter (\<lambda>f. f \<le> n) (page_frames p (es @ [e])) = page_frames p (es @ [e])"
      using page_frames_bounds[of _ p "es @ [e]"] by (intro filter_True) fastforce
    then show ?thesis using False by simp
  qed
qed

lemma fc_get_flush_drain:
  "distinct (map fst pending) \<Longrightarrow>
   fc_get (flush_drain n pending cache) p = fc_get cache p @ filter (\<lambda>f. f \<le> n) (fc_get pending p)"
proof (induction n pending cache rule: flush_drain.induct)
  case (1 n cache)
  show ?case by simp
next
  case (2 n page frames pending cache)
  then have "page \<notin> fst ` set pending" by simp
  then have "fc_get pending page = []" by (rule fc_get_absent)
  then show ?case using 2 by (auto simp: fc_get_Cons Let_def)
qed

lemma flush_drain_distinct:
  "distinct (map fst cache) \<Longrightarrow> distinct (map fst (flush_drain n pending cache))"
  by (induction n pending cache rule: flush_drain.induct) (auto simp: Let_def)

lemma fc_extend_nonempty: "fc_extend cache p fs \<noteq> []"
  by (cases cache) (auto split: if_splits)

section \<open>Scanning a log\<close>

text \<open>The state of the reader after the entries \<open>es\<close>, which started from the checksum \<open>cs0\<close>.\<close>

definition scanned :: "bool \<Rightarrow> wal_header \<Rightarrow> u32 \<times> u32 \<Rightarrow> log_entry list \<Rightarrow> wal_shared
    \<Rightarrow> streaming_state \<Rightarrow> wal_shared \<Rightarrow> bool" where
  "scanned big hdr cs0 es sh0 st sh \<longleftrightarrow>
     st_frame_idx st = Suc (length es)
     \<and> log_checksum big hdr cs0 es = Some (st_cumulative_checksum st)
     \<and> log_checksum big hdr cs0 (take (last_commit es) es) = Some (st_last_valid_checksum st)
     \<and> st_last_valid_frame st = last_commit es
     \<and> st_page_size st = unat (wh_page_size hdr) \<and> st_header_valid st
     \<and> st_use_native_endian st = (big = (wh_magic hdr AND 1 \<noteq> 0))
     \<and> distinct (map fst (st_pending_frames st))
     \<and> (\<forall>p. fc_get (st_pending_frames st) p = filter (\<lambda>f. last_commit es < f) (page_frames p es))
     \<and> distinct (map fst (ws_frame_cache sh))
     \<and> (\<forall>p. fc_get (ws_frame_cache sh) p = page_frames p (take (last_commit es) es))
     \<and> sh\<lparr>ws_frame_cache := [], ws_max_frame := 0\<rparr> = sh0\<lparr>ws_frame_cache := [], ws_max_frame := 0\<rparr>"

lemma encode_log_append:
  "encode_log big hdr cs (as @ bs) =
     do { (c1, e1) \<leftarrow> encode_log big hdr cs as; (c2, e2) \<leftarrow> encode_log big hdr c1 bs; Some (c2, e1 @ e2) }"
proof (induction as arbitrary: cs)
  case Nil
  show ?case by (auto split: bind_splits)
next
  case (Cons e as)
  obtain page_no db_size page where e: "e = (page_no, db_size, page)" by (cases e) auto
  show ?case unfolding e append_Cons encode_log.simps Cons.IH
    by (auto split: bind_splits)
qed

lemma log_checksum_append:
  assumes "log_checksum big hdr cs0 es = Some c" "encode_log big hdr c es' = Some (c', enc)"
  shows "log_checksum big hdr cs0 (es @ es') = Some c'"
proof -
  obtain b where "encode_log big hdr cs0 es = Some (c, b)"
    using assms(1) by (cases "encode_log big hdr cs0 es") (auto simp: log_checksum_def)
  with assms(2) show ?thesis by (simp add: log_checksum_def encode_log_append)
qed

lemma encode_log_snoc:
  "encode_log big hdr cs (es @ [(page_no, db_size, page)]) =
     do {
       (cs1, bs) \<leftarrow> encode_log big hdr cs es;
       (cs2, frame) \<leftarrow> prepare_wal_frame big hdr cs1 (wh_page_size hdr) page_no db_size page;
       Some (cs2, bs @ frame)
     }"
  by (induction big hdr cs es rule: encode_log.induct)
     (auto split: bind_splits option.splits simp: bind_eq_Some_conv)

text \<open>The frame \<open>prepare_wal_frame\<close> built is the frame the reader accepts.\<close>

lemma prepared_frame_slices:
  assumes "drop pos buf = (u32_be a @ u32_be b @ u32_be c @ u32_be d @ u32_be e @ u32_be f @ page) @ rest"
  shows "slice_range buf pos (pos + 24) = u32_be a @ u32_be b @ u32_be c @ u32_be d @ u32_be e @ u32_be f"
    "slice_range buf (pos + 24) (pos + (24 + length page)) = page"
    "pos + (24 + length page) \<le> length buf"
proof -
  show "slice_range buf pos (pos + 24) = u32_be a @ u32_be b @ u32_be c @ u32_be d @ u32_be e @ u32_be f"
    using assms by (simp add: slice_range_def)
  have "drop (pos + 24) buf = drop 24 (drop pos buf)" by (simp add: add.commute)
  then have "drop (pos + 24) buf = page @ rest" using assms by simp
  then show "slice_range buf (pos + 24) (pos + (24 + length page)) = page"
    by (simp add: slice_range_def)
  have "length (drop pos buf) = 24 + length page + length rest" using assms by simp
  then show "pos + (24 + length page) \<le> length buf" by simp
qed

lemma process_prepared_frame:
  assumes prep: "prepare_wal_frame big hdr (st_cumulative_checksum st) (wh_page_size hdr) page_no db_size page
      = Some (cs, frame)"
    and buf: "drop pos buf = frame @ rest"
    and "page_no \<noteq> 0" "st_page_size st = unat (wh_page_size hdr)"
    and un: "use_native = (big = (wh_magic hdr AND 1 \<noteq> 0))"
  shows "pos + (WAL_FRAME_HEADER_SIZE + st_page_size st) \<le> length buf
    \<and> length frame = WAL_FRAME_HEADER_SIZE + st_page_size st
    \<and> process_frame big buf hdr use_native pos st sh =
        (let st1 = st\<lparr>st_cumulative_checksum := cs,
                     st_pending_frames := fc_extend (st_pending_frames st) (unat page_no) [st_frame_idx st]\<rparr>;
             (st2, sh2) =
               (if db_size > 0
                then flush_pending_frames (st1\<lparr>st_last_valid_frame := st_frame_idx st1, st_last_valid_checksum := cs\<rparr>) sh
                else (st1, sh))
         in Some (Inr (st2\<lparr>st_frame_idx := st_frame_idx st2 + 1\<rparr>, sh2)))"
proof -
  have native: "(big = (wh_magic hdr AND 1 = 1)) = use_native"
    using un by (simp add: and_one_eq)
  have len: "length page = unat (wh_page_size hdr)"
    using prep by (simp add: prepare_wal_frame_def split: if_splits)
  from prep obtain seed where
    seed: "checksum_wal big (u32_be page_no @ u32_be db_size) (st_cumulative_checksum st) use_native = Some seed"
    and calc: "checksum_wal big page seed use_native = Some cs"
    and frame: "frame = u32_be page_no @ u32_be db_size @ u32_be (wh_salt_1 hdr) @ u32_be (wh_salt_2 hdr)
                  @ u32_be (fst cs) @ u32_be (snd cs) @ page"
    by (auto simp: prepare_wal_frame_def native Let_def bind_eq_Some_conv split: if_splits)
  note sl = prepared_frame_slices[OF buf[unfolded frame]]
  have fh: "slice_range buf pos (pos + WAL_FRAME_HEADER_SIZE) = u32_be page_no @ u32_be db_size
      @ u32_be (wh_salt_1 hdr) @ u32_be (wh_salt_2 hdr) @ u32_be (fst cs) @ u32_be (snd cs)"
    using sl(1) by (simp add: WAL_FRAME_HEADER_SIZE_def)
  have pg: "slice_range buf (pos + WAL_FRAME_HEADER_SIZE) (pos + (WAL_FRAME_HEADER_SIZE + st_page_size st)) = page"
    using sl(2) len assms(4) by (simp add: WAL_FRAME_HEADER_SIZE_def)
  have f8: "slice_range (u32_be page_no @ u32_be db_size @ u32_be (wh_salt_1 hdr) @ u32_be (wh_salt_2 hdr)
      @ u32_be (fst cs) @ u32_be (snd cs)) 0 8 = u32_be page_no @ u32_be db_size"
    by (simp add: slice_range_def)
  have "process_frame big buf hdr use_native pos st sh =
        (let st1 = st\<lparr>st_cumulative_checksum := cs,
                     st_pending_frames := fc_extend (st_pending_frames st) (unat page_no) [st_frame_idx st]\<rparr>;
             (st2, sh2) =
               (if db_size > 0
                then flush_pending_frames (st1\<lparr>st_last_valid_frame := st_frame_idx st1, st_last_valid_checksum := cs\<rparr>) sh
                else (st1, sh))
         in Some (Inr (st2\<lparr>st_frame_idx := st_frame_idx st2 + 1\<rparr>, sh2)))"
    unfolding process_frame_def fh pg Let_def f8 using assms(3)
    by (simp add: seed calc)
  moreover have "pos + (WAL_FRAME_HEADER_SIZE + st_page_size st) \<le> length buf"
    using sl(3) len assms(4) by (simp add: WAL_FRAME_HEADER_SIZE_def)
  moreover have "length frame = WAL_FRAME_HEADER_SIZE + st_page_size st"
    using len assms(4) by (simp add: frame WAL_FRAME_HEADER_SIZE_def)
  ultimately show ?thesis by blast
qed

lemma page_frames_split:
  "page_frames p (take n es) @ filter (\<lambda>f. n < f) (page_frames p es) = page_frames p es"
proof (induction es rule: rev_induct)
  case Nil
  show ?case by simp
next
  case (snoc e es)
  show ?case
  proof (cases "n \<le> length es")
    case True
    with snoc show ?thesis by (auto simp: page_frames_snoc simp flip: append_assoc)
  next
    case False
    then have "filter (\<lambda>f. n < f) (page_frames p (es @ [e])) = []"
      using page_frames_bounds[of _ p "es @ [e]"] by (intro filter_False) fastforce
    then show ?thesis using False by simp
  qed
qed

lemma filter_above_length: "filter (\<lambda>f. length es < f) (page_frames p es) = []"
  using page_frames_bounds[of _ p es] by (intro filter_False) fastforce

lemma encode_log_snoc_checksum:
  assumes "log_checksum big hdr cs0 es = Some c1"
    and "prepare_wal_frame big hdr c1 (wh_page_size hdr) page_no db_size page = Some (cs, frame)"
  shows "log_checksum big hdr cs0 (es @ [(page_no, db_size, page)]) = Some cs"
proof -
  obtain bs where "encode_log big hdr cs0 es = Some (c1, bs)"
    using assms(1) by (cases "encode_log big hdr cs0 es") (auto simp: log_checksum_def)
  with assms(2) show ?thesis by (simp add: encode_log_snoc log_checksum_def)
qed

lemma scanned_step:
  assumes sc: "scanned big hdr cs0 es sh0 st sh"
    and prep: "prepare_wal_frame big hdr (st_cumulative_checksum st) (wh_page_size hdr) page_no db_size page
      = Some (cs, frame)"
    and buf: "drop pos buf = frame @ rest" and pn: "page_no \<noteq> 0"
    and un: "use_native = (big = (wh_magic hdr AND 1 \<noteq> 0))"
  shows "\<exists>st' sh'. process_frame big buf hdr use_native pos st sh = Some (Inr (st', sh'))
           \<and> scanned big hdr cs0 (es @ [(page_no, db_size, page)]) sh0 st' sh'"
proof -
  let ?e = "(page_no, db_size, page)"
  have ps: "st_page_size st = unat (wh_page_size hdr)" using sc by (simp add: scanned_def)
  note step = process_prepared_frame[OF prep buf pn ps un, of sh]
  have lc: "last_commit es \<le> length es" by (rule last_commit_le)
  have enc: "log_checksum big hdr cs0 (es @ [?e]) = Some cs"
    using encode_log_snoc_checksum[OF _ prep] sc by (simp add: scanned_def)
  define pend where "pend = fc_extend (st_pending_frames st) (unat page_no) [st_frame_idx st]"
  have pend: "fc_get pend p = filter (\<lambda>f. last_commit es < f) (page_frames p (es @ [?e]))"
    "distinct (map fst pend)" for p
    using sc lc by (auto simp: scanned_def pend_def page_frames_snoc)
  show ?thesis
  proof (cases "db_size > 0")
    case False
    then have n: "last_commit (es @ [?e]) = last_commit es" by (simp add: last_commit_snoc)
    have z: "last_commit es - length es = 0" using lc by simp
    show ?thesis using step False sc enc pend
      by (simp add: scanned_def Let_def n z pend_def[symmetric])
  next
    case True
    then have n: "last_commit (es @ [?e]) = Suc (length es)" by (simp add: last_commit_snoc)
    define cache where "cache = flush_drain (Suc (length es)) pend (ws_frame_cache sh)"
    have "fc_get cache p = page_frames p (es @ [?e])" for p
    proof -
      have "fc_get cache p = page_frames p (take (last_commit es) es) @
          filter (\<lambda>f. f \<le> Suc (length es)) (filter (\<lambda>f. last_commit es < f) (page_frames p (es @ [?e])))"
        using sc by (simp add: cache_def fc_get_flush_drain[OF pend(2)] pend(1) scanned_def)
      also have "filter (\<lambda>f. f \<le> Suc (length es)) (filter (\<lambda>f. last_commit es < f) (page_frames p (es @ [?e])))
          = filter (\<lambda>f. last_commit es < f) (page_frames p (es @ [?e]))"
        using page_frames_bounds[of _ p "es @ [?e]"] by (intro filter_True) fastforce
      also have "page_frames p (take (last_commit es) es) = page_frames p (take (last_commit es) (es @ [?e]))"
        using lc by simp
      finally show ?thesis by (simp only: page_frames_split)
    qed
    moreover have "distinct (map fst cache)"
      using sc flush_drain_distinct by (simp add: cache_def scanned_def)
    moreover have "pend \<noteq> []" unfolding pend_def by (rule fc_extend_nonempty)
    moreover have "filter (\<lambda>f. Suc (length es) < f) (page_frames p (es @ [?e])) = []" for p
      using filter_above_length[of "es @ [?e]" p] by simp
    ultimately show ?thesis using step True sc enc
      by (simp add: scanned_def Let_def n pend_def[symmetric] cache_def[symmetric] flush_pending_frames_def)
  qed
qed

lemma process_frames_loop_log:
  assumes "scanned big hdr cs0 es sh0 st sh"
    and "encode_log big hdr (st_cumulative_checksum st) es' = Some (cs, enc)"
    and "drop pos buf = enc @ tail" and "\<forall>e \<in> set es'. entry_ok hdr e"
    and un: "use_native = (big = (wh_magic hdr AND 1 \<noteq> 0))"
  shows "\<exists>st' sh'. process_frames_loop big buf hdr use_native pos st sh =
             process_frames_loop big buf hdr use_native (pos + length enc) st' sh'
           \<and> scanned big hdr cs0 (es @ es') sh0 st' sh' \<and> drop (pos + length enc) buf = tail"
  using assms(1-4)
proof (induction es' arbitrary: es st sh pos enc)
  case Nil
  then show ?case by auto
next
  case (Cons e es')
  obtain page_no db_size page where e: "e = (page_no, db_size, page)" by (cases e) auto
  from Cons.prems(2) obtain cs1 frame bs where
    prep: "prepare_wal_frame big hdr (st_cumulative_checksum st) (wh_page_size hdr) page_no db_size page = Some (cs1, frame)"
    and rest: "encode_log big hdr cs1 es' = Some (cs, bs)" and enc: "enc = frame @ bs"
    by (auto simp: e bind_eq_Some_conv)
  have pn: "page_no \<noteq> 0" using Cons.prems(4) by (simp add: e entry_ok_def)
  have buf: "drop pos buf = frame @ (bs @ tail)" using Cons.prems(3) enc by simp
  obtain st1 sh1 where st1: "process_frame big buf hdr use_native pos st sh = Some (Inr (st1, sh1))"
    and sc1: "scanned big hdr cs0 (es @ [e]) sh0 st1 sh1"
    using scanned_step[OF Cons.prems(1) prep buf pn un] e by blast
  have ps: "st_page_size st = unat (wh_page_size hdr)" using Cons.prems(1) by (simp add: scanned_def)
  note fit = process_prepared_frame[OF prep buf pn ps un, of sh]
  have loop: "process_frames_loop big buf hdr use_native pos st sh =
      process_frames_loop big buf hdr use_native (pos + length frame) st1 sh1"
    using fit[THEN conjunct1] fit[THEN conjunct2, THEN conjunct1] st1
    by (subst process_frames_loop.simps) (simp add: Let_def)
  have "log_checksum big hdr cs0 (es @ [e]) = Some cs1"
    using encode_log_snoc_checksum[OF _ prep] Cons.prems(1) by (simp add: scanned_def e)
  then have cs1: "st_cumulative_checksum st1 = cs1" using sc1 by (simp add: scanned_def)
  have "drop (pos + length frame) buf = drop (length frame) (drop pos buf)" by (simp add: add.commute)
  then have "drop (pos + length frame) buf = bs @ tail" using buf by simp
  from Cons.IH[OF sc1 _ this] rest cs1 Cons.prems(4) show ?case
    unfolding loop enc by (simp add: add.assoc)
qed

section \<open>Where a scan stops\<close>

text \<open>A frame the reader accepts after the checksum \<open>cs\<close>: its page number is not zero, its salts
  are those of the header, and its checksums continue the chain.\<close>

definition accepts_frame :: "bool \<Rightarrow> wal_header \<Rightarrow> u32 \<times> u32 \<Rightarrow> bytes \<Rightarrow> bool" where
  "accepts_frame big hdr cs frame \<longleftrightarrow>
     (case parse_wal_frame_header frame of
        None \<Rightarrow> False
      | Some (fh, page) \<Rightarrow>
          fh_page_number fh \<noteq> 0 \<and> fh_salt_1 fh = wh_salt_1 hdr \<and> fh_salt_2 fh = wh_salt_2 hdr
          \<and> (let native = (big = (wh_magic hdr AND 1 \<noteq> 0))
             in checksum_wal big (slice_range frame 0 8) cs native \<bind> (\<lambda>seed. checksum_wal big page seed native)
                  = Some (fh_checksum_1 fh, fh_checksum_2 fh)))"

definition log_ends :: "bool \<Rightarrow> wal_header \<Rightarrow> u32 \<times> u32 \<Rightarrow> bytes \<Rightarrow> bool" where
  "log_ends big hdr cs rest \<longleftrightarrow>
     length rest < WAL_FRAME_HEADER_SIZE + unat (wh_page_size hdr)
     \<or> \<not> accepts_frame big hdr cs (take (WAL_FRAME_HEADER_SIZE + unat (wh_page_size hdr)) rest)"

lemma slice_range_take: "j \<le> n \<Longrightarrow> slice_range (take n xs) i j = slice_range xs i j"
  by (auto simp: slice_range_def drop_take min_def)

lemma slice_range_slice: "j \<le> n \<Longrightarrow> slice_range (slice_range xs a (a + n)) i j = slice_range xs (a + i) (a + j)"
  by (auto simp: slice_range_def drop_take min_def add.commute)

lemma process_frame_stops:
  assumes "\<not> accepts_frame big hdr (st_cumulative_checksum st)
             (slice_range buf pos (pos + (WAL_FRAME_HEADER_SIZE + st_page_size st)))"
    and "pos + (WAL_FRAME_HEADER_SIZE + st_page_size st) \<le> length buf" and "st_page_size st mod 8 = 0"
    and un: "use_native = (big = (wh_magic hdr AND 1 \<noteq> 0))"
  shows "process_frame big buf hdr use_native pos st sh = Some (Inl ())"
proof -
  let ?ps = "st_page_size st"
  define fr where "fr = slice_range buf pos (pos + (24 + ?ps))"
  have len: "length fr = 24 + ?ps" using assms(2) by (simp add: fr_def WAL_FRAME_HEADER_SIZE_def)
  have fh: "slice_range buf pos (pos + 24) = slice_range fr 0 24"
    and fh8: "slice_range fr i j = slice_range (slice_range fr 0 24) i j" if "j \<le> 24" for i j
    using that by (simp_all add: fr_def slice_range_slice[of _ "24 + ?ps"] slice_range_def drop_take min_def)
  have page: "slice_range buf (pos + 24) (pos + (24 + ?ps)) = drop 24 fr"
    by (simp add: fr_def slice_range_def drop_take add.commute)
  have fh24: "slice_range buf pos (pos + 24) = slice_range fr 0 24" using fh[of 24] by simp
  have "length (slice_range (slice_range fr 0 24) 0 8) mod 8 = 0" using len by (simp add: slice_range_def)
  from checksum_wal_Some[OF this] obtain seed where
    seed: "checksum_wal big (slice_range (slice_range fr 0 24) 0 8) (st_cumulative_checksum st) use_native = Some seed"
    by blast
  have "length (drop 24 fr) mod 8 = 0" using len assms(3) by simp
  from checksum_wal_Some[OF this] obtain calc where
    calc: "checksum_wal big (drop 24 fr) seed use_native = Some calc" by blast
  show ?thesis
    using assms(1) len seed calc
    unfolding process_frame_def accepts_frame_def parse_wal_frame_header_def WAL_FRAME_HEADER_SIZE_def
      fr_def[symmetric] fh24 page Let_def un[symmetric] 
    by (auto simp: fh8[symmetric] split: if_splits)
qed

lemma process_frames_scan:
  assumes sc: "scanned big hdr cs0 es sh0 st sh"
    and enc: "encode_log big hdr (st_cumulative_checksum st) es' = Some (cs, enc)"
    and ok: "\<forall>e \<in> set es'. entry_ok hdr e" and ends: "log_ends big hdr cs rest"
    and ps: "unat (wh_page_size hdr) mod 8 = 0"
    and un: "use_native = (big = (wh_magic hdr AND 1 \<noteq> 0))"
  shows "\<exists>st' sh'. process_frames big (enc @ rest) hdr use_native st sh = Some (length enc, st', sh')
           \<and> scanned big hdr cs0 (es @ es') sh0 st' sh'"
proof -
  obtain st' sh' where
    loop: "process_frames_loop big (enc @ rest) hdr use_native 0 st sh =
             process_frames_loop big (enc @ rest) hdr use_native (length enc) st' sh'"
    and sc': "scanned big hdr cs0 (es @ es') sh0 st' sh'"
    using process_frames_loop_log[OF sc enc, of 0 "enc @ rest" rest] ok un by auto
  have ps': "st_page_size st' = unat (wh_page_size hdr)" using sc' by (simp add: scanned_def)
  have cs: "st_cumulative_checksum st' = cs"
  proof -
    have "log_checksum big hdr cs0 (es @ es') = Some cs"
      using log_checksum_append[OF _ enc] sc by (simp add: scanned_def)
    with sc' show ?thesis by (simp add: scanned_def)
  qed
  have "process_frames_loop big (enc @ rest) hdr use_native (length enc) st' sh' = Some (length enc, st', sh')"
  proof (cases "length rest < WAL_FRAME_HEADER_SIZE + unat (wh_page_size hdr)")
    case True
    then show ?thesis by (subst process_frames_loop.simps) (simp add: ps')
  next
    case False
    then have "\<not> accepts_frame big hdr cs (take (WAL_FRAME_HEADER_SIZE + unat (wh_page_size hdr)) rest)"
      using ends by (simp add: log_ends_def)
    then have "process_frame big (enc @ rest) hdr use_native (length enc) st' sh' = Some (Inl ())"
      using False ps by (intro process_frame_stops[OF _ _ _ un]) (simp_all add: ps' cs slice_range_def)
    then show ?thesis using False by (subst process_frames_loop.simps) (simp add: ps' Let_def)
  qed
  then show ?thesis using loop sc' by (simp add: process_frames_def)
qed

section \<open>Loading a whole file\<close>

text \<open>What loading a log with the entries \<open>es\<close> must give: the frames up to the last commit.\<close>

definition recovered :: "bool \<Rightarrow> wal_header \<Rightarrow> log_entry list \<Rightarrow> wal_shared \<Rightarrow> bool" where
  "recovered big hdr es sh \<longleftrightarrow>
     (let n = last_commit es in
      ws_max_frame sh = n \<and> ws_nbackfills sh = 0
      \<and> log_checksum big hdr (wh_checksum_1 hdr, wh_checksum_2 hdr) (take n es) = Some (ws_last_checksum sh)
      \<and> (\<forall>p. fc_get (ws_frame_cache sh) p = page_frames p (take n es))
      \<and> ws_wal_header sh = hdr \<and> ws_initialized sh \<and> ws_loaded sh
      \<and> ws_read_locks sh = init_read_locks)"

lemma finalize_recovered:
  assumes sc: "scanned big hdr (wh_checksum_1 hdr, wh_checksum_2 hdr) es sh0 (rd_state rd) sh"
    and "ws_wal_header sh0 = hdr" "ws_read_locks sh0 = init_read_locks"
  shows "recovered big hdr es (snd (finalize_loading rd sh))"
proof -
  let ?n = "last_commit es"
  define cache where "cache = filter (\<lambda>(p, fs). fs \<noteq> [])
      (map (\<lambda>(p, fs). (p, filter (\<lambda>f. f \<le> ?n) fs)) (ws_frame_cache sh))"
  have keep: "ws_wal_header sh = hdr" "ws_read_locks sh = init_read_locks"
  proof -
    have eq: "sh\<lparr>ws_frame_cache := [], ws_max_frame := 0\<rparr> = sh0\<lparr>ws_frame_cache := [], ws_max_frame := 0\<rparr>"
      using sc by (simp add: scanned_def)
    show "ws_wal_header sh = hdr" using arg_cong[OF eq, of ws_wal_header] assms(2) by simp
    show "ws_read_locks sh = init_read_locks" using arg_cong[OF eq, of ws_read_locks] assms(3) by simp
  qed
  have get: "fc_get (ws_frame_cache sh) p = page_frames p (take ?n es)" for p
    using sc by (simp add: scanned_def)
  have "fc_get cache p = page_frames p (take ?n es)" for p
  proof -
    have "distinct (map fst (ws_frame_cache sh))" using sc by (simp add: scanned_def)
    then have "distinct (map fst (map (\<lambda>(p, fs). (p, filter (\<lambda>f. f \<le> ?n) fs)) (ws_frame_cache sh)))"
      by (simp add: comp_def case_prod_beta)
    then have "fc_get cache p = fc_get (map (\<lambda>(p, fs). (p, filter (\<lambda>f. f \<le> ?n) fs)) (ws_frame_cache sh)) p"
      unfolding cache_def by (rule fc_get_filter_nonempty)
    also have "\<dots> = filter (\<lambda>f. f \<le> ?n) (page_frames p (take ?n es))"
      using get[of p] fc_get_absent[of p "ws_frame_cache sh"] by (auto simp: fc_get_map)
    also have "\<dots> = page_frames p (take ?n es)" by (simp add: page_frames_take)
    finally show ?thesis .
  qed
  then show ?thesis
    using sc get keep
    by (auto simp: recovered_def finalize_loading_def Let_def scanned_def cache_def[symmetric])
qed

lemma prune_idem:
  fixes n :: nat and c :: frame_cache
  defines "prune \<equiv> \<lambda>c :: frame_cache. filter (\<lambda>(p, fs). fs \<noteq> []) (map (\<lambda>(p, fs). (p, filter (\<lambda>f. f \<le> n) fs)) c)"
  shows "prune (prune c) = prune c"
  unfolding prune_def by (induction c) auto

lemma finalize_again:
  "snd (finalize_loading (fst (finalize_loading rd sh)) (snd (finalize_loading rd sh))) = snd (finalize_loading rd sh)"
proof (cases "st_last_valid_frame (rd_state rd) > 0")
  case True
  then show ?thesis
    unfolding finalize_loading_def Let_def
    by (simp add: coverage_record_def prune_idem)
next
  case False
  then show ?thesis
    unfolding finalize_loading_def Let_def by (simp add: coverage_clear_def)
qed

lemma length_prepared:
  "prepare_wal_frame big hdr cs (wh_page_size hdr) page_no db_size page = Some (cs', frame) \<Longrightarrow>
   length frame = WAL_FRAME_HEADER_SIZE + unat (wh_page_size hdr)"
  by (auto simp: bind_eq_Some_conv prepare_wal_frame_def Let_def WAL_FRAME_HEADER_SIZE_def split: if_splits)

lemma length_encode_log:
  "encode_log big hdr cs es = Some (cs', enc) \<Longrightarrow>
   length enc = length es * (WAL_FRAME_HEADER_SIZE + unat (wh_page_size hdr))"
proof (induction es arbitrary: cs enc)
  case Nil
  then show ?case by simp
next
  case (Cons e es)
  obtain page_no db_size page where e: "e = (page_no, db_size, page)" by (cases e) auto
  from Cons.prems obtain c1 frame bs where
    "prepare_wal_frame big hdr cs (wh_page_size hdr) page_no db_size page = Some (c1, frame)"
    "encode_log big hdr c1 es = Some (cs', bs)" "enc = frame @ bs"
    by (auto simp: e bind_eq_Some_conv)
  with Cons.IH length_prepared show ?case by fastforce
qed

lemma finalize_done: "rd_done (fst (finalize_loading rd sh))" "rd_off (fst (finalize_loading rd sh)) = rd_off rd"
  by (simp_all add: finalize_loading_def Let_def)

lemma build_loop_done: "rd_done rd \<Longrightarrow> build_loop big file rd sh = Inr sh"
  by (subst build_loop.simps) simp

lemma log_ends_take:
  assumes "log_ends big hdr cs rest" "length rest \<le> t \<or> WAL_FRAME_HEADER_SIZE + unat (wh_page_size hdr) \<le> t"
  shows "log_ends big hdr cs (take t rest)"
  using assms by (auto simp: log_ends_def min_def)

lemma log_ends_Nil: "log_ends big hdr cs []"
  by (simp add: log_ends_def WAL_FRAME_HEADER_SIZE_def)

lemma chunk_size_eq:
  "\<exists>q \<ge> 1. chunk_size ps fsz off = min (q * (WAL_FRAME_HEADER_SIZE + ps)) (fsz - off)"
proof (intro exI conjI)
  let ?fs = "WAL_FRAME_HEADER_SIZE + ps"
  let ?q = "max (16 * 1024 * 1024 div ?fs) 1"
  show "1 \<le> ?q" by simp
  show "chunk_size ps fsz off = min (?q * ?fs) (fsz - off)"
    unfolding chunk_size_def Let_def by (simp only: nat_mult_max_left mult_1)
qed

text \<open>One chunk: the entries that fit are scanned; the load goes on, or ends as it must.\<close>

lemma chunk_outcome:
  assumes sc: "scanned big hdr (wh_checksum_1 hdr, wh_checksum_2 hdr) es sh0 (rd_state rd) sh"
    and enc: "encode_log big hdr (st_cumulative_checksum (rd_state rd)) es' = Some (cs, enc)"
    and ok: "\<forall>e \<in> set es'. entry_ok hdr e" and ends: "log_ends big hdr cs rest"
    and ps: "unat (wh_page_size hdr) mod 8 = 0"
    and un: "st_use_native_endian (rd_state rd) = (big = (wh_magic hdr AND 1 \<noteq> 0))"
    and hdr: "ws_wal_header sh = hdr"
  shows "\<exists>st' sh'. handle_chunk_read big fsz (enc @ rest) rd sh =
      (let rd' = rd\<lparr>rd_state := st', rd_off := rd_off rd + length enc\<rparr>
       in Some (if rest \<noteq> [] \<or> rd_off rd' \<ge> fsz then finalize_loading rd' sh' else (rd', sh')))
     \<and> scanned big hdr (wh_checksum_1 hdr, wh_checksum_2 hdr) (es @ es') sh0 st' sh'"
proof -
  obtain st' sh' where "process_frames big (enc @ rest) hdr (st_use_native_endian (rd_state rd)) (rd_state rd) sh
        = Some (length enc, st', sh')"
    and "scanned big hdr (wh_checksum_1 hdr, wh_checksum_2 hdr) (es @ es') sh0 st' sh'"
    using process_frames_scan[OF sc enc ok ends ps un] by blast
  then show ?thesis
    by (intro exI[of _ st'] exI[of _ sh']) (auto simp: handle_chunk_read_def hdr Let_def)
qed

text \<open>The situation between two chunks: the entries \<open>es\<close> are scanned, the file goes on with the
  encoding of \<open>es'\<close> and then with \<open>rest\<close>, where the log ends.\<close>

definition loading :: "bool \<Rightarrow> wal_header \<Rightarrow> wal_shared \<Rightarrow> bytes \<Rightarrow> u32 \<times> u32 \<Rightarrow> bytes
    \<Rightarrow> log_entry list \<Rightarrow> log_entry list \<Rightarrow> wal_reader \<Rightarrow> wal_shared \<Rightarrow> bool" where
  "loading big hdr sh0 fl cs rest es es' rd sh \<longleftrightarrow>
     scanned big hdr (wh_checksum_1 hdr, wh_checksum_2 hdr) es sh0 (rd_state rd) sh
     \<and> (\<exists>enc. encode_log big hdr (st_cumulative_checksum (rd_state rd)) es' = Some (cs, enc)
             \<and> drop (rd_off rd) fl = enc @ rest)
     \<and> rd_off rd \<le> length fl \<and> (\<forall>e \<in> set es'. entry_ok hdr e) \<and> log_ends big hdr cs rest
     \<and> rd_page rd = unat (wh_page_size hdr) \<and> \<not> rd_done rd
     \<and> unat (wh_page_size hdr) mod 8 = 0 \<and> 0 < unat (wh_page_size hdr)
     \<and> ws_wal_header sh0 = hdr \<and> ws_read_locks sh0 = init_read_locks"

lemma scanned_keeps_header:
  "scanned big hdr cs0 es sh0 st sh \<Longrightarrow> ws_wal_header sh = ws_wal_header sh0"
proof -
  assume "scanned big hdr cs0 es sh0 st sh"
  then have "sh\<lparr>ws_frame_cache := [], ws_max_frame := 0\<rparr> = sh0\<lparr>ws_frame_cache := [], ws_max_frame := 0\<rparr>"
    by (simp add: scanned_def)
  from arg_cong[OF this, of ws_wal_header] show ?thesis by simp
qed

lemma loading_chunk:
  assumes ld: "loading big hdr sh0 fl cs rest es (es1 @ es2) rd sh"
    and e1: "encode_log big hdr (st_cumulative_checksum (rd_state rd)) es1 = Some (c1, enc1)"
    and ends: "log_ends big hdr c1 rest1" and ne: "enc1 @ rest1 \<noteq> []"
    and chunk: "slice_range fl (rd_off rd)
        (rd_off rd + chunk_size (unat (wh_page_size hdr)) (length fl) (rd_off rd)) = enc1 @ rest1"
  shows "\<exists>st1 sh1. submit_one_chunk big fl rd sh =
      (let rd1 = rd\<lparr>rd_state := st1, rd_off := rd_off rd + length enc1\<rparr>
       in Inr (if rest1 \<noteq> [] \<or> rd_off rd1 \<ge> length fl then finalize_loading rd1 sh1 else (rd1, sh1)))
     \<and> scanned big hdr (wh_checksum_1 hdr, wh_checksum_2 hdr) (es @ es1) sh0 st1 sh1"
proof -
  have sc: "scanned big hdr (wh_checksum_1 hdr, wh_checksum_2 hdr) es sh0 (rd_state rd) sh"
    and ok1: "\<forall>e \<in> set es1. entry_ok hdr e" and ps: "unat (wh_page_size hdr) mod 8 = 0"
    using ld by (auto simp: loading_def)
  have un: "st_use_native_endian (rd_state rd) = (big = (wh_magic hdr AND 1 \<noteq> 0))"
    using sc by (simp add: scanned_def)
  have hdr: "ws_wal_header sh = hdr" using scanned_keeps_header[OF sc] ld by (simp add: loading_def)
  have "chunk_size (unat (wh_page_size hdr)) (length fl) (rd_off rd) \<noteq> 0"
  proof
    assume "chunk_size (unat (wh_page_size hdr)) (length fl) (rd_off rd) = 0"
    with chunk have "enc1 @ rest1 = []" by (simp add: slice_range_def)
    with ne show False by simp
  qed
  then have sub: "submit_one_chunk big fl rd sh =
      (case handle_chunk_read big (length fl) (enc1 @ rest1) rd sh of None \<Rightarrow> Inl Panic | Some r \<Rightarrow> Inr r)"
    using ld chunk by (simp add: submit_one_chunk_def loading_def Let_def)
  obtain st1 sh1 where "handle_chunk_read big (length fl) (enc1 @ rest1) rd sh =
      (let rd1 = rd\<lparr>rd_state := st1, rd_off := rd_off rd + length enc1\<rparr>
       in Some (if rest1 \<noteq> [] \<or> rd_off rd1 \<ge> length fl then finalize_loading rd1 sh1 else (rd1, sh1)))"
    and "scanned big hdr (wh_checksum_1 hdr, wh_checksum_2 hdr) (es @ es1) sh0 st1 sh1"
    using chunk_outcome[OF sc e1 ok1 ends ps un hdr] by blast
  then show ?thesis by (intro exI[of _ st1] exI[of _ sh1]) (simp only: sub Let_def option.case)
qed

text \<open>A chunk that ends inside the entries: all of it is consumed.\<close>

lemma loading_full_chunk:
  assumes ld: "loading big hdr sh0 fl cs rest es es' rd sh" and q: "1 \<le> q" "q \<le> length es'"
    and rs: "chunk_size (unat (wh_page_size hdr)) (length fl) (rd_off rd) =
        min (q * (WAL_FRAME_HEADER_SIZE + unat (wh_page_size hdr))) (length fl - rd_off rd)"
  shows "\<exists>rd1 sh1. build_loop big fl rd sh = build_loop big fl rd1 sh1
     \<and> (loading big hdr sh0 fl cs rest (es @ take q es') (drop q es') rd1 sh1
        \<or> rd_done rd1 \<and> recovered big hdr (es @ es') sh1)"
proof -
  let ?fs = "WAL_FRAME_HEADER_SIZE + unat (wh_page_size hdr)"
  define es1 es2 where "es1 = take q es'" and "es2 = drop q es'"
  have es': "es' = es1 @ es2" "length es1 = q" using q by (simp_all add: es1_def es2_def)
  have fs: "0 < ?fs" by (simp add: WAL_FRAME_HEADER_SIZE_def)
  obtain c1 enc1 enc2 where e1: "encode_log big hdr (st_cumulative_checksum (rd_state rd)) es1 = Some (c1, enc1)"
    and e2: "encode_log big hdr c1 es2 = Some (cs, enc2)" and fl: "drop (rd_off rd) fl = enc1 @ enc2 @ rest"
    using ld unfolding es'(1) loading_def encode_log_append by (auto simp: bind_eq_Some_conv)
  have len1: "length enc1 = q * ?fs" using length_encode_log[OF e1] es'(2) by simp
  have "length fl - rd_off rd = length (enc1 @ enc2 @ rest)" using fl by (metis length_drop)
  then have "slice_range fl (rd_off rd) (rd_off rd + chunk_size (unat (wh_page_size hdr)) (length fl) (rd_off rd)) = enc1 @ []"
    using len1 by (simp add: slice_range_def rs fl)
  moreover have "enc1 @ [] \<noteq> []" using len1 q fs by auto
  ultimately obtain st1 sh1 where sub: "submit_one_chunk big fl rd sh =
      (let rd1 = rd\<lparr>rd_state := st1, rd_off := rd_off rd + length enc1\<rparr>
       in Inr (if [] \<noteq> ([] :: bytes) \<or> rd_off rd1 \<ge> length fl then finalize_loading rd1 sh1 else (rd1, sh1)))"
    and sc1: "scanned big hdr (wh_checksum_1 hdr, wh_checksum_2 hdr) (es @ es1) sh0 st1 sh1"
    using loading_chunk[OF ld[unfolded es'(1)] e1 log_ends_Nil] by blast
  define rd1 where "rd1 = rd\<lparr>rd_state := st1, rd_off := rd_off rd + length enc1\<rparr>"
  have adv: "rd_off rd < rd_off rd1" using len1 q fs by (simp add: rd1_def)
  have drop1: "drop (rd_off rd1) fl = enc2 @ rest"
  proof -
    have "drop (rd_off rd1) fl = drop (length enc1) (drop (rd_off rd) fl)" by (simp add: rd1_def add.commute)
    then show ?thesis using fl by simp
  qed
  have notend: "rd_off rd < length fl" using fl len1 q fs by (cases "rd_off rd < length fl") auto
  then have le1: "rd_off rd1 \<le> length fl"
    using \<open>length fl - rd_off rd = _\<close> by (simp add: rd1_def)
  have nd: "\<not> rd_done rd" using ld by (simp add: loading_def)
  show ?thesis
  proof (cases "rd_off rd1 \<ge> length fl")
    case True
    then have "es2 = []" using drop1 length_encode_log[OF e2] fs by auto
    moreover have "recovered big hdr (es @ es1) (snd (finalize_loading rd1 sh1))"
      using finalize_recovered[of big hdr "es @ es1" sh0 rd1 sh1] sc1 ld by (simp add: rd1_def loading_def)
    moreover have "build_loop big fl rd sh = build_loop big fl (fst (finalize_loading rd1 sh1)) (snd (finalize_loading rd1 sh1))"
      using True adv notend nd finalize_done(2)[of rd1 sh1]
      by (subst build_loop.simps) (auto simp: sub Let_def rd1_def[symmetric] split: prod.split)
    ultimately show ?thesis using finalize_done(1)[of rd1 sh1] es'(1) by auto
  next
    case False
    then have "build_loop big fl rd sh = build_loop big fl rd1 sh1"
      using adv notend nd by (subst build_loop.simps) (simp add: sub Let_def rd1_def[symmetric])
    moreover have "st_cumulative_checksum st1 = c1"
    proof -
      have "log_checksum big hdr (wh_checksum_1 hdr, wh_checksum_2 hdr) (es @ es1) = Some c1"
        using log_checksum_append[OF _ e1] ld by (simp add: loading_def scanned_def)
      then show ?thesis using sc1 by (simp add: scanned_def)
    qed
    then have "loading big hdr sh0 fl cs rest (es @ es1) es2 rd1 sh1"
      using ld sc1 e2 drop1 le1 es'(1) by (simp add: loading_def rd1_def)
    ultimately show ?thesis unfolding es1_def es2_def by blast
  qed
qed

text \<open>The chunk that reaches the end of the entries: the load is finalized.\<close>

lemma loading_last_chunk:
  assumes ld: "loading big hdr sh0 fl cs rest es es' rd sh" and q: "length es' < q"
    and notend: "rd_off rd < length fl"
    and rs: "chunk_size (unat (wh_page_size hdr)) (length fl) (rd_off rd) =
        min (q * (WAL_FRAME_HEADER_SIZE + unat (wh_page_size hdr))) (length fl - rd_off rd)"
  shows "\<exists>sh'. build_loop big fl rd sh = Inr sh' \<and> recovered big hdr (es @ es') sh'"
proof -
  let ?fs = "WAL_FRAME_HEADER_SIZE + unat (wh_page_size hdr)"
  have fs: "0 < ?fs" by (simp add: WAL_FRAME_HEADER_SIZE_def)
  obtain enc where e: "encode_log big hdr (st_cumulative_checksum (rd_state rd)) es' = Some (cs, enc)"
    and fl: "drop (rd_off rd) fl = enc @ rest" using ld by (auto simp: loading_def)
  have lenR: "length fl - rd_off rd = length (enc @ rest)" using fl by (metis length_drop)
  have "length enc + ?fs \<le> q * ?fs"
    using q mult_le_mono1[of "Suc (length es')" q ?fs] length_encode_log[OF e] by simp
  then obtain t where t: "min (q * ?fs) (length (enc @ rest)) = length enc + t" "length rest \<le> t \<or> ?fs \<le> t"
    by (intro that[of "min (q * ?fs) (length (enc @ rest)) - length enc"]) (auto simp: min_def)
  have chunk: "slice_range fl (rd_off rd)
      (rd_off rd + chunk_size (unat (wh_page_size hdr)) (length fl) (rd_off rd)) = enc @ take t rest"
    using t(1) by (simp add: slice_range_def rs fl lenR)
  have ends: "log_ends big hdr cs (take t rest)"
    using ld t(2) by (intro log_ends_take) (auto simp: loading_def)
  have ne: "enc @ take t rest \<noteq> []" using t(2) lenR notend fs by auto
  have ld': "loading big hdr sh0 fl cs rest es (es' @ []) rd sh" using ld by simp
  obtain st1 sh1 where sub: "submit_one_chunk big fl rd sh =
      (let rd1 = rd\<lparr>rd_state := st1, rd_off := rd_off rd + length enc\<rparr>
       in Inr (if take t rest \<noteq> [] \<or> rd_off rd1 \<ge> length fl then finalize_loading rd1 sh1 else (rd1, sh1)))"
    and sc1: "scanned big hdr (wh_checksum_1 hdr, wh_checksum_2 hdr) (es @ es') sh0 st1 sh1"
    using loading_chunk[OF ld' e ends ne chunk] by blast
  define rd1 where "rd1 = rd\<lparr>rd_state := st1, rd_off := rd_off rd + length enc\<rparr>"
  have "take t rest \<noteq> [] \<or> rd_off rd1 \<ge> length fl" using t(2) lenR fs by (auto simp: rd1_def)
  then have sub': "submit_one_chunk big fl rd sh = Inr (finalize_loading rd1 sh1)"
    using sub by (simp add: Let_def rd1_def)
  have nd: "\<not> rd_done rd" using ld by (simp add: loading_def)
  have "build_loop big fl rd sh = Inr (snd (finalize_loading rd1 sh1))"
    using notend nd sub' finalize_again[of rd1 sh1] finalize_done[of rd1 sh1] build_loop_done
    by (subst build_loop.simps) (auto split: prod.split)
  then show ?thesis
    using finalize_recovered[of big hdr "es @ es'" sh0 rd1 sh1] sc1 ld by (simp add: rd1_def loading_def)
qed

lemma build_loop_log:
  "loading big hdr sh0 fl cs rest es es' rd sh \<Longrightarrow>
     \<exists>sh'. build_loop big fl rd sh = Inr sh' \<and> recovered big hdr (es @ es') sh'"
proof (induction es' arbitrary: es rd sh rule: length_induct)
  case (1 es')
  note ld = "1.prems"
  show ?case
  proof (cases "length fl \<le> rd_off rd")
    case True
    then have "es' = []"
      using ld by (auto simp: loading_def dest!: length_encode_log)
    moreover have "build_loop big fl rd sh = Inr (snd (finalize_loading rd sh))"
      using True ld by (subst build_loop.simps) (simp add: loading_def)
    ultimately show ?thesis using finalize_recovered[of big hdr es sh0 rd sh] ld by (simp add: loading_def)
  next
    case False
    obtain q where q: "q \<ge> 1" and rs: "chunk_size (unat (wh_page_size hdr)) (length fl) (rd_off rd) =
        min (q * (WAL_FRAME_HEADER_SIZE + unat (wh_page_size hdr))) (length fl - rd_off rd)"
      using chunk_size_eq by blast
    show ?thesis
    proof (cases "q \<le> length es'")
      case True
      then obtain rd1 sh1 where step: "build_loop big fl rd sh = build_loop big fl rd1 sh1"
        and next1: "loading big hdr sh0 fl cs rest (es @ take q es') (drop q es') rd1 sh1
          \<or> rd_done rd1 \<and> recovered big hdr (es @ es') sh1"
        using loading_full_chunk[OF ld q _ rs] by blast
      from next1 show ?thesis
      proof
        assume "loading big hdr sh0 fl cs rest (es @ take q es') (drop q es') rd1 sh1"
        moreover have "length (drop q es') < length es'" using q True by simp
        ultimately show ?thesis using "1.IH" step by fastforce
      qed (use step build_loop_done in auto)
    next
      case False
      with loading_last_chunk[OF ld _ _ rs] \<open>\<not> length fl \<le> rd_off rd\<close> show ?thesis by simp
    qed
  qed
qed

section \<open>Properties\<close>

text \<open>A header that \<open>prepare_wal_header\<close> sealed for this target, with a valid page size.\<close>

definition header_ready :: "bool \<Rightarrow> wal_header \<Rightarrow> bool" where
  "header_ready big hdr \<longleftrightarrow>
     wh_magic hdr = (if big then WAL_MAGIC_BE else WAL_MAGIC_LE)
     \<and> page_size_new (wh_page_size hdr) \<noteq> None
     \<and> (\<exists>h. wh_magic h = wh_magic hdr \<and> wal_header_seal big h = Some hdr)"

lemma parse_wal_header_image [simp]: "parse_wal_header (wal_header_image h) = h"
  by (simp add: parse_wal_header_def wal_header_image_def)

lemma header_ready_page_size:
  assumes "header_ready big hdr"
  shows "unat (wh_page_size hdr) mod 8 = 0 \<and> 0 < unat (wh_page_size hdr)"
proof -
  obtain k where k: "9 \<le> k" "k \<le> 16" "wh_page_size hdr = 2 ^ k"
    using assms page_size_new_iff[of "wh_page_size hdr"] by (auto simp: header_ready_def)
  have "wh_page_size hdr = word_of_nat (2 ^ k)" using k(3) by simp
  moreover have "(2 :: nat) ^ k < 2 ^ 32" using k(2) by (intro power_strict_increasing) simp_all
  ultimately have "unat (wh_page_size hdr) = 2 ^ k" by (simp only: unat_of_nat) simp
  moreover have "(2 :: nat) ^ k = 8 * 2 ^ (k - 3)"
    using k(1) power_add[of "2 :: nat" 3 "k - 3"] by simp
  ultimately show ?thesis by simp
qed

lemma header_read_ready:
  assumes "header_ready big hdr"
  shows "\<exists>rd. handle_header_read big (wal_header_image hdr) streaming_reader_new sh =
           Some (rd, sh\<lparr>ws_wal_header := hdr\<rparr>)
         \<and> rd_off rd = WAL_HEADER_SIZE \<and> rd_page rd = unat (wh_page_size hdr) \<and> \<not> rd_done rd
         \<and> (ws_frame_cache sh = [] \<longrightarrow>
              scanned big hdr (wh_checksum_1 hdr, wh_checksum_2 hdr) [] (sh\<lparr>ws_wal_header := hdr\<rparr>)
                (rd_state rd) (sh\<lparr>ws_wal_header := hdr\<rparr>))
         \<and> st_cumulative_checksum (rd_state rd) = (wh_checksum_1 hdr, wh_checksum_2 hdr)
         \<and> st_use_native_endian (rd_state rd) = (big = (wh_magic hdr AND 1 \<noteq> 0))"
proof -
  have native: "(big = (wh_magic hdr AND 1 \<noteq> 0)) = True"
    using assms magic_parity by (cases big) (simp_all add: header_ready_def)
  obtain h where h: "wh_magic h = wh_magic hdr" "wal_header_seal big h = Some hdr"
    using assms by (auto simp: header_ready_def)
  have "checksum_wal big (slice_range (wal_header_image hdr) 0 24) (0, 0) True =
          Some (wh_checksum_1 hdr, wh_checksum_2 hdr)"
    using sealed_header_checksum[OF h(2)] assms h(1) by (simp add: header_ready_def)
  moreover have "\<exists>raw. page_size_new (wh_page_size hdr) = Some raw"
    using assms by (auto simp: header_ready_def)
  ultimately show ?thesis
    unfolding handle_header_read_def Let_def parse_wal_header_image native
    by (auto simp: WAL_HEADER_SIZE_def streaming_reader_new_def scanned_def log_checksum_def native)
qed

lemma build_encoded_log:
  assumes "header_ready big hdr" "\<forall>e \<in> set es. entry_ok hdr e"
    and "encode_log big hdr (wh_checksum_1 hdr, wh_checksum_2 hdr) es = Some (cs, enc)"
    and "log_ends big hdr cs rest"
  shows "\<exists>sh. build_shared_wal big (wal_header_image hdr @ enc @ rest) = Inr sh \<and> recovered big hdr es sh"
proof -
  define fl where "fl = wal_header_image hdr @ enc @ rest"
  define sh0 where "sh0 = (wal_shared_init big)\<lparr>ws_wal_header := hdr\<rparr>"
  obtain rd where rd: "handle_header_read big (wal_header_image hdr) streaming_reader_new (wal_shared_init big) = Some (rd, sh0)"
    "rd_off rd = WAL_HEADER_SIZE" "rd_page rd = unat (wh_page_size hdr)" "\<not> rd_done rd"
    "scanned big hdr (wh_checksum_1 hdr, wh_checksum_2 hdr) [] sh0 (rd_state rd) sh0"
    "st_cumulative_checksum (rd_state rd) = (wh_checksum_1 hdr, wh_checksum_2 hdr)"
    "st_use_native_endian (rd_state rd) = (big = (wh_magic hdr AND 1 \<noteq> 0))"
    using header_read_ready[OF assms(1), of "wal_shared_init big"] unfolding sh0_def
    by (auto simp: wal_shared_init_def)
  have "build_shared_wal big fl = build_loop big fl rd sh0"
    using rd(1) by (simp add: build_shared_wal_def fl_def WAL_HEADER_SIZE_def)
  moreover have "\<exists>sh. build_loop big fl rd sh0 = Inr sh \<and> recovered big hdr ([] @ es) sh"
    using assms rd header_ready_page_size[OF assms(1)]
    by (intro build_loop_log[where cs = cs and rest = rest])
       (auto simp: loading_def fl_def WAL_HEADER_SIZE_def sh0_def wal_shared_init_def)
  ultimately show ?thesis by (simp add: fl_def)
qed

text \<open>A sealed header and an encoded entry exist: what the witnesses below instantiate.\<close>

lemma sealed_exists:
  "\<exists>hdr. header_ready False hdr \<and> wh_page_size hdr = 512"
proof -
  let ?h = "(wal_header_new False)\<lparr>wh_page_size := 512\<rparr>"
  have "length (slice_range (wal_header_as_bytes False ?h) 0 (WAL_HEADER_SIZE - 8)) mod 8 = 0"
    by (simp add: wal_header_as_bytes_def WAL_HEADER_SIZE_def slice_range_def)
  from checksum_wal_Some[OF this] obtain c where
    c: "checksum_wal False (slice_range (wal_header_as_bytes False ?h) 0 (WAL_HEADER_SIZE - 8)) (0, 0)
      (wh_magic ?h AND 1 \<noteq> 0) = Some c" by blast
  define hdr where "hdr = ?h\<lparr>wh_checksum_1 := fst c, wh_checksum_2 := snd c\<rparr>"
  have seal: "wal_header_seal False ?h = Some hdr"
    unfolding wal_header_seal_def c hdr_def by (simp add: case_prod_beta)
  have "page_size_new 512 \<noteq> None" by code_simp
  moreover have "\<exists>h. wh_magic h = wh_magic hdr \<and> wal_header_seal False h = Some hdr"
    using seal by (intro exI[of _ ?h]) (simp add: hdr_def)
  ultimately have "header_ready False hdr"
    unfolding header_ready_def by (simp add: hdr_def wal_header_new_def)
  then show ?thesis by (intro exI[of _ hdr]) (simp add: hdr_def)
qed

lemma encode_exists:
  assumes "unat (wh_page_size hdr) mod 8 = 0" "\<forall>e \<in> set es. length (snd (snd e)) = unat (wh_page_size hdr)"
  shows "\<exists>cs' enc. encode_log big hdr cs es = Some (cs', enc)"
  using assms(2)
proof (induction es arbitrary: cs)
  case Nil
  show ?case by simp
next
  case (Cons e es)
  obtain page_no db_size page where e: "e = (page_no, db_size, page)" by (cases e) auto
  obtain cs1 frame where "prepare_wal_frame big hdr cs (wh_page_size hdr) page_no db_size page = Some (cs1, frame)"
    using assms(1) Cons.prems by (simp add: prepare_wal_frame_def checksum_wal_def e Let_def)
  moreover obtain cs' enc where "encode_log big hdr cs1 es = Some (cs', enc)"
    using Cons.IH[of cs1] Cons.prems by auto
  ultimately show ?case by (simp add: e)
qed

text \<open>C11: Recovery. A log that starts with the image of a sealed header, continues with frames
  chained by \<open>prepare_wal_frame\<close> and is followed by anything the reader does not accept as the
  next frame is loaded, in chunks of any alignment the reader uses, to the state of its last
  commit frame: that frame number, its checksum, no backfill, and for every page exactly its
  frames up to the commit, in ascending order.\<close>

theorem recovery_of_log:
  assumes "header_ready big hdr" "\<forall>e \<in> set es. entry_ok hdr e"
    and "encode_log big hdr (wh_checksum_1 hdr, wh_checksum_2 hdr) es = Some (cs, enc)"
    and "log_ends big hdr cs rest"
  shows "\<exists>sh. build_shared_wal big (wal_header_image hdr @ enc @ rest) = Inr sh \<and> recovered big hdr es sh"
  by (rule build_encoded_log[OF assms])

theorem recovery_of_log_witness:
  "\<exists>hdr cs enc sh. header_ready False hdr
     \<and> encode_log False hdr (wh_checksum_1 hdr, wh_checksum_2 hdr)
         [(7, 0, replicate 512 1), (9, 2, replicate 512 3), (7, 0, replicate 512 4)] = Some (cs, enc)
     \<and> build_shared_wal False (wal_header_image hdr @ enc @ [0, 0]) = Inr sh
     \<and> ws_max_frame sh = 2 \<and> fc_get (ws_frame_cache sh) 7 = [1]"
proof -
  let ?es = "[(7, 0, replicate 512 1), (9, 2, replicate 512 3), (7, 0, replicate 512 4)] :: log_entry list"
  obtain hdr where hdr: "header_ready False hdr" "wh_page_size hdr = 512" using sealed_exists by blast
  obtain cs enc where enc: "encode_log False hdr (wh_checksum_1 hdr, wh_checksum_2 hdr) ?es = Some (cs, enc)"
    using encode_exists[of hdr ?es False] hdr(2) by fastforce
  have ok: "\<forall>e \<in> set ?es. entry_ok hdr e" using hdr(2) by (simp add: entry_ok_def)
  have ends: "log_ends False hdr cs [0, 0]" by (simp add: log_ends_def WAL_FRAME_HEADER_SIZE_def)
  obtain sh where sh: "build_shared_wal False (wal_header_image hdr @ enc @ [0, 0]) = Inr sh" "recovered False hdr ?es sh"
    using recovery_of_log[OF hdr(1) ok enc ends] by blast
  have "last_commit ?es = 2" "page_frames 7 (take 2 ?es) = [1]" by (simp_all add: last_commit_def page_frames_def upt_rec)
  then show ?thesis using hdr(1) enc sh by (auto simp: recovered_def Let_def)
qed

lemma build_truncated_log:
  assumes "header_ready big hdr" "\<forall>e \<in> set es. entry_ok hdr e"
    and "encode_log big hdr (wh_checksum_1 hdr, wh_checksum_2 hdr) es = Some (cs, enc)"
    and "WAL_HEADER_SIZE \<le> k"
  defines "m \<equiv> (k - WAL_HEADER_SIZE) div (WAL_FRAME_HEADER_SIZE + unat (wh_page_size hdr))"
  shows "\<exists>sh. build_shared_wal big (take k (wal_header_image hdr @ enc)) = Inr sh
           \<and> recovered big hdr (take m es) sh"
proof -
  let ?fs = "WAL_FRAME_HEADER_SIZE + unat (wh_page_size hdr)"
  have fs: "0 < ?fs" by (simp add: WAL_FRAME_HEADER_SIZE_def)
  obtain c1 enc1 enc2 where e1: "encode_log big hdr (wh_checksum_1 hdr, wh_checksum_2 hdr) (take m es) = Some (c1, enc1)"
    and e2: "encode_log big hdr c1 (drop m es) = Some (cs, enc2)" and enc: "enc = enc1 @ enc2"
    using assms(3) encode_log_append[of big hdr _ "take m es" "drop m es"] by (auto simp: bind_eq_Some_conv)
  define t where "t = k - WAL_HEADER_SIZE - length enc1"
  have len1: "length enc1 = min (length es) m * ?fs" using length_encode_log[OF e1] by simp
  have "min (length es) m * ?fs \<le> m * ?fs" by (rule mult_le_mono1) simp
  also have "\<dots> \<le> k - WAL_HEADER_SIZE" unfolding m_def by (rule div_times_less_eq_dividend)
  finally have le: "length enc1 \<le> k - WAL_HEADER_SIZE" by (simp only: len1)
  have "take k (wal_header_image hdr @ enc) = wal_header_image hdr @ enc1 @ take t enc2"
    using assms(4) le by (simp add: WAL_HEADER_SIZE_def enc t_def)
  moreover have "log_ends big hdr c1 (take t enc2)"
  proof (cases "length es \<le> m")
    case True
    then have "enc2 = []" using length_encode_log[OF e2] by simp
    then show ?thesis by (simp add: log_ends_Nil)
  next
    case False
    then have "t = (k - WAL_HEADER_SIZE) mod ?fs"
      by (simp add: t_def len1 m_def minus_div_mult_eq_mod)
    then have "t < ?fs" using fs by simp
    then show ?thesis by (simp add: log_ends_def min_less_iff_disj)
  qed
  moreover have "\<forall>e \<in> set (take m es). entry_ok hdr e" using assms(2) by (meson in_set_takeD)
  ultimately show ?thesis using build_encoded_log[OF assms(1) _ e1] by simp
qed

text \<open>C4: Crash safety. After a crash that cut the log at any byte behind its header, recovery
  succeeds and gives the state of the last commit frame among the frames that are complete: a
  transaction whose commit frame was not written in full has no effect.\<close>

theorem recovery_after_crash:
  assumes "header_ready big hdr" "\<forall>e \<in> set es. entry_ok hdr e"
    and "encode_log big hdr (wh_checksum_1 hdr, wh_checksum_2 hdr) es = Some (cs, enc)"
    and "WAL_HEADER_SIZE \<le> k"
  shows "\<exists>sh. build_shared_wal big (take k (wal_header_image hdr @ enc)) = Inr sh
           \<and> recovered big hdr (take ((k - WAL_HEADER_SIZE) div (WAL_FRAME_HEADER_SIZE + unat (wh_page_size hdr))) es) sh"
  by (rule build_truncated_log[OF assms])

theorem recovery_after_crash_witness:
  "\<exists>hdr cs enc sh. header_ready False hdr
     \<and> encode_log False hdr (wh_checksum_1 hdr, wh_checksum_2 hdr)
         [(9, 2, replicate 512 3), (7, 5, replicate 512 4)] = Some (cs, enc)
     \<and> build_shared_wal False (take 1000 (wal_header_image hdr @ enc)) = Inr sh \<and> ws_max_frame sh = 1"
proof -
  let ?es = "[(9, 2, replicate 512 3), (7, 5, replicate 512 4)] :: log_entry list"
  obtain hdr where hdr: "header_ready False hdr" "wh_page_size hdr = 512" using sealed_exists by blast
  obtain cs enc where enc: "encode_log False hdr (wh_checksum_1 hdr, wh_checksum_2 hdr) ?es = Some (cs, enc)"
    using encode_exists[of hdr ?es False] hdr(2) by fastforce
  have ok: "\<forall>e \<in> set ?es. entry_ok hdr e" using hdr(2) by (simp add: entry_ok_def)
  have "\<exists>sh. build_shared_wal False (take 1000 (wal_header_image hdr @ enc)) = Inr sh
      \<and> recovered False hdr (take ((1000 - WAL_HEADER_SIZE) div (WAL_FRAME_HEADER_SIZE + unat (wh_page_size hdr))) ?es) sh"
    by (rule recovery_after_crash[OF hdr(1) ok enc]) (simp add: WAL_HEADER_SIZE_def)
  moreover have "last_commit (take 1 ?es) = 1" by (simp add: last_commit_def upt_rec)
  ultimately show ?thesis using hdr enc
    by (auto simp: recovered_def Let_def WAL_HEADER_SIZE_def WAL_FRAME_HEADER_SIZE_def)
qed

end
