(* ===== verification/Wal_System.thy ===== *)
theory Wal_System
  imports Wal_File Wal_Recovery
begin

text \<open>
  Several connections over one log: every connection runs the operations of \<open>Wal_File\<close>, the
  operations of different connections interleave, and the checkpoint of a connection writes to the
  database file page by page. Beside the concrete state the system carries an abstract one, the
  committed database and the snapshot of every reader, which a commit and the begin of a read
  transaction update in one step.

  A connection is used by one thread, so it runs one operation at a time (\<open>conn_idle\<close>). An
  operation is one step, except the begin of a read transaction (the load of the shared snapshot
  and the acquisition of a read mark are two) and the checkpoint (the load of its bounds, its
  states and the publication of its backfill are steps, and so is every page it writes). Pages reach the log through commits only; the frames
  \<open>append_frames_vectored\<close> writes for spilled pages, savepoints and vacuum are not part of the
  system.
\<close>

section \<open>State\<close>

record wal_conn =
  cn_wal :: wal_file
  cn_loaded :: "wal_snapshot option"
  cn_ckpt :: "nat option"
  cn_mode :: checkpoint_mode
  cn_written :: "nat list"
  cn_result :: "checkpoint_result option"
  cn_published :: bool
  cn_snap :: "nat \<Rightarrow> bytes"

record wal_sys =
  sy_shared :: wal_shared
  sy_conns :: "wal_conn list"
  sy_log :: "nat \<Rightarrow> nat \<times> bytes"
  sy_db :: "nat \<Rightarrow> bytes"
  sy_last :: nat
  sy_committed :: "nat \<Rightarrow> bytes"

text \<open>What a connection reads: the frame \<open>find_frame\<close> names, or the page in the database file.\<close>

definition conn_view :: "wal_sys \<Rightarrow> nat \<Rightarrow> nat \<Rightarrow> bytes option" where
  "conn_view s i page =
     (case wal_find_frame False (sy_shared s) (cn_wal (sy_conns s ! i)) page None of
        None \<Rightarrow> None
      | Some (Some frame) \<Rightarrow> Some (snd (sy_log s frame))
      | Some None \<Rightarrow> Some (sy_db s page))"

definition conn_idle :: "wal_conn \<Rightarrow> bool" where
  "conn_idle c \<longleftrightarrow> cn_loaded c = None \<and> oc_state (wf_ongoing (cn_wal c)) = CkStart \<and> cn_result c = None \<and> cn_ckpt c = None"

definition sys_put :: "wal_sys \<Rightarrow> nat \<Rightarrow> wal_shared \<Rightarrow> wal_conn \<Rightarrow> wal_sys" where
  "sys_put s i sh c = s\<lparr>sy_shared := sh, sy_conns := (sy_conns s)[i := c]\<rparr>"

section \<open>Transactions\<close>

definition act_read_load :: "wal_sys \<Rightarrow> nat \<Rightarrow> wal_sys option" where
  "act_read_load s i =
     (let c = sy_conns s ! i
      in if \<not> conn_idle c then None
         else do {
           (loaded, sh) \<leftarrow> try_begin_read_load (sy_shared s) (cn_wal c);
           Some (sys_put s i sh (c\<lparr>cn_loaded := loaded\<rparr>))
         })"

definition act_read_lock :: "wal_sys \<Rightarrow> nat \<Rightarrow> wal_sys option" where
  "act_read_lock s i =
     (let c = sy_conns s ! i
      in do {
        snapshot \<leftarrow> cn_loaded c;
        (r, sh, w) \<leftarrow> try_begin_read_lock (sy_shared s) (cn_wal c) snapshot;
        Some (sys_put s i sh (c\<lparr>cn_loaded := None, cn_wal := w,
          cn_snap := (if r = BeginRetry then cn_snap c else sy_committed s)\<rparr>))
      })"

text \<open>The pager ends the write transaction first.\<close>

definition act_read_end :: "wal_sys \<Rightarrow> nat \<Rightarrow> wal_sys option" where
  "act_read_end s i =
     (let c = sy_conns s ! i
      in if \<not> conn_idle c \<or> wf_write_lock_held (cn_wal c) then None
         else do {
           (sh, w) \<leftarrow> wal_end_read_tx (sy_shared s) (cn_wal c);
           Some (sys_put s i sh (c\<lparr>cn_wal := w\<rparr>))
         })"

definition act_write_begin :: "wal_sys \<Rightarrow> nat \<Rightarrow> u32 \<Rightarrow> wal_sys option" where
  "act_write_begin s i rnd =
     (let c = sy_conns s ! i
      in if \<not> conn_idle c then None
         else do {
           (r, sh, w) \<leftarrow> wal_begin_write_tx (sy_shared s) (cn_wal c) rnd;
           Some (sys_put s i sh (c\<lparr>cn_wal := w\<rparr>))
         })"

text \<open>The contents of the log after the frames of a commit have been written.\<close>

fun log_write :: "(nat \<Rightarrow> nat \<times> bytes) \<Rightarrow> (nat \<times> nat \<times> (u32 \<times> u32)) list \<Rightarrow> (nat \<times> bytes) list \<Rightarrow> nat \<Rightarrow> nat \<times> bytes" where
  "log_write log ((page_id, frame_id, checksum) # metadata) (page # pages) =
     log_write (log(frame_id := page)) metadata pages"
| "log_write log _ _ = log"

text \<open>The database after a commit: every written page has its new content.\<close>

definition db_write :: "(nat \<Rightarrow> bytes) \<Rightarrow> (nat \<times> bytes) list \<Rightarrow> nat \<Rightarrow> bytes" where
  "db_write db pages = (\<lambda>p. case map_of pages p of Some data \<Rightarrow> data | None \<Rightarrow> db p)"

record commit_input =
  ci_rnd1 :: u32
  ci_rnd2 :: u32
  ci_page_size :: u16
  ci_file_len :: "nat option"
  ci_io_ok :: bool
  ci_db_size :: u32
  ci_pages :: "(nat \<times> bytes) list"

text \<open>The dirty pages of a transaction are a set of page numbers.\<close>

definition act_write_commit :: "bool \<Rightarrow> wal_sys \<Rightarrow> nat \<Rightarrow> commit_input \<Rightarrow> wal_sys option" where
  "act_write_commit big s i ci =
     (let c = sy_conns s ! i
      in if \<not> conn_idle c \<or> \<not> wf_write_lock_held (cn_wal c) \<or> \<not> distinct (map fst (ci_pages ci)) then None
         else do {
           (r, sh, w) \<leftarrow> wal_commit big (sy_shared s) (cn_wal c) (ci_rnd1 ci) (ci_rnd2 ci) (ci_page_size ci)
             (ci_file_len ci) (ci_io_ok ci) (ci_db_size ci) (ci_pages ci);
           case r of
             Inl e \<Rightarrow> Some (sys_put s i sh (c\<lparr>cn_wal := w\<rparr>))
           | Inr prepared \<Rightarrow>
               (let committed = db_write (sy_committed s) (ci_pages ci)
                in Some ((sys_put s i sh (c\<lparr>cn_wal := w, cn_snap := committed\<rparr>))\<lparr>
                     sy_log := log_write (sy_log s) (concat (map pf_metadata prepared)) (ci_pages ci),
                     sy_committed := committed\<rparr>))
         })"

definition act_write_rollback :: "wal_sys \<Rightarrow> nat \<Rightarrow> wal_sys option" where
  "act_write_rollback s i =
     (let c = sy_conns s ! i
      in if \<not> conn_idle c \<or> \<not> wf_write_lock_held (cn_wal c) then None
         else (case wal_rollback (sy_shared s) (cn_wal c) None of
                 (sh, w) \<Rightarrow> Some (sys_put s i sh (c\<lparr>cn_wal := w\<rparr>))))"

definition act_write_end :: "wal_sys \<Rightarrow> nat \<Rightarrow> wal_sys option" where
  "act_write_end s i =
     (let c = sy_conns s ! i
      in if \<not> conn_idle c then None
         else do {
           (sh, w) \<leftarrow> wal_end_write_tx (sy_shared s) (cn_wal c);
           Some (sys_put s i sh (c\<lparr>cn_wal := w\<rparr>))
         })"

section \<open>Checkpoints\<close>

text \<open>The start of a checkpoint: the load of the bounds of the log, and the rest under the locks.
  \<open>sy_last\<close> remembers whose checkpoint took the locks last.\<close>

definition act_ck_load :: "wal_sys \<Rightarrow> nat \<Rightarrow> checkpoint_mode \<Rightarrow> wal_sys option" where
  "act_ck_load s i mode =
     (let c = sy_conns s ! i
      in if \<not> conn_idle c then None
         else do {
           r \<leftarrow> checkpoint_load (sy_shared s) mode Acquire;
           Some (sys_put s i (sy_shared s)
             (case r of
                Inl result \<Rightarrow> c\<lparr>cn_mode := mode, cn_result := Some result, cn_published := False\<rparr>
              | Inr nbackfills \<Rightarrow> c\<lparr>cn_mode := mode, cn_ckpt := Some nbackfills\<rparr>))
         })"

definition act_ck_start :: "wal_sys \<Rightarrow> nat \<Rightarrow> wal_sys option" where
  "act_ck_start s i =
     (let c = (sy_conns s ! i)\<lparr>cn_ckpt := None\<rparr>
      in do {
        nbackfills \<leftarrow> cn_ckpt (sy_conns s ! i);
        if \<not> conn_idle c then None
        else do {
          (r, sh, w) \<leftarrow> checkpoint_start (sy_shared s) (cn_wal c) (cn_mode c) Acquire nbackfills;
          case r of
            Inl e \<Rightarrow>
              do { (sh1, w1) \<leftarrow> checkpoint_failed sh w; Some (sys_put s i sh1 (c\<lparr>cn_wal := w1\<rparr>)) }
          | Inr _ \<Rightarrow>
              Some ((sys_put s i sh (c\<lparr>cn_wal := w, cn_written := [], cn_published := False\<rparr>))\<lparr>sy_last := i\<rparr>)
        }
      })"

text \<open>A page of the checkpoint reaches the database file: the pages are read from the log or from
  the page cache and written in batches, whose writes complete in any order.\<close>

definition act_ck_write :: "wal_sys \<Rightarrow> nat \<Rightarrow> nat \<Rightarrow> wal_sys option" where
  "act_ck_write s i page =
     (let c = sy_conns s ! i; oc = wf_ongoing (cn_wal c)
      in if oc_state oc \<noteq> CkProcessing then None
         else do {
           frame \<leftarrow> map_of (oc_pages oc) page;
           Some ((sys_put s i (sy_shared s) (c\<lparr>cn_written := page # cn_written c\<rparr>))\<lparr>
             sy_db := (sy_db s)(page := snd (sy_log s frame))\<rparr>)
         })"

definition act_ck_written :: "wal_sys \<Rightarrow> nat \<Rightarrow> wal_sys option" where
  "act_ck_written s i =
     (let c = sy_conns s ! i; w = cn_wal c; oc = wf_ongoing w
      in if oc_state oc \<noteq> CkProcessing \<or> \<not> list_all (\<lambda>(p, f). p \<in> set (cn_written c)) (oc_pages oc) then None
         else Some (sys_put s i (sy_shared s) (c\<lparr>cn_wal := w\<lparr>wf_ongoing :=
                oc\<lparr>oc_current_page := length (oc_pages oc), oc_state := CkDetermineResult\<rparr>\<rparr>\<rparr>)))"

text \<open>An I/O error while the pages are copied.\<close>

definition act_ck_fail :: "wal_sys \<Rightarrow> nat \<Rightarrow> wal_sys option" where
  "act_ck_fail s i =
     (let c = sy_conns s ! i
      in if oc_state (wf_ongoing (cn_wal c)) \<noteq> CkProcessing then None
         else do { (sh, w) \<leftarrow> checkpoint_failed (sy_shared s) (cn_wal c); Some (sys_put s i sh (c\<lparr>cn_wal := w\<rparr>)) })"

definition act_ck_result :: "wal_sys \<Rightarrow> nat \<Rightarrow> u32 \<Rightarrow> wal_sys option" where
  "act_ck_result s i rnd =
     (let c = sy_conns s ! i
      in if oc_state (wf_ongoing (cn_wal c)) \<noteq> CkDetermineResult then None
         else do {
           (r, sh, w) \<leftarrow> checkpoint_determine_result (sy_shared s) (cn_wal c) (cn_mode c) rnd;
           case r of
             Inl e \<Rightarrow>
               do { (sh1, w1) \<leftarrow> checkpoint_failed sh w; Some (sys_put s i sh1 (c\<lparr>cn_wal := w1\<rparr>)) }
           | Inr _ \<Rightarrow> Some (sys_put s i sh (c\<lparr>cn_wal := w\<rparr>))
         })"

definition act_ck_finalize :: "wal_sys \<Rightarrow> nat \<Rightarrow> wal_sys option" where
  "act_ck_finalize s i =
     (let c = sy_conns s ! i
      in do {
        (result, sh, w) \<leftarrow> checkpoint_finalize (sy_shared s) (cn_wal c) (cn_mode c);
        Some (sys_put s i sh (c\<lparr>cn_wal := w, cn_result := Some result\<rparr>))
      })"

text \<open>What the pager does once the database file has been synced: the backfill of a passive or full
  checkpoint is published, after the identity of the database file has been read back.\<close>

datatype checkpoint_phase = ReadDbIdentity nat | TruncateWalFile | FinalizePhase

definition next_post_sync_checkpoint_phase :: "checkpoint_mode \<Rightarrow> checkpoint_result \<Rightarrow> checkpoint_phase" where
  "next_post_sync_checkpoint_phase mode result =
     (if cr_checkpoint_backfilled result > 0 \<and> \<not> (case mode of Restart \<Rightarrow> True | Truncate ub \<Rightarrow> True | _ \<Rightarrow> False)
      then ReadDbIdentity (cr_total_backfilled result)
      else if (case mode of Truncate ub \<Rightarrow> True | _ \<Rightarrow> False) then TruncateWalFile
      else FinalizePhase)"

text \<open>\<open>PublishBackfill\<close>, which a checkpoint reaches at most once. Nothing holds it back: the locks of a
  checkpoint that left frames behind were dropped in \<open>Finalize\<close>.\<close>

definition act_ck_publish :: "wal_sys \<Rightarrow> nat \<Rightarrow> wal_sys option" where
  "act_ck_publish s i =
     (let c = sy_conns s ! i
      in do {
        result \<leftarrow> cn_result c;
        case next_post_sync_checkpoint_phase (cn_mode c) result of
          ReadDbIdentity max_frame \<Rightarrow>
            if cn_published c then None
            else Some (sys_put s i (publish_backfill (sy_shared s) max_frame) (c\<lparr>cn_published := True\<rparr>))
        | _ \<Rightarrow> None
      })"

definition act_ck_release :: "wal_sys \<Rightarrow> nat \<Rightarrow> wal_sys option" where
  "act_ck_release s i =
     (let c = sy_conns s ! i
      in do {
        result \<leftarrow> cn_result c;
        (sh, result') \<leftarrow> release_guard (sy_shared s) result;
        Some (sys_put s i sh (c\<lparr>cn_result := None\<rparr>))
      })"

section \<open>Executions\<close>

datatype wal_action =
    ReadLoad | ReadLock | ReadEnd
  | WriteBegin u32 | WriteCommit commit_input | WriteRollback | WriteEnd
  | CkptLoad checkpoint_mode | CkptStart | CkptWrite nat | CkptWritten | CkptFail
  | CkptResult u32 | CkptFinalize | CkptPublish | CkptRelease

fun wal_act :: "bool \<Rightarrow> wal_sys \<Rightarrow> nat \<Rightarrow> wal_action \<Rightarrow> wal_sys option" where
  "wal_act big s i ReadLoad = act_read_load s i"
| "wal_act big s i ReadLock = act_read_lock s i"
| "wal_act big s i ReadEnd = act_read_end s i"
| "wal_act big s i (WriteBegin rnd) = act_write_begin s i rnd"
| "wal_act big s i (WriteCommit ci) = act_write_commit big s i ci"
| "wal_act big s i WriteRollback = act_write_rollback s i"
| "wal_act big s i WriteEnd = act_write_end s i"
| "wal_act big s i (CkptLoad mode) = act_ck_load s i mode"
| "wal_act big s i CkptStart = act_ck_start s i"
| "wal_act big s i (CkptWrite page) = act_ck_write s i page"
| "wal_act big s i CkptWritten = act_ck_written s i"
| "wal_act big s i CkptFail = act_ck_fail s i"
| "wal_act big s i (CkptResult rnd) = act_ck_result s i rnd"
| "wal_act big s i CkptFinalize = act_ck_finalize s i"
| "wal_act big s i CkptPublish = act_ck_publish s i"
| "wal_act big s i CkptRelease = act_ck_release s i"

fun wal_run :: "bool \<Rightarrow> wal_sys \<Rightarrow> (nat \<times> wal_action) list \<Rightarrow> wal_sys option" where
  "wal_run big s [] = Some s"
| "wal_run big s ((i, a) # acts) =
     (if i < length (sy_conns s)
      then do { s1 \<leftarrow> wal_act big s i a; wal_run big s1 acts } else None)"

text \<open>Two windows of a checkpoint are open to other connections: between the load of \<open>nbackfills\<close> and the
  locks, and between the end of the locks of a partial checkpoint and the publication of its
  backfill. A step is undisturbed if it is not one that another checkpoint has overtaken in its
  window: when the locks are taken the backfill is the one that was loaded, and a backfill is
  published before another checkpoint takes the locks. The isolation theorems are about runs of
  undisturbed steps; runs that break either condition lose a commit.\<close>

definition undisturbed :: "wal_sys \<Rightarrow> nat \<Rightarrow> wal_action \<Rightarrow> bool" where
  "undisturbed s i a =
     (case a of
        CkptStart \<Rightarrow> cn_ckpt (sy_conns s ! i) = Some (ws_nbackfills (sy_shared s))
      | CkptPublish \<Rightarrow> sy_last s = i
      | _ \<Rightarrow> True)"

fun undisturbed_run :: "bool \<Rightarrow> wal_sys \<Rightarrow> (nat \<times> wal_action) list \<Rightarrow> bool" where
  "undisturbed_run big s [] = True"
| "undisturbed_run big s ((i, a) # acts) =
     (undisturbed s i a \<and> (case wal_act big s i a of None \<Rightarrow> True | Some s1 \<Rightarrow> undisturbed_run big s1 acts))"

text \<open>The start: an empty log over a database file, as \<open>build_shared_wal\<close> opens it, and connections
  that have not begun.\<close>

definition conn_new :: "wal_shared \<Rightarrow> wal_conn" where
  "conn_new sh = \<lparr> cn_wal = wal_file_new (ws_last_checksum sh) (ws_max_frame sh), cn_loaded = None,
     cn_ckpt = None, cn_mode = Full, cn_written = [], cn_result = None, cn_published = False, cn_snap = (\<lambda>_. []) \<rparr>"

definition sys_new :: "bool \<Rightarrow> nat \<Rightarrow> (nat \<Rightarrow> bytes) \<Rightarrow> wal_sys" where
  "sys_new big n db =
     (let sh = (wal_shared_init big)\<lparr>ws_loaded := True\<rparr>
      in \<lparr> sy_shared = sh, sy_conns = replicate n (conn_new sh), sy_log = (\<lambda>_. (0, [])), sy_db = db,
           sy_last = 0, sy_committed = db \<rparr>)"

end
