(* ===== verification/Wal_Isolation.thy ===== *)
theory Wal_Isolation
  imports Wal_System
begin

text \<open>
  Snapshot isolation of the log. The invariant \<open>sys_inv\<close> of the system of \<open>Wal_System\<close> relates the
  concrete state (locks, read marks, frame cache, log, database file) to the abstract one (the
  committed database and the readers' snapshots); every step preserves it. From it follow the
  properties: a reader sees the database that was committed when its transaction began, and log and
  database file together always hold the committed database.
\<close>

section \<open>Operations that leave the log alone\<close>

text \<open>\<open>log_same sh sh'\<close>: frames and bounds are the same, and the log stays initialized;
  \<open>marks_kept sh sh'\<close>: a mark that is in use keeps its value.\<close>

definition log_same :: "wal_shared \<Rightarrow> wal_shared \<Rightarrow> bool" where
  "log_same sh sh' \<longleftrightarrow>
     ws_max_frame sh' = ws_max_frame sh \<and> ws_nbackfills sh' = ws_nbackfills sh
     \<and> (ws_initialized sh \<longrightarrow> ws_initialized sh')
     \<and> (\<forall>p. fc_get (ws_frame_cache sh') p = fc_get (ws_frame_cache sh) p)
     \<and> (cache_ok (ws_frame_cache sh) \<longrightarrow> cache_ok (ws_frame_cache sh'))"

definition marks_kept :: "wal_shared \<Rightarrow> wal_shared \<Rightarrow> bool" where
  "marks_kept sh sh' \<longleftrightarrow> (\<forall>i < 5. slot_mode sh i \<noteq> Free \<longrightarrow> mark sh' i = mark sh i)"

lemma log_same_refl [simp]: "log_same sh sh"
  by (simp add: log_same_def)

lemma log_same_trans: "log_same a b \<Longrightarrow> log_same b c \<Longrightarrow> log_same a c"
  by (simp add: log_same_def)

lemma marks_kept_refl [simp]: "marks_kept sh sh"
  by (simp add: marks_kept_def)

lemma log_same_marks [simp]: "same_but_marks sh sh' \<Longrightarrow> log_same sh sh'"
  by (auto simp: same_but_marks_def log_same_def)

text \<open>The other two locks.\<close>

definition other_locks_same :: "wal_shared \<Rightarrow> wal_shared \<Rightarrow> bool" where
  "other_locks_same sh sh' \<longleftrightarrow> ws_write_lock sh' = ws_write_lock sh \<and> ws_checkpoint_lock sh' = ws_checkpoint_lock sh"

lemma other_locks_same_refl [simp]: "other_locks_same sh sh"
  by (simp add: other_locks_same_def)

lemma other_locks_same_trans: "other_locks_same a b \<Longrightarrow> other_locks_same b c \<Longrightarrow> other_locks_same a c"
  by (simp add: other_locks_same_def)

lemma other_locks_same_marks [simp]: "same_but_marks sh sh' \<Longrightarrow> other_locks_same sh sh'"
  by (auto simp: same_but_marks_def other_locks_same_def)

lemma relocked_refl [simp]: "locks_ok sh \<Longrightarrow> relocked sh sh (slot_mode sh)"
  by (simp add: relocked_def)

text \<open>The last part of a begin, for any expected mark and snapshot.\<close>

lemma begin_read_tail:
  assumes ok: "locks_ok sh" "reader_room sh" and i: "i < 5"
    and eq: "(case try_read_mark_shared sh i of
               (False, sh2) \<Rightarrow> Some (None, sh2)
             | (True, sh2) \<Rightarrow>
                 if Q sh2 \<or> load_snapshot sh2 \<noteq> snapshot
                 then do { sh3 \<leftarrow> unlock_read_mark sh2 i; Some (None, sh3) }
                 else Some (Some g, sh2)) = Some (r, sh')"
  shows "if r = None then relocked sh sh' (slot_mode sh) \<and> (\<forall>j < 5. mark sh' j = mark sh j)
         else r = Some g \<and> snapshot = load_snapshot sh"
proof (cases "slot_mode sh i = Writer")
  case True
  then have "r = None" "sh' = sh" using eq slot_shared_busy[OF ok(1) i True] by auto
  then show ?thesis using ok by simp
next
  case False
  obtain l where l: "try_read_mark_shared sh i = (True, sh\<lparr>ws_read_locks := (ws_read_locks sh)[i := l]\<rparr>)"
    "rw_ok l" "rw_mode_of l = add_reader (slot_mode sh i)" "rw_get_value l = read_mark_value sh i"
    using slot_shared_free[OF ok(1) i False ok(2)] by blast
  define sh2 where "sh2 = sh\<lparr>ws_read_locks := (ws_read_locks sh)[i := l]\<rparr>"
  have snap: "load_snapshot sh2 = load_snapshot sh" by (simp add: sh2_def)
  have sh2: "relocked sh sh2 (\<lambda>j. if j = i then rw_mode_of l else slot_mode sh j)" "\<And>j. mark sh2 j = mark sh j"
    using relocked_update[OF ok(1) i l(2,4)] sh2_def by auto
  show ?thesis
  proof (cases "Q sh2 \<or> load_snapshot sh2 \<noteq> snapshot")
    case False
    then show ?thesis using eq l(1) snap by (auto simp: sh2_def[symmetric])
  next
    case True
    have mode: "slot_mode sh2 i = add_reader (slot_mode sh i)" using sh2(1) i l(3) by (simp add: relocked_def)
    have "slot_mode sh2 i \<noteq> Free" using mode False by (cases "slot_mode sh i") auto
    then obtain l3 where l3: "unlock_read_mark sh2 i = Some (sh2\<lparr>ws_read_locks := (ws_read_locks sh2)[i := l3]\<rparr>)"
      "rw_ok l3" "rw_mode_of l3 = drop_holder (slot_mode sh2 i)" "rw_get_value l3 = read_mark_value sh2 i"
      using slot_unlock[of sh2 i] sh2(1) i by (auto simp: relocked_def)
    have ok2: "locks_ok sh2" using sh2(1) by (simp add: relocked_def)
    have restored: "drop_holder (slot_mode sh2 i) = slot_mode sh i"
      using mode False by (cases "slot_mode sh i") (auto simp: slot_mode_def rw_mode_of_def split: if_splits)
    have "r = None" and sh': "sh' = sh2\<lparr>ws_read_locks := (ws_read_locks sh2)[i := l3]\<rparr>"
      using eq l(1) l3(1) True by (auto simp: sh2_def[symmetric])
    moreover have "relocked sh sh' (slot_mode sh)"
      by (rule relocked_trans[OF sh2(1) relocked_update(1)[OF ok2 i l3(2,4) sh']])
        (use sh2(1) restored l3(3) in \<open>auto simp: relocked_def\<close>)
    ultimately show ?thesis using relocked_update(2)[OF ok2 i l3(2,4) sh'] sh2(2) by simp
  qed
qed

lemma begin_read_other_snapshot:
  assumes ok: "locks_ok sh" "reader_room sh" and eq: "coord_try_begin_read_tx sh snapshot = Some (r, sh')"
  shows "if r = None then relocked sh sh' (slot_mode sh) \<and> marks_kept sh sh' else snapshot = load_snapshot sh"
proof (cases "sn_max_frame snapshot = sn_nbackfills snapshot")
  case True
  then have "(case try_read_mark_shared sh 0 of
               (False, sh2) \<Rightarrow> Some (None, sh2)
             | (True, sh2) \<Rightarrow>
                 if False \<or> load_snapshot sh2 \<noteq> snapshot
                 then do { sh3 \<leftarrow> unlock_read_mark sh2 0; Some (None, sh3) }
                 else Some (Some DbFile, sh2)) = Some (r, sh')"
    using eq unfolding simp_thms by (simp add: coord_try_begin_read_tx_def split: if_splits)
  from begin_read_tail[OF ok _ this] show ?thesis by (auto simp: marks_kept_def split: if_splits)
next
  case False
  define v :: u32 where "v = word_of_nat (sn_max_frame snapshot)"
  obtain bi b where best: "best_mark sh v = (bi, b)" by (cases "best_mark sh v")
  have tail: "if r = None then relocked sh sh' (slot_mode sh) \<and> marks_kept sh sh' else snapshot = load_snapshot sh"
    if sh1: "relocked sh sh1 (slot_mode sh)" "marks_kept sh sh1" and bi': "\<And>idx. bi' = Some idx \<Longrightarrow> idx < 5"
      and res: "(case bi' of
         None \<Rightarrow> Some (None, sh1)
       | Some idx \<Rightarrow>
           (case try_read_mark_shared sh1 idx of
              (False, sh2) \<Rightarrow> Some (None, sh2)
            | (True, sh2) \<Rightarrow>
                if read_mark_value sh2 idx \<noteq> b' \<or> load_snapshot sh2 \<noteq> snapshot
                then do { sh3 \<leftarrow> unlock_read_mark sh2 idx; Some (None, sh3) }
                else Some (Some (ReadMark idx), sh2))) = Some (r, sh')" for sh1 bi' b'
  proof (cases bi')
    case None
    then show ?thesis using res sh1 by simp
  next
    case (Some idx)
    have ok1: "locks_ok sh1" "reader_room sh1" using sh1(1) ok(2) by (auto simp: relocked_def reader_room_def)
    have snap: "load_snapshot sh1 = load_snapshot sh" using sh1(1) by (auto simp: relocked_def dest: same_but_marks_snapshot)
    from begin_read_tail[OF ok1 bi'[OF Some], of "\<lambda>sh2. read_mark_value sh2 idx \<noteq> b'" snapshot "ReadMark idx" r sh'] res Some
    have "if r = None then relocked sh1 sh' (slot_mode sh1) \<and> (\<forall>j < 5. mark sh' j = mark sh1 j)
         else r = Some (ReadMark idx) \<and> snapshot = load_snapshot sh1" by simp
    moreover have "relocked sh1 sh' (slot_mode sh1) \<Longrightarrow> relocked sh sh' (slot_mode sh)"
      using relocked_trans[OF sh1(1)] sh1(1) by (auto simp: relocked_def)
    ultimately show ?thesis using snap sh1(2) by (auto simp: marks_kept_def split: if_splits)
  qed
  have idx: "bi = Some i \<Longrightarrow> i < 5" for i using best_mark_spec[OF best] by auto
  have small: "\<not> sn_max_frame snapshot > 2 ^ 32 - 1"
    using eq by (cases "sn_max_frame snapshot > 2 ^ 32 - 1") (simp_all add: coord_try_begin_read_tx_def)
  have eq': "do {
       (bi', b', sh1) \<leftarrow>
         (if bi = None \<or> unat b < sn_max_frame snapshot
          then do { (claimed, sh1) \<leftarrow> claim_mark sh v [1..<5];
                    Some (case claimed of Some idx \<Rightarrow> (Some idx, v, sh1) | None \<Rightarrow> (bi, b, sh1)) }
          else Some (bi, b, sh));
       case bi' of
         None \<Rightarrow> Some (None, sh1)
       | Some idx \<Rightarrow>
           (case try_read_mark_shared sh1 idx of
              (False, sh2) \<Rightarrow> Some (None, sh2)
            | (True, sh2) \<Rightarrow>
                if read_mark_value sh2 idx \<noteq> b' \<or> load_snapshot sh2 \<noteq> snapshot
                then do { sh3 \<leftarrow> unlock_read_mark sh2 idx; Some (None, sh3) }
                else Some (Some (ReadMark idx), sh2))
     } = Some (r, sh')"
    using eq False best small unfolding coord_try_begin_read_tx_def v_def[symmetric] by simp
  show ?thesis
  proof (cases "bi = None \<or> unat b < sn_max_frame snapshot")
    case F: False
    then show ?thesis using tail[OF relocked_refl[OF ok(1)] marks_kept_refl idx, of bi] eq' F by auto
  next
    case True
    from claim_mark_spec[OF ok(1), of "[1..<5]" v]
    consider "claim_mark sh v [1..<5] = Some (None, sh)"
      | i l where "claim_mark sh v [1..<5] = Some (Some i, sh\<lparr>ws_read_locks := (ws_read_locks sh)[i := l]\<rparr>)"
          "i < 5" "slot_mode sh i = Free" "rw_ok l" "rw_mode_of l = Free" by auto
    then show ?thesis
    proof cases
      case 1
      then show ?thesis using tail[OF relocked_refl[OF ok(1)] marks_kept_refl idx, of bi] eq' True by auto
    next
      case (2 i l)
      define sh1 where "sh1 = sh\<lparr>ws_read_locks := (ws_read_locks sh)[i := l]\<rparr>"
      have "i < length (ws_read_locks sh)" using ok(1) 2(2) by (simp add: locks_ok_def)
      then have "relocked sh sh1 (slot_mode sh)" "marks_kept sh sh1"
        using 2 ok(1) by (auto simp: sh1_def relocked_def marks_kept_def)
      from tail[OF this, of "Some i" v] 2 eq' True show ?thesis by (auto simp: sh1_def[symmetric])
    qed
  qed
qed

section \<open>The content of a page\<close>

text \<open>The content of page \<open>p\<close> as of frame \<open>k\<close>: its newest frame up to \<open>k\<close>, or what the database
  file held when this generation of the log began.\<close>

definition content :: "wal_shared \<Rightarrow> (nat \<Rightarrow> nat \<times> bytes) \<Rightarrow> (nat \<Rightarrow> bytes) \<Rightarrow> nat \<Rightarrow> nat \<Rightarrow> bytes" where
  "content sh log base k p =
     (case newest (\<lambda>f. f \<le> k) (fc_get (ws_frame_cache sh) p) of Some f \<Rightarrow> snd (log f) | None \<Rightarrow> base p)"

lemma newest_cong: "(\<And>f. f \<in> set fs \<Longrightarrow> P f = Q f) \<Longrightarrow> newest P fs = newest Q fs"
  unfolding newest_def by (metis (mono_tags, lifting) Collect_cong)

text \<open>Frames between \<open>lo\<close> and \<open>k\<close> are all that tells the content as of \<open>k\<close> from an earlier one.\<close>

lemma content_stable:
  assumes "newest (\<lambda>f. lo \<le> f \<and> f \<le> m) (fc_get (ws_frame_cache sh) p) = None" "lo \<le> k + 1" "k \<le> m"
  shows "content sh log base k p = content sh log base m p"
proof -
  have "newest (\<lambda>f. f \<le> k) (fc_get (ws_frame_cache sh) p) = newest (\<lambda>f. f \<le> m) (fc_get (ws_frame_cache sh) p)"
    using assms by (intro newest_cong) (fastforce simp: newest_None)
  then show ?thesis by (simp add: content_def)
qed

lemma content_found:
  assumes "newest (\<lambda>f. lo \<le> f \<and> f \<le> m) (fc_get (ws_frame_cache sh) p) = Some f"
  shows "content sh log base m p = snd (log f)"
proof -
  have "newest (\<lambda>f. f \<le> m) (fc_get (ws_frame_cache sh) p) = Some f"
    using assms unfolding newest_Some by (meson le_trans nat_le_linear)
  then show ?thesis by (simp add: content_def)
qed

section \<open>The invariant\<close>

definition log_ok :: "wal_shared \<Rightarrow> (nat \<Rightarrow> nat \<times> bytes) \<Rightarrow> bool" where
  "log_ok sh log \<longleftrightarrow>
     cache_ok (ws_frame_cache sh)
     \<and> (\<forall>p. \<forall>f \<in> set (fc_get (ws_frame_cache sh) p). 1 \<le> f \<and> f \<le> ws_max_frame sh \<and> fst (log f) = p)
     \<and> (\<not> ws_initialized sh \<longrightarrow> ws_max_frame sh = 0)"

text \<open>Every page of the database file is as of some frame between \<open>K\<close>, up to which the log is known
  to be copied, and \<open>bound\<close>, beyond which no checkpoint has written.\<close>

definition db_ok :: "wal_shared \<Rightarrow> (nat \<Rightarrow> nat \<times> bytes) \<Rightarrow> (nat \<Rightarrow> bytes) \<Rightarrow> (nat \<Rightarrow> bytes) \<Rightarrow> nat \<Rightarrow> nat \<Rightarrow> bool" where
  "db_ok sh log db base K bound \<longleftrightarrow>
     ws_nbackfills sh \<le> K \<and> bound \<le> ws_max_frame sh
     \<and> (\<forall>p. \<exists>k. K \<le> k \<and> k \<le> bound \<and> db p = content sh log base k p)"

definition read_ok :: "wal_shared \<Rightarrow> (nat \<Rightarrow> nat \<times> bytes) \<Rightarrow> (nat \<Rightarrow> bytes) \<Rightarrow> nat \<Rightarrow> wal_conn \<Rightarrow> bool" where
  "read_ok sh log base bound c \<longleftrightarrow>
     (let w = cn_wal c; i = wf_lock_index w
      in \<not> wf_unpublished w \<and> (i = NO_LOCK_HELD \<or> i < 5) \<and> (cn_loaded c \<noteq> None \<longrightarrow> i = NO_LOCK_HELD)
         \<and> (i \<noteq> NO_LOCK_HELD \<longrightarrow>
              bound \<le> wf_max_frame w \<and> wf_max_frame w \<le> ws_max_frame sh
              \<and> wf_min_frame w \<le> ws_nbackfills sh + 1
              \<and> (\<forall>p. cn_snap c p = content sh log base (wf_max_frame w) p)
              \<and> (1 \<le> i \<longrightarrow> mark sh i \<le> wf_max_frame w))
         \<and> (wf_write_lock_held w \<longrightarrow> i \<noteq> NO_LOCK_HELD \<and> wf_max_frame w = ws_max_frame sh))"

definition ckpt_copying :: "wal_shared \<Rightarrow> (nat \<Rightarrow> nat \<times> bytes) \<Rightarrow> (nat \<Rightarrow> bytes) \<Rightarrow> (nat \<Rightarrow> bytes) \<Rightarrow> nat \<Rightarrow> wal_conn \<Rightarrow> bool" where
  "ckpt_copying sh log db base K c \<longleftrightarrow>
     (let oc = wf_ongoing (cn_wal c)
      in K = ws_nbackfills sh \<and> distinct (map fst (oc_pages oc))
         \<and> (\<forall>p f. (p, f) \<in> set (oc_pages oc) \<longleftrightarrow>
              newest (\<lambda>f. ws_nbackfills sh + 1 \<le> f \<and> f \<le> oc_max_frame oc) (fc_get (ws_frame_cache sh) p) = Some f)
         \<and> (\<forall>p \<in> set (cn_written c). db p = content sh log base (oc_max_frame oc) p))"

text \<open>The result of a checkpoint whose backfill is still to be published.\<close>

definition backfill_ok :: "wal_shared \<Rightarrow> nat \<Rightarrow> checkpoint_result \<Rightarrow> bool" where
  "backfill_ok sh K r \<longleftrightarrow>
     (cr_checkpoint_backfilled r > 0 \<longrightarrow> ws_nbackfills sh < cr_total_backfilled r \<and> cr_total_backfilled r \<le> K)"

definition ckpt_ok ::
    "wal_shared \<Rightarrow> (nat \<Rightarrow> nat \<times> bytes) \<Rightarrow> (nat \<Rightarrow> bytes) \<Rightarrow> (nat \<Rightarrow> bytes) \<Rightarrow> nat \<Rightarrow> nat \<Rightarrow> bool \<Rightarrow> wal_conn \<Rightarrow> bool" where
  "ckpt_ok sh log db base K bound is_last c \<longleftrightarrow>
     (let w = cn_wal c; oc = wf_ongoing w
      in (oc_state oc = CkStart \<longrightarrow> wf_checkpoint_guard w = None)
         \<and> (oc_state oc \<noteq> CkStart \<longrightarrow>
              is_last \<and> wf_checkpoint_guard w = Some (guard_for (cn_mode c)) \<and> cn_result c = None \<and> cn_loaded c = None)
         \<and> (oc_state oc = CkProcessing \<or> oc_state oc = CkDetermineResult \<longrightarrow>
              oc_min_frame oc = ws_nbackfills sh + 1 \<and> oc_max_frame oc \<le> bound)
         \<and> (oc_state oc = CkProcessing \<longrightarrow> ckpt_copying sh log db base K c)
         \<and> (oc_state oc = CkDetermineResult \<longrightarrow> oc_max_frame oc \<le> K)
         \<and> (\<forall>r. oc_state oc = CkFinalize r \<longrightarrow>
              (\<exists>res. r = Some res \<and> cr_guard res = None
                 \<and> (if should_restart_log (cn_mode c)
                    then everything_backfilled res \<and> (\<forall>i. 1 \<le> i \<and> i < 5 \<longrightarrow> slot_mode sh i = Writer)
                    else backfill_ok sh K res)))
         \<and> (\<forall>r. cn_result c = Some r \<longrightarrow>
              cn_loaded c = None \<and> (cr_guard r = None \<or> cr_guard r = Some (guard_for (cn_mode c)))
              \<and> (is_last \<and> \<not> cn_published c \<and> \<not> should_restart_log (cn_mode c) \<longrightarrow> backfill_ok sh K r)))"

text \<open>Who holds which lock.\<close>

definition conn_guard :: "wal_conn \<Rightarrow> checkpoint_guard_kind option" where
  "conn_guard c =
     (case wf_checkpoint_guard (cn_wal c) of
        Some g \<Rightarrow> Some g
      | None \<Rightarrow> (case cn_result c of Some r \<Rightarrow> cr_guard r | None \<Rightarrow> None))"

definition tally :: "(wal_conn \<Rightarrow> nat) \<Rightarrow> wal_conn list \<Rightarrow> nat" where
  "tally f cs = sum_list (map f cs)"

definition reads_slot :: "nat \<Rightarrow> wal_conn \<Rightarrow> nat" where
  "reads_slot i c = of_bool (wf_lock_index (cn_wal c) = i)"

definition has_guard :: "wal_conn \<Rightarrow> nat" where
  "has_guard c = of_bool (conn_guard c \<noteq> None)"

definition has_write :: "wal_conn \<Rightarrow> nat" where
  "has_write c = of_bool (wf_write_lock_held (cn_wal c)) + of_bool (conn_guard c = Some WriterGuard)"

definition locks_inv :: "wal_shared \<Rightarrow> wal_conn list \<Rightarrow> bool" where
  "locks_inv sh cs \<longleftrightarrow>
     guards_ok sh
     \<and> (\<forall>i < 5. reader_count (slot_mode sh i) = tally (reads_slot i) cs)
     \<and> tally has_guard cs \<le> 1
     \<and> rw_mode_of (ws_checkpoint_lock sh) = (if tally has_guard cs = 0 then Free else Writer)
     \<and> tally has_write cs \<le> 1
     \<and> rw_mode_of (ws_write_lock sh) = (if tally has_write cs = 0 then Free else Writer)
     \<and> (0 < tally has_guard cs \<longrightarrow> slot_mode sh 0 = Writer)"

definition sys_inv_at :: "(nat \<Rightarrow> bytes) \<Rightarrow> nat \<Rightarrow> nat \<Rightarrow> wal_sys \<Rightarrow> bool" where
  "sys_inv_at base K bound s \<longleftrightarrow>
     length (sy_conns s) < 2 ^ 31 - 1
     \<and> log_ok (sy_shared s) (sy_log s)
     \<and> db_ok (sy_shared s) (sy_log s) (sy_db s) base K bound
     \<and> (\<forall>p. sy_committed s p = content (sy_shared s) (sy_log s) base (ws_max_frame (sy_shared s)) p)
     \<and> locks_inv (sy_shared s) (sy_conns s)
     \<and> (\<forall>i < length (sy_conns s).
          read_ok (sy_shared s) (sy_log s) base bound (sy_conns s ! i)
          \<and> ckpt_ok (sy_shared s) (sy_log s) (sy_db s) base K bound (sy_last s = i) (sy_conns s ! i))"

definition sys_inv :: "wal_sys \<Rightarrow> bool" where
  "sys_inv s \<longleftrightarrow> (\<exists>base K bound. sys_inv_at base K bound s)"

section \<open>Views\<close>

lemma view_content:
  assumes inv: "sys_inv_at base K bound s" and i: "i < length (sy_conns s)"
    and lock: "wf_lock_index (cn_wal (sy_conns s ! i)) \<noteq> NO_LOCK_HELD"
  shows "conn_view s i p = Some (cn_snap (sy_conns s ! i) p)"
proof -
  define sh w where "sh = sy_shared s" and "w = cn_wal (sy_conns s ! i)"
  have rd: "read_ok sh (sy_log s) base bound (sy_conns s ! i)" and db: "db_ok sh (sy_log s) (sy_db s) base K bound"
    and cok: "cache_ok (ws_frame_cache sh)"
    using inv i by (auto simp: sys_inv_at_def sh_def log_ok_def)
  have r: "bound \<le> wf_max_frame w" "wf_min_frame w \<le> ws_nbackfills sh + 1"
    "cn_snap (sy_conns s ! i) p = content sh (sy_log s) base (wf_max_frame w) p"
    using rd lock by (auto simp: read_ok_def w_def Let_def)
  let ?N = "newest (\<lambda>f. wf_min_frame w \<le> f \<and> f \<le> wf_max_frame w) (fc_get (ws_frame_cache sh) p)"
  have find: "wal_find_frame False sh w p None = Some ?N"
    using cok by (auto simp: wal_find_frame_def find_frame_newest newest_def)
  show ?thesis
  proof (cases ?N)
    case (Some f)
    then show ?thesis using find content_found[OF Some, of "sy_log s" base] r(3)
      by (simp add: conn_view_def sh_def w_def)
  next
    case None
    obtain k where k: "K \<le> k" "k \<le> bound" "sy_db s p = content sh (sy_log s) base k p"
      using db by (auto simp: db_ok_def)
    have "content sh (sy_log s) base k p = content sh (sy_log s) base (wf_max_frame w) p"
      by (rule content_stable[OF None]) (use k r db in \<open>auto simp: db_ok_def\<close>)
    then show ?thesis using find None k(3) r(3) by (simp add: conn_view_def sh_def w_def)
  qed
qed

section \<open>Counting holders\<close>

lemma tally_update: "i < length cs \<Longrightarrow> tally f (cs[i := c]) + f (cs ! i) = tally f cs + f c"
proof (induction cs arbitrary: i)
  case (Cons x cs)
  then show ?case by (cases i) (auto simp: tally_def)
qed simp

lemma tally_ge: "i < length cs \<Longrightarrow> f (cs ! i) \<le> tally f cs"
  unfolding tally_def by (simp add: member_le_sum_list)

lemma tally_ge2:
  assumes "i < length cs" "j < length cs" "i \<noteq> j"
  shows "f (cs ! i) + f (cs ! j) \<le> tally f cs"
  using assms
proof (induction cs arbitrary: i j)
  case (Cons x cs)
  show ?case
  proof (cases i)
    case 0
    then show ?thesis using Cons.prems tally_ge[of "j - 1" cs f] by (cases j) (auto simp: tally_def)
  next
    case (Suc i')
    then show ?thesis using Cons.prems Cons.IH[of i' "j - 1"] tally_ge[of i' cs f]
      by (cases j) (auto simp: tally_def)
  qed
qed simp

lemma tally_le_length: "(\<And>c. f c \<le> 1) \<Longrightarrow> tally f cs \<le> length cs"
proof (induction cs)
  case (Cons c cs)
  have "f c \<le> 1" by (rule Cons.prems)
  then show ?case using Cons.IH[OF Cons.prems] by (simp add: tally_def)
qed (simp add: tally_def)

lemma tally_same: "i < length cs \<Longrightarrow> f c = f (cs ! i) \<Longrightarrow> tally f (cs[i := c]) = tally f cs"
  using tally_update[of i cs f c] by simp

section \<open>Frames of the invariant\<close>

lemma content_log_same: "log_same sh sh' \<Longrightarrow> content sh' log base k p = content sh log base k p"
  by (simp add: content_def log_same_def)

lemma log_ok_same: "log_ok sh log \<Longrightarrow> log_same sh sh' \<Longrightarrow> log_ok sh' log"
  by (auto simp: log_ok_def log_same_def)

lemma db_ok_same: "db_ok sh log db base K bound \<Longrightarrow> log_same sh sh' \<Longrightarrow> db_ok sh' log db base K bound"
  using content_log_same[of sh sh'] by (simp add: db_ok_def log_same_def)

lemma read_ok_same:
  assumes "read_ok sh log base bound c" "log_same sh sh'"
    and "\<And>i. wf_lock_index (cn_wal c) = i \<Longrightarrow> 1 \<le> i \<Longrightarrow> i < 5 \<Longrightarrow> mark sh' i = mark sh i"
  shows "read_ok sh' log base bound c"
  using assms content_log_same[OF assms(2)] by (auto simp: read_ok_def Let_def log_same_def)

lemma ckpt_ok_same:
  assumes "ckpt_ok sh log db base K bound is_last c" "log_same sh sh'"
    and "\<And>i. 1 \<le> i \<Longrightarrow> i < 5 \<Longrightarrow> slot_mode sh i = Writer \<Longrightarrow> slot_mode sh' i = Writer"
  shows "ckpt_ok sh' log db base K bound is_last c"
proof -
  have nb: "ws_nbackfills sh' = ws_nbackfills sh" "fc_get (ws_frame_cache sh') p = fc_get (ws_frame_cache sh) p" for p
    using assms(2) by (auto simp: log_same_def)
  show ?thesis
    using assms(1,3) unfolding ckpt_ok_def Let_def ckpt_copying_def backfill_ok_def nb content_log_same[OF assms(2)]
    by (auto 4 3)
qed

lemma locks_inv_reader:
  assumes "locks_inv sh cs" "j < length cs" "wf_lock_index (cn_wal (cs ! j)) = i" "i < 5"
  shows "slot_mode sh i \<noteq> Free" "slot_mode sh i \<noteq> Writer"
proof -
  have "reads_slot i (cs ! j) \<le> tally (reads_slot i) cs" by (rule tally_ge) (rule assms)
  then have "0 < reader_count (slot_mode sh i)" using assms by (simp add: reads_slot_def locks_inv_def)
  then show "slot_mode sh i \<noteq> Free" "slot_mode sh i \<noteq> Writer" by auto
qed

lemma locks_inv_ok: "locks_inv sh cs \<Longrightarrow> locks_ok sh"
  by (simp add: locks_inv_def guards_ok_def)

lemma reads_slot_le: "reads_slot i c \<le> 1"
  by (simp add: reads_slot_def)

lemma locks_inv_room:
  assumes "locks_inv sh cs" "length cs < 2 ^ 31 - 1"
  shows "reader_room sh"
  unfolding reader_room_def
proof (intro allI impI)
  fix i :: nat assume "i < 5"
  then show "reader_count (slot_mode sh i) < 2 ^ 31 - 1"
    using assms tally_le_length[of "reads_slot i" cs, OF reads_slot_le] by (simp add: locks_inv_def)
qed

text \<open>A step that leaves the log alone.\<close>

lemma sys_inv_quiet:
  assumes inv: "sys_inv_at base K bound s" and i: "i < length (sy_conns s)"
    and sh': "log_same (sy_shared s) sh'" "marks_kept (sy_shared s) sh'"
      "\<And>j. 1 \<le> j \<Longrightarrow> j < 5 \<Longrightarrow> slot_mode (sy_shared s) j = Writer \<Longrightarrow> slot_mode sh' j = Writer
          \<or> (\<forall>k < length (sy_conns s). k \<noteq> i \<longrightarrow> oc_state (wf_ongoing (cn_wal (sy_conns s ! k))) = CkStart)"
    and locks: "locks_inv sh' ((sy_conns s)[i := c])"
    and c: "read_ok sh' (sy_log s) base bound c"
      "ckpt_ok sh' (sy_log s) (sy_db s) base K bound (sy_last s = i) c"
  shows "sys_inv_at base K bound (sys_put s i sh' c)"
proof -
  have other: "read_ok sh' (sy_log s) base bound (sy_conns s ! j)
      \<and> ckpt_ok sh' (sy_log s) (sy_db s) base K bound (sy_last s = j) (sy_conns s ! j)"
    if j: "j < length (sy_conns s)" "j \<noteq> i" for j
  proof
    have "mark sh' l = mark (sy_shared s) l"
      if "wf_lock_index (cn_wal (sy_conns s ! j)) = l" "l < 5" for l
      using locks_inv_reader[OF _ j(1) that] inv sh'(2) that by (simp add: sys_inv_at_def marks_kept_def)
    then show "read_ok sh' (sy_log s) base bound (sy_conns s ! j)"
      using inv j(1) by (intro read_ok_same[OF _ sh'(1)]) (auto simp: sys_inv_at_def)
    have ck: "ckpt_ok (sy_shared s) (sy_log s) (sy_db s) base K bound (sy_last s = j) (sy_conns s ! j)"
      using inv j(1) by (simp add: sys_inv_at_def)
    show "ckpt_ok sh' (sy_log s) (sy_db s) base K bound (sy_last s = j) (sy_conns s ! j)"
    proof (cases "oc_state (wf_ongoing (cn_wal (sy_conns s ! j))) = CkStart")
      case False
      then show ?thesis using ckpt_ok_same[OF ck sh'(1)] sh'(3) j by blast
    next
      case True
      then show ?thesis using ck sh'(1) by (auto simp: ckpt_ok_def Let_def backfill_ok_def log_same_def)
    qed
  qed
  show ?thesis
    using inv sh' locks c other i log_ok_same[OF _ sh'(1)] db_ok_same[OF _ sh'(1)] content_log_same[OF sh'(1)]
    by (auto simp: sys_inv_at_def sys_put_def nth_list_update log_same_def)
qed

section \<open>Read transactions preserve the invariant\<close>

lemma slot_frame:
  assumes "ws_read_locks sh' = ws_read_locks sh"
  shows "slot_mode sh' i = slot_mode sh i" "mark sh' i = mark sh i" "locks_ok sh' = locks_ok sh"
    "read_mark_value sh' i = read_mark_value sh i"
  using assms by (simp_all add: slot_mode_def mark_def read_mark_value_def locks_ok_def)

lemma locks_inv_same:
  assumes inv: "locks_inv sh cs" and i: "i < length cs"
    and sh': "guards_ok sh'" "\<And>j. j < 5 \<Longrightarrow> slot_mode sh' j = slot_mode sh j"
      "rw_mode_of (ws_checkpoint_lock sh') = rw_mode_of (ws_checkpoint_lock sh)"
      "rw_mode_of (ws_write_lock sh') = rw_mode_of (ws_write_lock sh)"
    and c: "wf_lock_index (cn_wal c) = wf_lock_index (cn_wal (cs ! i))" "has_guard c = has_guard (cs ! i)"
      "has_write c = has_write (cs ! i)"
  shows "locks_inv sh' (cs[i := c])"
proof -
  have "tally (reads_slot j) (cs[i := c]) = tally (reads_slot j) cs" for j
    by (rule tally_same[OF i]) (simp add: reads_slot_def c(1))
  then show ?thesis
    using inv sh' c(2,3) tally_same[OF i, of has_guard c] tally_same[OF i, of has_write c]
    by (auto simp: locks_inv_def)
qed

lemma guards_ok_frame:
  "guards_ok sh \<Longrightarrow> ws_read_locks sh' = ws_read_locks sh \<Longrightarrow> other_locks_same sh sh' \<Longrightarrow> guards_ok sh'"
  by (simp add: guards_ok_def other_locks_same_def locks_ok_def)

lemma guards_ok_relocked: "guards_ok sh \<Longrightarrow> relocked sh sh' A \<Longrightarrow> guards_ok sh'"
  using other_locks_same_marks[of sh sh'] by (simp add: guards_ok_def relocked_def other_locks_same_def)

lemma inv_conn:
  assumes "sys_inv_at base K bound s" "i < length (sy_conns s)"
  shows "read_ok (sy_shared s) (sy_log s) base bound (sy_conns s ! i)"
    "ckpt_ok (sy_shared s) (sy_log s) (sy_db s) base K bound (sy_last s = i) (sy_conns s ! i)"
    "locks_inv (sy_shared s) (sy_conns s)" "guards_ok (sy_shared s)" "locks_ok (sy_shared s)"
    "reader_room (sy_shared s)"
  using assms locks_inv_room[of "sy_shared s" "sy_conns s"]
  by (auto simp: sys_inv_at_def locks_inv_def guards_ok_def)

text \<open>A step that changes no lock a connection counts on.\<close>

lemma sys_inv_frame:
  assumes inv: "sys_inv_at base K bound s" and i: "i < length (sy_conns s)"
    and sh': "log_same (sy_shared s) sh'" "ws_read_locks sh' = ws_read_locks (sy_shared s)"
      "other_locks_same (sy_shared s) sh'"
    and c: "wf_lock_index (cn_wal c) = wf_lock_index (cn_wal (sy_conns s ! i))"
      "has_guard c = has_guard (sy_conns s ! i)" "has_write c = has_write (sy_conns s ! i)"
    and ok: "read_ok (sy_shared s) (sy_log s) base bound c"
      "ckpt_ok (sy_shared s) (sy_log s) (sy_db s) base K bound (sy_last s = i) c"
  shows "sys_inv_at base K bound (sys_put s i sh' c)"
proof (rule sys_inv_quiet[OF inv i sh'(1)])
  note slots = slot_frame[OF sh'(2)]
  show "marks_kept (sy_shared s) sh'" by (simp add: marks_kept_def slots)
  show "slot_mode sh' j = Writer \<or> (\<forall>k < length (sy_conns s). k \<noteq> i \<longrightarrow> oc_state (wf_ongoing (cn_wal (sy_conns s ! k))) = CkStart)"
    if "slot_mode (sy_shared s) j = Writer" for j using that by (simp add: slots)
  show "locks_inv sh' ((sy_conns s)[i := c])"
    by (rule locks_inv_same[OF inv_conn(3)[OF inv i] i guards_ok_frame[OF inv_conn(4)[OF inv i] sh'(2,3)]])
      (use sh'(3) c in \<open>auto simp: slots other_locks_same_def\<close>)
  show "read_ok sh' (sy_log s) base bound c" by (rule read_ok_same[OF ok(1) sh'(1)]) (simp add: slots)
  show "ckpt_ok sh' (sy_log s) (sy_db s) base K bound (sy_last s = i) c"
    by (rule ckpt_ok_same[OF ok(2) sh'(1)]) (simp add: slots)
qed

lemma read_ok_cong:
  "cn_wal c' = cn_wal c \<Longrightarrow> cn_snap c' = cn_snap c \<Longrightarrow> (cn_loaded c' \<noteq> None \<Longrightarrow> wf_lock_index (cn_wal c) = NO_LOCK_HELD)
     \<Longrightarrow> read_ok sh log base bound c \<Longrightarrow> read_ok sh log base bound c'"
  by (auto simp: read_ok_def Let_def)

lemma ckpt_ok_idle:
  "oc_state (wf_ongoing (cn_wal c)) = CkStart \<Longrightarrow> cn_result c = None \<Longrightarrow>
     ckpt_ok sh log db base K bound is_last c \<longleftrightarrow> wf_checkpoint_guard (cn_wal c) = None"
  by (simp add: ckpt_ok_def Let_def)

lemma conn_guard_cong:
  "wf_checkpoint_guard (cn_wal c') = wf_checkpoint_guard (cn_wal c) \<Longrightarrow> cn_result c' = cn_result c \<Longrightarrow> conn_guard c' = conn_guard c"
  by (simp add: conn_guard_def split: option.split)

lemma conn_guard_idle: "cn_result c = None \<Longrightarrow> conn_guard c = wf_checkpoint_guard (cn_wal c)"
  by (simp add: conn_guard_def split: option.split)

lemma act_read_load_inv:
  assumes inv: "sys_inv_at base K bound s" and i: "i < length (sy_conns s)" and act: "act_read_load s i = Some s'"
  shows "sys_inv_at base K bound s'"
proof -
  let ?c = "sy_conns s ! i"
  obtain loaded sh' where st: "conn_idle ?c" "try_begin_read_load (sy_shared s) (cn_wal ?c) = Some (loaded, sh')"
    "s' = sys_put s i sh' (?c\<lparr>cn_loaded := loaded\<rparr>)"
    using act by (auto simp: act_read_load_def Let_def Option.bind_eq_Some_conv split: if_splits prod.splits)
  obtain l where sh': "sh' = (sy_shared s)\<lparr>ws_vacuum_lock := l\<rparr>"
    using st(2) by (auto simp: try_begin_read_load_def vacuum_try_read_def split: if_splits prod.splits bool.splits)
  show ?thesis
    unfolding st(3)
  proof (rule sys_inv_frame[OF inv i])
    show "read_ok (sy_shared s) (sy_log s) base bound (?c\<lparr>cn_loaded := loaded\<rparr>)"
      by (rule read_ok_cong[OF _ _ _ inv_conn(1)[OF inv i]])
        (use st(2) in \<open>auto simp: try_begin_read_load_def split: if_splits\<close>)
    show "ckpt_ok (sy_shared s) (sy_log s) (sy_db s) base K bound (sy_last s = i) (?c\<lparr>cn_loaded := loaded\<rparr>)"
      using inv_conn(2)[OF inv i] st(1) by (simp add: conn_idle_def ckpt_ok_idle)
  qed (use st(1) in \<open>simp_all add: sh' log_same_def other_locks_same_def has_guard_def has_write_def conn_guard_idle conn_idle_def\<close>)
qed

lemma NO_LOCK_HELD_large [simp]: "\<not> NO_LOCK_HELD < 5" "NO_LOCK_HELD \<noteq> 0" "5 \<le> NO_LOCK_HELD"
  by (simp_all add: NO_LOCK_HELD_def)

lemma reader_count_add: "m \<noteq> Writer \<Longrightarrow> reader_count (add_reader m) = Suc (reader_count m)"
  by (cases m) auto

lemma reader_count_drop: "reader_count (drop_holder m) = reader_count m - 1"
  by (cases m) auto

text \<open>One connection takes or leaves one slot.\<close>

lemma locks_inv_slot:
  assumes inv: "locks_inv sh cs" and i: "i < length cs" and k: "k < 5"
    and sh': "guards_ok sh'" "\<And>j. j < 5 \<Longrightarrow> j \<noteq> k \<Longrightarrow> slot_mode sh' j = slot_mode sh j"
      "other_locks_same sh sh'" "slot_mode sh k \<noteq> Writer"
    and cnt: "reader_count (slot_mode sh' k) + reads_slot k (cs ! i) = reader_count (slot_mode sh k) + reads_slot k c"
      "\<And>j. j < 5 \<Longrightarrow> j \<noteq> k \<Longrightarrow> reads_slot j c = reads_slot j (cs ! i)"
    and c: "has_guard c = has_guard (cs ! i)" "has_write c = has_write (cs ! i)"
  shows "locks_inv sh' (cs[i := c])"
proof -
  have rd: "reader_count (slot_mode sh' j) = tally (reads_slot j) (cs[i := c])" if "j < 5" for j
  proof (cases "j = k")
    case True
    then show ?thesis using tally_update[OF i, of "reads_slot k" c] cnt(1) inv that by (simp add: locks_inv_def)
  next
    case False
    then show ?thesis using tally_same[OF i, of "reads_slot j" c] cnt(2) sh'(2) inv that by (simp add: locks_inv_def)
  qed
  have zero: "0 < tally has_guard cs \<longrightarrow> slot_mode sh' 0 = Writer"
    using inv sh'(2)[of 0] sh'(4) by (cases "k = 0") (auto simp: locks_inv_def)
  show ?thesis
    using inv sh'(1,3) rd zero tally_same[OF i, of has_guard c] tally_same[OF i, of has_write c] c
    by (simp add: locks_inv_def other_locks_same_def)
qed

lemma bind_SomeE:
  assumes "x \<bind> f = Some y" obtains z where "x = Some z" "f z = Some y"
  using assms by (cases x) auto

lemma act_read_lock_inv:
  assumes inv: "sys_inv_at base K bound s" and i: "i < length (sy_conns s)" and act: "act_read_lock s i = Some s'"
  shows "sys_inv_at base K bound s'"
proof -
  define c where "c = sy_conns s ! i"
  define sh where "sh = sy_shared s"
  note ok = inv_conn[OF inv i, folded c_def sh_def]
  obtain snap r sh' w where st: "cn_loaded c = Some snap" "try_begin_read_lock sh (cn_wal c) snap = Some (r, sh', w)"
    "s' = sys_put s i sh' (c\<lparr>cn_loaded := None, cn_wal := w, cn_snap := (if r = BeginRetry then cn_snap c else sy_committed s)\<rparr>)"
    using act by (auto simp: act_read_lock_def Let_def c_def sh_def elim!: bind_SomeE split: prod.splits)
  obtain guard sh1 where co: "coord_try_begin_read_tx sh snap = Some (guard, sh1)"
    using st(2) by (auto simp: try_begin_read_lock_def Let_def elim!: bind_SomeE)
  have idle: "oc_state (wf_ongoing (cn_wal c)) = CkStart" "cn_result c = None" "wf_checkpoint_guard (cn_wal c) = None"
    using ok(2) st(1) by (auto simp: ckpt_ok_def Let_def)
  have nolock: "wf_lock_index (cn_wal c) = NO_LOCK_HELD" "\<not> wf_write_lock_held (cn_wal c)" "\<not> wf_unpublished (cn_wal c)"
    using ok(1) st(1) by (auto simp: read_ok_def Let_def)
  note gen = begin_read_other_snapshot[OF ok(5,6) co]
  show ?thesis
  proof (cases guard)
    case None
    obtain l where res: "r = BeginRetry" "sh' = sh1\<lparr>ws_vacuum_lock := l\<rparr>" "w = cn_wal c"
      using st(2) co None by (auto simp: try_begin_read_lock_def Let_def vacuum_guard_drop_def elim!: bind_SomeE)
    have sh1: "relocked sh sh1 (slot_mode sh)" "marks_kept sh sh1" using gen None by auto
    have slots: "slot_mode sh' j = slot_mode sh1 j" "mark sh' j = mark sh1 j" for j
      using slot_frame[of sh' sh1] by (simp_all add: res(2))
    have same: "log_same sh sh'" "other_locks_same sh sh'"
      using sh1(1) res(2) by (auto simp: relocked_def same_but_marks_def log_same_def other_locks_same_def)
    have gok: "guards_ok sh'" using guards_ok_relocked[OF ok(4) sh1(1)] by (simp add: res(2) guards_ok_def locks_ok_def)
    show ?thesis
      unfolding st(3)
    proof (rule sys_inv_quiet[OF inv i, folded sh_def])
      show "log_same sh sh'" by (rule same)
      show "marks_kept sh sh'" using sh1(2) by (simp add: marks_kept_def slots)
      show "slot_mode sh' j = Writer \<or> (\<forall>k < length (sy_conns s). k \<noteq> i \<longrightarrow> oc_state (wf_ongoing (cn_wal (sy_conns s ! k))) = CkStart)"
        if "1 \<le> j" "j < 5" "slot_mode sh j = Writer" for j using that sh1(1) by (simp add: slots relocked_def)
      show "locks_inv sh' ((sy_conns s)[i := c\<lparr>cn_loaded := None, cn_wal := w, cn_snap := (if r = BeginRetry then cn_snap c else sy_committed s)\<rparr>])"
        by (rule locks_inv_same[OF ok(3) i gok])
          (use sh1(1) same(2) idle in \<open>auto simp: slots relocked_def other_locks_same_def res(1,3) has_guard_def has_write_def conn_guard_idle c_def[symmetric]\<close>)
      show "read_ok sh' (sy_log s) base bound (c\<lparr>cn_loaded := None, cn_wal := w, cn_snap := (if r = BeginRetry then cn_snap c else sy_committed s)\<rparr>)"
        using nolock by (simp add: read_ok_def res)
      show "ckpt_ok sh' (sy_log s) (sy_db s) base K bound (sy_last s = i) (c\<lparr>cn_loaded := None, cn_wal := w, cn_snap := (if r = BeginRetry then cn_snap c else sy_committed s)\<rparr>)"
        using idle by (simp add: ckpt_ok_idle res)
    qed
  next
    case (Some g)
    have snap: "snap = load_snapshot sh" using gen Some by simp
    have mx: "ws_max_frame sh < 2 ^ 32" using co
      by (cases "ws_max_frame sh > 2 ^ 32 - 1") (simp_all add: coord_try_begin_read_tx_def snap load_snapshot_def)
    have begun: "read_begun sh (Some g) sh1" using begin_read_spec[OF ok(5,6) mx] co snap Some by auto
    obtain ch where res: "r = BeginOk ch" "sh' = sh1"
      "w = install_connection_state ((cn_wal c)\<lparr>wf_vacuum_guard := Some VacuumRead\<rparr>) \<lparr> cs_snapshot = snap, cs_read_guard = g \<rparr>"
      using st(2) co Some by (auto simp: try_begin_read_lock_def Let_def install_vacuum_lock_guard_def elim!: bind_SomeE split: if_splits)
    define k where "k = guard_lock_index g"
    obtain l where k: "k < 5" and sh': "sh' = sh\<lparr>ws_read_locks := (ws_read_locks sh)[k := l]\<rparr>" "rw_ok l"
      "slot_mode sh k \<noteq> Writer" "rw_mode_of l = add_reader (slot_mode sh k)"
      and mk: "1 \<le> k \<Longrightarrow> unat (rw_get_value l) \<le> ws_max_frame sh"
        "slot_mode sh k \<noteq> Free \<Longrightarrow> unat (rw_get_value l) = mark sh k"
      using begun by (cases g) (auto simp: read_begun_def k_def res(2) mark_def)
    have len: "k < length (ws_read_locks sh)" using ok(5) k by (simp add: locks_ok_def)
    have slots: "slot_mode sh' j = (if j = k then add_reader (slot_mode sh k) else slot_mode sh j)"
      "mark sh' j = (if j = k then unat (rw_get_value l) else mark sh j)" for j
      using len sh' by simp_all
    have same: "log_same sh sh'" "other_locks_same sh sh'" by (simp_all add: sh')
    have gok: "guards_ok sh'" using ok(4,5) sh'(1,2) by (simp add: guards_ok_def)
    define c' where "c' = c\<lparr>cn_loaded := None, cn_wal := w, cn_snap := (if r = BeginRetry then cn_snap c else sy_committed s)\<rparr>"
    have w: "wf_lock_index w = k" "wf_max_frame w = ws_max_frame sh" "wf_min_frame w = ws_nbackfills sh + 1"
      "wf_checkpoint_guard w = None" "wf_ongoing w = wf_ongoing (cn_wal c)" "\<not> wf_write_lock_held w" "\<not> wf_unpublished w"
      using nolock idle by (simp_all add: res(3) install_connection_state_def snap load_snapshot_def snapshot_min_frame_def k_def)
    have c': "cn_wal c' = w" "cn_snap c' = sy_committed s" "cn_result c' = None" "cn_loaded c' = None"
      using idle by (simp_all add: c'_def res(1))
    have glob: "bound \<le> ws_max_frame sh" "\<And>p. sy_committed s p = content sh (sy_log s) base (ws_max_frame sh) p"
      using inv by (auto simp: sys_inv_at_def db_ok_def sh_def)
    show ?thesis
      unfolding st(3) c'_def[symmetric]
    proof (rule sys_inv_quiet[OF inv i, folded sh_def])
      show "log_same sh sh'" by (rule same)
      show "marks_kept sh sh'" using mk(2) by (simp add: marks_kept_def slots)
      show "slot_mode sh' j = Writer \<or> (\<forall>k < length (sy_conns s). k \<noteq> i \<longrightarrow> oc_state (wf_ongoing (cn_wal (sy_conns s ! k))) = CkStart)"
        if "1 \<le> j" "j < 5" "slot_mode sh j = Writer" for j using that sh'(3) by (auto simp: slots)
      show "locks_inv sh' ((sy_conns s)[i := c'])"
        by (rule locks_inv_slot[OF ok(3) i k gok])
          (use same(2) sh'(3) idle nolock k in \<open>auto simp: slots reader_count_add reads_slot_def has_guard_def has_write_def conn_guard_idle c_def[symmetric] c' w\<close>)
      show "read_ok sh' (sy_log s) base bound c'"
        using glob k mk(1) content_log_same[OF same(1)] same(1)
        by (simp add: read_ok_def Let_def c' w slots log_same_def)
      show "ckpt_ok sh' (sy_log s) (sy_db s) base K bound (sy_last s = i) c'"
        using idle by (simp add: ckpt_ok_idle c' w)
    qed
  qed
qed

lemma act_read_end_inv:
  assumes inv: "sys_inv_at base K bound s" and i: "i < length (sy_conns s)" and act: "act_read_end s i = Some s'"
  shows "sys_inv_at base K bound s'"
proof -
  define c where "c = sy_conns s ! i"
  define sh where "sh = sy_shared s"
  note ok = inv_conn[OF inv i, folded c_def sh_def]
  obtain sh' w where st: "conn_idle c" "\<not> wf_write_lock_held (cn_wal c)" "wal_end_read_tx sh (cn_wal c) = Some (sh', w)"
    "s' = sys_put s i sh' (c\<lparr>cn_wal := w\<rparr>)"
    using act by (auto simp: act_read_end_def Let_def c_def sh_def elim!: bind_SomeE split: if_splits)
  have idle: "oc_state (wf_ongoing (cn_wal c)) = CkStart" "cn_result c = None" "cn_loaded c = None" "wf_checkpoint_guard (cn_wal c) = None"
    using ok(2) st(1) by (auto simp: ckpt_ok_def Let_def conn_idle_def)
  have unpub: "\<not> wf_unpublished (cn_wal c)" using ok(1) by (simp add: read_ok_def Let_def)
  define k where "k = wf_lock_index (cn_wal c)"
  show ?thesis
  proof (cases "k = NO_LOCK_HELD")
    case True
    then have "sh' = sh" "w = cn_wal c" using st(3) by (auto simp: wal_end_read_tx_def k_def split: if_splits)
    then show ?thesis using inv i st(4) by (simp add: sys_put_def c_def sh_def)
  next
    case False
    then have k: "k < 5" using ok(1) by (auto simp: read_ok_def Let_def k_def)
    have mode: "slot_mode sh k \<noteq> Free" "slot_mode sh k \<noteq> Writer"
      using locks_inv_reader[OF ok(3) i _ k] k_def c_def by auto
    obtain l where l: "unlock_read_mark sh k = Some (sh\<lparr>ws_read_locks := (ws_read_locks sh)[k := l]\<rparr>)"
      "rw_ok l" "rw_mode_of l = drop_holder (slot_mode sh k)" "rw_get_value l = read_mark_value sh k"
      using slot_unlock[OF ok(5) k mode(1)] by blast
    define sh1 where "sh1 = sh\<lparr>ws_read_locks := (ws_read_locks sh)[k := l]\<rparr>"
    have "coord_end_read_tx sh (guard_from_lock_index k) = Some sh1"
      using l(1) False by (cases "k = 0") (auto simp: guard_from_lock_index_def sh1_def)
    then obtain v where res: "sh' = sh1\<lparr>ws_vacuum_lock := v\<rparr>"
      "w = (cn_wal c)\<lparr>wf_lock_index := NO_LOCK_HELD, wf_vacuum_guard := None\<rparr>"
      using st(3) False by (auto simp: wal_end_read_tx_def Let_def k_def[symmetric] release_vacuum_read_lock_guard_def
          vacuum_guard_drop_def elim!: bind_SomeE split: if_splits)
    have len: "k < length (ws_read_locks sh)" using ok(5) k by (simp add: locks_ok_def)
    have slots: "slot_mode sh' j = (if j = k then drop_holder (slot_mode sh k) else slot_mode sh j)" "mark sh' j = mark sh j" for j
      using slot_frame[of sh' sh1] len l by (simp_all add: res(1) sh1_def) (simp add: mark_def)
    have same: "log_same sh sh'" "other_locks_same sh sh'" by (simp_all add: res(1) sh1_def log_same_def other_locks_same_def)
    have "locks_ok sh1" using ok(5) l(2) by (simp add: sh1_def)
    then have gok: "guards_ok sh'" using ok(4) slot_frame(3)[of sh' sh1] by (simp add: res(1) sh1_def guards_ok_def)
    have count: "0 < reader_count (slot_mode sh k)" using mode by (cases "slot_mode sh k") (auto simp: slot_mode_def rw_mode_of_def split: if_splits)
    show ?thesis
      unfolding st(4)
    proof (rule sys_inv_quiet[OF inv i, folded sh_def])
      show "log_same sh sh'" by (rule same)
      show "marks_kept sh sh'" by (simp add: marks_kept_def slots)
      show "slot_mode sh' j = Writer \<or> (\<forall>k < length (sy_conns s). k \<noteq> i \<longrightarrow> oc_state (wf_ongoing (cn_wal (sy_conns s ! k))) = CkStart)"
        if "slot_mode sh j = Writer" for j using that mode by (auto simp: slots)
      show "locks_inv sh' ((sy_conns s)[i := c\<lparr>cn_wal := w\<rparr>])"
        by (rule locks_inv_slot[OF ok(3) i k gok])
          (use same(2) mode count idle k False in \<open>auto simp: slots reader_count_drop reads_slot_def has_guard_def has_write_def conn_guard_idle c_def[symmetric] res(2) k_def[symmetric]\<close>)
      show "read_ok sh' (sy_log s) base bound (c\<lparr>cn_wal := w\<rparr>)"
        using st(2) unpub by (simp add: read_ok_def res(2))
      show "ckpt_ok sh' (sy_log s) (sy_db s) base K bound (sy_last s = i) (c\<lparr>cn_wal := w\<rparr>)"
        using idle by (simp add: ckpt_ok_idle res(2))
    qed
  qed
qed

end
