(* ===== verification/Wal_Writers.thy ===== *)
theory Wal_Writers
  imports Wal_Isolation
begin

text \<open>
  The steps of write transactions preserve the invariant of \<open>Wal_Isolation\<close>: the begin, which may
  restart the log, the commit, the rollback and the end.
\<close>

section \<open>Write transactions preserve the invariant\<close>

lemma fc_get_restarted: "restarted sh rnd A sh' \<Longrightarrow> ws_frame_cache sh' = [] \<and> ws_max_frame sh' = 0 \<and> ws_nbackfills sh' = 0
    \<and> \<not> ws_initialized sh' \<and> other_locks_same sh sh' \<and> locks_ok sh'"
  by (auto simp: restarted_def same_but_marks_def Let_def other_locks_same_def)

lemma db_is_committed:
  assumes inv: "sys_inv_at base K bound s" and K: "ws_max_frame (sy_shared s) \<le> K"
  shows "sy_committed s p = sy_db s p"
proof -
  have db: "db_ok (sy_shared s) (sy_log s) (sy_db s) base K bound" using inv by (simp add: sys_inv_at_def)
  obtain k where "K \<le> k" "k \<le> bound" "sy_db s p = content (sy_shared s) (sy_log s) base k p"
    "bound \<le> ws_max_frame (sy_shared s)" using db unfolding db_ok_def by blast
  moreover from this K have "k = ws_max_frame (sy_shared s)" by simp
  ultimately show ?thesis using inv by (simp add: sys_inv_at_def)
qed

text \<open>A restart of the log by a connection that no reader uses the log beside.\<close>

lemma sys_inv_restart:
  assumes inv: "sys_inv_at base K bound s" and i: "i < length (sy_conns s)"
    and K: "ws_max_frame (sy_shared s) \<le> K"
    and re: "restarted sh0 rnd A sh'"
    and others: "\<And>j. j < length (sy_conns s) \<Longrightarrow> j \<noteq> i \<Longrightarrow> wf_lock_index (cn_wal (sy_conns s ! j)) = NO_LOCK_HELD"
      "\<And>j. j < length (sy_conns s) \<Longrightarrow> j \<noteq> i \<Longrightarrow> oc_state (wf_ongoing (cn_wal (sy_conns s ! j))) = CkStart"
    and own: "sy_last s = i \<or> ws_nbackfills (sy_shared s) = ws_max_frame (sy_shared s)"
    and locks: "locks_inv sh2 ((sy_conns s)[i := c])" and sh2: "log_same sh' sh2"
    and c: "read_ok sh2 (sy_log s) (sy_db s) 0 c" "ckpt_ok sh2 (sy_log s) (sy_db s) (sy_db s) 0 0 (sy_last s = i) c"
  shows "sys_inv_at (sy_db s) 0 0 (sys_put s i sh2 c)"
proof -
  have new: "fc_get (ws_frame_cache sh2) p = []" "ws_max_frame sh2 = 0" "ws_nbackfills sh2 = 0"
    "cache_ok (ws_frame_cache sh2)" for p
    using fc_get_restarted[OF re] sh2 by (auto simp: log_same_def cache_ok_def)
  have cont: "content sh2 (sy_log s) (sy_db s) k p = sy_db s p" for k p by (simp add: content_def new newest_def)
  have "db_ok (sy_shared s) (sy_log s) (sy_db s) base K bound" using inv by (simp add: sys_inv_at_def)
  then have bnd: "K \<le> ws_max_frame (sy_shared s)" unfolding db_ok_def by (meson le_trans)
  have other: "read_ok sh2 (sy_log s) (sy_db s) 0 (sy_conns s ! j)
      \<and> ckpt_ok sh2 (sy_log s) (sy_db s) (sy_db s) 0 0 (sy_last s = j) (sy_conns s ! j)"
    if j: "j < length (sy_conns s)" "j \<noteq> i" for j
  proof
    show "read_ok sh2 (sy_log s) (sy_db s) 0 (sy_conns s ! j)"
      using inv_conn(1)[OF inv j(1)] others(1)[OF j] by (simp add: read_ok_def)
    show "ckpt_ok sh2 (sy_log s) (sy_db s) (sy_db s) 0 0 (sy_last s = j) (sy_conns s ! j)"
      using inv_conn(2)[OF inv j(1)] others(2)[OF j] own j(2) bnd
      by (auto simp: ckpt_ok_def Let_def backfill_ok_def)
  qed
  show ?thesis
    using inv i locks c other db_is_committed[OF inv K]
    by (auto simp: sys_inv_at_def sys_put_def nth_list_update log_ok_def db_ok_def new cont)
qed

lemma locks_inv_take_write:
  assumes inv: "locks_inv sh cs" and i: "i < length cs"
    and sh': "guards_ok sh'" "\<And>j. j < 5 \<Longrightarrow> slot_mode sh' j = slot_mode sh j"
      "ws_checkpoint_lock sh' = ws_checkpoint_lock sh"
      "has_write c + (if rw_mode_of (ws_write_lock sh) = Writer then 1 else 0)
         = has_write (cs ! i) + (if rw_mode_of (ws_write_lock sh') = Writer then 1 else 0)"
      "rw_mode_of (ws_write_lock sh') \<in> {Free, Writer}"
    and c: "wf_lock_index (cn_wal c) = wf_lock_index (cn_wal (cs ! i))" "has_guard c = has_guard (cs ! i)"
  shows "locks_inv sh' (cs[i := c])"
proof -
  have "tally (reads_slot j) (cs[i := c]) = tally (reads_slot j) cs" for j
    by (rule tally_same[OF i]) (simp add: reads_slot_def c(1))
  moreover have "tally has_write (cs[i := c]) + has_write (cs ! i) = tally has_write cs + has_write c"
    by (rule tally_update[OF i])
  moreover have "tally has_write cs = (if rw_mode_of (ws_write_lock sh) = Writer then 1 else 0)"
    using inv by (auto simp: locks_inv_def split: if_splits)
  ultimately have "tally has_write (cs[i := c]) = (if rw_mode_of (ws_write_lock sh') = Writer then 1 else 0)"
    using sh'(4) by simp
  then show ?thesis
    using inv sh'(1-3,5) c(2) tally_same[OF i, of has_guard c] \<open>\<And>j. tally (reads_slot j) (cs[i := c]) = tally (reads_slot j) cs\<close>
    by (auto simp: locks_inv_def)
qed

lemma try_write_lock_spec:
  assumes "guards_ok sh"
  shows "if rw_mode_of (ws_write_lock sh) = Free
    then \<exists>l. try_write_lock sh = (True, sh\<lparr>ws_write_lock := l\<rparr>) \<and> rw_ok l \<and> rw_mode_of l = Writer
           \<and> unlock_write_lock (sh\<lparr>ws_write_lock := l\<rparr>) = Some sh
    else try_write_lock sh = (False, sh)"
proof (cases "rw_mode_of (ws_write_lock sh) = Free")
  case True
  then obtain l where l: "rw_write (ws_write_lock sh) = (True, l)" "rw_unlock l = Some (ws_write_lock sh)"
    "rw_ok l" "rw_mode_of l = Writer"
    using write_then_unlock[of "ws_write_lock sh"] assms by (auto simp: guards_ok_def)
  then show ?thesis using True by (auto simp: try_write_lock_def unlock_write_lock_def intro!: exI[of _ l])
next
  case False
  then show ?thesis using write_busy[of "ws_write_lock sh"] assms by (auto simp: guards_ok_def try_write_lock_def)
qed

lemma marks_kept_restart: "restart_marks_kept sh sh' I \<Longrightarrow> marks_kept sh sh'"
  by (auto simp: restart_marks_kept_def marks_kept_def)

text \<open>The result of a begin: the write lock is taken, and either the log is untouched or the
  connection was the only reader, of the database file, and has restarted the log.\<close>

definition write_begun :: "wal_shared \<Rightarrow> wal_file \<Rightarrow> wal_shared \<Rightarrow> wal_file \<Rightarrow> bool" where
  "write_begun sh w sh' w' \<longleftrightarrow>
     (\<exists>l. rw_ok l \<and> rw_mode_of l = Writer \<and> wf_max_frame w = ws_max_frame sh \<and>
       (let sh1 = sh\<lparr>ws_write_lock := l\<rparr>
        in relocked sh1 sh' (slot_mode sh1) \<and> marks_kept sh1 sh' \<and> w' = w\<lparr>wf_write_lock_held := True\<rparr>
           \<or> (\<exists>rnd shr. wf_lock_index w = 0 \<and> slot_mode sh 0 = Readers 1 \<and> ws_nbackfills sh = ws_max_frame sh
                \<and> (\<forall>i. 1 \<le> i \<and> i < 5 \<longrightarrow> slot_mode sh i = Free)
                \<and> restarted sh1 rnd (\<lambda>i. if i = 0 then Readers 1 else Free) shr
                \<and> sh' = snd (bump_checkpoint_epoch shr)
                \<and> w' = apply_restart_snapshot (w\<lparr>wf_write_lock_held := True\<rparr>) (load_snapshot shr))))"

lemma begin_write_spec:
  assumes ok: "guards_ok sh" and eq: "wal_begin_write_tx sh w rnd = Some (r, sh', w')"
  shows "sh' = sh \<and> w' = w \<or>
    wf_lock_index w \<noteq> NO_LOCK_HELD \<and> \<not> wf_write_lock_held w \<and> rw_mode_of (ws_write_lock sh) = Free \<and> write_begun sh w sh' w'"
proof (cases "rw_mode_of (ws_write_lock sh) = Free")
  case False
  then show ?thesis using eq try_write_lock_spec[OF ok]
    by (auto simp: wal_begin_write_tx_def coord_try_begin_write_tx_def split: if_splits)
next
  case True
  then obtain l where l: "try_write_lock sh = (True, sh\<lparr>ws_write_lock := l\<rparr>)" "rw_ok l" "rw_mode_of l = Writer"
    "unlock_write_lock (sh\<lparr>ws_write_lock := l\<rparr>) = Some sh"
    using try_write_lock_spec[OF ok] by auto
  define sh1 where "sh1 = sh\<lparr>ws_write_lock := l\<rparr>"
  have pre: "wf_lock_index w \<noteq> NO_LOCK_HELD" "\<not> wf_write_lock_held w" using eq by (auto simp: wal_begin_write_tx_def split: if_splits)
  show ?thesis
  proof (cases "db_changed_against (load_snapshot sh1) (connection_state w)")
    case T: True
    then show ?thesis using eq pre l by (auto simp: wal_begin_write_tx_def coord_try_begin_write_tx_def coord_end_write_tx_def sh1_def)
  next
    case False
    then have mx: "wf_max_frame w = ws_max_frame sh"
      by (simp add: db_changed_against_def load_snapshot_def connection_state_def sh1_def)
    have slots: "slot_mode sh1 j = slot_mode sh j" for j by (rule slot_frame) (simp add: sh1_def)
    have ok1: "locks_ok sh1" using ok by (simp add: sh1_def guards_ok_def locks_ok_def)
    define w1 where "w1 = w\<lparr>wf_write_lock_held := True\<rparr>"
    obtain r2 sh2 w2 where tr: "try_restart_log_before_write sh1 w1 rnd = Some (r2, sh2, w2)"
      and fin: "(if r2 = Inl Busy \<or> r2 = Inr () then Some (Inr (), sh2, w2)
         else do { sh3 \<leftarrow> coord_end_write_tx sh2; Some (r2, sh3, w2\<lparr>wf_write_lock_held := False\<rparr>) }) = Some (r, sh', w')"
      using eq pre l(1) False
      by (auto simp: wal_begin_write_tx_def coord_try_begin_write_tx_def sh1_def[symmetric] w1_def[symmetric] elim!: bind_SomeE)
    note spec = try_restart_spec[OF ok1, of rnd]
    have quiet: "write_begun sh w sh' w'" if "sh2 = sh1" "w2 = w1" "r2 = Inr ()"
      using that fin l(2,3) mx ok1 unfolding write_begun_def Let_def w1_def[symmetric] sh1_def by (intro exI[of _ l]) auto
    have "write_begun sh w sh' w'"
    proof (cases "wf_lock_index w = 0 \<and> ws_nbackfills sh \<noteq> 0 \<and> ws_max_frame sh = ws_nbackfills sh")
      case False
      then have "sh2 = sh1 \<and> w2 = w1 \<and> r2 = Inr ()"
        using tr by (auto simp: try_restart_log_before_write_def Let_def load_snapshot_def w1_def sh1_def split: if_splits)
      then show ?thesis using quiet by simp
    next
      case C: True
      have tr': "do { (r, shx) \<leftarrow> try_restart_log_for_write sh1 rnd;
           case r of Inl e \<Rightarrow> Some (Inl e, shx, w1) | Inr None \<Rightarrow> Some (Inr (), shx, w1)
           | Inr (Some restart_snapshot) \<Rightarrow>
               Some (Inr (), snd (bump_checkpoint_epoch shx), apply_restart_snapshot w1 restart_snapshot) } = Some (r2, sh2, w2)"
        using tr C unfolding w1_def sh1_def by (simp add: try_restart_log_before_write_def Let_def load_snapshot_def)
      consider (no) "slot_mode sh1 0 \<noteq> Readers 1" | (re) "slot_mode sh1 0 = Readers 1" "\<forall>i. 1 \<le> i \<and> i < 5 \<longrightarrow> slot_mode sh1 i = Free"
        | (busy) "slot_mode sh1 0 = Readers 1" "\<not> (\<forall>i. 1 \<le> i \<and> i < 5 \<longrightarrow> slot_mode sh1 i = Free)" by blast
      then show ?thesis
      proof cases
        case no
        then have "try_restart_log_for_write sh1 rnd = Some (Inr None, sh1)" using spec by simp
        then show ?thesis using tr' quiet by simp
      next
        case re
        then obtain shr where shr: "try_restart_log_for_write sh1 rnd = Some (Inr (Some (load_snapshot shr)), shr)"
          "restarted sh1 rnd (\<lambda>i. if i = 0 then Readers 1 else Free) shr"
          using spec[unfolded if_P[OF re(2)]] re(1) by auto
        then have "sh' = snd (bump_checkpoint_epoch shr)" "w' = apply_restart_snapshot w1 (load_snapshot shr)"
          using tr' fin by auto
        then show ?thesis using C re[unfolded slots] shr(2) l(2,3) mx unfolding write_begun_def Let_def w1_def[symmetric] sh1_def
          by (intro exI[of _ l] conjI disjI2 exI[of _ rnd] exI[of _ shr]) auto
      next
        case busy
        obtain shb where shb: "try_restart_log_for_write sh1 rnd = Some (Inl Busy, shb)"
          "relocked sh1 shb (slot_mode sh1)" "restart_marks_kept sh1 shb {1..<5}"
          using spec[unfolded if_not_P[OF busy(2)]] busy(1) by auto
        then have "sh' = shb" "w' = w1" using tr' fin by auto
        then show ?thesis using shb(2) marks_kept_restart[OF shb(3)] l(2,3) mx
          unfolding write_begun_def Let_def w1_def[symmetric] sh1_def by (intro exI[of _ l]) auto
      qed
    qed
    then show ?thesis using pre True by simp
  qed
qed

lemma log_same_frame:
  assumes "ws_max_frame sh' = ws_max_frame sh" "ws_nbackfills sh' = ws_nbackfills sh"
    "ws_initialized sh \<Longrightarrow> ws_initialized sh'" "ws_frame_cache sh' = ws_frame_cache sh"
  shows "log_same sh sh'"
  using assms by (simp add: log_same_def)

lemma no_guard_idle:
  assumes inv: "sys_inv_at base K bound s" and free: "slot_mode (sy_shared s) 0 \<noteq> Writer" and j: "j < length (sy_conns s)"
  shows "oc_state (wf_ongoing (cn_wal (sy_conns s ! j))) = CkStart"
proof (rule ccontr)
  assume "oc_state (wf_ongoing (cn_wal (sy_conns s ! j))) \<noteq> CkStart"
  then have "conn_guard (sy_conns s ! j) \<noteq> None"
    using inv_conn(2)[OF inv j] by (auto simp: ckpt_ok_def Let_def conn_guard_def)
  then have "0 < tally has_guard (sy_conns s)"
    using tally_ge[OF j, of has_guard] by (simp add: has_guard_def)
  then show False using inv_conn(3)[OF inv j] free by (simp add: locks_inv_def)
qed

lemma only_reader:
  assumes inv: "locks_inv sh cs" and i: "i < length cs" and j: "j < length cs" "j \<noteq> i"
    and own: "wf_lock_index (cn_wal (cs ! i)) = 0" and modes: "slot_mode sh 0 = Readers 1"
      "\<forall>k. 1 \<le> k \<and> k < 5 \<longrightarrow> slot_mode sh k = Free"
  shows "\<not> wf_lock_index (cn_wal (cs ! j)) < 5"
proof
  assume lt: "wf_lock_index (cn_wal (cs ! j)) < 5"
  show False
  proof (cases "wf_lock_index (cn_wal (cs ! j)) = 0")
    case True
    then have "2 \<le> tally (reads_slot 0) cs" using tally_ge2[OF i j(1), of "reads_slot 0"] own j(2) by (simp add: reads_slot_def)
    moreover have "reader_count (slot_mode sh 0) = tally (reads_slot 0) cs" using inv by (simp add: locks_inv_def)
    ultimately show False using modes(1) by simp
  next
    case False
    then show False using locks_inv_reader(1)[OF inv j(1) refl lt] modes(2) lt by simp
  qed
qed

lemma act_write_begin_inv:
  assumes inv: "sys_inv_at base K bound s" and i: "i < length (sy_conns s)" and act: "act_write_begin s i rnd = Some s'"
  shows "sys_inv s'"
proof -
  define c where "c = sy_conns s ! i"
  define sh where "sh = sy_shared s"
  note ok = inv_conn[OF inv i, folded c_def sh_def]
  obtain r sh' w where st: "conn_idle c" "wal_begin_write_tx sh (cn_wal c) rnd = Some (r, sh', w)"
    "s' = sys_put s i sh' (c\<lparr>cn_wal := w\<rparr>)"
    using act by (auto simp: act_write_begin_def Let_def c_def sh_def elim!: bind_SomeE split: if_splits)
  have idle: "oc_state (wf_ongoing (cn_wal c)) = CkStart" "cn_result c = None" "cn_loaded c = None" "wf_checkpoint_guard (cn_wal c) = None"
    using ok(2) st(1) by (auto simp: ckpt_ok_def Let_def conn_idle_def)
  show ?thesis
  proof (cases "sh' = sh \<and> w = cn_wal c")
    case True
    then have "s' = s" using i by (simp add: st(3) sys_put_def sh_def c_def)
    then show ?thesis using inv by (auto simp: sys_inv_def)
  next
    case False
    then have pre: "wf_lock_index (cn_wal c) \<noteq> NO_LOCK_HELD" "\<not> wf_write_lock_held (cn_wal c)"
      "rw_mode_of (ws_write_lock sh) = Free" "write_begun sh (cn_wal c) sh' w"
      using begin_write_spec[OF ok(4) st(2)] by auto
    obtain l where l: "rw_ok l" "rw_mode_of l = Writer" and mx: "wf_max_frame (cn_wal c) = ws_max_frame sh"
      and how: "let sh1 = sh\<lparr>ws_write_lock := l\<rparr>
        in relocked sh1 sh' (slot_mode sh1) \<and> marks_kept sh1 sh' \<and> w = (cn_wal c)\<lparr>wf_write_lock_held := True\<rparr>
           \<or> (\<exists>rnd shr. wf_lock_index (cn_wal c) = 0 \<and> slot_mode sh 0 = Readers 1 \<and> ws_nbackfills sh = ws_max_frame sh
                \<and> (\<forall>i. 1 \<le> i \<and> i < 5 \<longrightarrow> slot_mode sh i = Free)
                \<and> restarted sh1 rnd (\<lambda>i. if i = 0 then Readers 1 else Free) shr
                \<and> sh' = snd (bump_checkpoint_epoch shr)
                \<and> w = apply_restart_snapshot ((cn_wal c)\<lparr>wf_write_lock_held := True\<rparr>) (load_snapshot shr))"
      using pre(4) unfolding write_begun_def by blast
    define sh1 where "sh1 = sh\<lparr>ws_write_lock := l\<rparr>"
    note slots = slot_frame[of sh1 sh, unfolded sh1_def, simplified, folded sh1_def]
    have gok1: "guards_ok sh1" using ok(4) l by (simp add: guards_ok_def slots) (simp add: sh1_def)
    have take: "locks_inv sh' ((sy_conns s)[i := c\<lparr>cn_wal := w\<rparr>])"
      if "guards_ok sh'" "\<And>j. j < 5 \<Longrightarrow> slot_mode sh' j = slot_mode sh j" "other_locks_same sh1 sh'"
        "wf_lock_index w = wf_lock_index (cn_wal c)" "wf_checkpoint_guard w = None" "wf_write_lock_held w"
      by (rule locks_inv_take_write[OF ok(3) i])
        (use that pre idle l in \<open>simp_all add: other_locks_same_def sh1_def has_write_def has_guard_def conn_guard_idle c_def[symmetric]\<close>)
    from how[unfolded Let_def, folded sh1_def] show ?thesis
    proof (elim disjE exE conjE)
      assume sh': "relocked sh1 sh' (slot_mode sh1)" "marks_kept sh1 sh'" and w: "w = (cn_wal c)\<lparr>wf_write_lock_held := True\<rparr>"
      have modes: "slot_mode sh' j = slot_mode sh j" if "j < 5" for j using sh'(1) that by (simp add: relocked_def slots)
      have ls1: "log_same sh sh1" by (rule log_same_frame) (simp_all add: sh1_def)
      have ls: "log_same sh sh'" using log_same_trans[OF ls1] sh'(1) by (simp add: relocked_def)
      have mk: "marks_kept sh sh'" using sh'(2) by (simp add: marks_kept_def slots)
      have "sys_inv_at base K bound s'"
        unfolding st(3)
      proof (rule sys_inv_quiet[OF inv i, folded sh_def, OF ls mk])
        show "slot_mode sh' j = Writer \<or> (\<forall>k < length (sy_conns s). k \<noteq> i \<longrightarrow> oc_state (wf_ongoing (cn_wal (sy_conns s ! k))) = CkStart)"
          if "j < 5" "slot_mode sh j = Writer" for j using that modes by simp
        show "locks_inv sh' ((sy_conns s)[i := c\<lparr>cn_wal := w\<rparr>])"
          by (rule take) (use guards_ok_relocked[OF gok1 sh'(1)] modes sh'(1) idle w in \<open>simp_all add: relocked_def\<close>)
        have "mark sh' (wf_lock_index (cn_wal c)) = mark sh (wf_lock_index (cn_wal c))" if "wf_lock_index (cn_wal c) < 5"
          using mk locks_inv_reader(1)[OF ok(3) i refl, folded c_def] that by (simp add: marks_kept_def)
        then have "read_ok sh' (sy_log s) base bound c" by (intro read_ok_same[OF ok(1) ls]) auto
        then show "read_ok sh' (sy_log s) base bound (c\<lparr>cn_wal := w\<rparr>)"
          using pre(1) mx ls by (simp add: read_ok_def Let_def w log_same_def)
        show "ckpt_ok sh' (sy_log s) (sy_db s) base K bound (sy_last s = i) (c\<lparr>cn_wal := w\<rparr>)"
          using idle by (simp add: ckpt_ok_idle w)
      qed
      then show ?thesis by (auto simp: sys_inv_def)
    next
      fix rnd' shr
      assume z: "wf_lock_index (cn_wal c) = 0" "slot_mode sh 0 = Readers 1" "ws_nbackfills sh = ws_max_frame sh"
          "\<forall>i. 1 \<le> i \<and> i < 5 \<longrightarrow> slot_mode sh i = Free"
        and re: "restarted sh1 rnd' (\<lambda>i. if i = 0 then Readers 1 else Free) shr"
        and sh': "sh' = snd (bump_checkpoint_epoch shr)"
        and w: "w = apply_restart_snapshot ((cn_wal c)\<lparr>wf_write_lock_held := True\<rparr>) (load_snapshot shr)"
      note rs = fc_get_restarted[OF re]
      have ls: "log_same shr sh'" by (rule log_same_frame) (simp_all add: sh' bump_checkpoint_epoch_def)
      have fr: "slot_mode sh' j = slot_mode shr j" "locks_ok sh' = locks_ok shr" for j
        using slot_frame[of sh' shr] by (simp_all add: sh' bump_checkpoint_epoch_def)
      have oth: "other_locks_same sh1 sh'" using rs by (simp add: sh' bump_checkpoint_epoch_def other_locks_same_def)
      have gok: "guards_ok sh'" using gok1 oth rs by (simp add: guards_ok_def fr other_locks_same_def)
      have modes: "slot_mode sh' j = slot_mode sh j" if "j < 5" for j
        using re z(2,4) that by (simp add: fr restarted_def)
      have K: "ws_max_frame sh \<le> K" using inv z(3) by (simp add: sys_inv_at_def db_ok_def sh_def)
      have w': "wf_lock_index w = 0" "wf_max_frame w = 0" "wf_min_frame w = 0" "wf_checkpoint_guard w = None"
        "wf_write_lock_held w" "wf_unpublished w = wf_unpublished (cn_wal c)" "wf_ongoing w = wf_ongoing (cn_wal c)"
        using z(1) idle rs by (simp_all add: w apply_restart_snapshot_def load_snapshot_def)
      have snap: "cn_snap c p = sy_db s p" for p
        using ok(1) z(1) mx db_is_committed[OF inv] K inv by (simp add: read_ok_def Let_def sh_def sys_inv_at_def)
      have cont: "content sh' (sy_log s) (sy_db s) k p = sy_db s p" for k p
        using content_log_same[OF ls, of "sy_log s" "sy_db s" k p] rs by (simp add: content_def newest_def)
      have "sys_inv_at (sy_db s) 0 0 s'"
        unfolding st(3)
      proof (rule sys_inv_restart[OF inv i _ re _ _ _ _ ls])
        show "ws_max_frame (sy_shared s) \<le> K" using K by (simp add: sh_def)
        show "wf_lock_index (cn_wal (sy_conns s ! j)) = NO_LOCK_HELD" if j: "j < length (sy_conns s)" "j \<noteq> i" for j
          using only_reader[OF ok(3) i j _ z(2,4)] z(1) inv_conn(1)[OF inv j(1)] by (auto simp: read_ok_def Let_def c_def)
        show "oc_state (wf_ongoing (cn_wal (sy_conns s ! j))) = CkStart" if j: "j < length (sy_conns s)" for j
          by (rule no_guard_idle[OF inv _ j]) (use z(2) in \<open>simp add: sh_def\<close>)
        show "sy_last s = i \<or> ws_nbackfills (sy_shared s) = ws_max_frame (sy_shared s)" using z(3) by (simp add: sh_def)
        show "locks_inv sh' ((sy_conns s)[i := c\<lparr>cn_wal := w\<rparr>])" by (rule take[OF gok modes oth]) (use w' z in auto)
        show "read_ok sh' (sy_log s) (sy_db s) 0 (c\<lparr>cn_wal := w\<rparr>)"
          using ok(1) rs ls snap cont idle by (simp add: read_ok_def Let_def w' log_same_def)
        show "ckpt_ok sh' (sy_log s) (sy_db s) (sy_db s) 0 0 (sy_last s = i) (c\<lparr>cn_wal := w\<rparr>)"
          using idle by (simp add: ckpt_ok_idle w')
      qed
      then show ?thesis by (auto simp: sys_inv_def)
    qed
  qed
qed

section \<open>Commits\<close>

text \<open>The frames of a commit: the pages in their order, numbered from \<open>k\<close>.\<close>

fun numbered :: "nat \<Rightarrow> (nat \<times> bytes) list \<Rightarrow> (nat \<times> nat \<times> (u32 \<times> u32)) list \<Rightarrow> bool" where
  "numbered k [] md \<longleftrightarrow> md = []"
| "numbered k (page # pages) [] \<longleftrightarrow> False"
| "numbered k (page # pages) ((p, f, c) # md) \<longleftrightarrow> p = fst page \<and> f = k \<and> numbered (k + 1) pages md"

definition frames_of :: "nat \<Rightarrow> (nat \<times> nat \<times> (u32 \<times> u32)) list \<Rightarrow> nat list" where
  "frames_of p md = map (\<lambda>(p, f, c). f) (filter (\<lambda>x. fst x = p) md)"

lemma numbered_append: "numbered k xs a \<Longrightarrow> numbered (k + length xs) ys b \<Longrightarrow> numbered k (xs @ ys) (a @ b)"
  by (induction k xs a rule: numbered.induct) auto

lemma prepare_frames_loop_numbered:
  "prepare_frames_loop big h ck k db pages = Some (bufs, md, final, next) \<Longrightarrow> numbered k pages md \<and> next = k + length pages"
proof (induction pages arbitrary: ck k bufs md final)
  case (Cons page pages)
  obtain p d where page: "page = (p, d)" by (cases page)
  obtain ck' buf bufs' md' where st: "prepare_frames_loop big h ck' (k + 1) db pages = Some (bufs', md', final, next)"
    "md = (p, k, ck') # md'"
    using Cons.prems by (auto simp: page elim!: bind_SomeE)
  from Cons.IH[OF st(1)] show ?case by (simp add: st(2) page)
qed simp

lemma prepare_frames_numbered:
  assumes "prepare_frames big sh w pages page_sz db_size prev = Some (pf, w1)"
  shows "\<exists>ck k. next_frame_seed sh w prev = ((ck, k), w1) \<and> numbered k pages (pf_metadata pf)
    \<and> pf_final_max_frame pf = k + length pages - 1 \<and> pages \<noteq> []"
  using assms by (auto simp: prepare_frames_def Let_def dest!: prepare_frames_loop_numbered
      elim!: bind_SomeE split: if_splits prod.splits)

lemma prepare_batches_chain:
  "prepare_batches big sh w page_sz db_size (Some p) bs = Some (ps, w2) \<Longrightarrow>
     w2 = w \<and> numbered (pf_final_max_frame p + 1) (concat bs) (concat (map pf_metadata ps))
     \<and> pf_final_max_frame (last (p # ps)) = pf_final_max_frame p + length (concat bs)"
proof (induction bs arbitrary: w p ps)
  case (Cons b bs)
  obtain pf w1 rest where st: "prepare_frames big sh w b page_sz (if bs = [] then Some db_size else None) (Some p) = Some (pf, w1)"
    "prepare_batches big sh w1 page_sz db_size (Some pf) bs = Some (rest, w2)" "ps = pf # rest"
    using Cons.prems by (auto elim!: bind_SomeE)
  have pf: "w1 = w" "numbered (pf_final_max_frame p + 1) b (pf_metadata pf)"
    "pf_final_max_frame pf = pf_final_max_frame p + length b"
    using prepare_frames_numbered[OF st(1)] by (auto simp: next_frame_seed_def)
  from Cons.IH[OF st(2)] pf numbered_append[OF pf(2)] show ?case by (simp add: st(3))
qed simp

lemma concat_iov_batches [simp]: "concat (iov_batches xs) = xs"
  by (induction xs rule: iov_batches.induct) (subst iov_batches.simps, simp)

lemma complete_frames_spec:
  "complete_frames sh w md = (sh', w') \<Longrightarrow>
    \<exists>fc ck m. sh' = sh\<lparr>ws_frame_cache := fc\<rparr> \<and> w' = w\<lparr>wf_last_checksum := ck, wf_max_frame := m\<rparr>
      \<and> (\<forall>p. fc_get fc p = fc_get (ws_frame_cache sh) p @ frames_of p md)
      \<and> (distinct (map fst (ws_frame_cache sh)) \<longrightarrow> distinct (map fst fc))"
proof (induction sh w md rule: complete_frames.induct)
  case (1 sh w)
  then have "sh' = sh" "w' = w" by auto
  then show ?case
    by (intro exI[of _ "ws_frame_cache sh"] exI[of _ "wf_last_checksum w"] exI[of _ "wf_max_frame w"]) (simp add: frames_of_def)
next
  case (2 sh w page f ck md)
  from 2(1)[OF complete_append_frame_def[symmetric]] 2(2)
  obtain fc ck' m where ih: "sh' = (cache_frame sh page f)\<lparr>ws_frame_cache := fc\<rparr>"
    "w' = (w\<lparr>wf_last_checksum := ck, wf_max_frame := f\<rparr>)\<lparr>wf_last_checksum := ck', wf_max_frame := m\<rparr>"
    "\<forall>p. fc_get fc p = fc_get (ws_frame_cache (cache_frame sh page f)) p @ frames_of p md"
    "distinct (map fst (ws_frame_cache (cache_frame sh page f))) \<longrightarrow> distinct (map fst fc)"
    by (auto simp: complete_append_frame_def)
  then show ?case
    by (intro exI[of _ fc] exI[of _ ck'] exI[of _ m]) (auto simp: cache_frame_def frames_of_def)
qed

lemma commit_prepared_frames_spec:
  "commit_prepared_frames sh w ps = (sh', w') \<Longrightarrow>
    \<exists>fc. sh' = sh\<lparr>ws_frame_cache := fc\<rparr>
      \<and> w' = w\<lparr>wf_last_checksum := (if ps = [] then wf_last_checksum w else pf_final_checksum (last ps)),
                wf_max_frame := (if ps = [] then wf_max_frame w else pf_final_max_frame (last ps))\<rparr>
      \<and> (\<forall>p. fc_get fc p = fc_get (ws_frame_cache sh) p @ frames_of p (concat (map pf_metadata ps)))
      \<and> (distinct (map fst (ws_frame_cache sh)) \<longrightarrow> distinct (map fst fc))"
proof (induction ps arbitrary: sh w)
  case Nil
  then have "sh' = sh" "w' = w" by auto
  then show ?case by (intro exI[of _ "ws_frame_cache sh"]) (simp add: frames_of_def)
next
  case (Cons b ps)
  obtain sh1 w1 where cf: "complete_frames sh w (pf_metadata b) = (sh1, w1)" by fastforce
  obtain fc1 ck1 m1 where s1: "sh1 = sh\<lparr>ws_frame_cache := fc1\<rparr>" "w1 = w\<lparr>wf_last_checksum := ck1, wf_max_frame := m1\<rparr>"
    "\<forall>p. fc_get fc1 p = fc_get (ws_frame_cache sh) p @ frames_of p (pf_metadata b)"
    "distinct (map fst (ws_frame_cache sh)) \<longrightarrow> distinct (map fst fc1)"
    using complete_frames_spec[OF cf] by auto
  from Cons.IH[of sh1 "w1\<lparr>wf_last_checksum := pf_final_checksum b, wf_max_frame := pf_final_max_frame b\<rparr>"] Cons.prems cf
  obtain fc where s2: "sh' = sh1\<lparr>ws_frame_cache := fc\<rparr>"
    "w' = w1\<lparr>wf_last_checksum := pf_final_checksum (last (b # ps)), wf_max_frame := pf_final_max_frame (last (b # ps))\<rparr>"
    "\<forall>p. fc_get fc p = fc_get (ws_frame_cache sh1) p @ frames_of p (concat (map pf_metadata ps))"
    "distinct (map fst (ws_frame_cache sh1)) \<longrightarrow> distinct (map fst fc)"
    by (auto split: if_splits)
  show ?case using s1 s2 by (intro exI[of _ fc]) (auto simp: frames_of_def)
qed

text \<open>What a commit does to the connection, and to the shared state when it fails and when it succeeds.\<close>

definition conn_same :: "nat \<Rightarrow> wal_file \<Rightarrow> wal_file \<Rightarrow> bool" where
  "conn_same nb w w' \<longleftrightarrow>
     wf_lock_index w' = wf_lock_index w \<and> wf_write_lock_held w' = wf_write_lock_held w \<and> \<not> wf_unpublished w'
     \<and> wf_checkpoint_guard w' = wf_checkpoint_guard w \<and> wf_ongoing w' = wf_ongoing w
     \<and> (wf_min_frame w' = wf_min_frame w \<or> wf_min_frame w' = nb + 1)"

definition committed_log :: "wal_shared \<Rightarrow> (nat \<times> bytes) list \<Rightarrow> (nat \<times> nat \<times> (u32 \<times> u32)) list \<Rightarrow> wal_shared \<Rightarrow> bool" where
  "committed_log sh pages md sh' \<longleftrightarrow>
     numbered (ws_max_frame sh + 1) pages md
     \<and> ws_max_frame sh' = ws_max_frame sh + length pages \<and> ws_nbackfills sh' = ws_nbackfills sh
     \<and> (\<forall>p. fc_get (ws_frame_cache sh') p = fc_get (ws_frame_cache sh) p @ frames_of p md)
     \<and> (distinct (map fst (ws_frame_cache sh)) \<longrightarrow> distinct (map fst (ws_frame_cache sh')))
     \<and> (pages \<noteq> [] \<longrightarrow> ws_initialized sh') \<and> (ws_initialized sh \<longrightarrow> ws_initialized sh')"

lemma committed_log_Nil: "committed_log sh [] [] sh' \<longleftrightarrow>
    ws_max_frame sh' = ws_max_frame sh \<and> ws_nbackfills sh' = ws_nbackfills sh \<and> (ws_initialized sh \<longrightarrow> ws_initialized sh')
    \<and> (\<forall>p. fc_get (ws_frame_cache sh') p = fc_get (ws_frame_cache sh) p)
     \<and> (distinct (map fst (ws_frame_cache sh)) \<longrightarrow> distinct (map fst (ws_frame_cache sh')))"
  by (auto simp: committed_log_def frames_of_def)

lemma conn_same_trans: "conn_same nb a b \<Longrightarrow> conn_same nb b c \<Longrightarrow> conn_same nb a c"
  by (auto simp: conn_same_def)

lemma prepare_wal_start_spec:
  assumes "prepare_wal_start big sh w rnd1 rnd2 page_sz file_len = Some (r, sh', w')"
    and "\<not> ws_initialized sh \<longrightarrow> ws_max_frame sh = 0" "wf_max_frame w = ws_max_frame sh" "\<not> wf_unpublished w"
  shows "\<exists>h ck. sh' = sh\<lparr>ws_wal_header := h, ws_last_checksum := ck\<rparr>" "conn_same nb w w'" "wf_max_frame w' = ws_max_frame sh"
    "(\<exists>e. r = Inl e) \<or> ws_initialized sh \<or> r \<noteq> Inr None"
proof -
  have "(\<exists>h ck. sh' = sh\<lparr>ws_wal_header := h, ws_last_checksum := ck\<rparr>) \<and> conn_same nb w w' \<and> wf_max_frame w' = ws_max_frame sh
    \<and> ((\<exists>e. r = Inl e) \<or> ws_initialized sh \<or> r \<noteq> Inr None)"
  proof (cases "ws_initialized sh")
    case True
    then have "sh' = sh" "w' = w" using assms(1) by (auto simp: prepare_wal_start_def)
    moreover have "\<exists>h ck. sh = sh\<lparr>ws_wal_header := h, ws_last_checksum := ck\<rparr>"
      by (rule exI[of _ "ws_wal_header sh"], rule exI[of _ "ws_last_checksum sh"]) simp
    ultimately show ?thesis using assms(3,4) True by (simp add: conn_same_def)
  next
    case False
    obtain h sh1 where ph: "prepare_wal_header big sh rnd1 rnd2 page_sz = Some (Some h, sh1)"
      and sh1: "sh1 = sh\<lparr>ws_wal_header := h, ws_last_checksum := (wh_checksum_1 h, wh_checksum_2 h)\<rparr>"
      using assms(1) False by (auto simp: prepare_wal_start_def prepare_wal_header_def Let_def elim!: bind_SomeE)
    have "sh' = sh1 \<and> w' = w\<lparr>wf_last_checksum := (wh_checksum_1 h, wh_checksum_2 h), wf_max_frame := 0\<rparr> \<and> r \<noteq> Inr None"
      using assms(1) False ph by (auto simp: prepare_wal_start_def Let_def elim!: bind_SomeE split: sum.splits)
    then show ?thesis using sh1 False assms(2,4) by (auto simp: conn_same_def)
  qed
  then show "\<exists>h ck. sh' = sh\<lparr>ws_wal_header := h, ws_last_checksum := ck\<rparr>" "conn_same nb w w'" "wf_max_frame w' = ws_max_frame sh"
    "(\<exists>e. r = Inl e) \<or> ws_initialized sh \<or> r \<noteq> Inr None" by blast+
qed

lemma guard_index_inverse [simp]: "guard_lock_index (guard_from_lock_index i) = i"
  by (simp add: guard_from_lock_index_def)

lemma next_frame_seed_first:
  assumes "next_frame_seed sh w None = ((ck, k), w')" "wf_max_frame w = ws_max_frame sh" "\<not> wf_unpublished w"
  shows "k = ws_max_frame sh + 1" "conn_same (ws_nbackfills sh) w w'" "wf_max_frame w' = ws_max_frame sh"
  using assms
  by (auto simp: next_frame_seed_def Let_def load_snapshot_def connection_state_def install_connection_state_def
      with_snapshot_def conn_same_def snapshot_min_frame_def split: if_splits)

lemma prepare_batches_first:
  assumes "prepare_batches big sh w page_sz db_size None bs = Some (ps, w2)" "bs \<noteq> []"
    and "wf_max_frame w = ws_max_frame sh" "\<not> wf_unpublished w"
  shows "numbered (ws_max_frame sh + 1) (concat bs) (concat (map pf_metadata ps))"
    "conn_same (ws_nbackfills sh) w w2" "wf_max_frame w2 = ws_max_frame sh" "ps \<noteq> []"
    "pf_final_max_frame (last ps) = ws_max_frame sh + length (concat bs)" "ws_initialized sh"
proof -
  obtain b bs' where bs: "bs = b # bs'" using assms(2) by (cases bs) auto
  obtain pf w1 rest where st: "prepare_frames big sh w b page_sz (if bs' = [] then Some db_size else None) None = Some (pf, w1)"
    "prepare_batches big sh w1 page_sz db_size (Some pf) bs' = Some (rest, w2)" "ps = pf # rest"
    using assms(1) by (auto simp: bs elim!: bind_SomeE)
  obtain ck k where pf: "next_frame_seed sh w None = ((ck, k), w1)" "numbered k b (pf_metadata pf)"
    "pf_final_max_frame pf = k + length b - 1" "b \<noteq> []"
    using prepare_frames_numbered[OF st(1)] by auto
  note seed = next_frame_seed_first[OF pf(1) assms(3,4)]
  note rest = prepare_batches_chain[OF st(2)]
  show "numbered (ws_max_frame sh + 1) (concat bs) (concat (map pf_metadata ps))"
    using numbered_append[OF pf(2)] rest seed(1) pf(3,4) by (simp add: st(3) bs)
  show "conn_same (ws_nbackfills sh) w w2" "wf_max_frame w2 = ws_max_frame sh" "ps \<noteq> []" using rest seed by (auto simp: st(3))
  show "pf_final_max_frame (last ps) = ws_max_frame sh + length (concat bs)" using rest seed(1) pf(3,4) by (simp add: st(3) bs)
  show "ws_initialized sh" using st(1) by (auto simp: prepare_frames_def split: if_splits)
qed

lemma iov_batches_Nil [simp]: "iov_batches xs = [] \<longleftrightarrow> xs = []"
  by (subst iov_batches.simps) simp

text \<open>A failed commit leaves the log as it was, a successful one appends the frames.\<close>

lemma wal_commit_spec:
  assumes eq: "wal_commit big sh w rnd1 rnd2 page_sz file_len io_ok db_size pages = Some (r, sh', w')"
    and pre: "\<not> ws_initialized sh \<longrightarrow> ws_max_frame sh = 0" "wf_max_frame w = ws_max_frame sh" "\<not> wf_unpublished w"
  shows "conn_same (ws_nbackfills sh) w w' \<and> wf_max_frame w' = ws_max_frame sh'
    \<and> ws_read_locks sh' = ws_read_locks sh \<and> other_locks_same sh sh'
    \<and> (case r of Inl e \<Rightarrow> log_same sh sh' | Inr ps \<Rightarrow> committed_log sh pages (concat (map pf_metadata ps)) sh')"
proof -
  obtain r1 sh1 w1 where start: "prepare_wal_start big sh w rnd1 rnd2 page_sz file_len = Some (r1, sh1, w1)"
    using eq by (auto simp: wal_commit_def elim!: bind_SomeE)
  note s1 = prepare_wal_start_spec[OF start pre]
  obtain h ck where sh1: "sh1 = sh\<lparr>ws_wal_header := h, ws_last_checksum := ck\<rparr>" using s1(1) by blast
  have unpub: "\<not> wf_unpublished w1" using s1(2) by (simp add: conn_same_def)
  show ?thesis
  proof (cases r1)
    case (Inl e)
    then show ?thesis using eq start s1(2,3) by (auto simp: wal_commit_def sh1 log_same_def other_locks_same_def)
  next
    case (Inr started)
    obtain r2 sh2 where fin: "(if started = None then Some (Inr (), sh1) else prepare_wal_finish sh1) = Some (r2, sh2)"
      and eq2: "(case r2 of
               Inl e \<Rightarrow> Some (Inl e, sh2, w1)
             | Inr _ \<Rightarrow>
                 if pages = [] then Some (Inr [], sh2, w1)
                 else do {
                   (prepared, w2) \<leftarrow> prepare_batches big sh2 w1 page_sz db_size None (iov_batches pages);
                   if \<not> io_ok then Some (Inl InternalError, sh2, w2)
                   else (case commit_prepared_frames sh2 w2 prepared of
                           (sh3, w3) \<Rightarrow>
                             (case finish_append_frames_commit sh3 w3 of (sh4, w4) \<Rightarrow> Some (Inr prepared, sh4, w4)))
                 }) = Some (r, sh', w')"
      using eq start Inr by (auto simp: wal_commit_def elim!: bind_SomeE)
    have sh2: "log_same sh sh2" "other_locks_same sh sh2" "ws_read_locks sh2 = ws_read_locks sh" "ws_frame_cache sh2 = ws_frame_cache sh"
      using fin by (auto simp: sh1 log_same_def other_locks_same_def prepare_wal_finish_def mark_initialized_def
          elim!: bind_SomeE split: if_splits sum.splits)
    have mx: "wf_max_frame w1 = ws_max_frame sh2" "ws_nbackfills sh2 = ws_nbackfills sh" "ws_max_frame sh2 = ws_max_frame sh"
      using s1(3) sh2(1) by (simp_all add: log_same_def)
    consider "r2 = Inr ()" "pages \<noteq> []" | "\<exists>e. r2 = Inl e" | "r2 = Inr ()" "pages = []" by (cases r2) auto
    then show ?thesis
    proof cases
      case 2
      then show ?thesis using eq2 sh2 s1(2) mx by auto
    next
      case 3
      then have res: "r = Inr []" "sh' = sh2" "w' = w1" using eq2 by auto
      have "committed_log sh [] [] sh2" using sh2 by (simp add: committed_log_Nil log_same_def)
      then show ?thesis using res sh2 s1(2) mx 3(2) by simp
    next
      case 1
      obtain ps w2 where pb: "prepare_batches big sh2 w1 page_sz db_size None (iov_batches pages) = Some (ps, w2)"
        and eq3: "(if \<not> io_ok then Some (Inl InternalError, sh2, w2)
                   else (case commit_prepared_frames sh2 w2 ps of
                           (sh3, w3) \<Rightarrow>
                             (case finish_append_frames_commit sh3 w3 of (sh4, w4) \<Rightarrow> Some (Inr ps, sh4, w4)))) = Some (r, sh', w')"
        using eq2 1 by (auto elim!: bind_SomeE)
      have ne: "iov_batches pages \<noteq> []" using 1 by simp
      note p = prepare_batches_first[OF pb ne mx(1) unpub, simplified]
      have same: "conn_same (ws_nbackfills sh) w w2" using conn_same_trans[OF s1(2)] p(2) mx(2) by simp
      show ?thesis
      proof (cases io_ok)
        case False
        then show ?thesis using eq3 same sh2 p(3) by auto
      next
        case True
        obtain sh3 w3 where cp: "commit_prepared_frames sh2 w2 ps = (sh3, w3)" by fastforce
        obtain fc where s3: "sh3 = sh2\<lparr>ws_frame_cache := fc\<rparr>"
          "w3 = w2\<lparr>wf_last_checksum := pf_final_checksum (last ps), wf_max_frame := ws_max_frame sh2 + length pages\<rparr>"
          "\<forall>q. fc_get fc q = fc_get (ws_frame_cache sh2) q @ frames_of q (concat (map pf_metadata ps))"
          "distinct (map fst (ws_frame_cache sh2)) \<longrightarrow> distinct (map fst fc)"
          using commit_prepared_frames_spec[OF cp] p(4,5) by auto
        have res: "r = Inr ps" "sh' = fst (finish_append_frames_commit sh3 w3)" "w' = snd (finish_append_frames_commit sh3 w3)"
          using eq3 True cp by (auto split: prod.splits)
        have "committed_log sh pages (concat (map pf_metadata ps)) sh'"
          using p(1,6) s3 sh2 mx by (simp add: res committed_log_def finish_append_frames_commit_def publish_commit_def Let_def)
        moreover have "conn_same (ws_nbackfills sh) w w'" "wf_max_frame w' = ws_max_frame sh'"
          using same by (simp_all add: res s3 finish_append_frames_commit_def publish_commit_def Let_def conn_same_def)
        moreover have "ws_read_locks sh' = ws_read_locks sh" "other_locks_same sh sh'"
          using sh2 by (simp_all add: res s3 finish_append_frames_commit_def publish_commit_def Let_def other_locks_same_def)
        ultimately show ?thesis using res(1) by simp
      qed
    qed
  qed
qed

lemma log_write_get:
  "numbered k pages md \<Longrightarrow> log_write log md pages f = (if k \<le> f \<and> f < k + length pages then pages ! (f - k) else log f)"
proof (induction k pages md arbitrary: log rule: numbered.induct)
  case (3 k page pages p f' c md)
  then show ?case by (auto simp: nth_Cons' Suc_le_eq not_less_eq_eq)
qed auto


lemma frames_of_range: "numbered k pages md \<Longrightarrow> f \<in> set (frames_of p md) \<Longrightarrow> k \<le> f \<and> f < k + length pages \<and> fst (pages ! (f - k)) = p"
proof (induction k pages md rule: numbered.induct)
  case (3 k page pages p' f' c md)
  then show ?case by (fastforce simp: frames_of_def nth_Cons' split: if_splits)
qed (auto simp: frames_of_def)

lemma frames_of_sorted: "numbered k pages md \<Longrightarrow> sorted_wrt (<) (frames_of p md)"
proof (induction k pages md rule: numbered.induct)
  case (3 k page pages p' f' c md)
  have "k < f" if "f \<in> set (frames_of p md)" for f using frames_of_range[OF _ that, of "k + 1" pages] 3(2) by auto
  then show ?case using 3 by (auto simp: frames_of_def)
qed (auto simp: frames_of_def)

lemma frames_of_empty: "numbered k pages md \<Longrightarrow> frames_of p md = [] \<longleftrightarrow> p \<notin> fst ` set pages"
  by (induction k pages md rule: numbered.induct) (auto simp: frames_of_def)

lemma committed_cache_ok:
  assumes "log_ok sh log" "committed_log sh pages md sh'"
  shows "log_ok sh' (log_write log md pages)"
proof -
  have num: "numbered (ws_max_frame sh + 1) pages md" and get: "\<And>p. fc_get (ws_frame_cache sh') p = fc_get (ws_frame_cache sh) p @ frames_of p md"
    and mx: "ws_max_frame sh' = ws_max_frame sh + length pages"
    using assms(2) by (auto simp: committed_log_def)
  have old: "1 \<le> f" "f \<le> ws_max_frame sh" "fst (log f) = p" if "f \<in> set (fc_get (ws_frame_cache sh) p)" for p f
    using assms(1) that by (auto simp: log_ok_def)
  note new = frames_of_range[OF num] and lw = log_write_get[OF num, of log]
  have "sorted_wrt (<) (fc_get (ws_frame_cache sh') p)" for p
    using assms(1) frames_of_sorted[OF num, of p] old(2)[of _ p] new[of _ p]
    by (fastforce simp: get sorted_wrt_append log_ok_def cache_ok_def)
  moreover have "1 \<le> f \<and> f \<le> ws_max_frame sh' \<and> fst (log_write log md pages f) = p" if "f \<in> set (fc_get (ws_frame_cache sh') p)" for p f
  proof (cases "f \<in> set (frames_of p md)")
    case True
    then show ?thesis using new[OF True] by (auto simp: lw mx)
  next
    case False
    then show ?thesis using that old[of f p] by (auto simp: get lw mx)
  qed
  ultimately show ?thesis using assms by (auto simp: log_ok_def committed_log_def cache_ok_def)
qed

lemma content_before_commit:
  assumes "log_ok sh log" "committed_log sh pages md sh'" "k \<le> ws_max_frame sh"
  shows "content sh' (log_write log md pages) base k p = content sh log base k p"
proof -
  have num: "numbered (ws_max_frame sh + 1) pages md" and get: "fc_get (ws_frame_cache sh') p = fc_get (ws_frame_cache sh) p @ frames_of p md"
    using assms(2) by (auto simp: committed_log_def)
  let ?o = "fc_get (ws_frame_cache sh) p"
  have set: "{f \<in> set (?o @ frames_of p md). f \<le> k} = {f \<in> set ?o. f \<le> k}"
    using frames_of_range[OF num, of _ p] assms(3) by fastforce
  then have "newest (\<lambda>f. f \<le> k) (?o @ frames_of p md) = newest (\<lambda>f. f \<le> k) ?o"
    unfolding newest_def by (metis (mono_tags, lifting) empty_Collect_eq mem_Collect_eq)
  moreover have "log_write log md pages f = log f" if "newest (\<lambda>f. f \<le> k) ?o = Some f" for f
    using that assms(3) by (simp add: newest_Some log_write_get[OF num])
  ultimately show ?thesis by (simp add: content_def get split: option.split)
qed

lemma content_after_commit:
  assumes ok: "log_ok sh log" and co: "committed_log sh pages md sh'" and d: "distinct (map fst pages)"
  shows "content sh' (log_write log md pages) base (ws_max_frame sh') p
    = db_write (content sh log base (ws_max_frame sh)) pages p"
proof -
  have num: "numbered (ws_max_frame sh + 1) pages md" and get: "fc_get (ws_frame_cache sh') p = fc_get (ws_frame_cache sh) p @ frames_of p md"
    and mx: "ws_max_frame sh' = ws_max_frame sh + length pages"
    using co by (auto simp: committed_log_def)
  have ok': "log_ok sh' (log_write log md pages)" by (rule committed_cache_ok[OF ok co])
  show ?thesis
  proof (cases "map_of pages p")
    case None
    then have "frames_of p md = []" using frames_of_empty[OF num] by (simp add: map_of_eq_None_iff)
    then have "newest (\<lambda>f. f \<le> ws_max_frame sh') (fc_get (ws_frame_cache sh') p) = newest (\<lambda>f. f \<le> ws_max_frame sh) (fc_get (ws_frame_cache sh') p)"
      using ok by (intro newest_cong) (auto simp: get log_ok_def mx intro: trans_le_add1)
    then have "content sh' (log_write log md pages) base (ws_max_frame sh') p = content sh' (log_write log md pages) base (ws_max_frame sh) p"
      by (simp add: content_def)
    then show ?thesis using content_before_commit[OF ok co order_refl] None by (simp add: db_write_def)
  next
    case (Some data)
    then have "frames_of p md \<noteq> []" using frames_of_empty[OF num, of p] by (force dest: map_of_SomeD)
    then obtain f where f: "f \<in> set (frames_of p md)" by (cases "frames_of p md") auto
    have in_range: "f' \<le> ws_max_frame sh'" if "f' \<in> set (fc_get (ws_frame_cache sh') p)" for f'
      using ok' that by (auto simp: log_ok_def)
    have ne: "set (fc_get (ws_frame_cache sh') p) \<noteq> {}" using f by (auto simp: get)
    define m where "m = Max (set (fc_get (ws_frame_cache sh') p))"
    have m: "m \<in> set (fc_get (ws_frame_cache sh') p)" "\<And>f'. f' \<in> set (fc_get (ws_frame_cache sh') p) \<Longrightarrow> f' \<le> m"
      unfolding m_def using Max_in[OF finite_set ne] by auto
    have nw: "newest (\<lambda>f. f \<le> ws_max_frame sh') (fc_get (ws_frame_cache sh') p) = Some m"
      using m in_range by (simp add: newest_Some)
    have "ws_max_frame sh < m" using m(2)[of f] f frames_of_range[OF num f] by (simp add: get)
    moreover have "m \<le> ws_max_frame sh" if "m \<in> set (fc_get (ws_frame_cache sh) p)" using ok that by (simp add: log_ok_def)
    ultimately have mf: "m \<in> set (frames_of p md)" using m(1) by (auto simp: get)
    define j where "j = m - (ws_max_frame sh + 1)"
    have "j < length pages" "fst (pages ! j) = p" using frames_of_range[OF num mf] by (auto simp: j_def)
    then have "(p, snd (pages ! j)) \<in> set pages" by (metis nth_mem prod.collapse)
    then have "snd (pages ! j) = data" using Some map_of_is_SomeI[OF d] by simp
    then show ?thesis using frames_of_range[OF num mf] Some
      by (simp add: j_def content_def nw log_write_get[OF num] db_write_def)
  qed
qed

lemma newest_before_commit:
  assumes "committed_log sh pages md sh'" "\<And>f. P f \<Longrightarrow> f \<le> ws_max_frame sh"
  shows "newest P (fc_get (ws_frame_cache sh') p) = newest P (fc_get (ws_frame_cache sh) p)"
proof -
  have num: "numbered (ws_max_frame sh + 1) pages md" and get: "fc_get (ws_frame_cache sh') p = fc_get (ws_frame_cache sh) p @ frames_of p md"
    using assms(1) by (auto simp: committed_log_def)
  have "{f \<in> set (fc_get (ws_frame_cache sh') p). P f} = {f \<in> set (fc_get (ws_frame_cache sh) p). P f}"
    using frames_of_range[OF num, of _ p] assms(2) by (fastforce simp: get)
  then show ?thesis unfolding newest_def by (metis (mono_tags, lifting) empty_Collect_eq mem_Collect_eq)
qed

lemma write_lock_exclusive:
  assumes "locks_inv sh cs" "i < length cs" "j < length cs" "j \<noteq> i" "wf_write_lock_held (cn_wal (cs ! i))"
  shows "\<not> wf_write_lock_held (cn_wal (cs ! j))"
  using tally_ge2[of i cs j has_write] assms by (auto simp: has_write_def locks_inv_def)

lemma read_ok_commit:
  assumes ok: "log_ok sh log" and co: "committed_log sh pages md sh'" and rd: "read_ok sh log base bound c"
    and other: "\<not> wf_write_lock_held (cn_wal c)" and locks: "ws_read_locks sh' = ws_read_locks sh"
  shows "read_ok sh' (log_write log md pages) base bound c"
proof -
  have "ws_max_frame sh \<le> ws_max_frame sh'" "ws_nbackfills sh' = ws_nbackfills sh" using co by (auto simp: committed_log_def)
  then show ?thesis
    using rd other content_before_commit[OF ok co] slot_frame[OF locks] by (auto simp: read_ok_def Let_def)
qed

lemma ckpt_ok_commit:
  assumes ok: "log_ok sh log" and co: "committed_log sh pages md sh'" and ck: "ckpt_ok sh log db base K bound is_last c"
    and bnd: "bound \<le> ws_max_frame sh" and locks: "ws_read_locks sh' = ws_read_locks sh"
  shows "ckpt_ok sh' (log_write log md pages) db base K bound is_last c"
proof -
  have nb: "ws_nbackfills sh' = ws_nbackfills sh" using co by (auto simp: committed_log_def)
  have copying: "ckpt_copying sh' (log_write log md pages) db base K c"
    if c: "ckpt_copying sh log db base K c" and le: "oc_max_frame (wf_ongoing (cn_wal c)) \<le> bound"
  proof -
    let ?m = "oc_max_frame (wf_ongoing (cn_wal c))"
    have m: "?m \<le> ws_max_frame sh" using le bnd by simp
    have "newest (\<lambda>f. lo \<le> f \<and> f \<le> ?m) (fc_get (ws_frame_cache sh') p) = newest (\<lambda>f. lo \<le> f \<and> f \<le> ?m) (fc_get (ws_frame_cache sh) p)" for lo p
      by (rule newest_before_commit[OF co]) (use m in auto)
    then show ?thesis using c unfolding ckpt_copying_def Let_def nb content_before_commit[OF ok co m] by simp
  qed
  show ?thesis
    using ck copying unfolding ckpt_ok_def Let_def backfill_ok_def nb slot_frame[OF locks] by (auto 4 3)
qed

lemma sys_inv_commit:
  assumes inv: "sys_inv_at base K bound s" and i: "i < length (sy_conns s)"
    and held: "wf_write_lock_held (cn_wal (sy_conns s ! i))"
    and co: "committed_log (sy_shared s) pages md sh'" and d: "distinct (map fst pages)"
    and locks: "ws_read_locks sh' = ws_read_locks (sy_shared s)" "locks_inv sh' ((sy_conns s)[i := c])"
    and c: "conn_same (ws_nbackfills (sy_shared s)) (cn_wal (sy_conns s ! i)) (cn_wal c)" "wf_max_frame (cn_wal c) = ws_max_frame sh'"
      "cn_loaded c = None" "cn_result c = None" "cn_snap c = db_write (sy_committed s) pages"
      "oc_state (wf_ongoing (cn_wal c)) = CkStart" "wf_checkpoint_guard (cn_wal c) = None"
  shows "sys_inv_at base K bound ((sys_put s i sh' c)\<lparr>sy_log := log_write (sy_log s) md pages, sy_committed := db_write (sy_committed s) pages\<rparr>)"
proof -
  define sh where "sh = sy_shared s"
  note fold = sh_def[symmetric]
  have ok: "log_ok sh (sy_log s)" and db: "db_ok sh (sy_log s) (sy_db s) base K bound"
    and cm: "\<And>p. sy_committed s p = content sh (sy_log s) base (ws_max_frame sh) p" and linv: "locks_inv sh (sy_conns s)"
    using inv by (auto simp: sys_inv_at_def fold)
  note co = co[folded sh_def] and locks = locks[folded sh_def] and c = c[folded sh_def]
  have bnd: "bound \<le> ws_max_frame sh" using db by (simp add: db_ok_def)
  have mx: "ws_max_frame sh \<le> ws_max_frame sh'" "ws_nbackfills sh' = ws_nbackfills sh" using co by (auto simp: committed_log_def)
  let ?log = "log_write (sy_log s) md pages"
  have cm': "db_write (sy_committed s) pages p = content sh' ?log base (ws_max_frame sh') p" for p
    using content_after_commit[OF ok co d, of base p] cm by (simp add: db_write_def split: option.split)
  have db': "db_ok sh' ?log (sy_db s) base K bound"
    unfolding db_ok_def
  proof (intro conjI allI)
    show "ws_nbackfills sh' \<le> K" "bound \<le> ws_max_frame sh'" using db mx by (auto simp: db_ok_def)
    fix p
    obtain k where k: "K \<le> k" "k \<le> bound" "sy_db s p = content sh (sy_log s) base k p" using db unfolding db_ok_def by blast
    then show "\<exists>k. K \<le> k \<and> k \<le> bound \<and> sy_db s p = content sh' ?log base k p"
      using content_before_commit[OF ok co, of k] bnd by auto
  qed
  have other: "read_ok sh' ?log base bound (sy_conns s ! j) \<and> ckpt_ok sh' ?log (sy_db s) base K bound (sy_last s = j) (sy_conns s ! j)"
    if j: "j < length (sy_conns s)" "j \<noteq> i" for j
    using read_ok_commit[OF ok co _ write_lock_exclusive[OF linv i j held] locks(1)] ckpt_ok_commit[OF ok co _ bnd locks(1)]
      inv_conn(1,2)[OF inv j(1)] by (auto simp: fold)
  have own: "read_ok sh' ?log base bound c"
    using inv_conn(1)[OF inv i] held c mx bnd cm' slot_frame[OF locks(1)]
    by (auto simp: read_ok_def Let_def conn_same_def fold)
  have own': "ckpt_ok sh' ?log (sy_db s) base K bound (sy_last s = i) c" using c by (simp add: ckpt_ok_idle)
  show ?thesis
    using inv i locks(2) own own' other db' cm' committed_cache_ok[OF ok co]
    by (auto simp: sys_inv_at_def sys_put_def nth_list_update)
qed

lemma act_write_commit_inv:
  assumes inv: "sys_inv_at base K bound s" and i: "i < length (sy_conns s)" and act: "act_write_commit big s i ci = Some s'"
  shows "sys_inv_at base K bound s'"
proof -
  define c where "c = sy_conns s ! i"
  define sh where "sh = sy_shared s"
  note ok = inv_conn[OF inv i, folded c_def sh_def]
  obtain r sh' w where st: "conn_idle c" "wf_write_lock_held (cn_wal c)" "distinct (map fst (ci_pages ci))"
    "wal_commit big sh (cn_wal c) (ci_rnd1 ci) (ci_rnd2 ci) (ci_page_size ci)
             (ci_file_len ci) (ci_io_ok ci) (ci_db_size ci) (ci_pages ci) = Some (r, sh', w)"
    and s': "(case r of
             Inl e \<Rightarrow> Some (sys_put s i sh' (c\<lparr>cn_wal := w\<rparr>))
           | Inr prepared \<Rightarrow>
               (let committed = db_write (sy_committed s) (ci_pages ci)
                in Some ((sys_put s i sh' (c\<lparr>cn_wal := w, cn_snap := committed\<rparr>))\<lparr>
                     sy_log := log_write (sy_log s) (concat (map pf_metadata prepared)) (ci_pages ci),
                     sy_committed := committed\<rparr>))) = Some s'"
    using act unfolding act_write_commit_def Let_def c_def[symmetric] sh_def[symmetric]
    by (auto elim!: bind_SomeE split: if_splits)
  have idle: "oc_state (wf_ongoing (cn_wal c)) = CkStart" "cn_result c = None" "cn_loaded c = None" "wf_checkpoint_guard (cn_wal c) = None"
    using ok(2) st(1) by (auto simp: ckpt_ok_def Let_def conn_idle_def)
  have rd: "wf_max_frame (cn_wal c) = ws_max_frame sh" "\<not> wf_unpublished (cn_wal c)" using ok(1) st(2) by (auto simp: read_ok_def Let_def)
  have "\<not> ws_initialized sh \<longrightarrow> ws_max_frame sh = 0" using inv by (auto simp: sys_inv_at_def log_ok_def sh_def)
  note spec = wal_commit_spec[OF st(4) this rd]
  have w: "conn_same (ws_nbackfills sh) (cn_wal c) w" "wf_max_frame w = ws_max_frame sh'" "ws_read_locks sh' = ws_read_locks sh" "other_locks_same sh sh'"
    using spec by auto
  have c': "oc_state (wf_ongoing w) = CkStart" "wf_checkpoint_guard w = None" "wf_lock_index w = wf_lock_index (cn_wal c)"
    "wf_write_lock_held w" using w(1) idle st(2) by (auto simp: conn_same_def)
  have conn: "has_guard (c\<lparr>cn_wal := w, cn_snap := x\<rparr>) = has_guard c" "has_write (c\<lparr>cn_wal := w, cn_snap := x\<rparr>) = has_write c" for x
    using c' idle st(2) by (simp_all add: has_guard_def has_write_def conn_guard_idle)
  have linv: "locks_inv sh' ((sy_conns s)[i := c\<lparr>cn_wal := w, cn_snap := x\<rparr>])" for x
    by (rule locks_inv_same[OF ok(3) i guards_ok_frame[OF ok(4) w(3,4)]])
      (use w(3,4) conn c' in \<open>auto simp: slot_frame[OF w(3)] other_locks_same_def c_def[symmetric]\<close>)
  show ?thesis
  proof (cases r)
    case (Inl e)
    have s'eq: "s' = sys_put s i sh' (c\<lparr>cn_wal := w, cn_snap := cn_snap c\<rparr>)" using s' Inl by simp
    have ls: "log_same sh sh'" using spec Inl by simp
    show ?thesis
      unfolding s'eq
    proof (rule sys_inv_frame[OF inv i, folded sh_def c_def, OF ls w(3,4) _ conn])
      show "read_ok sh (sy_log s) base bound (c\<lparr>cn_wal := w, cn_snap := cn_snap c\<rparr>)"
        using ok(1) w(1,2) rd ls st(2) by (auto simp: read_ok_def Let_def conn_same_def log_same_def)
    qed (use idle c' in \<open>simp_all add: ckpt_ok_idle\<close>)
  next
    case (Inr ps)
    have s'eq: "s' = (sys_put s i sh' (c\<lparr>cn_wal := w, cn_snap := db_write (sy_committed s) (ci_pages ci)\<rparr>))\<lparr>
        sy_log := log_write (sy_log s) (concat (map pf_metadata ps)) (ci_pages ci),
        sy_committed := db_write (sy_committed s) (ci_pages ci)\<rparr>" using s' Inr by (simp add: Let_def)
    have co: "committed_log sh (ci_pages ci) (concat (map pf_metadata ps)) sh'" using spec Inr by simp
    show ?thesis
      unfolding s'eq
      by (rule sys_inv_commit[OF inv i, folded sh_def c_def, OF st(2) co st(3) w(3) linv]) (use w c' idle in simp_all)
  qed
qed

section \<open>Rollback and end\<close>

lemma writer_unlock:
  assumes "rw_ok l" "rw_mode_of l = Writer"
  obtains l' where "rw_unlock l = Some l'" "rw_ok l'" "rw_mode_of l' = Free" "rw_get_value l' = rw_get_value l"
  using turso_lock.unlock_law[of l] assms by auto

lemma act_write_rollback_inv:
  assumes inv: "sys_inv_at base K bound s" and i: "i < length (sy_conns s)" and act: "act_write_rollback s i = Some s'"
  shows "sys_inv_at base K bound s'"
proof -
  define c where "c = sy_conns s ! i"
  define sh where "sh = sy_shared s"
  note ok = inv_conn[OF inv i, folded c_def sh_def]
  define w where "w = reset_internal_states ((cn_wal c)\<lparr>wf_last_checksum := ws_last_checksum sh, wf_max_frame := ws_max_frame sh\<rparr>)"
  have st: "conn_idle c" "wf_write_lock_held (cn_wal c)" "s' = sys_put s i (rollback_cache sh (ws_max_frame sh)) (c\<lparr>cn_wal := w\<rparr>)"
    using act by (auto simp: act_write_rollback_def wal_rollback_def Let_def load_snapshot_def c_def sh_def w_def split: if_splits)
  have idle: "cn_result c = None" "cn_loaded c = None" "wf_checkpoint_guard (cn_wal c) = None"
    using ok(2) st(1) by (auto simp: ckpt_ok_def Let_def conn_idle_def)
  have rd: "wf_max_frame (cn_wal c) = ws_max_frame sh" using ok(1) st(2) by (auto simp: read_ok_def Let_def)
  have w: "wf_lock_index w = wf_lock_index (cn_wal c)" "wf_write_lock_held w" "wf_unpublished w = wf_unpublished (cn_wal c)"
    "wf_max_frame w = ws_max_frame sh" "wf_min_frame w = wf_min_frame (cn_wal c)" "wf_checkpoint_guard w = None"
    "oc_state (wf_ongoing w) = CkStart"
    using idle st(2) by (simp_all add: w_def reset_internal_states_def ongoing_reset_def)
  have lok: "log_ok sh (sy_log s)" using inv by (simp add: sys_inv_at_def sh_def)
  have same: "fc_get (ws_frame_cache (rollback_cache sh (ws_max_frame sh))) p = fc_get (ws_frame_cache sh) p" for p
    using lok rollback_cache_get[of sh "ws_max_frame sh" p] by (auto simp: log_ok_def intro!: filter_True)
  show ?thesis
    unfolding st(3)
  proof (rule sys_inv_frame[OF inv i, folded sh_def c_def])
    show "log_same sh (rollback_cache sh (ws_max_frame sh))"
      using same rollback_cache_ok[of sh "ws_max_frame sh"] by (simp add: log_same_def) (simp add: rollback_cache_def)
    show "read_ok sh (sy_log s) base bound (c\<lparr>cn_wal := w\<rparr>)" using ok(1) rd st(2) by (auto simp: read_ok_def Let_def w)
    show "ckpt_ok sh (sy_log s) (sy_db s) base K bound (sy_last s = i) (c\<lparr>cn_wal := w\<rparr>)" using idle by (simp add: ckpt_ok_idle w)
  qed (use idle st(2) w in \<open>simp_all add: rollback_cache_def other_locks_same_def has_guard_def has_write_def conn_guard_idle\<close>)
qed

lemma act_write_end_inv:
  assumes inv: "sys_inv_at base K bound s" and i: "i < length (sy_conns s)" and act: "act_write_end s i = Some s'"
  shows "sys_inv_at base K bound s'"
proof -
  define c where "c = sy_conns s ! i"
  define sh where "sh = sy_shared s"
  note ok = inv_conn[OF inv i, folded c_def sh_def]
  obtain sh' where st: "conn_idle c" "wf_write_lock_held (cn_wal c)" "unlock_write_lock sh = Some sh'"
    "s' = sys_put s i sh' (c\<lparr>cn_wal := (cn_wal c)\<lparr>wf_write_lock_held := False\<rparr>\<rparr>)"
    using act by (auto simp: act_write_end_def wal_end_write_tx_def coord_end_write_tx_def Let_def c_def sh_def elim!: bind_SomeE split: if_splits)
  have idle: "oc_state (wf_ongoing (cn_wal c)) = CkStart" "cn_result c = None" "cn_loaded c = None" "wf_checkpoint_guard (cn_wal c) = None"
    using ok(2) st(1) by (auto simp: ckpt_ok_def Let_def conn_idle_def)
  have "0 < tally has_write (sy_conns s)" using tally_ge[OF i, of has_write] st(2) by (simp add: has_write_def c_def)
  then have wr: "rw_mode_of (ws_write_lock sh) = Writer" "rw_ok (ws_write_lock sh)" using ok(3) by (auto simp: locks_inv_def guards_ok_def)
  obtain l where u: "rw_unlock (ws_write_lock sh) = Some l" and l': "rw_ok l" "rw_mode_of l = Free"
    using writer_unlock[OF wr(2,1)] by blast
  then have "sh' = sh\<lparr>ws_write_lock := l\<rparr>" using st(3) by (simp add: unlock_write_lock_def)
  note l = this l'
  have rl: "ws_read_locks sh' = ws_read_locks sh" by (simp add: l(1))
  note slots = slot_frame[OF rl]
  have wl: "ws_write_lock sh' = l" "ws_checkpoint_lock sh' = ws_checkpoint_lock sh" by (simp_all add: l(1))
  have ls: "log_same sh sh'" by (rule log_same_frame) (simp_all add: l(1))
  have gok: "guards_ok sh'" unfolding guards_ok_def slots using ok(4) l'(1) by (simp add: l(1) guards_ok_def)
  let ?c = "c\<lparr>cn_wal := (cn_wal c)\<lparr>wf_write_lock_held := False\<rparr>\<rparr>"
  show ?thesis
    unfolding st(4)
  proof (rule sys_inv_quiet[OF inv i, folded sh_def, OF ls])
    show "marks_kept sh sh'" by (simp add: marks_kept_def slots)
    show "slot_mode sh' j = Writer \<or> (\<forall>k < length (sy_conns s). k \<noteq> i \<longrightarrow> oc_state (wf_ongoing (cn_wal (sy_conns s ! k))) = CkStart)"
      if "slot_mode sh j = Writer" for j using that by (simp add: slots)
    show "locks_inv sh' ((sy_conns s)[i := ?c])"
      by (rule locks_inv_take_write[OF ok(3) i gok])
        (use wr wl l' st(2) idle in \<open>simp_all add: slots has_write_def has_guard_def conn_guard_idle c_def[symmetric]\<close>)
    have "read_ok sh' (sy_log s) base bound c" by (rule read_ok_same[OF ok(1) ls]) (simp add: slots)
    then show "read_ok sh' (sy_log s) base bound ?c" by (auto simp: read_ok_def Let_def)
    show "ckpt_ok sh' (sy_log s) (sy_db s) base K bound (sy_last s = i) ?c" using idle by (simp add: ckpt_ok_idle)
  qed
qed

end
