(* ===== verification/Wal_Checkpoint.thy ===== *)
theory Wal_Checkpoint
  imports Wal_Writers
begin

text \<open>
  The steps of checkpoints preserve the invariant of \<open>Wal_Isolation\<close>: the start with its guard and
  its safe frame, the copy of the pages, the restart of the log, the end, and the publication of
  the backfill.
\<close>

section \<open>The checkpoint guard\<close>

text \<open>The locks of guard \<open>g\<close> are taken (\<open>m = Writer\<close>) or released (\<open>m = Free\<close>).\<close>

definition guard_moved :: "wal_shared \<Rightarrow> checkpoint_guard_kind \<Rightarrow> rw_mode \<Rightarrow> wal_shared \<Rightarrow> bool" where
  "guard_moved sh g m sh' \<longleftrightarrow>
     log_same sh sh' \<and> guards_ok sh'
     \<and> (\<forall>j < 5. slot_mode sh' j = (if j = 0 then m else slot_mode sh j) \<and> mark sh' j = mark sh j)
     \<and> rw_mode_of (ws_checkpoint_lock sh') = m
     \<and> rw_mode_of (ws_write_lock sh') = (if g = WriterGuard then m else rw_mode_of (ws_write_lock sh))"

lemma guard_held_moved:
  assumes ok: "guards_ok sh" and held: "guard_held sh g sh'"
  shows "guard_moved sh g Writer sh'"
proof -
  obtain c l w where sh': "sh' = sh\<lparr>ws_checkpoint_lock := c, ws_read_locks := (ws_read_locks sh)[0 := l], ws_write_lock := w\<rparr>"
    and l: "rw_ok c" "rw_mode_of c = Writer" "rw_ok l" "rw_mode_of l = Writer" "rw_get_value l = read_mark_value sh 0"
    "rw_ok w" "if g = WriterGuard then rw_mode_of w = Writer else w = ws_write_lock sh"
    using held by (auto simp: guard_held_def)
  define sh0 where "sh0 = sh\<lparr>ws_read_locks := (ws_read_locks sh)[0 := l]\<rparr>"
  have lok: "locks_ok sh" "0 < length (ws_read_locks sh)" using ok by (auto simp: guards_ok_def locks_ok_def)
  have "ws_read_locks sh' = ws_read_locks sh0" by (simp add: sh' sh0_def)
  note fr = slot_frame[OF this]
  note up = relocked_update[OF lok(1) _ l(3,5) sh0_def]
  have g: "guards_ok sh'" unfolding guards_ok_def fr using up(1) ok l by (simp add: relocked_def) (simp add: sh')
  show ?thesis
    using up l(2,4,7) g unfolding guard_moved_def fr
    by (auto simp: relocked_def log_same_def sh' split: if_splits)
qed

lemma release_guard_moved:
  assumes ok: "guards_ok sh" and m: "rw_mode_of (ws_checkpoint_lock sh) = Writer" "slot_mode sh 0 = Writer"
    "g = WriterGuard \<longrightarrow> rw_mode_of (ws_write_lock sh) = Writer"
  shows "\<exists>sh'. release_checkpoint_guard sh g = Some sh' \<and> guard_moved sh g Free sh'"
proof -
  have lok: "locks_ok sh" "rw_ok (ws_checkpoint_lock sh)" "rw_ok (ws_write_lock sh)" using ok by (auto simp: guards_ok_def)
  obtain c where c: "rw_unlock (ws_checkpoint_lock sh) = Some c" "rw_ok c" "rw_mode_of c = Free"
    using writer_unlock[OF lok(2) m(1)] by blast
  obtain l where l: "rw_unlock (ws_read_locks sh ! 0) = Some l" "rw_ok l" "rw_mode_of l = Free" "rw_get_value l = read_mark_value sh 0"
    using writer_unlock[of "ws_read_locks sh ! 0"] lok(1) m(2)
    by (auto simp: locks_ok_def slot_mode_def read_mark_value_def)
  obtain w where w: "g = WriterGuard \<longrightarrow> rw_unlock (ws_write_lock sh) = Some w" "g = Read0 \<longrightarrow> w = ws_write_lock sh" "rw_ok w"
    "rw_mode_of w = (if g = WriterGuard then Free else rw_mode_of (ws_write_lock sh))"
  proof (cases g)
    case WriterGuard
    then have wm: "rw_mode_of (ws_write_lock sh) = Writer" using m(3) by simp
    obtain w where "rw_unlock (ws_write_lock sh) = Some w" "rw_ok w" "rw_mode_of w = Free"
      using writer_unlock[OF lok(3) wm] by blast
    then show ?thesis using that WriterGuard by auto
  qed (use that lok(3) in auto)
  define sh0 where "sh0 = sh\<lparr>ws_read_locks := (ws_read_locks sh)[0 := l]\<rparr>"
  define sh' where "sh' = sh0\<lparr>ws_checkpoint_lock := c, ws_write_lock := w\<rparr>"
  have rel: "release_checkpoint_guard sh g = Some sh'"
    using c l w by (cases g) (simp_all add: unlock_checkpoint_lock_def unlock_read_mark_def unlock_write_lock_def sh'_def sh0_def)
  have "ws_read_locks sh' = ws_read_locks sh0" by (simp add: sh'_def)
  note fr = slot_frame[OF this]
  note up = relocked_update[OF lok(1) _ l(2,4) sh0_def]
  have g: "guards_ok sh'" unfolding guards_ok_def fr using up(1) c w by (simp add: relocked_def) (simp add: sh'_def)
  have "guard_moved sh g Free sh'"
    using up l(3) c(3) w(4) g unfolding guard_moved_def fr
    by (auto simp: relocked_def log_same_def sh'_def sh0_def split: if_splits)
  then show ?thesis using rel by blast
qed

lemma locks_inv_guard:
  assumes inv: "locks_inv sh cs" and i: "i < length cs" and mv: "guard_moved sh g m sh'" and m: "m = Free \<or> m = Writer"
    and c: "wf_lock_index (cn_wal c) = wf_lock_index (cn_wal (cs ! i))"
    and g: "if m = Writer then conn_guard c = Some g \<and> conn_guard (cs ! i) = None \<and> slot_mode sh 0 = Free
              \<and> rw_mode_of (ws_checkpoint_lock sh) = Free \<and> (g = WriterGuard \<longrightarrow> rw_mode_of (ws_write_lock sh) = Free)
            else conn_guard c = None \<and> conn_guard (cs ! i) = Some g"
    and w: "wf_write_lock_held (cn_wal c) = wf_write_lock_held (cn_wal (cs ! i))"
  shows "locks_inv sh' (cs[i := c])"
proof -
  have rs: "tally (reads_slot j) (cs[i := c]) = tally (reads_slot j) cs" for j
    by (rule tally_same[OF i]) (simp add: reads_slot_def c)
  have tg: "tally has_guard (cs[i := c]) + has_guard (cs ! i) = tally has_guard cs + has_guard c"
    and tw: "tally has_write (cs[i := c]) + has_write (cs ! i) = tally has_write cs + has_write c"
    by (rule tally_update[OF i])+
  have guard: "tally has_guard (cs[i := c]) = (if m = Writer then 1 else 0)"
    using tg g inv tally_ge[OF i, of has_guard] by (auto simp: has_guard_def locks_inv_def split: if_splits)
  have wr: "tally has_write (cs[i := c]) = (if g = WriterGuard then (if m = Writer then 1 else 0) else tally has_write cs)"
    using tw g w inv tally_ge[OF i, of has_write] by (auto simp: has_write_def locks_inv_def split: if_splits)
  have "reader_count (slot_mode sh' j) = tally (reads_slot j) cs" if "j < 5" for j
  proof (cases "j = 0")
    case True
    have "reader_count (slot_mode sh 0) = 0"
    proof (cases "m = Writer")
      case False
      then have "0 < tally has_guard cs" using g tally_ge[OF i, of has_guard] by (simp add: has_guard_def)
      then show ?thesis using inv by (simp add: locks_inv_def)
    qed (use g in simp)
    then show ?thesis using True inv mv m by (auto simp: locks_inv_def guard_moved_def)
  next
    case False
    then show ?thesis using that inv mv by (simp add: locks_inv_def guard_moved_def)
  qed
  then show ?thesis
    using inv mv m rs guard wr by (auto simp: locks_inv_def guard_moved_def)
qed

lemma holder_locks:
  assumes "locks_inv sh cs" "i < length cs" "conn_guard (cs ! i) = Some g"
  shows "rw_mode_of (ws_checkpoint_lock sh) = Writer" "slot_mode sh 0 = Writer"
    "g = WriterGuard \<longrightarrow> rw_mode_of (ws_write_lock sh) = Writer"
  using tally_ge[OF assms(2), of has_guard] tally_ge[OF assms(2), of has_write] assms
  by (auto simp: has_guard_def has_write_def locks_inv_def split: if_splits)

lemma one_guard:
  assumes "locks_inv sh cs" "i < length cs" "j < length cs" "j \<noteq> i" "conn_guard (cs ! i) = Some g"
  shows "conn_guard (cs ! j) = None"
  using tally_ge2[of i cs j has_guard] assms by (cases "conn_guard (cs ! j)") (auto simp: has_guard_def locks_inv_def)

lemma running_guard:
  assumes "ckpt_ok sh log db base K bound is_last c" "oc_state (wf_ongoing (cn_wal c)) \<noteq> CkStart"
  shows "wf_checkpoint_guard (cn_wal c) = Some (guard_for (cn_mode c))" "conn_guard c = Some (guard_for (cn_mode c))"
    "is_last" "cn_result c = None" "cn_loaded c = None"
  using assms by (auto simp: ckpt_ok_def Let_def conn_guard_def)

lemma others_idle:
  assumes inv: "sys_inv_at base K bound s" and i: "i < length (sy_conns s)" and g: "conn_guard (sy_conns s ! i) = Some g"
    and j: "j < length (sy_conns s)" "j \<noteq> i"
  shows "oc_state (wf_ongoing (cn_wal (sy_conns s ! j))) = CkStart"
  using running_guard(2)[OF inv_conn(2)[OF inv j(1)]] one_guard[OF inv_conn(3)[OF inv i] i j g] by auto

lemma sys_inv_guard:
  assumes inv: "sys_inv_at base K bound s" and i: "i < length (sy_conns s)"
    and mv: "guard_moved (sy_shared s) g m sh'" and m: "m = Free \<or> m = Writer"
    and c: "wf_lock_index (cn_wal c) = wf_lock_index (cn_wal (sy_conns s ! i))"
      "wf_write_lock_held (cn_wal c) = wf_write_lock_held (cn_wal (sy_conns s ! i))"
    and g: "if m = Writer then conn_guard c = Some g \<and> conn_guard (sy_conns s ! i) = None \<and> guard_available (sy_shared s) mode \<and> g = guard_for mode
            else conn_guard c = None \<and> conn_guard (sy_conns s ! i) = Some g"
    and ok: "read_ok (sy_shared s) (sy_log s) base bound c" "ckpt_ok sh' (sy_log s) (sy_db s) base K bound (sy_last s = i) c"
  shows "sys_inv_at base K bound (sys_put s i sh' c)"
proof (rule sys_inv_quiet[OF inv i])
  have sh': "log_same (sy_shared s) sh'" "\<And>j. j < 5 \<Longrightarrow> mark sh' j = mark (sy_shared s) j"
    "\<And>j. 1 \<le> j \<Longrightarrow> j < 5 \<Longrightarrow> slot_mode sh' j = slot_mode (sy_shared s) j" using mv by (auto simp: guard_moved_def)
  show "log_same (sy_shared s) sh'" by (rule sh')
  show "marks_kept (sy_shared s) sh'" using sh'(2) by (simp add: marks_kept_def)
  show "slot_mode sh' j = Writer \<or> (\<forall>k < length (sy_conns s). k \<noteq> i \<longrightarrow> oc_state (wf_ongoing (cn_wal (sy_conns s ! k))) = CkStart)"
    if "1 \<le> j" "j < 5" "slot_mode (sy_shared s) j = Writer" for j using that sh'(3) by simp
  show "locks_inv sh' ((sy_conns s)[i := c])"
    by (rule locks_inv_guard[OF inv_conn(3)[OF inv i] i mv m c(1) _ c(2)]) (use g in \<open>auto simp: guard_available_def split: if_splits\<close>)
  show "read_ok sh' (sy_log s) base bound c" by (rule read_ok_same[OF ok(1) sh'(1)]) (simp add: sh'(2))
qed (rule ok(2))

lemma drop_guard_moved:
  assumes inv: "sys_inv_at base K bound s" and i: "i < length (sy_conns s)" and c: "c = sy_conns s ! i"
    and g: "wf_checkpoint_guard (cn_wal c) = Some g"
  obtains sh' where "drop_checkpoint_guard (sy_shared s) (cn_wal c) = Some (sh', (cn_wal c)\<lparr>wf_checkpoint_guard := None\<rparr>)"
    "guard_moved (sy_shared s) g Free sh'"
proof -
  have cg: "conn_guard (sy_conns s ! i) = Some g" using g c by (simp add: conn_guard_def)
  obtain sh' where "release_checkpoint_guard (sy_shared s) g = Some sh'" "guard_moved (sy_shared s) g Free sh'"
    using release_guard_moved[OF inv_conn(4)[OF inv i] holder_locks[OF inv_conn(3)[OF inv i] i cg]] by blast
  then show ?thesis using g that by (simp add: drop_checkpoint_guard_def)
qed

text \<open>A checkpoint that fails drops its guard and starts over.\<close>

lemma sys_inv_failed:
  assumes inv: "sys_inv_at base K bound s" and i: "i < length (sy_conns s)"
    and run: "oc_state (wf_ongoing (cn_wal (sy_conns s ! i))) \<noteq> CkStart"
    and fail: "checkpoint_failed (sy_shared s) (cn_wal (sy_conns s ! i)) = Some (sh', w')"
  shows "sys_inv_at base K bound (sys_put s i sh' ((sy_conns s ! i)\<lparr>cn_wal := w'\<rparr>))"
proof -
  define c where "c = sy_conns s ! i"
  note ok = inv_conn[OF inv i, folded c_def]
  note rg = running_guard[OF ok(2) run[folded c_def]]
  obtain sh1 where d: "drop_checkpoint_guard (sy_shared s) (cn_wal c) = Some (sh1, (cn_wal c)\<lparr>wf_checkpoint_guard := None\<rparr>)"
    "guard_moved (sy_shared s) (guard_for (cn_mode c)) Free sh1"
    using drop_guard_moved[OF inv i c_def rg(1)] by blast
  have res: "sh' = sh1" "w' = (cn_wal c)\<lparr>wf_checkpoint_guard := None, wf_ongoing := (wf_ongoing (cn_wal c))\<lparr>oc_state := CkStart\<rparr>\<rparr>"
    using fail d(1) by (auto simp: checkpoint_failed_def c_def[symmetric])
  show ?thesis
    unfolding res(1) c_def[symmetric]
  proof (rule sys_inv_guard[OF inv i d(2), folded c_def])
    show "read_ok (sy_shared s) (sy_log s) base bound (c\<lparr>cn_wal := w'\<rparr>)" using ok(1) by (simp add: read_ok_def Let_def res(2))
    show "ckpt_ok sh1 (sy_log s) (sy_db s) base K bound (sy_last s = i) (c\<lparr>cn_wal := w'\<rparr>)" using rg(4) by (simp add: ckpt_ok_idle res(2))
  qed (use rg in \<open>auto simp: res(2) conn_guard_idle\<close>)
qed

lemma act_ck_fail_inv:
  assumes inv: "sys_inv_at base K bound s" and i: "i < length (sy_conns s)" and act: "act_ck_fail s i = Some s'"
  shows "sys_inv_at base K bound s'"
proof -
  obtain sh' w where "oc_state (wf_ongoing (cn_wal (sy_conns s ! i))) = CkProcessing"
    "checkpoint_failed (sy_shared s) (cn_wal (sy_conns s ! i)) = Some (sh', w)" "s' = sys_put s i sh' ((sy_conns s ! i)\<lparr>cn_wal := w\<rparr>)"
    using act by (auto simp: act_ck_fail_def Let_def elim!: bind_SomeE split: if_splits)
  then show ?thesis using sys_inv_failed[OF inv i] by simp
qed

lemma act_ck_release_inv:
  assumes inv: "sys_inv_at base K bound s" and i: "i < length (sy_conns s)" and act: "act_ck_release s i = Some s'"
  shows "sys_inv_at base K bound s'"
proof -
  define c where "c = sy_conns s ! i"
  note ok = inv_conn[OF inv i, folded c_def]
  obtain r sh' r' where st: "cn_result c = Some r" "release_guard (sy_shared s) r = Some (sh', r')"
    "s' = sys_put s i sh' (c\<lparr>cn_result := None\<rparr>)"
    using act by (auto simp: act_ck_release_def Let_def c_def elim!: bind_SomeE)
  have c: "oc_state (wf_ongoing (cn_wal c)) = CkStart" "wf_checkpoint_guard (cn_wal c) = None" "cn_loaded c = None"
    using ok(2) st(1) by (auto simp: ckpt_ok_def Let_def)
  have rd: "read_ok (sy_shared s) (sy_log s) base bound (c\<lparr>cn_result := None\<rparr>)" using ok(1) by (simp add: read_ok_def Let_def)
  have cg: "conn_guard c = cr_guard r" using c st(1) by (simp add: conn_guard_def)
  show ?thesis
  proof (cases "cr_guard r")
    case None
    then have sh': "sh' = sy_shared s" using st(2) by (simp add: release_guard_def)
    show ?thesis
      unfolding st(3) sh'
      by (rule sys_inv_frame[OF inv i, folded c_def])
        (use rd c cg None in \<open>simp_all add: ckpt_ok_idle has_guard_def has_write_def conn_guard_idle\<close>)
  next
    case (Some g)
    obtain sh1 where "release_checkpoint_guard (sy_shared s) g = Some sh1" and mv: "guard_moved (sy_shared s) g Free sh1"
      using release_guard_moved[OF ok(4) holder_locks[OF ok(3) i]] cg Some c_def by metis
    then have sh': "sh' = sh1" using st(2) Some by (simp add: release_guard_def)
    show ?thesis
      unfolding st(3) sh'
      by (rule sys_inv_guard[OF inv i mv, folded c_def]) (use rd c cg Some in \<open>simp_all add: ckpt_ok_idle conn_guard_idle\<close>)
  qed
qed

section \<open>Copying the pages\<close>

text \<open>Connections that run no checkpoint and whose result is not the last one depend neither on the
  database file nor on what is copied.\<close>

lemma ckpt_ok_other:
  "ckpt_ok sh log db base K bound False c \<Longrightarrow> ckpt_ok sh' log' db' base' K' bound' False c"
  by (auto simp: ckpt_ok_def Let_def)

lemma act_ck_write_inv:
  assumes inv: "sys_inv_at base K bound s" and i: "i < length (sy_conns s)" and act: "act_ck_write s i p = Some s'"
  shows "sys_inv_at base K bound s'"
proof -
  define c where "c = sy_conns s ! i"
  define sh where "sh = sy_shared s"
  note ok = inv_conn[OF inv i, folded c_def sh_def]
  let ?oc = "wf_ongoing (cn_wal c)"
  obtain f where st: "oc_state ?oc = CkProcessing" "map_of (oc_pages ?oc) p = Some f"
    "s' = (sys_put s i sh (c\<lparr>cn_written := p # cn_written c\<rparr>))\<lparr>sy_db := (sy_db s)(p := snd (sy_log s f))\<rparr>"
    using act by (auto simp: act_ck_write_def Let_def c_def sh_def elim!: bind_SomeE split: if_splits)
  note rg = running_guard[OF ok(2)]
  have copying: "ckpt_copying sh (sy_log s) (sy_db s) base K c" "oc_max_frame ?oc \<le> bound" and last: "sy_last s = i"
    using ok(2) st(1) by (auto simp: ckpt_ok_def Let_def)
  have nw: "newest (\<lambda>f. ws_nbackfills sh + 1 \<le> f \<and> f \<le> oc_max_frame ?oc) (fc_get (ws_frame_cache sh) p) = Some f"
    and K: "K = ws_nbackfills sh"
    using copying(1) map_of_SomeD[OF st(2)] by (auto simp: ckpt_copying_def Let_def)
  have data: "snd (sy_log s f) = content sh (sy_log s) base (oc_max_frame ?oc) p" using content_found[OF nw] by simp
  have range: "K \<le> oc_max_frame ?oc" using nw K by (simp add: newest_Some)
  have db: "db_ok sh (sy_log s) ((sy_db s)(p := snd (sy_log s f))) base K bound"
    using inv range copying(2) data by (auto simp: sys_inv_at_def db_ok_def sh_def)
  have "ckpt_copying sh (sy_log s) ((sy_db s)(p := snd (sy_log s f))) base K (c\<lparr>cn_written := p # cn_written c\<rparr>)"
    using copying(1) data by (auto simp: ckpt_copying_def Let_def)
  then have own: "ckpt_ok sh (sy_log s) ((sy_db s)(p := snd (sy_log s f))) base K bound (sy_last s = i) (c\<lparr>cn_written := p # cn_written c\<rparr>)"
    using ok(2) st(1) by (auto simp: ckpt_ok_def Let_def)
  have rd: "read_ok sh (sy_log s) base bound (c\<lparr>cn_written := p # cn_written c\<rparr>)" using ok(1) by (simp add: read_ok_def Let_def)
  have linv: "locks_inv sh ((sy_conns s)[i := c\<lparr>cn_written := p # cn_written c\<rparr>])"
    by (rule locks_inv_same[OF ok(3) i ok(4)]) (simp_all add: has_guard_def has_write_def conn_guard_def c_def[symmetric] cong: option.case_cong)
  have other: "read_ok sh (sy_log s) base bound (sy_conns s ! j)
      \<and> ckpt_ok sh (sy_log s) ((sy_db s)(p := snd (sy_log s f))) base K bound (sy_last s = j) (sy_conns s ! j)"
    if "j < length (sy_conns s)" "j \<noteq> i" for j
    using inv_conn(1,2)[OF inv that(1)] ckpt_ok_other[of sh "sy_log s" "sy_db s" base K bound "sy_conns s ! j"] that(2) last by (simp add: sh_def)
  show ?thesis
    using inv i db own rd linv other by (auto simp: sys_inv_at_def st(3) sys_put_def nth_list_update sh_def)
qed

lemma copied_db_ok:
  assumes db: "db_ok sh log db base K bound" and cp: "ckpt_copying sh log db base K c"
    and oc: "oc = wf_ongoing (cn_wal c)" "oc_max_frame oc \<le> bound"
    and all: "\<forall>(p, f) \<in> set (oc_pages oc). p \<in> set (cn_written c)"
  shows "db_ok sh log db base (max K (oc_max_frame oc)) bound"
  unfolding db_ok_def
proof (intro conjI allI)
  let ?S = "oc_max_frame oc"
  have K: "K = ws_nbackfills sh" and pages: "\<And>p f. (p, f) \<in> set (oc_pages oc) \<longleftrightarrow>
      newest (\<lambda>f. K + 1 \<le> f \<and> f \<le> ?S) (fc_get (ws_frame_cache sh) p) = Some f"
    and wr: "\<And>p. p \<in> set (cn_written c) \<Longrightarrow> db p = content sh log base ?S p"
    using cp by (auto simp: ckpt_copying_def Let_def oc(1))
  show "ws_nbackfills sh \<le> max K ?S" "bound \<le> ws_max_frame sh" using db by (auto simp: db_ok_def)
  fix p
  obtain k where k: "K \<le> k" "k \<le> bound" "db p = content sh log base k p" using db unfolding db_ok_def by blast
  show "\<exists>k. max K ?S \<le> k \<and> k \<le> bound \<and> db p = content sh log base k p"
  proof (cases "?S \<le> k")
    case True
    then show ?thesis using k by auto
  next
    case False
    have "db p = content sh log base ?S p"
    proof (cases "newest (\<lambda>f. K + 1 \<le> f \<and> f \<le> ?S) (fc_get (ws_frame_cache sh) p)")
      case None
      from content_stable[OF None, of k log base] show ?thesis using k False by simp
    next
      case (Some f)
      then show ?thesis using pages[of p f] all wr by auto
    qed
    then show ?thesis using False k oc(2) by (intro exI[of _ ?S]) auto
  qed
qed

lemma act_ck_written_inv:
  assumes inv: "sys_inv_at base K bound s" and i: "i < length (sy_conns s)" and act: "act_ck_written s i = Some s'"
  shows "sys_inv s'"
proof -
  define c where "c = sy_conns s ! i"
  define sh where "sh = sy_shared s"
  note ok = inv_conn[OF inv i, folded c_def sh_def]
  define oc where "oc = wf_ongoing (cn_wal c)"
  define c' where "c' = c\<lparr>cn_wal := (cn_wal c)\<lparr>wf_ongoing := oc\<lparr>oc_current_page := length (oc_pages oc), oc_state := CkDetermineResult\<rparr>\<rparr>\<rparr>"
  have st: "oc_state oc = CkProcessing" "\<forall>(p, f) \<in> set (oc_pages oc). p \<in> set (cn_written c)" "s' = sys_put s i sh c'"
    using act by (auto simp: act_ck_written_def Let_def c_def sh_def oc_def c'_def list_all_iff split: if_splits)
  have copying: "ckpt_copying sh (sy_log s) (sy_db s) base K c" "oc_max_frame oc \<le> bound" and last: "sy_last s = i"
    using ok(2) st(1) by (auto simp: ckpt_ok_def Let_def oc_def)
  have db: "db_ok sh (sy_log s) (sy_db s) base (max K (oc_max_frame oc)) bound"
    by (rule copied_db_ok[OF _ copying(1) oc_def copying(2) st(2)]) (use inv in \<open>simp add: sys_inv_at_def sh_def\<close>)
  have own: "ckpt_ok sh (sy_log s) (sy_db s) base (max K (oc_max_frame oc)) bound (sy_last s = i) c'"
    using ok(2) st(1) by (auto simp: ckpt_ok_def Let_def oc_def c'_def)
  have rd: "read_ok sh (sy_log s) base bound c'" using ok(1) by (simp add: read_ok_def Let_def c'_def)
  have linv: "locks_inv sh ((sy_conns s)[i := c'])"
    by (rule locks_inv_same[OF ok(3) i ok(4)])
      (simp_all add: has_guard_def has_write_def conn_guard_def c_def[symmetric] c'_def cong: option.case_cong)
  have other: "read_ok sh (sy_log s) base bound (sy_conns s ! j)
      \<and> ckpt_ok sh (sy_log s) (sy_db s) base (max K (oc_max_frame oc)) bound (sy_last s = j) (sy_conns s ! j)"
    if "j < length (sy_conns s)" "j \<noteq> i" for j
    using inv_conn(1,2)[OF inv that(1)] ckpt_ok_other[of sh "sy_log s" "sy_db s" base K bound "sy_conns s ! j"] that(2) last by (simp add: sh_def)
  have "sys_inv_at base (max K (oc_max_frame oc)) bound s'"
    using inv i db own rd linv other by (auto simp: sys_inv_at_def st(3) sys_put_def nth_list_update sh_def)
  then show ?thesis by (auto simp: sys_inv_def)
qed

lemma act_ck_publish_inv:
  assumes inv: "sys_inv_at base K bound s" and i: "i < length (sy_conns s)" and act: "act_ck_publish s i = Some s'"
    and last: "sy_last s = i"
  shows "sys_inv_at base K bound s'"
proof -
  define c where "c = sy_conns s ! i"
  define sh where "sh = sy_shared s"
  note ok = inv_conn[OF inv i, folded c_def sh_def]
  obtain r where st: "cn_result c = Some r" "cr_checkpoint_backfilled r \<noteq> 0" "\<not> should_restart_log (cn_mode c)"
    "\<not> cn_published c" "s' = sys_put s i (publish_backfill sh (cr_total_backfilled r)) (c\<lparr>cn_published := True\<rparr>)"
    using act by (auto simp: act_ck_publish_def next_post_sync_checkpoint_phase_def Let_def c_def sh_def elim!: bind_SomeE
        split: if_splits checkpoint_mode.splits)
  define sh' where "sh' = publish_backfill sh (cr_total_backfilled r)"
  have bf: "ws_nbackfills sh < cr_total_backfilled r" "cr_total_backfilled r \<le> K" and idle: "oc_state (wf_ongoing (cn_wal c)) = CkStart"
    using ok(2) st last by (auto simp: ckpt_ok_def Let_def backfill_ok_def)
  have sh': "ws_nbackfills sh' = cr_total_backfilled r" "ws_max_frame sh' = ws_max_frame sh" "ws_frame_cache sh' = ws_frame_cache sh"
    "ws_initialized sh' = ws_initialized sh" "other_locks_same sh sh'" "ws_read_locks sh' = ws_read_locks sh"
    by (simp_all add: sh'_def publish_backfill_def other_locks_same_def)
  have cont: "content sh' log b k p = content sh log b k p" for log b k p by (simp add: content_def sh')
  note slots = slot_frame[OF sh'(6)]
  have rd: "read_ok sh' (sy_log s) base bound d" if "read_ok sh (sy_log s) base bound d" for d
    using that bf(1) by (auto simp: read_ok_def Let_def sh' cont slots)
  have own: "ckpt_ok sh' (sy_log s) (sy_db s) base K bound (sy_last s = i) (c\<lparr>cn_published := True\<rparr>)"
    using ok(2) st(1) idle by (auto simp: ckpt_ok_def Let_def)
  have rd': "read_ok sh' (sy_log s) base bound (c\<lparr>cn_published := True\<rparr>)" using rd[OF ok(1)] by (simp add: read_ok_def Let_def)
  have linv: "locks_inv sh' ((sy_conns s)[i := c\<lparr>cn_published := True\<rparr>])"
    by (rule locks_inv_same[OF ok(3) i guards_ok_frame[OF ok(4) sh'(6,5)]])
      (use sh'(5) in \<open>simp_all add: slots other_locks_same_def has_guard_def has_write_def conn_guard_def c_def[symmetric] cong: option.case_cong\<close>)
  have other: "read_ok sh' (sy_log s) base bound (sy_conns s ! j)
      \<and> ckpt_ok sh' (sy_log s) (sy_db s) base K bound (sy_last s = j) (sy_conns s ! j)"
    if "j < length (sy_conns s)" "j \<noteq> i" for j
    using inv_conn(1,2)[OF inv that(1)] ckpt_ok_other[of sh "sy_log s" "sy_db s" base K bound "sy_conns s ! j" sh'] that(2) last rd
    by (simp add: sh_def)
  show ?thesis
    unfolding st(5) sh'_def[symmetric]
    using inv i own rd' linv other bf(2)
    by (auto simp: sys_inv_at_def sys_put_def nth_list_update sh_def[symmetric] log_ok_def db_ok_def sh' cont)
qed

section \<open>The result of a checkpoint\<close>

lemma sys_put_put [simp]: "sys_put (sys_put s i sh c) i sh' c' = sys_put s i sh' c'"
  by (simp add: sys_put_def)

lemma sys_put_get [simp]: "sy_shared (sys_put s i sh c) = sh" "i < length (sy_conns s) \<Longrightarrow> sy_conns (sys_put s i sh c) ! i = c"
  "length (sy_conns (sys_put s i sh c)) = length (sy_conns s)" "sy_log (sys_put s i sh c) = sy_log s"
  "sy_db (sys_put s i sh c) = sy_db s" "sy_last (sys_put s i sh c) = sy_last s" "sy_committed (sys_put s i sh c) = sy_committed s"
  by (simp_all add: sys_put_def)

lemma no_readers:
  assumes inv: "sys_inv_at base K bound s" and j: "j < length (sy_conns s)"
    and modes: "slot_mode (sy_shared s) 0 = Writer" "\<forall>k. 1 \<le> k \<and> k < 5 \<longrightarrow> slot_mode (sy_shared s) k = Free"
  shows "wf_lock_index (cn_wal (sy_conns s ! j)) = NO_LOCK_HELD"
proof (rule ccontr)
  let ?k = "wf_lock_index (cn_wal (sy_conns s ! j))"
  assume "?k \<noteq> NO_LOCK_HELD"
  then have k: "?k < 5" using inv_conn(1)[OF inv j] by (auto simp: read_ok_def Let_def)
  show False using locks_inv_reader[OF inv_conn(3)[OF inv j] j refl k] modes k by (cases "?k = 0") auto
qed

text \<open>The same readers in every slot, and the exclusive holder of slot 0.\<close>

lemma locks_inv_counts:
  assumes inv: "locks_inv sh cs" and i: "i < length cs"
    and sh': "guards_ok sh'" "\<And>j. j < 5 \<Longrightarrow> reader_count (slot_mode sh' j) = reader_count (slot_mode sh j)"
      "slot_mode sh' 0 = slot_mode sh 0" "other_locks_same sh sh'"
    and c: "wf_lock_index (cn_wal c) = wf_lock_index (cn_wal (cs ! i))" "has_guard c = has_guard (cs ! i)"
      "has_write c = has_write (cs ! i)"
  shows "locks_inv sh' (cs[i := c])"
proof -
  have "tally (reads_slot j) (cs[i := c]) = tally (reads_slot j) cs" for j
    by (rule tally_same[OF i]) (simp add: reads_slot_def c(1))
  then show ?thesis
    using inv sh' c(2,3) tally_same[OF i, of has_guard c] tally_same[OF i, of has_write c]
    by (auto simp: locks_inv_def other_locks_same_def)
qed

lemma sys_inv_begin_restart:
  assumes inv: "sys_inv_at base K bound s" and i: "i < length (sy_conns s)" and c: "c = sy_conns s ! i"
    and run: "oc_state (wf_ongoing (cn_wal c)) = CkDetermineResult" and mode: "should_restart_log (cn_mode c)"
    and all: "ws_max_frame (sy_shared s) = oc_max_frame (wf_ongoing (cn_wal c))"
    and free: "\<forall>k. 1 \<le> k \<and> k < 5 \<longrightarrow> slot_mode (sy_shared s) k = Free"
    and re: "restarted (sy_shared s) rnd (\<lambda>_. Writer) sh'"
    and res: "everything_backfilled res" "cr_guard res = None"
    and w: "w = (apply_restart_snapshot (cn_wal c) (load_snapshot sh'))\<lparr>wf_ongoing := (wf_ongoing (cn_wal c))\<lparr>oc_state := CkFinalize (Some res)\<rparr>\<rparr>"
  shows "sys_inv (sys_put s i sh' (c\<lparr>cn_wal := w\<rparr>))"
proof -
  note ok = inv_conn[OF inv i, folded c]
  note rg = running_guard[OF ok(2)]
  have guard: "conn_guard (sy_conns s ! i) = Some (guard_for (cn_mode c))" "wf_checkpoint_guard (cn_wal c) = Some (guard_for (cn_mode c))"
    "sy_last s = i" "cn_result c = None" "cn_loaded c = None" using rg run c by auto
  have zero: "slot_mode (sy_shared s) 0 = Writer" by (rule holder_locks(2)[OF ok(3) i guard(1)])
  have idx: "wf_lock_index (cn_wal (sy_conns s ! j)) = NO_LOCK_HELD" if "j < length (sy_conns s)" for j
    by (rule no_readers[OF inv that zero free])
  have held: "\<not> wf_write_lock_held (cn_wal c)" "\<not> wf_unpublished (cn_wal c)" using ok(1) idx[OF i] c by (auto simp: read_ok_def Let_def)
  have K: "ws_max_frame (sy_shared s) \<le> K" using ok(2) run all by (auto simp: ckpt_ok_def Let_def)
  note rs = fc_get_restarted[OF re]
  have gok: "guards_ok sh'" using ok(4) rs by (simp add: guards_ok_def other_locks_same_def)
  have w': "wf_lock_index w = NO_LOCK_HELD" "wf_write_lock_held w = wf_write_lock_held (cn_wal c)" "\<not> wf_unpublished w"
    "wf_checkpoint_guard w = wf_checkpoint_guard (cn_wal c)" "wf_ongoing w = (wf_ongoing (cn_wal c))\<lparr>oc_state := CkFinalize (Some res)\<rparr>"
    using idx[OF i] held c by (simp_all add: w apply_restart_snapshot_def)
  have "sys_inv_at (sy_db s) 0 0 (sys_put s i sh' (c\<lparr>cn_wal := w\<rparr>))"
  proof (rule sys_inv_restart[OF inv i K re])
    show "locks_inv sh' ((sy_conns s)[i := c\<lparr>cn_wal := w\<rparr>])"
    proof (rule locks_inv_counts[OF ok(3) i gok])
      show "reader_count (slot_mode sh' j) = reader_count (slot_mode (sy_shared s) j)" if "j < 5" for j
        using re free zero that by (cases "j = 0") (simp_all add: restarted_def)
    qed (use re zero rs guard w' idx[OF i] c in \<open>simp_all add: restarted_def has_guard_def has_write_def conn_guard_idle\<close>)
    show "read_ok sh' (sy_log s) (sy_db s) 0 (c\<lparr>cn_wal := w\<rparr>)" using held by (simp add: read_ok_def w')
    show "ckpt_ok sh' (sy_log s) (sy_db s) (sy_db s) 0 0 (sy_last s = i) (c\<lparr>cn_wal := w\<rparr>)"
      using guard res mode re by (simp add: ckpt_ok_def w' restarted_def)
  qed (use idx others_idle[OF inv i guard(1)] guard(3) in auto)
  then show ?thesis by (auto simp: sys_inv_def)
qed

lemma act_ck_result_inv:
  assumes inv: "sys_inv_at base K bound s" and i: "i < length (sy_conns s)" and act: "act_ck_result s i rnd = Some s'"
  shows "sys_inv s'"
proof -
  define c where "c = sy_conns s ! i"
  define sh where "sh = sy_shared s"
  note ok = inv_conn[OF inv i, folded c_def sh_def]
  define w where "w = cn_wal c"
  define oc where "oc = wf_ongoing w"
  obtain r sh1 w1 where st: "oc_state oc = CkDetermineResult" "checkpoint_determine_result sh w (cn_mode c) rnd = Some (r, sh1, w1)"
    and fin: "(case r of
             Inl e \<Rightarrow>
               do { (sh2, w2) \<leftarrow> checkpoint_failed sh1 w1; Some (sys_put s i sh2 (c\<lparr>cn_wal := w2\<rparr>)) }
           | Inr _ \<Rightarrow> Some (sys_put s i sh1 (c\<lparr>cn_wal := w1\<rparr>))) = Some s'"
    using act unfolding act_ck_result_def Let_def c_def[symmetric] sh_def[symmetric] w_def[symmetric] oc_def[symmetric]
    by (auto elim!: bind_SomeE split: if_splits)
  have run: "oc_state (wf_ongoing (cn_wal c)) = CkDetermineResult" "oc_state (wf_ongoing (cn_wal c)) \<noteq> CkStart"
    using st(1) by (simp_all add: oc_def w_def)
  note rg = running_guard[OF ok(2) run(2)]
  define result where "result = checkpoint_result_new (ws_max_frame sh) (oc_max_frame oc) (oc_max_frame oc - (oc_min_frame oc - 1))"
  define fz where "fz v = v\<lparr>wf_ongoing := (wf_ongoing v)\<lparr>oc_state := CkFinalize (Some result)\<rparr>\<rparr>" for v :: wal_file
  have oc: "oc_min_frame oc = ws_nbackfills sh + 1" "oc_max_frame oc \<le> K" using ok(2) st(1) by (auto simp: ckpt_ok_def Let_def oc_def w_def)
  have mx: "sn_max_frame (load_snapshot sh) = ws_max_frame sh" by (simp add: load_snapshot_def)
  have np: "\<not> (oc_current_page oc < length (oc_pages oc) \<or> oc_min_frame oc = 0)"
    using st(2) unfolding checkpoint_determine_result_def Let_def oc_def[symmetric] by (auto split: if_splits)
  have eq: "(if require_all_backfilled (cn_mode c) \<and> \<not> everything_backfilled result then Some (Inl Busy, sh, w)
         else if should_restart_log (cn_mode c) then
           (if wf_checkpoint_guard w \<noteq> Some WriterGuard then None
            else do {
              (r, sh1) \<leftarrow> begin_restart sh rnd;
              case r of
                Inl e \<Rightarrow> Some (Inl e, sh1, w)
              | Inr snapshot \<Rightarrow> Some (Inr (), sh1, fz (apply_restart_snapshot w snapshot))
            })
         else Some (Inr (), sh, fz w)) = Some (r, sh1, w1)"
    using st(2) unfolding checkpoint_determine_result_def Let_def oc_def[symmetric] result_def mx fz_def if_not_P[OF np] .
  consider (quiet) "require_all_backfilled (cn_mode c) \<and> \<not> everything_backfilled result" "r = Inl Busy" "sh1 = sh" "w1 = w"
    | (restart) "should_restart_log (cn_mode c)" "everything_backfilled result"
    | (plain) "\<not> should_restart_log (cn_mode c)" "r = Inr ()" "sh1 = sh" "w1 = fz w"
  proof -
    have "should_restart_log (cn_mode c) \<Longrightarrow> require_all_backfilled (cn_mode c)"
      by (cases "cn_mode c") simp_all
    then show ?thesis using that eq by (auto split: if_splits)
  qed
  then show ?thesis
  proof cases
    case quiet
    obtain sh2 w2 where "checkpoint_failed sh w = Some (sh2, w2)" "s' = sys_put s i sh2 (c\<lparr>cn_wal := w2\<rparr>)"
      using fin quiet by (auto elim!: bind_SomeE)
    then have "sys_inv_at base K bound s'" using sys_inv_failed[OF inv i] run by (simp add: c_def sh_def w_def)
    then show ?thesis by (auto simp: sys_inv_def)
  next
    case plain
    have s'eq: "s' = sys_put s i sh (c\<lparr>cn_wal := fz w\<rparr>)" using fin plain by simp
    have bf: "backfill_ok sh K result" using oc by (auto simp: backfill_ok_def result_def checkpoint_result_new_def)
    have "sys_inv_at base K bound s'"
      unfolding s'eq
    proof (rule sys_inv_frame[OF inv i, folded sh_def c_def])
      show "read_ok sh (sy_log s) base bound (c\<lparr>cn_wal := fz w\<rparr>)" using ok(1) by (simp add: read_ok_def Let_def fz_def w_def)
      show "ckpt_ok sh (sy_log s) (sy_db s) base K bound (sy_last s = i) (c\<lparr>cn_wal := fz w\<rparr>)"
        using rg plain(1) bf by (simp add: ckpt_ok_def Let_def fz_def w_def) (simp add: result_def checkpoint_result_new_def)
    qed (use rg in \<open>simp_all add: has_guard_def has_write_def conn_guard_idle fz_def w_def\<close>)
    then show ?thesis by (auto simp: sys_inv_def)
  next
    case restart
    have zero: "slot_mode sh 0 = Writer" by (rule holder_locks(2)[OF ok(3) i]) (use rg(2) c_def in simp)
    obtain rb where br: "begin_restart sh rnd = Some (rb, sh1)" and eq2: "(case rb of
                Inl e \<Rightarrow> Some (Inl e, sh1, w)
              | Inr snapshot \<Rightarrow> Some (Inr (), sh1, fz (apply_restart_snapshot w snapshot))) = Some (r, sh1, w1)"
      using eq restart by (auto elim!: bind_SomeE split: if_splits sum.splits)
    note spec = begin_restart_spec[OF ok(5) zero, of rnd]
    show ?thesis
    proof (cases "\<forall>k. 1 \<le> k \<and> k < 5 \<longrightarrow> slot_mode sh k = Free")
      case True
      have re: "rb = Inr (load_snapshot sh1)" "restarted sh rnd (\<lambda>_. Writer) sh1"
        using spec[unfolded if_P[OF True]] br by auto
      have s'eq: "s' = sys_put s i sh1 (c\<lparr>cn_wal := fz (apply_restart_snapshot w (load_snapshot sh1))\<rparr>)" using eq2 re fin by auto
      show ?thesis
        unfolding s'eq
        by (rule sys_inv_begin_restart[OF inv i c_def run(1) restart(1), folded sh_def, OF _ True re(2) restart(2)])
          (use restart(2) in \<open>simp_all add: result_def checkpoint_result_new_def everything_backfilled_def fz_def w_def oc_def apply_restart_snapshot_def\<close>)
    next
      case False
      have re: "rb = Inl Busy" "relocked sh sh1 (slot_mode sh)" "marks_kept sh sh1"
        using spec[unfolded if_not_P[OF False]] br by (auto dest: marks_kept_restart)
      obtain sh2 w2 where f: "checkpoint_failed sh1 w = Some (sh2, w2)" "s' = sys_put s i sh2 (c\<lparr>cn_wal := w2\<rparr>)"
        using eq2 re(1) fin by (auto elim!: bind_SomeE)
      have inv1: "sys_inv_at base K bound (sys_put s i sh1 c)"
      proof (rule sys_inv_quiet[OF inv i, folded sh_def])
        have ls: "log_same sh sh1" "other_locks_same sh sh1" using re(2) by (auto simp: relocked_def)
        show "log_same sh sh1" "marks_kept sh sh1" by (rule ls re)+
        have modes: "slot_mode sh1 j = slot_mode sh j" if "j < 5" for j using re(2) that by (simp add: relocked_def)
        show "slot_mode sh1 j = Writer \<or> (\<forall>k < length (sy_conns s). k \<noteq> i \<longrightarrow> oc_state (wf_ongoing (cn_wal (sy_conns s ! k))) = CkStart)"
          if "j < 5" "slot_mode sh j = Writer" for j using that modes by simp
        show "locks_inv sh1 ((sy_conns s)[i := c])"
          by (rule locks_inv_same[OF ok(3) i guards_ok_relocked[OF ok(4) re(2)] modes]) (use ls c_def in \<open>simp_all add: other_locks_same_def\<close>)
        have "mark sh1 (wf_lock_index (cn_wal c)) = mark sh (wf_lock_index (cn_wal c))" if "wf_lock_index (cn_wal c) < 5"
          using re(3) locks_inv_reader(1)[OF ok(3) i refl, folded c_def] that by (simp add: marks_kept_def)
        then show "read_ok sh1 (sy_log s) base bound c" by (intro read_ok_same[OF ok(1) ls(1)]) auto
        show "ckpt_ok sh1 (sy_log s) (sy_db s) base K bound (sy_last s = i) c" by (rule ckpt_ok_same[OF ok(2) ls(1)]) (simp add: modes)
      qed
      have "sys_inv_at base K bound s'"
        using sys_inv_failed[OF inv1, of i sh2 w2] i run f by (simp add: w_def)
      then show ?thesis by (auto simp: sys_inv_def)
    qed
  qed
qed

section \<open>The end of a checkpoint\<close>

lemma bump_fields:
  "sh' = snd (bump_checkpoint_epoch sh) \<Longrightarrow> log_same sh sh' \<and> ws_read_locks sh' = ws_read_locks sh \<and> other_locks_same sh sh'"
  by (auto simp: bump_checkpoint_epoch_def log_same_def other_locks_same_def)

text \<open>After a restart the read marks are released and the guard goes into the result.\<close>

lemma sys_inv_end_restart:
  assumes inv: "sys_inv_at base K bound s" and i: "i < length (sy_conns s)" and c: "c = sy_conns s ! i"
    and run: "oc_state (wf_ongoing (cn_wal c)) = CkFinalize (Some res)" and mode: "should_restart_log (cn_mode c)"
    and er: "end_restart (sy_shared s) = Some sh1" and sh': "sh' = snd (bump_checkpoint_epoch sh1)"
    and c': "c' = c\<lparr>cn_wal := w, cn_result := Some (res\<lparr>cr_guard := wf_checkpoint_guard (cn_wal c)\<rparr>)\<rparr>"
    and w: "w = (cn_wal c)\<lparr>wf_checkpoint_guard := None, wf_ongoing := oc\<rparr>" "oc_state oc = CkStart"
  shows "sys_inv_at base K bound (sys_put s i sh' c')"
proof -
  note ok = inv_conn[OF inv i, folded c]
  have st: "oc_state (wf_ongoing (cn_wal c)) \<noteq> CkStart" using run by simp
  note rg = running_guard[OF ok(2) st]
  have writer: "\<forall>i. 1 \<le> i \<and> i < 5 \<longrightarrow> slot_mode (sy_shared s) i = Writer"
    using ok(2) run mode by (auto simp: ckpt_ok_def Let_def)
  have sh1: "relocked (sy_shared s) sh1 (\<lambda>i. if 1 \<le> i then Free else slot_mode (sy_shared s) i)" "\<forall>i < 5. mark sh1 i = mark (sy_shared s) i"
    using end_restart_spec[OF ok(5) writer] er by auto
  note b = bump_fields[OF sh']
  have rl: "ws_read_locks sh' = ws_read_locks sh1" using b by simp
  note slots = slot_frame[OF rl]
  have ls: "log_same (sy_shared s) sh'" using log_same_trans[of "sy_shared s" sh1] sh1(1) b by (auto simp: relocked_def)
  have oth: "other_locks_same (sy_shared s) sh'" using other_locks_same_trans[of "sy_shared s" sh1] sh1(1) b by (auto simp: relocked_def)
  have gok: "guards_ok sh'" using guards_ok_frame[OF guards_ok_relocked[OF ok(4) sh1(1)]] b by blast
  have guards: "conn_guard c' = conn_guard c" using rg by (simp add: c' w conn_guard_def)
  have marks: "mark sh' j = mark (sy_shared s) j" if "j < 5" for j using sh1(2) that by (simp add: slots)
  show ?thesis
  proof (rule sys_inv_quiet[OF inv i ls])
    show "marks_kept (sy_shared s) sh'" using marks by (simp add: marks_kept_def)
    show "slot_mode sh' j = Writer \<or> (\<forall>k < length (sy_conns s). k \<noteq> i \<longrightarrow> oc_state (wf_ongoing (cn_wal (sy_conns s ! k))) = CkStart)" for j
      using others_idle[OF inv i] rg(2) c by blast
    show "locks_inv sh' ((sy_conns s)[i := c'])"
    proof (rule locks_inv_counts[OF ok(3) i gok])
      show "reader_count (slot_mode sh' j) = reader_count (slot_mode (sy_shared s) j)" if "j < 5" for j
        using sh1(1) writer that by (cases "j = 0") (simp_all add: slots relocked_def)
      show "slot_mode sh' 0 = slot_mode (sy_shared s) 0" using sh1(1) by (simp add: slots relocked_def)
    qed (use oth guards c in \<open>simp_all add: has_guard_def has_write_def c' w\<close>)
    have "read_ok sh' (sy_log s) base bound c" by (rule read_ok_same[OF ok(1) ls]) (simp add: marks)
    then show "read_ok sh' (sy_log s) base bound c'" by (simp add: read_ok_def Let_def c' w)
    show "ckpt_ok sh' (sy_log s) (sy_db s) base K bound (sy_last s = i) c'"
      using rg mode w(2) by (simp add: ckpt_ok_def Let_def c' w)
  qed
qed

lemma act_ck_finalize_inv:
  assumes inv: "sys_inv_at base K bound s" and i: "i < length (sy_conns s)" and act: "act_ck_finalize s i = Some s'"
  shows "sys_inv_at base K bound s'"
proof -
  define c where "c = sy_conns s ! i"
  define sh where "sh = sy_shared s"
  note ok = inv_conn[OF inv i, folded c_def sh_def]
  obtain r sh' w' where cf: "checkpoint_finalize sh (cn_wal c) (cn_mode c) = Some (r, sh', w')"
    and s'eq: "s' = sys_put s i sh' (c\<lparr>cn_wal := w', cn_result := Some r\<rparr>)"
    using act by (auto simp: act_ck_finalize_def Let_def c_def sh_def elim!: bind_SomeE)
  obtain sh1 res where er: "(if should_restart_log (cn_mode c) then end_restart sh else Some sh) = Some sh1"
    and run: "oc_state (wf_ongoing (cn_wal c)) = CkFinalize (Some res)"
    using cf by (auto simp: checkpoint_finalize_def elim!: bind_SomeE split: checkpoint_state.splits)
  define oc where "oc = (wf_ongoing (cn_wal c))\<lparr>oc_pages := [], oc_current_page := 0, oc_state := CkStart\<rparr>"
  define sh2 where "sh2 = snd (bump_checkpoint_epoch sh1)"
  have st: "oc_state (wf_ongoing (cn_wal c)) \<noteq> CkStart" using run by simp
  note rg = running_guard[OF ok(2) st]
  have res: "cr_guard res = None" "should_restart_log (cn_mode c) \<Longrightarrow> everything_backfilled res"
    "\<not> should_restart_log (cn_mode c) \<Longrightarrow> backfill_ok sh K res" using ok(2) run by (auto simp: ckpt_ok_def Let_def)
  have eq: "(if should_truncate res
          then Some (res\<lparr>cr_guard := wf_checkpoint_guard (cn_wal c)\<rparr>, sh2, (cn_wal c)\<lparr>wf_checkpoint_guard := None\<rparr>)
          else do { (sh3, w1) \<leftarrow> drop_checkpoint_guard sh2 (cn_wal c); Some (res, sh3, w1) }) = Some (r, sh', w'\<lparr>wf_ongoing := wf_ongoing (cn_wal c)\<rparr>)"
    and w': "wf_ongoing w' = oc"
    using cf er run rg(1)
    by (auto simp: checkpoint_finalize_def Let_def sh2_def[symmetric] oc_def drop_checkpoint_guard_def elim!: bind_SomeE split: if_splits)
  have w'': "w' = (w'\<lparr>wf_ongoing := wf_ongoing (cn_wal c)\<rparr>)\<lparr>wf_ongoing := oc\<rparr>" using w' by simp
  show ?thesis
  proof (cases "should_restart_log (cn_mode c)")
    case True
    then have "should_truncate res" using res(2) by (simp add: should_truncate_def)
    then have "r = res\<lparr>cr_guard := wf_checkpoint_guard (cn_wal c)\<rparr>" "sh' = sh2" "w' = (cn_wal c)\<lparr>wf_checkpoint_guard := None, wf_ongoing := oc\<rparr>"
      using eq w'' by auto
    then show ?thesis
      unfolding s'eq using sys_inv_end_restart[OF inv i c_def run True, folded sh_def, of sh1 sh2 _ w' oc] er True
      by (simp add: sh2_def oc_def)
  next
    case False
    then have sh1: "sh1 = sh" using er by simp
    note b = bump_fields[OF sh2_def, unfolded sh1]
    have bf: "backfill_ok sh2 K res" using res(3)[OF False] b by (simp add: backfill_ok_def log_same_def)
    show ?thesis
    proof (cases "should_truncate res")
      case True
      then have eqs: "r = res\<lparr>cr_guard := wf_checkpoint_guard (cn_wal c)\<rparr>" "sh' = sh2" "w' = (cn_wal c)\<lparr>wf_checkpoint_guard := None, wf_ongoing := oc\<rparr>"
        using eq w'' by auto
      have guards: "conn_guard (c\<lparr>cn_wal := w', cn_result := Some r\<rparr>) = conn_guard c" using rg by (simp add: eqs conn_guard_def)
      show ?thesis
        unfolding s'eq eqs(2)
      proof (rule sys_inv_frame[OF inv i, folded sh_def c_def])
        show "read_ok sh (sy_log s) base bound (c\<lparr>cn_wal := w', cn_result := Some r\<rparr>)" using ok(1) by (simp add: read_ok_def Let_def eqs)
        show "ckpt_ok sh (sy_log s) (sy_db s) base K bound (sy_last s = i) (c\<lparr>cn_wal := w', cn_result := Some r\<rparr>)"
          using rg res(3)[OF False] by (auto simp: ckpt_ok_def Let_def eqs oc_def backfill_ok_def)
      qed (use b guards in \<open>simp_all add: has_guard_def has_write_def eqs\<close>)
    next
      case T: False
      have inv2: "sys_inv_at base K bound (sys_put s i sh2 c)"
        by (rule sys_inv_frame[OF inv i]) (use b ok in \<open>simp_all add: sh_def c_def\<close>)
      have i2: "i < length (sy_conns (sys_put s i sh2 c))" using i by simp
      obtain sh3 where d: "drop_checkpoint_guard sh2 (cn_wal c) = Some (sh3, (cn_wal c)\<lparr>wf_checkpoint_guard := None\<rparr>)"
        "guard_moved sh2 (guard_for (cn_mode c)) Free sh3"
        using drop_guard_moved[OF inv2 i2, of c] rg(1) i by auto
      have eqs: "r = res" "sh' = sh3" "w' = (cn_wal c)\<lparr>wf_checkpoint_guard := None, wf_ongoing := oc\<rparr>"
        using eq w'' d(1) T by auto
      have ls3: "log_same sh2 sh3" using d(2) by (simp add: guard_moved_def)
      have ck: "ckpt_ok sh3 (sy_log s) (sy_db s) base K bound (sy_last s = i) (c\<lparr>cn_wal := w', cn_result := Some r\<rparr>)"
        using rg res(1) bf ls3 by (auto simp: ckpt_ok_def Let_def eqs oc_def backfill_ok_def log_same_def)
      have rd: "read_ok sh2 (sy_log s) base bound (c\<lparr>cn_wal := w', cn_result := Some r\<rparr>)"
        using inv_conn(1)[OF inv2 i2] i by (simp add: read_ok_def Let_def eqs)
      have "sys_inv_at base K bound (sys_put (sys_put s i sh2 c) i sh' (c\<lparr>cn_wal := w', cn_result := Some r\<rparr>))"
        by (rule sys_inv_guard[OF inv2 i2, of "guard_for (cn_mode c)" Free])
          (use d(2) rd ck rg(1,2) res(1) i in \<open>simp_all add: eqs conn_guard_def\<close>)
      then show ?thesis by (simp add: s'eq)
    qed
  qed
qed

section \<open>The start of a checkpoint\<close>

lemma distinct_fst_sort_key: "distinct (map fst (sort_key f xs)) \<longleftrightarrow> distinct (map fst xs)"
  by (simp add: distinct_map)

lemma checkpoint_bound_le: "checkpoint_bound mode m = Inr b \<Longrightarrow> b \<le> m"
  by (auto simp: checkpoint_bound_def split: checkpoint_mode.splits option.splits if_splits)

text \<open>What the scan of the read marks leaves as it was.\<close>

lemma safe_scan_quiet:
  assumes "safe_scan sh m I S sh'"
  shows "log_same sh sh'" "marks_kept sh sh'" "relocked sh sh' (slot_mode sh)" "other_locks_same sh sh'"
  using assms by (auto simp: safe_scan_def marks_kept_def relocked_def)

text \<open>No reader is behind the frame up to which the checkpoint copies.\<close>

lemma safe_frame_readers:
  assumes linv: "locks_inv sh cs" and j: "j < length cs" and rd: "read_ok sh log base bound (cs ! j)"
    and mv: "guard_moved sh g Writer sh1" and free: "slot_mode sh 0 = Free" and scan: "safe_scan sh1 m {1..<5} S sh2"
    and lock: "wf_lock_index (cn_wal (cs ! j)) \<noteq> NO_LOCK_HELD"
  shows "S \<le> wf_max_frame (cn_wal (cs ! j))"
proof -
  define k where "k = wf_lock_index (cn_wal (cs ! j))"
  have k: "k < 5" "1 \<le> k \<longrightarrow> mark sh k \<le> wf_max_frame (cn_wal (cs ! j))" using rd lock by (auto simp: read_ok_def Let_def k_def)
  note used = locks_inv_reader[OF linv j k_def[symmetric] k(1)]
  have k1: "1 \<le> k" using used(1) free by (cases "k = 0") auto
  then have "slot_mode sh1 k = slot_mode sh k" "mark sh1 k = mark sh k" using mv k(1) by (auto simp: guard_moved_def)
  then have "mark sh2 k = mark sh k" using scan used(1) k(1) by (simp add: safe_scan_def)
  moreover have "S \<le> mark sh2 k" using scan k(1) k1 unfolding safe_scan_def by (meson atLeastLessThan_iff)
  ultimately show ?thesis using k(2) k1 by simp
qed

lemma sys_inv_start:
  assumes inv: "sys_inv_at base K bound s" and i: "i < length (sy_conns s)" and c: "c = sy_conns s ! i" and idle: "conn_idle (c\<lparr>cn_ckpt := None\<rparr>)"
    and avail: "guard_available (sy_shared s) mode" and mv: "guard_moved (sy_shared s) (guard_for mode) Writer sh1"
    and scan: "safe_scan sh1 (ws_max_frame (sy_shared s)) {1..<5} S sh2" and b: "b \<le> S"
    and w: "w = (cn_wal c)\<lparr>wf_checkpoint_guard := Some (guard_for mode), wf_ongoing := oc\<rparr>"
    and oc: "oc_min_frame oc = ws_nbackfills (sy_shared s) + 1" "oc_max_frame oc = b" "oc_state oc = CkProcessing"
      "oc_pages oc = sort_key (\<lambda>(page, frame). frame) (iter_latest_frames sh2 (ws_nbackfills (sy_shared s) + 1) b)"
    and c': "c' = c\<lparr>cn_ckpt := None, cn_wal := w, cn_written := [], cn_published := False\<rparr>" and md: "cn_mode c = mode"
  shows "sys_inv_at base (ws_nbackfills (sy_shared s)) (max bound b) ((sys_put s i sh2 c')\<lparr>sy_last := i\<rparr>)"
proof -
  define sh where "sh = sy_shared s"
  note ok = inv_conn[OF inv i, folded c sh_def]
  note avail = avail[folded sh_def] and mv = mv[folded sh_def] and scan = scan[folded sh_def] and oc = oc[folded sh_def]
  note q = safe_scan_quiet[OF scan]
  have idle': "cn_result c = None" "cn_loaded c = None" "wf_checkpoint_guard (cn_wal c) = None" "conn_guard c = None"
    using ok(2) idle by (auto simp: ckpt_ok_def Let_def conn_idle_def conn_guard_def)
  have free: "slot_mode sh 0 = Free" using avail by (simp add: guard_available_def)
  have ls: "log_same sh sh2" using log_same_trans[OF _ q(1)] mv by (simp add: guard_moved_def)
  have cont: "content sh2 log bs k p = content sh log bs k p" for log bs k p by (rule content_log_same[OF ls])
  have eqs: "ws_nbackfills sh2 = ws_nbackfills sh" "ws_max_frame sh2 = ws_max_frame sh"
    "\<And>p. fc_get (ws_frame_cache sh2) p = fc_get (ws_frame_cache sh) p" using ls by (auto simp: log_same_def)
  have lok: "log_ok sh (sy_log s)" and db: "db_ok sh (sy_log s) (sy_db s) base K bound" using inv by (auto simp: sys_inv_at_def sh_def)
  have lok2: "log_ok sh2 (sy_log s)" by (rule log_ok_same[OF lok ls])
  have bS: "b \<le> ws_max_frame sh" using b scan by (simp add: safe_scan_def)
  have db2: "db_ok sh2 (sy_log s) (sy_db s) base (ws_nbackfills sh) (max bound b)"
    unfolding db_ok_def eqs cont
  proof (intro conjI allI)
    show "ws_nbackfills sh \<le> ws_nbackfills sh" "max bound b \<le> ws_max_frame sh" using db bS by (auto simp: db_ok_def)
    fix p
    obtain k where "K \<le> k" "k \<le> bound" "sy_db s p = content sh (sy_log s) base k p" "ws_nbackfills sh \<le> K"
      using db unfolding db_ok_def by blast
    then show "\<exists>k. ws_nbackfills sh \<le> k \<and> k \<le> max bound b \<and> sy_db s p = content sh (sy_log s) base k p"
      by (intro exI[of _ k]) auto
  qed
  have rd: "read_ok sh2 (sy_log s) base (max bound b) (sy_conns s ! j)" if j: "j < length (sy_conns s)" for j
  proof -
    note rj = inv_conn(1)[OF inv j, folded sh_def]
    have "mark sh2 k = mark sh k" if k: "wf_lock_index (cn_wal (sy_conns s ! j)) = k" "1 \<le> k" "k < 5" for k
      using locks_inv_reader(1)[OF ok(3) j k(1,3)] mv q(2) k by (auto simp: guard_moved_def marks_kept_def)
    then have "read_ok sh2 (sy_log s) base bound (sy_conns s ! j)" by (intro read_ok_same[OF rj ls]) auto
    then show ?thesis
      using safe_frame_readers[OF ok(3) j rj mv free scan] b by (auto simp: read_ok_def Let_def)
  qed
  have own: "read_ok sh2 (sy_log s) base (max bound b) c'" using rd[OF i] idle' by (simp add: read_ok_def Let_def c[symmetric] c' w)
  have linv1: "locks_inv sh1 ((sy_conns s)[i := c'])"
    by (rule locks_inv_guard[OF ok(3) i mv])
      (use avail idle' c in \<open>auto simp: guard_available_def conn_guard_def c' w\<close>)
  have linv: "locks_inv sh2 ((sy_conns s)[i := c'])"
    using locks_inv_same[OF linv1, of i sh2 c'] i guards_ok_relocked[OF _ q(3)] linv1 q(3,4)
    by (simp add: relocked_def other_locks_same_def locks_inv_def[of sh1])
  have pages: "distinct (map fst (oc_pages oc))" "(p, f) \<in> set (oc_pages oc) \<longleftrightarrow>
      newest (\<lambda>f. ws_nbackfills sh + 1 \<le> f \<and> f \<le> b) (fc_get (ws_frame_cache sh) p) = Some f" for p f
    using latest_frames_spec[of "ws_frame_cache sh2" "ws_nbackfills sh + 1" b p f] lok2
    by (simp_all add: oc(4) iter_latest_frames_def distinct_fst_sort_key log_ok_def cache_ok_def eqs)
  have ck: "ckpt_ok sh2 (sy_log s) (sy_db s) base (ws_nbackfills sh) (max bound b) True c'"
    using idle' pages oc md by (simp add: ckpt_ok_def ckpt_copying_def Let_def c' w eqs)
  have other: "ckpt_ok sh2 (sy_log s) (sy_db s) base (ws_nbackfills sh) (max bound b) False (sy_conns s ! j)"
    if j: "j < length (sy_conns s)" for j
  proof -
    have st: "oc_state (wf_ongoing (cn_wal (sy_conns s ! j))) = CkStart"
      by (rule no_guard_idle[OF inv _ j]) (use free in \<open>simp add: sh_def\<close>)
    then show ?thesis using inv_conn(2)[OF inv j] by (auto simp: ckpt_ok_def Let_def)
  qed
  have cm: "sy_committed s p = content sh2 (sy_log s) base (ws_max_frame sh2) p" for p
    using inv by (simp add: sys_inv_at_def cont eqs sh_def)
  show ?thesis
    using inv i lok2 db2 cm linv rd own ck other
    by (auto simp: sys_inv_at_def sys_put_def nth_list_update sh_def[symmetric])
qed

lemma start_scan:
  assumes "locks_ok sh1" "determine_max_safe_checkpoint_frame sh1 m = Some (S, sh2)"
  shows "safe_scan sh1 m {1..<5} S sh2"
proof -
  have "m < 2 ^ 32" "safe_frame_loop sh1 m [1..<5] = Some (S, sh2)"
    using assms(2) by (auto simp: determine_max_safe_checkpoint_frame_def split: if_splits)
  then show ?thesis using safe_frame_loop_spec[OF assms(1), of "[1..<5]" m] by auto
qed

text \<open>A start that gives up after the scan has released its guard again.\<close>

lemma start_released:
  assumes ok: "guards_ok sh" and avail: "guard_available sh mode" and mv: "guard_moved sh (guard_for mode) Writer sh1"
    and scan: "safe_scan sh1 m I S sh2" and rel: "release_checkpoint_guard sh2 (guard_for mode) = Some sh3"
  shows "log_same sh sh3" "marks_kept sh sh3" "\<And>j. j < 5 \<Longrightarrow> slot_mode sh3 j = slot_mode sh j" "guards_ok sh3"
    "rw_mode_of (ws_checkpoint_lock sh3) = rw_mode_of (ws_checkpoint_lock sh)"
    "rw_mode_of (ws_write_lock sh3) = rw_mode_of (ws_write_lock sh)"
proof -
  note q = safe_scan_quiet[OF scan]
  have ok2: "guards_ok sh2" using guards_ok_relocked[OF _ q(3)] mv by (simp add: guard_moved_def)
  have m2: "rw_mode_of (ws_checkpoint_lock sh2) = Writer" "slot_mode sh2 0 = Writer"
    "guard_for mode = WriterGuard \<longrightarrow> rw_mode_of (ws_write_lock sh2) = Writer"
    using mv q(3,4) by (auto simp: guard_moved_def relocked_def other_locks_same_def)
  have mv3: "guard_moved sh2 (guard_for mode) Free sh3" using release_guard_moved[OF ok2 m2] rel by auto
  show "log_same sh sh3" using log_same_trans[OF log_same_trans[OF _ q(1)]] mv mv3 by (auto simp: guard_moved_def)
  show modes: "slot_mode sh3 j = slot_mode sh j" if "j < 5" for j
    using mv mv3 q(3) avail that by (cases "j = 0") (auto simp: guard_moved_def relocked_def guard_available_def)
  show "marks_kept sh sh3"
    unfolding marks_kept_def
  proof (intro allI impI)
    fix j :: nat assume j: "j < 5" "slot_mode sh j \<noteq> Free"
    then have "slot_mode sh1 j \<noteq> Free" using mv by (simp add: guard_moved_def)
    then show "mark sh3 j = mark sh j" using mv mv3 q(2) j by (simp add: guard_moved_def marks_kept_def)
  qed
  show "guards_ok sh3" using mv3 by (simp add: guard_moved_def)
  show "rw_mode_of (ws_checkpoint_lock sh3) = rw_mode_of (ws_checkpoint_lock sh)"
    "rw_mode_of (ws_write_lock sh3) = rw_mode_of (ws_write_lock sh)"
    using mv mv3 q(4) avail by (auto simp: guard_moved_def guard_available_def other_locks_same_def)
qed

lemma conn_guard_load: "conn_guard (c\<lparr>cn_ckpt := l\<rparr>) = conn_guard c"
  by (simp add: conn_guard_def cong: option.case_cong)

lemma sys_inv_local:
  assumes inv: "sys_inv_at base K bound s" and i: "i < length (sy_conns s)"
    and idle: "oc_state (wf_ongoing (cn_wal (sy_conns s ! i))) = CkStart" "cn_loaded (sy_conns s ! i) = None" "cn_result (sy_conns s ! i) = None"
    and c': "cn_wal c' = cn_wal (sy_conns s ! i)" "cn_loaded c' = None" "cn_snap c' = cn_snap (sy_conns s ! i)"
      "\<And>r. cn_result c' = Some r \<Longrightarrow> cr_guard r = None \<and> cr_checkpoint_backfilled r = 0"
  shows "sys_inv_at base K bound (sys_put s i (sy_shared s) c')"
proof -
  note ok = inv_conn[OF inv i]
  have g: "conn_guard c' = conn_guard (sy_conns s ! i)"
    using c' idle by (auto simp: conn_guard_def split: option.splits)
  show ?thesis
  proof (rule sys_inv_quiet[OF inv i])
    show "locks_inv (sy_shared s) ((sy_conns s)[i := c'])"
      by (rule locks_inv_same[OF ok(3) i]) (use ok(4) c' g in \<open>simp_all add: has_guard_def has_write_def\<close>)
    show "read_ok (sy_shared s) (sy_log s) base bound c'" using ok(1) c' idle by (simp add: read_ok_def Let_def)
    show "ckpt_ok (sy_shared s) (sy_log s) (sy_db s) base K bound (sy_last s = i) c'"
      using ok(2) c' idle by (auto simp: ckpt_ok_def Let_def backfill_ok_def)
  qed (auto simp: log_same_def marks_kept_def)
qed

lemma act_ck_load_inv:
  assumes inv: "sys_inv_at base K bound s" and i: "i < length (sy_conns s)" and act: "act_ck_load s i mode = Some s'"
  shows "sys_inv s'"
proof -
  let ?c = "sy_conns s ! i"
  obtain r where st: "conn_idle ?c" "checkpoint_load (sy_shared s) mode Acquire = Some r"
    "s' = sys_put s i (sy_shared s)
       (case r of
          Inl result \<Rightarrow> ?c\<lparr>cn_mode := mode, cn_result := Some result, cn_published := False\<rparr>
        | Inr nbackfills \<Rightarrow> ?c\<lparr>cn_mode := mode, cn_ckpt := Some nbackfills\<rparr>)"
    using act by (auto simp: act_ck_load_def Let_def elim!: bind_SomeE split: if_splits)
  have idle: "oc_state (wf_ongoing (cn_wal ?c)) = CkStart" "cn_loaded ?c = None" "cn_result ?c = None"
    using st(1) by (auto simp: conn_idle_def)
  have "sys_inv_at base K bound s'"
    unfolding st(3) by (rule sys_inv_local[OF inv i idle])
      (use st(2) idle in \<open>auto simp: checkpoint_load_def Let_def checkpoint_result_new_def split: sum.splits if_splits\<close>)
  then show ?thesis by (auto simp: sys_inv_def)
qed

lemma act_ck_start_inv:
  assumes inv: "sys_inv_at base K bound s" and i: "i < length (sy_conns s)" and act: "act_ck_start s i = Some s'"
    and cur: "cn_ckpt (sy_conns s ! i) = Some (ws_nbackfills (sy_shared s))"
  shows "sys_inv s'"
proof -
  define c where "c = sy_conns s ! i"
  define sh where "sh = sy_shared s"
  note ok = inv_conn[OF inv i, folded c_def sh_def]
  define mode where "mode = cn_mode c"
  let ?nb = "ws_nbackfills sh"
  let ?c = "c\<lparr>cn_ckpt := None\<rparr>"
  obtain r sh2 w2 where st: "conn_idle ?c" "checkpoint_start sh (cn_wal c) mode Acquire ?nb = Some (r, sh2, w2)"
    and fin: "(case r of
             Inl e \<Rightarrow>
               do { (sh1, w1) \<leftarrow> checkpoint_failed sh2 w2; Some (sys_put s i sh1 (?c\<lparr>cn_wal := w1\<rparr>)) }
           | Inr _ \<Rightarrow>
               Some ((sys_put s i sh2 (?c\<lparr>cn_wal := w2, cn_written := [], cn_published := False\<rparr>))\<lparr>sy_last := i\<rparr>)) = Some s'"
    using act cur unfolding act_ck_start_def Let_def c_def[symmetric] sh_def[symmetric] mode_def
    by (auto elim!: bind_SomeE split: if_splits)
  have idle: "oc_state (wf_ongoing (cn_wal c)) = CkStart" "cn_result c = None" "cn_loaded c = None" "wf_checkpoint_guard (cn_wal c) = None"
    using ok(2) st(1) by (auto simp: ckpt_ok_def Let_def conn_idle_def)
  let ?oc = "(wf_ongoing (cn_wal c))\<lparr>oc_state := CkStart\<rparr>"
  have same: "?oc = wf_ongoing (cn_wal c)" "(cn_wal c)\<lparr>wf_ongoing := ?oc\<rparr> = cn_wal c" using idle(1) by simp_all
  have "(cn_wal c)\<lparr>wf_checkpoint_guard := wf_checkpoint_guard (cn_wal c)\<rparr> = cn_wal c" by simp
  then have none: "(cn_wal c)\<lparr>wf_checkpoint_guard := None\<rparr> = cn_wal c" by (simp only: idle(4))
  let ?m = "ws_max_frame sh"
  have eq: "do {
         (r, sh1, w1) \<leftarrow> acquire_proper_checkpoint_guard sh (cn_wal c) mode Acquire;
         case r of
           Inl e \<Rightarrow> Some (Inl e, sh1, w1)
         | Inr _ \<Rightarrow>
             do {
               (safe, sh2) \<leftarrow> determine_max_safe_checkpoint_frame sh1 (sn_max_frame (load_snapshot sh1));
               case checkpoint_bound mode safe of
                 Inl e \<Rightarrow> Some (Inl e, sh2, w1)
               | Inr bound \<Rightarrow>
                   Some (Inr (), sh2, w1\<lparr>wf_ongoing := (wf_ongoing w1)\<lparr>
                         oc_min_frame := ?nb + 1, oc_max_frame := bound, oc_pages := sort_key (\<lambda>(page, frame). frame)
                          (iter_latest_frames sh2 (?nb + 1) bound),
                         oc_current_page := 0, oc_state := CkProcessing\<rparr>\<rparr>)
             }
       } = Some (r, sh2, w2)"
    using st(2) unfolding checkpoint_start_def Let_def .
  note acq = acquire_guard_spec[OF ok(4), of mode]
  show ?thesis
  proof (cases "guard_available sh mode")
    case False
    have "acquire_proper_checkpoint_guard sh (cn_wal c) mode Acquire = Some (Inl Busy, sh, cn_wal c)"
      using acq False idle by (simp add: acquire_proper_checkpoint_guard_def guard_fits_def drop_checkpoint_guard_def)
    then have res: "r = Inl Busy" "sh2 = sh" "w2 = cn_wal c" using eq by auto
    have "s' = sys_put s i sh ?c" using fin res idle same by (simp add: checkpoint_failed_def drop_checkpoint_guard_def)
    then show ?thesis using sys_inv_local[OF inv i, folded c_def, OF idle(1,3,2), of ?c] idle by (auto simp: sys_inv_def c_def sh_def)
  next
    case True
    obtain sh1 where sh1: "acquire_checkpoint_guard sh mode = Some (Inr (guard_for mode), sh1)" "guard_held sh (guard_for mode) sh1"
      using acq True by auto
    have mv: "guard_moved sh (guard_for mode) Writer sh1" by (rule guard_held_moved[OF ok(4) sh1(2)])
    define w1 where "w1 = (cn_wal c)\<lparr>wf_checkpoint_guard := Some (guard_for mode)\<rparr>"
    have "acquire_proper_checkpoint_guard sh (cn_wal c) mode Acquire = Some (Inr (), sh1, w1)"
      using sh1(1) idle by (simp add: acquire_proper_checkpoint_guard_def guard_fits_def drop_checkpoint_guard_def w1_def)
    moreover have "sn_max_frame (load_snapshot sh1) = ?m" using mv by (simp add: guard_moved_def log_same_def load_snapshot_def)
    ultimately obtain S sh2' where det: "determine_max_safe_checkpoint_frame sh1 ?m = Some (S, sh2')"
      and eq2: "(case checkpoint_bound mode S of
                 Inl e \<Rightarrow> Some (Inl e, sh2', w1)
               | Inr bound \<Rightarrow>
                   Some (Inr (), sh2', w1\<lparr>wf_ongoing := (wf_ongoing w1)\<lparr>
                         oc_min_frame := ?nb + 1, oc_max_frame := bound, oc_pages := sort_key (\<lambda>(page, frame). frame)
                          (iter_latest_frames sh2' (?nb + 1) bound),
                         oc_current_page := 0, oc_state := CkProcessing\<rparr>\<rparr>)) = Some (r, sh2, w2)"
      using eq by (auto elim!: bind_SomeE)
    have scan: "safe_scan sh1 ?m {1..<5} S sh2'"
      by (rule start_scan[OF _ det]) (use mv in \<open>simp add: guard_moved_def guards_ok_def\<close>)
    show ?thesis
    proof (cases "checkpoint_bound mode S")
      case (Inl e)
      then have res: "r = Inl e" "sh2 = sh2'" "w2 = w1" using eq2 by auto
      obtain sh3 where rel: "release_checkpoint_guard sh2' (guard_for mode) = Some sh3" "s' = sys_put s i sh3 ?c"
        using fin res idle same none by (auto simp: checkpoint_failed_def drop_checkpoint_guard_def w1_def elim!: bind_SomeE)
      note q = start_released[OF ok(4) True mv scan rel(1)]
      have "sys_inv_at base K bound s'"
        unfolding rel(2)
      proof (rule sys_inv_quiet[OF inv i, folded sh_def, OF q(1,2)])
        show "slot_mode sh3 j = Writer \<or> (\<forall>k < length (sy_conns s). k \<noteq> i \<longrightarrow> oc_state (wf_ongoing (cn_wal (sy_conns s ! k))) = CkStart)"
          if "j < 5" "slot_mode sh j = Writer" for j using that q(3) by simp
        show "locks_inv sh3 ((sy_conns s)[i := ?c])"
          by (rule locks_inv_same[OF ok(3) i q(4,3,5,6)]) (simp_all add: c_def has_guard_def has_write_def conn_guard_load)
        have "mark sh3 (wf_lock_index (cn_wal c)) = mark sh (wf_lock_index (cn_wal c))" if "wf_lock_index (cn_wal c) < 5"
          using q(2) locks_inv_reader(1)[OF ok(3) i refl, folded c_def] that by (simp add: marks_kept_def)
        then have "read_ok sh3 (sy_log s) base bound c" by (intro read_ok_same[OF ok(1) q(1)]) auto
        then show "read_ok sh3 (sy_log s) base bound ?c" by (simp add: read_ok_def Let_def)
        show "ckpt_ok sh3 (sy_log s) (sy_db s) base K bound (sy_last s = i) ?c" using idle by (simp add: ckpt_ok_idle)
      qed
      then show ?thesis by (auto simp: sys_inv_def)
    next
      case (Inr b)
      have "sys_inv_at base ?nb (max bound b) s'"
      proof -
        have res: "r = Inr ()" "sh2 = sh2'" using eq2 Inr by auto
        have s'eq: "s' = (sys_put s i sh2' (c\<lparr>cn_ckpt := None, cn_wal := w2, cn_written := [], cn_published := False\<rparr>))\<lparr>sy_last := i\<rparr>"
          using fin res by simp
        have w2: "w2 = (cn_wal c)\<lparr>wf_checkpoint_guard := Some (guard_for mode), wf_ongoing := wf_ongoing w2\<rparr>"
          using eq2 Inr by (auto simp: w1_def)
        show ?thesis
          unfolding s'eq
          by (rule sys_inv_start[OF inv i c_def st(1), folded sh_def, OF True mv scan checkpoint_bound_le[OF Inr] w2 _ _ _ _ refl mode_def[symmetric]])
            (use eq2 Inr in \<open>auto simp: w1_def\<close>)
      qed
      then show ?thesis by (auto simp: sys_inv_def)
    qed
  qed
qed

end
