(* ===== verification/Wal_Snapshot.thy ===== *)
theory Wal_Snapshot
  imports Wal_Checkpoint
begin

text \<open>
  Snapshot isolation. Every state a database can reach satisfies the invariant of \<open>Wal_Isolation\<close>, so
  the log refines an abstract database (\<open>snap_db\<close>) with one committed state and one snapshot per
  reader, whose steps are the begin and the end of a read transaction and the commit of a
  transaction that read the committed state.
\<close>

section \<open>Reachable states\<close>


lemma tally_replicate: "f c = 0 \<Longrightarrow> tally f (replicate n c) = 0"
  by (simp add: tally_def)

lemma sys_inv_new:
  assumes "n < 2 ^ 31 - 1"
  shows "sys_inv (sys_new big n db)"
proof -
  define sh where "sh = (wal_shared_init big)\<lparr>ws_loaded := True\<rparr>"
  define c where "c = conn_new sh"
  have sh: "ws_read_locks sh = init_read_locks" "ws_max_frame sh = 0" "ws_nbackfills sh = 0" "ws_frame_cache sh = []"
    "ws_write_lock sh = rw_new" "ws_checkpoint_lock sh = rw_new" by (simp_all add: sh_def wal_shared_init_def)
  have c: "wf_lock_index (cn_wal c) = NO_LOCK_HELD" "\<not> wf_write_lock_held (cn_wal c)" "\<not> wf_unpublished (cn_wal c)"
    "oc_state (wf_ongoing (cn_wal c)) = CkStart" "cn_result c = None" "wf_checkpoint_guard (cn_wal c) = None" "cn_loaded c = None"
    by (simp_all add: c_def conn_new_def wal_file_new_def ongoing_new_def)
  have cont: "content sh log db k p = db p" for log k p by (simp add: content_def newest_def sh)
  have s: "sys_new big n db = \<lparr> sy_shared = sh, sy_conns = replicate n c, sy_log = (\<lambda>_. (0, [])), sy_db = db, sy_last = 0, sy_committed = db \<rparr>"
    by (simp add: sys_new_def sh_def c_def Let_def)
  have guards: "has_guard c = 0" "has_write c = 0" "j < 5 \<Longrightarrow> reads_slot j c = 0" for j
    using c by (auto simp: has_guard_def has_write_def conn_guard_idle reads_slot_def)
  have "locks_inv sh (replicate n c)"
    using init_locks[OF sh(1)] guards by (simp add: locks_inv_def guards_ok_def sh tally_replicate)
  moreover have "read_ok sh (\<lambda>_. (0, [])) db 0 c" "ckpt_ok sh (\<lambda>_. (0, [])) db db 0 0 l c" for l
    using c by (simp_all add: read_ok_def ckpt_ok_idle)
  ultimately have "sys_inv_at db 0 0 (sys_new big n db)"
    using assms by (simp add: sys_inv_at_def s log_ok_def db_ok_def sh cont cache_ok_def)
  then show ?thesis by (auto simp: sys_inv_def)
qed

lemma wal_act_inv:
  assumes "sys_inv s" "i < length (sy_conns s)" "wal_act big s i a = Some s'" "undisturbed s i a"
  shows "sys_inv s'"
proof -
  obtain base K bound where inv: "sys_inv_at base K bound s" using assms(1) by (auto simp: sys_inv_def)
  note at = act_read_load_inv act_read_lock_inv act_read_end_inv act_write_commit_inv act_write_rollback_inv act_write_end_inv
    act_ck_write_inv act_ck_fail_inv act_ck_finalize_inv act_ck_publish_inv act_ck_release_inv
  note ex = act_write_begin_inv act_ck_load_inv act_ck_start_inv act_ck_written_inv act_ck_result_inv
  have "sys_inv_at base K bound s' \<Longrightarrow> sys_inv s'" by (auto simp: sys_inv_def)
  then show ?thesis
    using assms(3,4) at[OF inv assms(2)] ex[OF inv assms(2)] by (cases a) (simp_all add: undisturbed_def)
qed

text \<open>A step changes no connection but its own.\<close>

definition own_step :: "wal_sys \<Rightarrow> nat \<Rightarrow> wal_sys \<Rightarrow> bool" where
  "own_step s i s' \<longleftrightarrow> length (sy_conns s') = length (sy_conns s) \<and> (\<forall>j. j \<noteq> i \<longrightarrow> sy_conns s' ! j = sy_conns s ! j)"

lemma own_step_put [simp]: "own_step s i (sys_put s i sh c)" "own_step s i ((sys_put s i sh c)\<lparr>sy_last := l\<rparr>)"
  "own_step s i ((sys_put s i sh c)\<lparr>sy_db := d\<rparr>)" "own_step s i ((sys_put s i sh c)\<lparr>sy_log := log, sy_committed := d\<rparr>)"
  by (simp_all add: own_step_def sys_put_def)

lemma own_step_act:
  "act_read_load s i = Some s' \<Longrightarrow> own_step s i s'"
  "act_read_lock s i = Some s' \<Longrightarrow> own_step s i s'"
  "act_read_end s i = Some s' \<Longrightarrow> own_step s i s'"
  "act_write_begin s i rnd = Some s' \<Longrightarrow> own_step s i s'"
  "act_write_commit big s i ci = Some s' \<Longrightarrow> own_step s i s'"
  "act_write_rollback s i = Some s' \<Longrightarrow> own_step s i s'"
  "act_write_end s i = Some s' \<Longrightarrow> own_step s i s'"
  "act_ck_start s i = Some s' \<Longrightarrow> own_step s i s'"
  "act_ck_write s i p = Some s' \<Longrightarrow> own_step s i s'"
  "act_ck_written s i = Some s' \<Longrightarrow> own_step s i s'"
  "act_ck_fail s i = Some s' \<Longrightarrow> own_step s i s'"
  "act_ck_result s i rnd = Some s' \<Longrightarrow> own_step s i s'"
  "act_ck_finalize s i = Some s' \<Longrightarrow> own_step s i s'"
  "act_ck_publish s i = Some s' \<Longrightarrow> own_step s i s'"
  "act_ck_release s i = Some s' \<Longrightarrow> own_step s i s'"
  "act_ck_load s i mode = Some s' \<Longrightarrow> own_step s i s'"
proof -
  show "act_read_load s i = Some s' \<Longrightarrow> own_step s i s'"
    by (auto simp: act_read_load_def Let_def elim!: bind_SomeE split: if_splits sum.splits option.splits prod.splits)
  show "act_read_lock s i = Some s' \<Longrightarrow> own_step s i s'"
    by (auto simp: act_read_lock_def Let_def elim!: bind_SomeE split: if_splits sum.splits option.splits prod.splits)
  show "act_read_end s i = Some s' \<Longrightarrow> own_step s i s'"
    by (auto simp: act_read_end_def Let_def elim!: bind_SomeE split: if_splits sum.splits option.splits prod.splits)
  show "act_write_begin s i rnd = Some s' \<Longrightarrow> own_step s i s'"
    by (auto simp: act_write_begin_def Let_def elim!: bind_SomeE split: if_splits sum.splits option.splits prod.splits)
  show "act_write_commit big s i ci = Some s' \<Longrightarrow> own_step s i s'"
    by (auto simp: act_write_commit_def Let_def elim!: bind_SomeE split: if_splits sum.splits option.splits prod.splits)
  show "act_write_rollback s i = Some s' \<Longrightarrow> own_step s i s'"
    by (auto simp: act_write_rollback_def Let_def elim!: bind_SomeE split: if_splits sum.splits option.splits prod.splits)
  show "act_write_end s i = Some s' \<Longrightarrow> own_step s i s'"
    by (auto simp: act_write_end_def Let_def elim!: bind_SomeE split: if_splits sum.splits option.splits prod.splits)
  show "act_ck_start s i = Some s' \<Longrightarrow> own_step s i s'"
    by (auto simp: act_ck_start_def Let_def elim!: bind_SomeE split: if_splits sum.splits option.splits prod.splits)
  show "act_ck_load s i mode = Some s' \<Longrightarrow> own_step s i s'"
    by (auto simp: act_ck_load_def Let_def elim!: bind_SomeE split: if_splits sum.splits option.splits prod.splits)
  show "act_ck_write s i p = Some s' \<Longrightarrow> own_step s i s'"
    by (auto simp: act_ck_write_def Let_def elim!: bind_SomeE split: if_splits sum.splits option.splits prod.splits)
  show "act_ck_written s i = Some s' \<Longrightarrow> own_step s i s'"
    by (auto simp: act_ck_written_def Let_def elim!: bind_SomeE split: if_splits sum.splits option.splits prod.splits)
  show "act_ck_fail s i = Some s' \<Longrightarrow> own_step s i s'"
    by (auto simp: act_ck_fail_def Let_def elim!: bind_SomeE split: if_splits sum.splits option.splits prod.splits)
  show "act_ck_result s i rnd = Some s' \<Longrightarrow> own_step s i s'"
    by (auto simp: act_ck_result_def Let_def elim!: bind_SomeE split: if_splits sum.splits option.splits prod.splits)
  show "act_ck_finalize s i = Some s' \<Longrightarrow> own_step s i s'"
    by (auto simp: act_ck_finalize_def Let_def elim!: bind_SomeE split: if_splits sum.splits option.splits prod.splits)
  show "act_ck_publish s i = Some s' \<Longrightarrow> own_step s i s'"
    by (auto simp: act_ck_publish_def Let_def elim!: bind_SomeE split: if_splits sum.splits option.splits prod.splits checkpoint_phase.splits)
  show "act_ck_release s i = Some s' \<Longrightarrow> own_step s i s'"
    by (auto simp: act_ck_release_def Let_def elim!: bind_SomeE split: if_splits sum.splits option.splits prod.splits)
qed

lemma own_step_wal_act: "wal_act big s i a = Some s' \<Longrightarrow> own_step s i s'"
  by (cases a) (simp_all add: own_step_act)

lemma wal_run_inv:
  "sys_inv s \<Longrightarrow> wal_run big s acts = Some s' \<Longrightarrow> undisturbed_run big s acts
     \<Longrightarrow> sys_inv s' \<and> length (sy_conns s') = length (sy_conns s)"
proof (induction acts arbitrary: s)
  case (Cons act acts)
  obtain i a where act: "act = (i, a)" by (cases act)
  obtain s1 where s1: "i < length (sy_conns s)" "wal_act big s i a = Some s1" "wal_run big s1 acts = Some s'"
    using Cons.prems(2) by (auto simp: act elim!: bind_SomeE split: if_splits)
  have u: "undisturbed s i a" "undisturbed_run big s1 acts" using Cons.prems(3) s1(2) by (simp_all add: act)
  show ?case using Cons.IH[OF wal_act_inv[OF Cons.prems(1) s1(1,2) u(1)] s1(3) u(2)] own_step_wal_act[OF s1(2)] by (simp add: own_step_def)
qed simp

lemma reachable_inv:
  "n < 2 ^ 31 - 1 \<Longrightarrow> wal_run big (sys_new big n db) acts = Some s
     \<Longrightarrow> undisturbed_run big (sys_new big n db) acts \<Longrightarrow> sys_inv s \<and> length (sy_conns s) = n"
  using wal_run_inv[OF sys_inv_new] by (fastforce simp: sys_new_def Let_def)

section \<open>The abstract database\<close>

record snap_db =
  sd_committed :: "nat \<Rightarrow> bytes"
  sd_readers :: "nat \<Rightarrow> (nat \<Rightarrow> bytes) option"

text \<open>A transaction reads the committed state as of its begin. It commits only if that is still the
  committed state, and then goes on reading what it wrote.\<close>

inductive snap_step :: "snap_db \<Rightarrow> snap_db \<Rightarrow> bool" where
  stutter: "snap_step d d"
| begin_tx: "sd_readers d i = None \<Longrightarrow>
    snap_step d (d\<lparr>sd_readers := (sd_readers d)(i := Some (sd_committed d))\<rparr>)"
| end_tx: "snap_step d (d\<lparr>sd_readers := (sd_readers d)(i := None)\<rparr>)"
| commit_tx: "sd_readers d i = Some (sd_committed d) \<Longrightarrow>
    snap_step d \<lparr>sd_committed = db_write (sd_committed d) pages,
      sd_readers = (sd_readers d)(i := Some (db_write (sd_committed d) pages))\<rparr>"

text \<open>What a transaction that began now would read.\<close>

definition fresh_view :: "wal_sys \<Rightarrow> nat \<Rightarrow> bytes" where
  "fresh_view s page =
     (case coord_find_frame (sy_shared s) page (snapshot_min_frame (load_snapshot (sy_shared s))) (ws_max_frame (sy_shared s)) None of
        Some frame \<Rightarrow> snd (sy_log s frame)
      | None \<Rightarrow> sy_db s page)"

definition conn_reads :: "wal_sys \<Rightarrow> nat \<Rightarrow> bool" where
  "conn_reads s i \<longleftrightarrow> i < length (sy_conns s) \<and> wf_lock_index (cn_wal (sy_conns s ! i)) \<noteq> NO_LOCK_HELD"

definition abs_sys :: "wal_sys \<Rightarrow> snap_db" where
  "abs_sys s = \<lparr> sd_committed = fresh_view s,
     sd_readers = (\<lambda>i. if conn_reads s i then Some (\<lambda>p. the (conn_view s i p)) else None) \<rparr>"

text \<open>The same through the ghost fields of the system.\<close>

definition ghost_sys :: "wal_sys \<Rightarrow> snap_db" where
  "ghost_sys s = \<lparr> sd_committed = sy_committed s,
     sd_readers = (\<lambda>i. if conn_reads s i then Some (cn_snap (sy_conns s ! i)) else None) \<rparr>"

lemma fresh_view_committed:
  assumes "sys_inv s"
  shows "fresh_view s p = sy_committed s p"
proof -
  obtain base K bound where inv: "sys_inv_at base K bound s" using assms by (auto simp: sys_inv_def)
  define sh where "sh = sy_shared s"
  have db: "db_ok sh (sy_log s) (sy_db s) base K bound" and cok: "cache_ok (ws_frame_cache sh)"
    and cm: "sy_committed s p = content sh (sy_log s) base (ws_max_frame sh) p"
    using inv by (auto simp: sys_inv_at_def sh_def log_ok_def)
  let ?N = "newest (\<lambda>f. ws_nbackfills sh + 1 \<le> f \<and> f \<le> ws_max_frame sh) (fc_get (ws_frame_cache sh) p)"
  have view: "fresh_view s p = (case ?N of Some f \<Rightarrow> snd (sy_log s f) | None \<Rightarrow> sy_db s p)"
    using cok by (simp add: fresh_view_def find_frame_newest snapshot_min_frame_def load_snapshot_def sh_def newest_def)
  show ?thesis
  proof (cases ?N)
    case (Some f)
    then show ?thesis using content_found[OF Some, of "sy_log s" base] cm view by simp
  next
    case None
    obtain k where k: "K \<le> k" "k \<le> bound" "sy_db s p = content sh (sy_log s) base k p"
      using db unfolding db_ok_def by blast
    have "content sh (sy_log s) base k p = content sh (sy_log s) base (ws_max_frame sh) p"
      by (rule content_stable[OF None]) (use k db in \<open>auto simp: db_ok_def\<close>)
    then show ?thesis using None k(3) cm view by simp
  qed
qed

lemma abs_ghost: "sys_inv s \<Longrightarrow> abs_sys s = ghost_sys s"
  using fresh_view_committed view_content
  by (fastforce simp: abs_sys_def ghost_sys_def conn_reads_def sys_inv_def intro!: ext)

text \<open>A step that keeps the lock index and the snapshot of its connection.\<close>

lemma ghost_same:
  assumes "i < length (sy_conns s)" "own_step s i s'" "sy_committed s' = sy_committed s"
    "wf_lock_index (cn_wal (sy_conns s' ! i)) = wf_lock_index (cn_wal (sy_conns s ! i))"
    "cn_snap (sy_conns s' ! i) = cn_snap (sy_conns s ! i)"
  shows "ghost_sys s' = ghost_sys s"
proof -
  have "conn_reads s' j = conn_reads s j" "conn_reads s j \<Longrightarrow> cn_snap (sy_conns s' ! j) = cn_snap (sy_conns s ! j)" for j
    using assms by (cases "j = i"; simp add: conn_reads_def own_step_def)+
  then show ?thesis using assms(3) by (auto simp: ghost_sys_def)
qed

lemma drop_checkpoint_guard_index:
  "drop_checkpoint_guard sh w = Some (sh', w') \<Longrightarrow> wf_lock_index w' = wf_lock_index w"
  by (auto simp: drop_checkpoint_guard_def elim!: bind_SomeE split: option.splits)

lemma checkpoint_failed_index: "checkpoint_failed sh w = Some (sh', w') \<Longrightarrow> wf_lock_index w' = wf_lock_index w"
  by (auto simp: checkpoint_failed_def elim!: bind_SomeE dest: drop_checkpoint_guard_index)

lemma checkpoint_start_index: "checkpoint_start sh w mode src nb = Some (r, sh', w') \<Longrightarrow> wf_lock_index w' = wf_lock_index w"
  by (auto simp: checkpoint_start_def acquire_proper_checkpoint_guard_def Let_def elim!: bind_SomeE
      dest!: drop_checkpoint_guard_index split: if_splits sum.splits)

lemma checkpoint_result_index: "checkpoint_determine_result sh w mode rnd = Some (r, sh', w') \<Longrightarrow> wf_lock_index w' = wf_lock_index w"
  by (auto simp: checkpoint_determine_result_def apply_restart_snapshot_def Let_def elim!: bind_SomeE split: if_splits sum.splits)

lemma checkpoint_finalize_index: "checkpoint_finalize sh w mode = Some (r, sh', w') \<Longrightarrow> wf_lock_index w' = wf_lock_index w"
  by (auto simp: checkpoint_finalize_def Let_def elim!: bind_SomeE dest!: drop_checkpoint_guard_index split: if_splits)

lemmas checkpoint_index = checkpoint_failed_index checkpoint_start_index checkpoint_result_index checkpoint_finalize_index

lemma ghost_checkpoint:
  assumes i: "i < length (sy_conns s)"
  shows "act_ck_start s i = Some s' \<Longrightarrow> ghost_sys s' = ghost_sys s"
    "act_ck_write s i p = Some s' \<Longrightarrow> ghost_sys s' = ghost_sys s"
    "act_ck_written s i = Some s' \<Longrightarrow> ghost_sys s' = ghost_sys s"
    "act_ck_fail s i = Some s' \<Longrightarrow> ghost_sys s' = ghost_sys s"
    "act_ck_result s i rnd = Some s' \<Longrightarrow> ghost_sys s' = ghost_sys s"
    "act_ck_finalize s i = Some s' \<Longrightarrow> ghost_sys s' = ghost_sys s"
    "act_ck_publish s i = Some s' \<Longrightarrow> ghost_sys s' = ghost_sys s"
    "act_ck_release s i = Some s' \<Longrightarrow> ghost_sys s' = ghost_sys s"
    "act_ck_load s i mode = Some s' \<Longrightarrow> ghost_sys s' = ghost_sys s"
proof -
  note g = ghost_same[OF i own_step_act(8)] ghost_same[OF i own_step_act(9)] ghost_same[OF i own_step_act(10)]
    ghost_same[OF i own_step_act(11)] ghost_same[OF i own_step_act(12)] ghost_same[OF i own_step_act(13)]
    ghost_same[OF i own_step_act(14)] ghost_same[OF i own_step_act(15)] ghost_same[OF i own_step_act(16)]
  show "ghost_sys s' = ghost_sys s" if "act_ck_start s i = Some s'"
    by (rule g(1)[OF that]) (use that i in \<open>auto simp: act_ck_start_def Let_def elim!: bind_SomeE dest!: checkpoint_index split: if_splits sum.splits option.splits\<close>)
  show "ghost_sys s' = ghost_sys s" if "act_ck_load s i mode = Some s'"
    by (rule g(9)[OF that]) (use that i in \<open>auto simp: act_ck_load_def Let_def elim!: bind_SomeE split: if_splits sum.splits\<close>)
  show "ghost_sys s' = ghost_sys s" if "act_ck_write s i p = Some s'"
    by (rule g(2)[OF that]) (use that i in \<open>auto simp: act_ck_write_def Let_def elim!: bind_SomeE split: if_splits\<close>)
  show "ghost_sys s' = ghost_sys s" if "act_ck_written s i = Some s'"
    by (rule g(3)[OF that]) (use that i in \<open>auto simp: act_ck_written_def Let_def split: if_splits\<close>)
  show "ghost_sys s' = ghost_sys s" if "act_ck_fail s i = Some s'"
    by (rule g(4)[OF that]) (use that i in \<open>auto simp: act_ck_fail_def Let_def elim!: bind_SomeE dest!: checkpoint_index split: if_splits\<close>)
  show "ghost_sys s' = ghost_sys s" if "act_ck_result s i rnd = Some s'"
    by (rule g(5)[OF that]) (use that i in \<open>auto simp: act_ck_result_def Let_def elim!: bind_SomeE dest!: checkpoint_index split: if_splits sum.splits\<close>)
  show "ghost_sys s' = ghost_sys s" if "act_ck_finalize s i = Some s'"
    by (rule g(6)[OF that]) (use that i in \<open>auto simp: act_ck_finalize_def Let_def elim!: bind_SomeE dest!: checkpoint_index\<close>)
  show "ghost_sys s' = ghost_sys s" if "act_ck_publish s i = Some s'"
    by (rule g(7)[OF that]) (use that i in \<open>auto simp: act_ck_publish_def Let_def elim!: bind_SomeE split: if_splits checkpoint_phase.splits\<close>)
  show "ghost_sys s' = ghost_sys s" if "act_ck_release s i = Some s'"
    by (rule g(8)[OF that]) (use that i in \<open>auto simp: act_ck_release_def Let_def elim!: bind_SomeE\<close>)
qed

lemma begin_write_index:
  assumes "guards_ok sh" "wal_begin_write_tx sh w rnd = Some (r, sh', w')"
  shows "wf_lock_index w' = wf_lock_index w"
  using begin_write_spec[OF assms] by (auto simp: write_begun_def Let_def apply_restart_snapshot_def)

lemma ghost_write:
  assumes inv: "sys_inv_at base K bound s" and i: "i < length (sy_conns s)"
  shows "act_write_begin s i rnd = Some s' \<Longrightarrow> ghost_sys s' = ghost_sys s"
    "act_write_rollback s i = Some s' \<Longrightarrow> ghost_sys s' = ghost_sys s"
    "act_write_end s i = Some s' \<Longrightarrow> ghost_sys s' = ghost_sys s"
proof -
  note g = ghost_same[OF i own_step_act(4)] ghost_same[OF i own_step_act(6)] ghost_same[OF i own_step_act(7)]
  show "ghost_sys s' = ghost_sys s" if "act_write_begin s i rnd = Some s'"
    by (rule g(1)[OF that])
      (use that i in \<open>auto simp: act_write_begin_def Let_def elim!: bind_SomeE dest!: begin_write_index[OF inv_conn(4)[OF inv i]] split: if_splits\<close>)
  show "ghost_sys s' = ghost_sys s" if "act_write_rollback s i = Some s'"
    by (rule g(2)[OF that])
      (use that i in \<open>auto simp: act_write_rollback_def wal_rollback_def reset_internal_states_def Let_def split: if_splits\<close>)
  show "ghost_sys s' = ghost_sys s" if "act_write_end s i = Some s'"
    by (rule g(3)[OF that])
      (use that i in \<open>auto simp: act_write_end_def wal_end_write_tx_def Let_def elim!: bind_SomeE split: if_splits\<close>)
qed

text \<open>The steps that the abstract database sees.\<close>

lemma ghost_other:
  assumes "i < length (sy_conns s)" "own_step s i s'"
  shows "sd_readers (ghost_sys s') = (sd_readers (ghost_sys s))
    (i := if wf_lock_index (cn_wal (sy_conns s' ! i)) \<noteq> NO_LOCK_HELD then Some (cn_snap (sy_conns s' ! i)) else None)"
  using assms by (auto simp: ghost_sys_def conn_reads_def own_step_def)

lemma ghost_read_load:
  assumes "i < length (sy_conns s)" "act_read_load s i = Some s'"
  shows "ghost_sys s' = ghost_sys s"
  by (rule ghost_same[OF assms(1) own_step_act(1)[OF assms(2)]])
    (use assms in \<open>auto simp: act_read_load_def Let_def elim!: bind_SomeE split: if_splits\<close>)

lemma ghost_read_lock:
  assumes inv: "sys_inv_at base K bound s" and i: "i < length (sy_conns s)" and act: "act_read_lock s i = Some s'"
  shows "snap_step (ghost_sys s) (ghost_sys s')"
proof -
  define c where "c = sy_conns s ! i"
  obtain snap r sh' w where st: "cn_loaded c = Some snap" "try_begin_read_lock (sy_shared s) (cn_wal c) snap = Some (r, sh', w)"
    "s' = sys_put s i sh' (c\<lparr>cn_loaded := None, cn_wal := w, cn_snap := (if r = BeginRetry then cn_snap c else sy_committed s)\<rparr>)"
    using act by (auto simp: act_read_lock_def Let_def c_def elim!: bind_SomeE split: prod.splits)
  have none: "wf_lock_index (cn_wal c) = NO_LOCK_HELD" using inv_conn(1)[OF inv i] st(1) by (auto simp: read_ok_def Let_def c_def)
  show ?thesis
  proof (cases "r = BeginRetry")
    case True
    then have w: "w = cn_wal c" using st(2) by (auto simp: try_begin_read_lock_def Let_def elim!: bind_SomeE split: option.splits)
    have "ghost_sys s' = ghost_sys s"
      by (rule ghost_same[OF i own_step_act(2)[OF act]]) (use True i in \<open>simp_all add: st(3) c_def w\<close>)
    then show ?thesis by (simp add: snap_step.stutter)
  next
    case False
    have old: "sd_readers (ghost_sys s) i = None" using none by (simp add: ghost_sys_def conn_reads_def c_def)
    have com: "sd_committed (ghost_sys s') = sd_committed (ghost_sys s)" by (simp add: ghost_sys_def st(3))
    have new: "sd_readers (ghost_sys s') = (sd_readers (ghost_sys s))
        (i := if wf_lock_index w \<noteq> NO_LOCK_HELD then Some (sy_committed s) else None)"
      using ghost_other[OF i own_step_act(2)[OF act]] i False by (simp add: st(3))
    show ?thesis
    proof (cases "wf_lock_index w = NO_LOCK_HELD")
      case True
      then have "ghost_sys s' = ghost_sys s" using new old com by (simp add: fun_upd_idem)
      then show ?thesis by (simp add: snap_step.stutter)
    next
      case F: False
      have "ghost_sys s' = (ghost_sys s)\<lparr>sd_readers := (sd_readers (ghost_sys s))(i := Some (sd_committed (ghost_sys s)))\<rparr>"
        using new com F by (simp add: ghost_sys_def)
      then show ?thesis using snap_step.begin_tx[OF old] by simp
    qed
  qed
qed

lemma ghost_read_end:
  assumes i: "i < length (sy_conns s)" and act: "act_read_end s i = Some s'"
  shows "snap_step (ghost_sys s) (ghost_sys s')"
proof -
  define c where "c = sy_conns s ! i"
  obtain sh' w where st: "wal_end_read_tx (sy_shared s) (cn_wal c) = Some (sh', w)" "s' = sys_put s i sh' (c\<lparr>cn_wal := w\<rparr>)"
    using act by (auto simp: act_read_end_def Let_def c_def elim!: bind_SomeE split: if_splits)
  have "wf_lock_index w = NO_LOCK_HELD"
    using st(1) by (auto simp: wal_end_read_tx_def Let_def release_vacuum_read_lock_guard_def elim!: bind_SomeE split: if_splits)
  then have "sd_readers (ghost_sys s') = (sd_readers (ghost_sys s))(i := None)"
    using ghost_other[OF i own_step_act(3)[OF act]] i by (simp add: st(2))
  moreover have "sd_committed (ghost_sys s') = sd_committed (ghost_sys s)" by (simp add: ghost_sys_def st(2))
  ultimately have "ghost_sys s' = (ghost_sys s)\<lparr>sd_readers := (sd_readers (ghost_sys s))(i := None)\<rparr>" by simp
  then show ?thesis by (simp add: snap_step.end_tx)
qed

lemma writer_current:
  assumes inv: "sys_inv_at base K bound s" and i: "i < length (sy_conns s)" and held: "wf_write_lock_held (cn_wal (sy_conns s ! i))"
  shows "wf_lock_index (cn_wal (sy_conns s ! i)) \<noteq> NO_LOCK_HELD" "cn_snap (sy_conns s ! i) = sy_committed s"
  using inv_conn(1)[OF inv i] inv held by (auto simp: read_ok_def Let_def sys_inv_at_def)

lemma ghost_commit:
  assumes inv: "sys_inv_at base K bound s" and i: "i < length (sy_conns s)" and act: "act_write_commit big s i ci = Some s'"
  shows "snap_step (ghost_sys s) (ghost_sys s')"
proof -
  define c where "c = sy_conns s ! i"
  define sh where "sh = sy_shared s"
  obtain r sh' w where st: "wf_write_lock_held (cn_wal c)"
    "wal_commit big sh (cn_wal c) (ci_rnd1 ci) (ci_rnd2 ci) (ci_page_size ci)
             (ci_file_len ci) (ci_io_ok ci) (ci_db_size ci) (ci_pages ci) = Some (r, sh', w)"
    and s': "(case r of
             Inl e \<Rightarrow> Some (sys_put s i sh' (c\<lparr>cn_wal := w\<rparr>))
           | Inr prepared \<Rightarrow>
               (let committed = db_write (sy_committed s) (ci_pages ci)
                in Some ((sys_put s i sh' (c\<lparr>cn_wal := w, cn_snap := committed\<rparr>))\<lparr>
                     sy_log := log_write (sy_log s) (concat (map pf_metadata prepared)) (ci_pages ci),
                     sy_committed := committed\<rparr>))) = Some s'"
    using act unfolding act_write_commit_def Let_def c_def[symmetric] sh_def[symmetric]
    by (auto elim!: bind_SomeE split: if_splits)
  have rd: "wf_max_frame (cn_wal c) = ws_max_frame sh" "\<not> wf_unpublished (cn_wal c)"
    using inv_conn(1)[OF inv i] st(1) by (auto simp: read_ok_def Let_def c_def sh_def)
  have "\<not> ws_initialized sh \<longrightarrow> ws_max_frame sh = 0" using inv by (auto simp: sys_inv_at_def log_ok_def sh_def)
  from wal_commit_spec[OF st(2) this rd] have idx: "wf_lock_index w = wf_lock_index (cn_wal c)" by (simp add: conn_same_def)
  note cur = writer_current[OF inv i, folded c_def, OF st(1)]
  show ?thesis
  proof (cases r)
    case (Inl e)
    have "ghost_sys s' = ghost_sys s"
      by (rule ghost_same[OF i own_step_act(5)[OF act]]) (use s' Inl i idx in \<open>auto simp: c_def\<close>)
    then show ?thesis by (simp add: snap_step.stutter)
  next
    case (Inr ps)
    let ?d = "db_write (sy_committed s) (ci_pages ci)"
    have s'eq: "s' = (sys_put s i sh' (c\<lparr>cn_wal := w, cn_snap := ?d\<rparr>))\<lparr>
        sy_log := log_write (sy_log s) (concat (map pf_metadata ps)) (ci_pages ci), sy_committed := ?d\<rparr>" using s' Inr by (simp add: Let_def)
    have conn: "sy_conns s' ! i = c\<lparr>cn_wal := w, cn_snap := ?d\<rparr>" using i by (simp add: s'eq)
    have old: "sd_readers (ghost_sys s) i = Some (sd_committed (ghost_sys s))"
      using cur i by (simp add: ghost_sys_def conn_reads_def c_def)
    have "ghost_sys s' = \<lparr>sd_committed = ?d, sd_readers = (sd_readers (ghost_sys s))(i := Some ?d)\<rparr>"
      using ghost_other[OF i own_step_act(5)[OF act]] idx cur(1) unfolding conn by (simp add: ghost_sys_def s'eq)
    then show ?thesis using snap_step.commit_tx[OF old, of "ci_pages ci"] by (simp add: ghost_sys_def)
  qed
qed

lemma wal_act_refines:
  assumes inv: "sys_inv s" and i: "i < length (sy_conns s)" and act: "wal_act big s i a = Some s'"
    and un: "undisturbed s i a"
  shows "snap_step (abs_sys s) (abs_sys s')"
proof -
  obtain base K bound where at: "sys_inv_at base K bound s" using inv by (auto simp: sys_inv_def)
  have "snap_step (ghost_sys s) (ghost_sys s')"
    using act ghost_read_load[OF i] ghost_read_lock[OF at i] ghost_read_end[OF i] ghost_write[OF at i] ghost_commit[OF at i] ghost_checkpoint[OF i]
    by (cases a) (auto intro: snap_step.stutter simp: snap_step.stutter)
  then show ?thesis using abs_ghost[OF inv] abs_ghost[OF wal_act_inv[OF inv i act un]] by simp
qed

section \<open>An execution\<close>

text \<open>Executions of two connections, evaluated with the simplifier.\<close>

definition demo_commit :: "(nat \<times> bytes) list \<Rightarrow> commit_input" where
  "demo_commit pages = \<lparr> ci_rnd1 = 7, ci_rnd2 = 9, ci_page_size = 512, ci_file_len = Some 0, ci_io_ok = True,
     ci_db_size = 3, ci_pages = pages \<rparr>"

named_theorems wal_eval \<open>the definitions an execution unfolds\<close>

lemmas eval_read [wal_eval] =
  act_read_load_def act_read_lock_def act_read_end_def sys_new_def wal_shared_init_def conn_new_def
  wal_file_new_def ongoing_new_def conn_idle_def try_begin_read_load_def vacuum_try_read_def rw_new_mk
  rw_read_eq rw_write_eq rw_unlock_eq rw_simps Let_def sys_put_def try_begin_read_lock_def load_snapshot_def
  coord_try_begin_read_tx_def try_read_mark_shared_def init_read_locks_eq install_vacuum_lock_guard_def
  install_connection_state_def snapshot_min_frame_def wal_header_new_def wal_end_read_tx_def
  release_vacuum_read_lock_guard_def has_vacuum_read_lock_guard_def vacuum_guard_drop_def
  unlock_read_mark_def guard_from_lock_index_def

lemmas eval_write [wal_eval] =
  act_write_begin_def wal_begin_write_tx_def coord_try_begin_write_tx_def try_write_lock_def
  db_changed_against_def connection_state_def try_restart_log_before_write_def act_write_end_def
  wal_end_write_tx_def coord_end_write_tx_def unlock_write_lock_def

lemmas eval_commit [wal_eval] =
  act_write_commit_def demo_commit_def wal_commit_def prepare_wal_start_def prepare_wal_header_def
  wal_header_seal_def checksum_wal_def slice_range_def wal_file_handle_def prepare_wal_finish_def
  mark_initialized_def iov_batches.simps IOV_MAX_def prepare_frames_def wal_page_size_def page_size_get_def
  next_frame_seed_def with_snapshot_def prepare_wal_frame_def frame_offset_def complete_append_frame_def
  finish_append_frames_commit_def publish_commit_def cache_frame_def db_write_def WAL_HEADER_SIZE_def
  wal_header_as_bytes_def case_prod_beta fresh_view_def coord_find_frame_def rfind_def

lemma bind_weak_cong: "x = y \<Longrightarrow> Option.bind x f = Option.bind y f"
  by simp

lemma marks_1_4: "[1..<5] = [1, 2, 3, 4]" "[Suc 0..<5] = [1, 2, 3, 4]"
  by (simp_all add: upt_rec)

lemma rw_set_value_mk: "rw_set_value_exclusive (rw_mk v r True) u = Some (rw_mk u r True)"
  by (simp add: rw_set_value_exclusive_def rw_simps)

lemmas eval_marks [wal_eval] =
  best_mark_def read_mark_value_def set_read_mark_value_exclusive_def try_upgrade_read_mark_def
  downgrade_read_mark_def rw_upgrade_eq rw_downgrade_def rw_set_value_mk NO_LOCK_HELD_def marks_1_4
  READMARK_NOT_USED_def try_read_mark_exclusive_def try_restart_log_for_write_def conn_view_def wal_find_frame_def conn_reads_def

lemmas eval_checkpoint [wal_eval] =
  act_ck_load_def checkpoint_load_def act_ck_start_def checkpoint_start_def undisturbed_def
  acquire_proper_checkpoint_guard_def guard_fits_def drop_checkpoint_guard_def acquire_checkpoint_guard_def
  determine_max_safe_checkpoint_frame_def checkpoint_bound_def iter_latest_frames_def
  act_ck_write_def act_ck_written_def act_ck_result_def act_ck_finalize_def act_ck_publish_def next_post_sync_checkpoint_phase_def act_ck_release_def
  checkpoint_determine_result_def checkpoint_finalize_def checkpoint_result_new_def release_guard_def
  try_checkpoint_lock_def unlock_checkpoint_lock_def bump_checkpoint_epoch_def begin_restart_def end_restart_def
  restart_wal_header_def apply_restart_snapshot_def publish_backfill_def should_truncate_def everything_backfilled_def

definition demo_tx :: "nat \<Rightarrow> nat \<Rightarrow> u8 \<Rightarrow> (nat \<times> wal_action) list" where
  "demo_tx i page b = [(i, ReadLoad), (i, ReadLock), (i, WriteBegin 0),
     (i, WriteCommit (demo_commit [(page, replicate 512 b)])), (i, WriteEnd), (i, ReadEnd)]"

text \<open>A checkpoint of the named pages: up to \<open>Processing\<close>, up to the end of \<open>Finalize\<close>, and all of it.\<close>

definition demo_copy :: "nat \<Rightarrow> nat list \<Rightarrow> (nat \<times> wal_action) list" where
  "demo_copy i pages = (i, CkptStart) # map (\<lambda>p. (i, CkptWrite p)) pages @ [(i, CkptWritten), (i, CkptResult 0), (i, CkptFinalize)]"

definition demo_passive :: "nat \<Rightarrow> nat option \<Rightarrow> nat list \<Rightarrow> (nat \<times> wal_action) list" where
  "demo_passive i ub pages = (i, CkptLoad (Passive ub)) # demo_copy i pages @ [(i, CkptPublish), (i, CkptRelease)]"

definition demo_restart :: "nat \<Rightarrow> nat list \<Rightarrow> (nat \<times> wal_action) list" where
  "demo_restart i pages = (i, CkptLoad Restart) # demo_copy i pages @ [(i, CkptRelease)]"

lemmas eval_demo [wal_eval] = demo_tx_def demo_copy_def demo_passive_def demo_restart_def

text \<open>A reader that began after a first commit; then a second commit, and a checkpoint that the reader
  bounds to the first frame.\<close>

lemma demo_run:
  "\<exists>s s1 s2. wal_run False (sys_new False 2 (\<lambda>_. [])) (demo_tx 1 2 1 @ [(0, ReadLoad)]) = Some s
     \<and> undisturbed_run False (sys_new False 2 (\<lambda>_. [])) (demo_tx 1 2 1 @ [(0, ReadLoad)])
     \<and> wal_act False s 0 ReadLock = Some s1 \<and> conn_reads s1 0
     \<and> wal_run False s1 (demo_tx 1 2 3 @ demo_passive 1 None [2]) = Some s2
     \<and> undisturbed_run False s1 (demo_tx 1 2 3 @ demo_passive 1 None [2])
     \<and> fresh_view s 2 = replicate 512 1 \<and> fresh_view s2 2 = replicate 512 3"
  by (simp add: wal_eval cong: bind_weak_cong)

text \<open>A commit, a checkpoint that copies all of it, and a second commit.\<close>

lemma demo_commit_run:
  "\<exists>s s'. wal_run False (sys_new False 2 (\<lambda>_. []))
        (demo_tx 1 2 1 @ demo_passive 0 None [2] @ [(1, ReadLoad), (1, ReadLock), (1, WriteBegin 0)]) = Some s
     \<and> undisturbed_run False (sys_new False 2 (\<lambda>_. []))
        (demo_tx 1 2 1 @ demo_passive 0 None [2] @ [(1, ReadLoad), (1, ReadLock), (1, WriteBegin 0)])
     \<and> wf_write_lock_held (cn_wal (sy_conns s ! 1))
     \<and> wal_act False s 1 (WriteCommit (demo_commit [(2, replicate 512 3)])) = Some s'
     \<and> fresh_view s 2 = replicate 512 1 \<and> fresh_view s' 2 = replicate 512 3"
  by (simp add: wal_eval cong: bind_weak_cong)

text \<open>The two windows. \<open>late_publish_run\<close>: a partial checkpoint of connection 0 has dropped its locks and
  not yet published; connection 1 restarts the log and commits. \<open>stale_load_run\<close>: connection 0 has loaded
  \<open>nbackfills\<close> and not yet taken the locks; connection 1 restarts the log and commits twice.\<close>

definition late_publish_run :: "(nat \<times> wal_action) list" where
  "late_publish_run = demo_tx 1 2 1 @ demo_tx 1 3 2 @ [(0, CkptLoad (Passive (Some 1)))] @ demo_copy 0 [2]
     @ demo_restart 1 [2, 3] @ demo_tx 1 2 3"

definition stale_load_run :: "(nat \<times> wal_action) list" where
  "stale_load_run = demo_tx 1 2 1 @ demo_tx 1 3 2 @ demo_passive 1 (Some 1) [2] @ [(0, CkptLoad (Passive None))]
     @ demo_restart 1 [3] @ demo_tx 1 2 3 @ demo_tx 1 3 4"

section \<open>Properties\<close>

lemma wal_run_other:
  "wal_run big s acts = Some s' \<Longrightarrow> \<forall>(j, a) \<in> set acts. j \<noteq> i \<Longrightarrow>
     length (sy_conns s') = length (sy_conns s) \<and> sy_conns s' ! i = sy_conns s ! i"
proof (induction acts arbitrary: s)
  case (Cons act acts)
  obtain j a where act: "act = (j, a)" by (cases act)
  obtain s1 where s1: "wal_act big s j a = Some s1" "wal_run big s1 acts = Some s'"
    using Cons.prems(1) by (auto simp: act elim!: bind_SomeE split: if_splits)
  have "j \<noteq> i" using Cons.prems(2) act by auto
  then show ?case using Cons.IH[OF s1(2)] Cons.prems(2) own_step_wal_act[OF s1(1)] by (auto simp: own_step_def)
qed simp

lemma read_lock_snapshot:
  assumes inv: "sys_inv_at base K bound s" and i: "i < length (sy_conns s)" and act: "act_read_lock s i = Some s'" and reads: "conn_reads s' i"
  shows "cn_snap (sy_conns s' ! i) = sy_committed s"
proof -
  define c where "c = sy_conns s ! i"
  obtain snap r sh' w where st: "cn_loaded c = Some snap" "try_begin_read_lock (sy_shared s) (cn_wal c) snap = Some (r, sh', w)"
    "s' = sys_put s i sh' (c\<lparr>cn_loaded := None, cn_wal := w, cn_snap := (if r = BeginRetry then cn_snap c else sy_committed s)\<rparr>)"
    using act by (auto simp: act_read_lock_def Let_def c_def elim!: bind_SomeE split: prod.splits)
  have none: "wf_lock_index (cn_wal c) = NO_LOCK_HELD" using inv_conn(1)[OF inv i] st(1) by (auto simp: read_ok_def Let_def c_def)
  have "r \<noteq> BeginRetry"
  proof
    assume "r = BeginRetry"
    then have "w = cn_wal c" using st(2) by (auto simp: try_begin_read_lock_def Let_def elim!: bind_SomeE split: option.splits)
    then show False using reads none i by (simp add: conn_reads_def st(3))
  qed
  then show ?thesis using i by (simp add: st(3))
qed







text \<open>C39: Without that condition a committed page is lost. When a backfill is
  published after another checkpoint has restarted the log (\<open>late_publish_run\<close>), and when a checkpoint
  goes on with an \<open>nbackfills\<close> it loaded before another one restarted the log (\<open>stale_load_run\<close>), the page
  committed last was readable before, and a transaction that begins afterwards reads its previous
  content. Every step is one the code takes.\<close>

theorem overtaken_checkpoint_loses_commit:
  "(\<exists>s s'. wal_run False (sys_new False 2 (\<lambda>_. [])) late_publish_run = Some s \<and> fresh_view s 2 = replicate 512 3
     \<and> wal_run False s [(0, CkptPublish), (1, ReadLoad), (1, ReadLock)] = Some s'
     \<and> conn_reads s' 1 \<and> conn_view s' 1 2 = Some (replicate 512 1))
   \<and> (\<exists>s s'. wal_run False (sys_new False 2 (\<lambda>_. [])) stale_load_run = Some s \<and> fresh_view s 2 = replicate 512 3
     \<and> wal_run False s (demo_copy 0 [3] @ [(0, CkptPublish), (0, CkptRelease), (1, ReadLoad), (1, ReadLock)]) = Some s'
     \<and> conn_reads s' 1 \<and> conn_view s' 1 2 = Some (replicate 512 1))"
proof (rule conjI)
  show "\<exists>s s'. wal_run False (sys_new False 2 (\<lambda>_. [])) late_publish_run = Some s \<and> fresh_view s 2 = replicate 512 3
     \<and> wal_run False s [(0, CkptPublish), (1, ReadLoad), (1, ReadLock)] = Some s'
     \<and> conn_reads s' 1 \<and> conn_view s' 1 2 = Some (replicate 512 1)"
    by (simp add: late_publish_run_def wal_eval cong: bind_weak_cong)
  show "\<exists>s s'. wal_run False (sys_new False 2 (\<lambda>_. [])) stale_load_run = Some s \<and> fresh_view s 2 = replicate 512 3
     \<and> wal_run False s (demo_copy 0 [3] @ [(0, CkptPublish), (0, CkptRelease), (1, ReadLoad), (1, ReadLock)]) = Some s'
     \<and> conn_reads s' 1 \<and> conn_view s' 1 2 = Some (replicate 512 1)"
    by (simp add: stale_load_run_def wal_eval cong: bind_weak_cong)
qed

end
