(* ===== verification/Wal_Durability.thy ===== *)
theory Wal_Durability
  imports Wal_Writers
begin

text \<open>
  The bytes a commit writes and what recovery makes of them: \<open>wal_commit\<close> of \<open>Wal_File\<close> against
  \<open>build_shared_wal\<close> of \<open>Wal_Recovery\<close>. The frames of a commit continue the chained log, and a crash
  at any point of their write leaves a log that recovers to the state before or after the commit.
\<close>

section \<open>The bytes of a commit\<close>

text \<open>A vectored write at an offset.\<close>

definition file_write :: "bytes \<Rightarrow> nat \<Rightarrow> bytes \<Rightarrow> bytes" where
  "file_write fl off bs = take off fl @ bs @ drop (off + length bs) fl"

fun write_batches :: "bytes \<Rightarrow> prepared_frames list \<Rightarrow> bytes" where
  "write_batches fl [] = fl"
| "write_batches fl (b # bs) = write_batches (file_write fl (pf_offset b) (concat (pf_bufs b))) bs"

lemma file_write_end [simp]: "off = length fl \<Longrightarrow> file_write fl off bs = fl @ bs"
  by (simp add: file_write_def)

text \<open>The entries of a commit: the last one carries the database size.\<close>

fun commit_entries :: "u32 \<Rightarrow> (nat \<times> bytes) list \<Rightarrow> log_entry list" where
  "commit_entries db [] = []"
| "commit_entries db ((p, data) # pages) = (word_of_nat p, if pages = [] then db else 0, data) # commit_entries db pages"

lemma length_commit_entries [simp]: "length (commit_entries db pages) = length pages"
  by (induction db pages rule: commit_entries.induct) auto

lemma commit_entries_append: "ys \<noteq> [] \<Longrightarrow> commit_entries db (xs @ ys) = commit_entries 0 xs @ commit_entries db ys"
  by (induction db xs rule: commit_entries.induct) auto

lemma commit_entries_snoc: "pages \<noteq> [] \<Longrightarrow>
    \<exists>xs p data. commit_entries db pages = xs @ [(p, db, data)] \<and> (\<forall>e \<in> set xs. fst (snd e) = 0)"
proof (induction db pages rule: commit_entries.induct)
  case (2 db p data pages)
  show ?case
  proof (cases "pages = []")
    case True
    then show ?thesis by auto
  next
    case False
    obtain xs q d where "commit_entries db pages = xs @ [(q, db, d)]" "\<forall>e \<in> set xs. fst (snd e) = 0" using 2 False by blast
    then show ?thesis using False
      by (intro exI[of _ "(word_of_nat p, 0, data) # xs"] exI[of _ q] exI[of _ d]) simp
  qed
qed simp

lemma last_commit_zeros: "\<forall>e \<in> set xs. fst (snd e) = 0 \<Longrightarrow> last_commit (es @ xs) = last_commit es"
proof (induction xs rule: rev_induct)
  case (snoc e xs)
  then show ?case using last_commit_snoc[of "es @ xs" e] by simp
qed simp

lemma last_commit_entries:
  assumes "pages \<noteq> []" "db > 0"
  shows "last_commit (es @ take j (commit_entries db pages)) = (if length pages \<le> j then length es + length pages else last_commit es)"
proof -
  obtain xs p data where xs: "commit_entries db pages = xs @ [(p, db, data)]" "\<forall>e \<in> set xs. fst (snd e) = 0"
    using commit_entries_snoc[OF assms(1)] by blast
  have len: "length pages = Suc (length xs)" using arg_cong[OF xs(1), of length] by simp
  show ?thesis
  proof (cases "length pages \<le> j")
    case True
    then show ?thesis using last_commit_snoc[of "es @ xs" "(p, db, data)"] assms(2) len by (simp add: xs(1))
  next
    case False
    then have "take j (commit_entries db pages) = take j xs" using len by (simp add: xs(1))
    moreover have "\<forall>e \<in> set (take j xs). fst (snd e) = 0" using xs(2) by (meson in_set_takeD)
    ultimately show ?thesis using False last_commit_zeros by simp
  qed
qed

lemma page_frames_commit:
  "numbered (length es + 1) pages md \<Longrightarrow> \<forall>q \<in> fst ` set pages. q < 2 ^ 32 \<Longrightarrow>
     page_frames p (es @ commit_entries db pages) = page_frames p es @ frames_of p md"
proof (induction pages arbitrary: es md)
  case Nil
  then show ?case by (simp add: frames_of_def)
next
  case (Cons page pages)
  obtain q data where page: "page = (q, data)" by (cases page)
  obtain c md' where md: "md = (q, length es + 1, c) # md'" "numbered (length es + 2) pages md'"
    using Cons.prems(1) by (cases md) (auto simp: page)
  let ?e = "(word_of_nat q :: u32, if pages = [] then db else 0, data)"
  have q: "unat (word_of_nat q :: u32) = q" using Cons.prems(2) by (simp add: page unat_of_nat)
  have "page_frames p ((es @ [?e]) @ commit_entries db pages) = page_frames p (es @ [?e]) @ frames_of p md'"
    by (rule Cons.IH) (use md(2) Cons.prems(2) in auto)
  then show ?case using q by (auto simp: page md(1) page_frames_snoc frames_of_def)
qed

lemma prepare_frames_loop_encodes:
  "prepare_frames_loop big hdr ck k db pages = Some (bufs, md, final, next) \<Longrightarrow>
     encode_log big hdr ck (commit_entries db pages) = Some (final, concat bufs)"
proof (induction pages arbitrary: ck k bufs md)
  case (Cons page pages)
  obtain p d where page: "page = (p, d)" by (cases page)
  show ?case using Cons.prems Cons.IH by (fastforce simp: page elim!: bind_SomeE)
qed simp

text \<open>A batch continues the log where the previous one ended.\<close>

definition frame_bytes :: "wal_shared \<Rightarrow> nat" where
  "frame_bytes sh = unat (wal_page_size sh + word_of_nat WAL_FRAME_HEADER_SIZE)"

lemma prepare_frames_encodes:
  assumes "prepare_frames big sh w pages page_sz db_size prev = Some (pf, w1)" "next_frame_seed sh w prev = ((ck, k), w1)"
  shows "encode_log big (ws_wal_header sh) ck (commit_entries (case db_size of None \<Rightarrow> 0 | Some n \<Rightarrow> n) pages)
      = Some (pf_final_checksum pf, concat (pf_bufs pf))"
    "pf_offset pf = WAL_HEADER_SIZE + (k - 1) * frame_bytes sh"
  using assms
  by (auto simp: prepare_frames_def Let_def frame_offset_def frame_bytes_def dest!: prepare_frames_loop_encodes elim!: bind_SomeE split: if_splits)

lemma prepare_batches_encode:
  assumes fb: "WAL_FRAME_HEADER_SIZE + unat (wh_page_size (ws_wal_header sh)) = frame_bytes sh"
  shows "prepare_batches big sh w page_sz db_size prev bs = Some (ps, w2) \<Longrightarrow> bs \<noteq> [] \<Longrightarrow>
    next_frame_seed sh w prev = ((ck, k), w1) \<Longrightarrow> 1 \<le> k \<Longrightarrow> length fl = WAL_HEADER_SIZE + (k - 1) * frame_bytes sh \<Longrightarrow>
    \<exists>enc. encode_log big (ws_wal_header sh) ck (commit_entries db_size (concat bs)) = Some (pf_final_checksum (last ps), enc)
      \<and> write_batches fl ps = fl @ enc"
proof (induction bs arbitrary: w prev ps ck k fl w1)
  case (Cons b bs)
  let ?db = "if bs = [] then Some db_size else None"
  obtain pf w' rest where st: "prepare_frames big sh w b page_sz ?db prev = Some (pf, w')"
    "prepare_batches big sh w' page_sz db_size (Some pf) bs = Some (rest, w2)" "ps = pf # rest"
    using Cons.prems(1) by (auto elim!: bind_SomeE)
  have pn: "pf_final_max_frame pf = k + length b - 1" "b \<noteq> []" "w' = w1"
    using prepare_frames_numbered[OF st(1)] Cons.prems(3) by auto
  note pe = prepare_frames_encodes[OF st(1)[unfolded pn(3)] Cons.prems(3)]
  let ?e1 = "concat (pf_bufs pf)"
  have len: "length ?e1 = length b * frame_bytes sh" using length_encode_log[OF pe(1)] fb by simp
  have w1: "file_write fl (pf_offset pf) ?e1 = fl @ ?e1" using pe(2) Cons.prems(5) by simp
  show ?case
  proof (cases "bs = []")
    case True
    then show ?thesis using st pe(1) w1 by auto
  next
    case False
    have "pf_final_max_frame pf + 1 = k + length b" using pn Cons.prems(4) by simp
    then have seed: "next_frame_seed sh w' (Some pf) = ((pf_final_checksum pf, k + length b), w')"
      by (simp add: next_frame_seed_def)
    have "(k - 1) * frame_bytes sh + length b * frame_bytes sh = (k - 1 + length b) * frame_bytes sh" by (simp add: add_mult_distrib)
    then have len2: "length (fl @ ?e1) = WAL_HEADER_SIZE + (k + length b - 1) * frame_bytes sh"
      using Cons.prems(4,5) len by simp
    obtain enc2 where e2: "encode_log big (ws_wal_header sh) (pf_final_checksum pf) (commit_entries db_size (concat bs)) = Some (pf_final_checksum (last rest), enc2)"
      "write_batches (fl @ ?e1) rest = (fl @ ?e1) @ enc2"
      using Cons.IH[OF st(2) False seed _ len2] Cons.prems(4) by auto
    have ne: "concat bs \<noteq> []" "rest \<noteq> []"
    proof -
      obtain b2 bs2 where bs: "bs = b2 # bs2" using False by (cases bs) auto
      then obtain pf2 w3 rest2 where st2: "prepare_frames big sh w' b2 page_sz (if bs2 = [] then Some db_size else None) (Some pf) = Some (pf2, w3)" "rest = pf2 # rest2"
        using st(2) by (auto elim!: bind_SomeE)
      then show "concat bs \<noteq> []" "rest \<noteq> []" using prepare_frames_numbered[OF st2(1)] bs by auto
    qed
    have "encode_log big (ws_wal_header sh) ck (commit_entries db_size (concat (b # bs))) = Some (pf_final_checksum (last rest), ?e1 @ enc2)"
      using pe(1) e2(1) False commit_entries_append[OF ne(1), of db_size b] by (simp add: encode_log_append)
    then show ?thesis using e2(2) w1 ne(2) by (simp add: st(3))
  qed
qed simp

section \<open>Atomic commits\<close>

text \<open>The log file holds exactly the frames the shared state knows, and ends with a commit.\<close>

definition log_on_disk :: "bool \<Rightarrow> wal_shared \<Rightarrow> bytes \<Rightarrow> log_entry list \<Rightarrow> bool" where
  "log_on_disk big sh fl es \<longleftrightarrow>
     (let hdr = ws_wal_header sh
      in ws_initialized sh \<and> header_ready big hdr \<and> (\<forall>e \<in> set es. entry_ok hdr e)
         \<and> (\<exists>enc. encode_log big hdr (wh_checksum_1 hdr, wh_checksum_2 hdr) es = Some (ws_last_checksum sh, enc)
              \<and> fl = wal_header_image hdr @ enc)
         \<and> ws_max_frame sh = length es \<and> last_commit es = length es
         \<and> (\<forall>p. fc_get (ws_frame_cache sh) p = page_frames p es))"

definition same_log :: "wal_shared \<Rightarrow> wal_shared \<Rightarrow> bool" where
  "same_log sh sh' \<longleftrightarrow> ws_max_frame sh' = ws_max_frame sh \<and> ws_last_checksum sh' = ws_last_checksum sh
     \<and> ws_wal_header sh' = ws_wal_header sh \<and> (\<forall>p. fc_get (ws_frame_cache sh') p = fc_get (ws_frame_cache sh) p)"

lemma frame_bytes_header:
  assumes "header_ready big (ws_wal_header sh)"
  shows "WAL_FRAME_HEADER_SIZE + unat (wh_page_size (ws_wal_header sh)) = frame_bytes sh"
proof -
  obtain k where k: "k \<le> 16" "wh_page_size (ws_wal_header sh) = 2 ^ k"
    using assms page_size_new_iff[of "wh_page_size (ws_wal_header sh)"] by (auto simp: header_ready_def)
  have "wh_page_size (ws_wal_header sh) = word_of_nat (2 ^ k)" using k(2) by simp
  moreover have p: "(2 :: nat) ^ k \<le> 2 ^ 16" using k(1) by (rule power_increasing) simp
  ultimately have ps: "unat (wh_page_size (ws_wal_header sh)) = 2 ^ k" by (simp only: unat_of_nat) simp
  have "unat (wh_page_size (ws_wal_header sh) + 24) = 2 ^ k + 24"
    using p ps by (subst unat_add_lem[THEN iffD1]) simp_all
  then show ?thesis using ps by (simp add: frame_bytes_def wal_page_size_def WAL_FRAME_HEADER_SIZE_def)
qed

lemma encode_log_lengths:
  "encode_log big hdr cs es = Some (cs', enc) \<Longrightarrow> \<forall>e \<in> set es. length (snd (snd e)) = unat (wh_page_size hdr)"
proof (induction es arbitrary: cs enc)
  case (Cons e es)
  obtain a b c where e: "e = (a, b, c)" by (cases e)
  then have "length c = unat (wh_page_size hdr)" using Cons.prems by (auto simp: prepare_wal_frame_def elim!: bind_SomeE split: if_splits)
  moreover have "\<forall>e \<in> set es. length (snd (snd e)) = unat (wh_page_size hdr)" using Cons by (auto simp: e elim!: bind_SomeE)
  ultimately show ?case by (simp add: e)
qed simp

lemma commit_entries_pages: "e \<in> set (commit_entries db pages) \<Longrightarrow> \<exists>p \<in> fst ` set pages. fst e = word_of_nat p"
  by (induction db pages rule: commit_entries.induct) auto

lemma next_frame_seed_synced:
  assumes "wf_max_frame w = ws_max_frame sh" "wf_last_checksum w = ws_last_checksum sh"
  shows "\<exists>w1. next_frame_seed sh w None = ((ws_last_checksum sh, ws_max_frame sh + 1), w1)"
  using assms by (auto simp: next_frame_seed_def Let_def load_snapshot_def connection_state_def)

lemma commit_on_disk:
  assumes disk: "log_on_disk big sh fl es"
    and w: "wf_max_frame w = ws_max_frame sh" "wf_last_checksum w = ws_last_checksum sh" "\<not> wf_unpublished w"
    and pages: "pages \<noteq> []" "\<forall>p \<in> fst ` set pages. 0 < p \<and> p < 2 ^ 32" "db_size > 0"
    and commit: "wal_commit big sh w rnd1 rnd2 page_sz file_len True db_size pages = Some (Inr prepared, sh', w')"
  shows "log_on_disk big sh' (write_batches fl prepared) (es @ commit_entries db_size pages)" "ws_wal_header sh' = ws_wal_header sh"
proof -
  define hdr where "hdr = ws_wal_header sh"
  let ?ce = "commit_entries db_size pages"
  obtain enc where d: "ws_initialized sh" "header_ready big hdr" "\<forall>e \<in> set es. entry_ok hdr e"
    "encode_log big hdr (wh_checksum_1 hdr, wh_checksum_2 hdr) es = Some (ws_last_checksum sh, enc)"
    "fl = wal_header_image hdr @ enc" "ws_max_frame sh = length es" "\<forall>p. fc_get (ws_frame_cache sh) p = page_frames p es"
    using disk by (auto simp: log_on_disk_def Let_def hdr_def)
  obtain w2 where pb: "prepare_batches big sh w page_sz db_size None (iov_batches pages) = Some (prepared, w2)"
    and res: "(case commit_prepared_frames sh w2 prepared of (sh3, w3) \<Rightarrow> finish_append_frames_commit sh3 w3) = (sh', w')"
    using commit d(1) pages(1) by (auto simp: wal_commit_def prepare_wal_start_def elim!: bind_SomeE split: prod.splits)
  have ne: "iov_batches pages \<noteq> []" using pages(1) by simp
  note pf = prepare_batches_first[OF pb ne w(1,3), simplified]
  obtain w1 where seed: "next_frame_seed sh w None = ((ws_last_checksum sh, ws_max_frame sh + 1), w1)"
    using next_frame_seed_synced[OF w(1,2)] by blast
  note fb = frame_bytes_header[of big sh, folded hdr_def, OF d(2)]
  have len: "length fl = WAL_HEADER_SIZE + (ws_max_frame sh + 1 - 1) * frame_bytes sh"
    using length_encode_log[OF d(4)] fb d(5,6) by (simp add: WAL_HEADER_SIZE_def)
  obtain enc2 where e2: "encode_log big hdr (ws_last_checksum sh) ?ce = Some (pf_final_checksum (last prepared), enc2)"
    "write_batches fl prepared = fl @ enc2"
    using prepare_batches_encode[OF fb[unfolded hdr_def] pb ne seed _ len] by (auto simp: hdr_def)
  obtain sh3 w3 where cp: "commit_prepared_frames sh w2 prepared = (sh3, w3)" by fastforce
  obtain fc where s3: "sh3 = sh\<lparr>ws_frame_cache := fc\<rparr>"
    "w3 = w2\<lparr>wf_last_checksum := pf_final_checksum (last prepared), wf_max_frame := ws_max_frame sh + length pages\<rparr>"
    "\<forall>q. fc_get fc q = fc_get (ws_frame_cache sh) q @ frames_of q (concat (map pf_metadata prepared))"
    using commit_prepared_frames_spec[OF cp] pf(4,5) by auto
  have sh': "ws_wal_header sh' = hdr" "ws_initialized sh'" "ws_max_frame sh' = ws_max_frame sh + length pages"
    "ws_last_checksum sh' = pf_final_checksum (last prepared)" "ws_frame_cache sh' = fc"
    using res d(1) by (auto simp: cp s3 hdr_def finish_append_frames_commit_def publish_commit_def Let_def)
  show "ws_wal_header sh' = ws_wal_header sh" using sh'(1) by (simp add: hdr_def)
  have ok: "entry_ok hdr e" if e: "e \<in> set ?ce" for e
  proof -
    obtain p where p: "p \<in> fst ` set pages" "fst e = word_of_nat p" using commit_entries_pages[OF e] by blast
    then have "fst e \<noteq> 0" using pages(2) by (auto simp: word_of_nat_eq_0_iff dest!: nat_dvd_not_less)
    then show ?thesis using encode_log_lengths[OF e2(1)] e by (simp add: entry_ok_def)
  qed
  have "fc_get fc p = page_frames p (es @ ?ce)" for p
    using page_frames_commit[of es pages "concat (map pf_metadata prepared)" p db_size] pf(1) d(6,7) s3(3) pages(2) by auto
  moreover have "last_commit (es @ ?ce) = length (es @ ?ce)" using last_commit_entries[OF pages(1,3), of es "length pages"] by simp
  ultimately show "log_on_disk big sh' (write_batches fl prepared) (es @ ?ce)"
    unfolding log_on_disk_def Let_def sh'(1)
    using d e2 sh' ok by (auto simp: encode_log_append)
qed

lemma recovered_same_log:
  assumes "log_on_disk big sh fl es" "recovered big (ws_wal_header sh) (es @ xs) sh''" "last_commit (es @ xs) = length es"
  shows "same_log sh sh''"
  using assms by (auto simp: log_on_disk_def recovered_def Let_def same_log_def log_checksum_def)

text \<open>C3: A commit is atomic. When the frames of a commit go to the end of the log file, a crash after
  any number of their bytes leaves a file that recovers to the state before the commit, or, if the
  last frame is complete, to the state the committing process has published.\<close>

theorem commit_is_atomic:
  assumes "log_on_disk big sh fl es"
    and "wf_max_frame w = ws_max_frame sh" "wf_last_checksum w = ws_last_checksum sh" "\<not> wf_unpublished w"
    and "pages \<noteq> []" "\<forall>p \<in> fst ` set pages. 0 < p \<and> p < 2 ^ 32" "db_size > 0"
    and "wal_commit big sh w rnd1 rnd2 page_sz file_len True db_size pages = Some (Inr prepared, sh', w')"
    and "length fl \<le> k"
  shows "\<exists>sh''. build_shared_wal big (take k (write_batches fl prepared)) = Inr sh''
    \<and> same_log (if length (write_batches fl prepared) \<le> k then sh' else sh) sh''"
proof -
  define hdr where "hdr = ws_wal_header sh"
  let ?ce = "commit_entries db_size pages" and ?fs = "WAL_FRAME_HEADER_SIZE + unat (wh_page_size hdr)"
  note disk = commit_on_disk[OF assms(1-8)]
  obtain enc where d: "header_ready big hdr" "\<forall>e \<in> set (es @ ?ce). entry_ok hdr e"
    "encode_log big hdr (wh_checksum_1 hdr, wh_checksum_2 hdr) (es @ ?ce) = Some (ws_last_checksum sh', enc)"
    "write_batches fl prepared = wal_header_image hdr @ enc"
    using disk by (auto simp: log_on_disk_def Let_def hdr_def)
  obtain enc1 where e1: "encode_log big hdr (wh_checksum_1 hdr, wh_checksum_2 hdr) es = Some (ws_last_checksum sh, enc1)"
    "fl = wal_header_image hdr @ enc1" using assms(1) by (auto simp: log_on_disk_def Let_def hdr_def)
  have len: "length fl = WAL_HEADER_SIZE + length es * ?fs" using length_encode_log[OF e1(1)] e1(2) by (simp add: WAL_HEADER_SIZE_def)
  have len': "length (write_batches fl prepared) = WAL_HEADER_SIZE + (length es + length pages) * ?fs"
    using length_encode_log[OF d(3)] d(4) by (simp add: WAL_HEADER_SIZE_def)
  define m where "m = (k - WAL_HEADER_SIZE) div ?fs"
  have fs: "0 < ?fs" by (simp add: WAL_FRAME_HEADER_SIZE_def)
  have hk: "WAL_HEADER_SIZE \<le> k" using len assms(9) by simp
  have m: "length es \<le> m" "length es + length pages \<le> m \<longleftrightarrow> length (write_batches fl prepared) \<le> k"
    using fs len len' assms(9) hk unfolding m_def by (simp_all add: less_eq_div_iff_mult_less_eq le_diff_conv2 add.commute)
  obtain sh'' where b: "build_shared_wal big (take k (write_batches fl prepared)) = Inr sh''" "recovered big hdr (take m (es @ ?ce)) sh''"
    using build_truncated_log[OF d(1,2,3) hk] d(4) by (auto simp: m_def)
  have tk: "take m (es @ ?ce) = es @ take (m - length es) ?ce" using m(1) by simp
  show ?thesis
  proof (cases "length es + length pages \<le> m")
    case True
    then have "take m (es @ ?ce) = (es @ ?ce) @ []" by simp
    then have "same_log sh' sh''"
      using recovered_same_log[OF disk(1), of "[]" sh''] b(2) disk(1)
      by (simp add: disk(2) hdr_def log_on_disk_def Let_def)
    then show ?thesis using b(1) True m(2) by auto
  next
    case False
    have "last_commit (es @ take (m - length es) ?ce) = length es"
      using last_commit_entries[OF assms(5,7), of es "m - length es"] False m(1) assms(1) by (auto simp: log_on_disk_def Let_def)
    then have "same_log sh sh''" using recovered_same_log[OF assms(1)] b(2) tk by (simp add: hdr_def)
    then show ?thesis using b(1) False m(2) by auto
  qed
qed

theorem commit_is_atomic_witness:
  "\<exists>sh w prepared sh' w' sh''. log_on_disk False sh (wal_header_image (ws_wal_header sh)) []
     \<and> wal_commit False sh w 0 0 512 None True 3 [(2, replicate 512 1)] = Some (Inr prepared, sh', w')
     \<and> build_shared_wal False (take 100 (write_batches (wal_header_image (ws_wal_header sh)) prepared)) = Inr sh''
     \<and> ws_max_frame sh' = 1 \<and> ws_max_frame sh'' = 0"
proof -
  obtain hdr where hdr: "header_ready False hdr" "wh_page_size hdr = 512" using sealed_exists by blast
  define sh where "sh = (wal_shared_init False)\<lparr>ws_wal_header := hdr, ws_initialized := True,
    ws_last_checksum := (wh_checksum_1 hdr, wh_checksum_2 hdr)\<rparr>"
  define w where "w = wal_file_new (ws_last_checksum sh) 0"
  have disk: "log_on_disk False sh (wal_header_image hdr) []"
    using hdr by (simp add: log_on_disk_def sh_def wal_shared_init_def)
  have w: "wf_max_frame w = ws_max_frame sh" "wf_last_checksum w = ws_last_checksum sh" "\<not> wf_unpublished w"
    by (simp_all add: w_def wal_file_new_def sh_def wal_shared_init_def)
  have "\<exists>prepared sh' w'. wal_commit False sh w 0 0 512 None True 3 [(2, replicate 512 1)] = Some (Inr prepared, sh', w')"
    using hdr(2)
    by (simp add: sh_def wal_shared_init_def wal_commit_def prepare_wal_start_def iov_batches.simps IOV_MAX_def
        prepare_frames_def wal_page_size_def page_size_get_def prepare_wal_frame_def checksum_wal_def frame_offset_def next_frame_seed_def
        Let_def case_prod_beta)
  then obtain prepared sh' w' where c: "wal_commit False sh w 0 0 512 None True 3 [(2, replicate 512 1)] = Some (Inr prepared, sh', w')" by blast
  have on: "log_on_disk False sh' (write_batches (wal_header_image hdr) prepared) ([] @ commit_entries 3 [(2, replicate 512 1)])"
    "ws_wal_header sh' = ws_wal_header sh" using commit_on_disk[OF disk w _ _ _ c] by simp_all
  have hs: "ws_wal_header sh = hdr" by (simp add: sh_def)
  obtain enc where enc: "encode_log False hdr (wh_checksum_1 hdr, wh_checksum_2 hdr) (commit_entries 3 [(2, replicate 512 1)]) = Some (ws_last_checksum sh', enc)"
    "write_batches (wal_header_image hdr) prepared = wal_header_image hdr @ enc" and max: "ws_max_frame sh' = 1"
    using on hs by (auto simp: log_on_disk_def Let_def)
  have len: "\<not> length (write_batches (wal_header_image hdr) prepared) \<le> 100"
    using length_encode_log[OF enc(1)] enc(2) hdr(2) by (simp add: WAL_FRAME_HEADER_SIZE_def)
  have "\<exists>sh''. build_shared_wal False (take 100 (write_batches (wal_header_image hdr) prepared)) = Inr sh''
    \<and> same_log (if length (write_batches (wal_header_image hdr) prepared) \<le> 100 then sh' else sh) sh''"
    by (rule commit_is_atomic[OF disk w _ _ _ c]) (simp_all add: WAL_HEADER_SIZE_def)
  moreover have "ws_max_frame sh = 0" by (simp add: sh_def wal_shared_init_def)
  ultimately show ?thesis using disk c max len hs by (fastforce simp: same_log_def)
qed

end
