(* ===== verification/Page_State.thy ===== *)
theory Page_State
  imports Prelude
begin

text \<open>
  The in-memory page of \<open>core/storage/pager.rs\<close> (\<open>Page\<close> and \<open>PageInner\<close>): the flag word with
  the locked, dirty, loaded and spilled bits, the pin count, and the tag that records which
  frame of the write-ahead log holds the page as it is in memory. The lemmas show that the flag
  operations touch their own bit only and that a page modified while it is being written to the
  log never gets the tag of the written frame.
\<close>

section \<open>The page and its flags\<close>

definition TAG_UNSET :: u64 where "TAG_UNSET = - 1"

definition TAG_WRITE_PENDING :: u64 where "TAG_WRITE_PENDING = - 2"

definition EPOCH_BITS :: nat where "EPOCH_BITS = 20"

definition FRAME_BITS :: nat where "FRAME_BITS = 64 - EPOCH_BITS"

definition EPOCH_SHIFT :: nat where "EPOCH_SHIFT = FRAME_BITS"

definition EPOCH_MAX :: u32 where "EPOCH_MAX = push_bit EPOCH_BITS 1 - 1"

definition FRAME_MAX :: u64 where "FRAME_MAX = push_bit FRAME_BITS 1 - 1"

definition pack_tag_pair :: "u64 \<Rightarrow> u32 \<Rightarrow> u64" where
  "pack_tag_pair frame epoch = push_bit EPOCH_SHIFT (ucast epoch) OR (frame AND FRAME_MAX)"

definition unpack_tag_pair :: "u64 \<Rightarrow> u64 \<times> u32" where
  "unpack_tag_pair tag =
     (let epoch = ucast (drop_bit EPOCH_SHIFT tag AND ucast EPOCH_MAX);
          frame = tag AND FRAME_MAX
      in (frame, epoch))"

definition PAGE_LOCKED :: u64 where "PAGE_LOCKED = 0b010"

definition PAGE_DIRTY :: u64 where "PAGE_DIRTY = 0b1000"

definition PAGE_LOADED :: u64 where "PAGE_LOADED = 0b10000"

definition PAGE_SPILLED :: u64 where "PAGE_SPILLED = 0b100000"

record page =
  pg_flags :: u64
  pg_id :: nat
  pin_count :: nat
  wal_tag :: u64
  pg_buffer :: "bytes option"
  overflow_cells :: "(nat \<times> bytes) list"

text \<open>\<open>Page::new\<close> takes an \<open>i64\<close> and asserts that it is not negative.\<close>

definition page_new :: "i64 \<Rightarrow> page option" where
  "page_new i =
     (if 0 \<le> sint i
      then Some \<lparr> pg_flags = 0, pg_id = unat i, pin_count = 0, wal_tag = TAG_UNSET,
                  pg_buffer = None, overflow_cells = [] \<rparr>
      else None)"

definition is_locked :: "page \<Rightarrow> bool" where
  "is_locked p \<longleftrightarrow> pg_flags p AND PAGE_LOCKED \<noteq> 0"

definition set_locked :: "page \<Rightarrow> page" where
  "set_locked p = p\<lparr>pg_flags := pg_flags p OR PAGE_LOCKED\<rparr>"

definition clear_locked :: "page \<Rightarrow> page" where
  "clear_locked p = p\<lparr>pg_flags := pg_flags p AND NOT PAGE_LOCKED\<rparr>"

definition is_dirty :: "page \<Rightarrow> bool" where
  "is_dirty p \<longleftrightarrow> pg_flags p AND PAGE_DIRTY \<noteq> 0"

definition clear_wal_tag :: "page \<Rightarrow> page" where
  "clear_wal_tag p = p\<lparr>wal_tag := TAG_UNSET\<rparr>"

definition set_dirty :: "page \<Rightarrow> page" where
  "set_dirty p =
     (let p = clear_wal_tag p;
          p = p\<lparr>pg_flags := pg_flags p AND NOT PAGE_SPILLED\<rparr>
      in p\<lparr>pg_flags := pg_flags p OR PAGE_DIRTY\<rparr>)"

definition clear_dirty_keep_wal_tag :: "page \<Rightarrow> page" where
  "clear_dirty_keep_wal_tag p = p\<lparr>pg_flags := pg_flags p AND NOT PAGE_DIRTY\<rparr>"

definition clear_dirty :: "page \<Rightarrow> page" where
  "clear_dirty p = clear_wal_tag (p\<lparr>pg_flags := pg_flags p AND NOT PAGE_DIRTY\<rparr>)"

definition is_spilled :: "page \<Rightarrow> bool" where
  "is_spilled p \<longleftrightarrow> pg_flags p AND PAGE_SPILLED \<noteq> 0"

definition set_spilled :: "page \<Rightarrow> page" where
  "set_spilled p = p\<lparr>pg_flags := pg_flags p OR PAGE_SPILLED\<rparr>"

definition clear_spilled :: "page \<Rightarrow> page" where
  "clear_spilled p = p\<lparr>pg_flags := pg_flags p AND NOT PAGE_SPILLED\<rparr>"

definition is_loaded :: "page \<Rightarrow> bool" where
  "is_loaded p \<longleftrightarrow> pg_flags p AND PAGE_LOADED \<noteq> 0"

definition set_loaded :: "page \<Rightarrow> page" where
  "set_loaded p = p\<lparr>pg_flags := pg_flags p OR PAGE_LOADED\<rparr>"

definition clear_loaded :: "page \<Rightarrow> page" where
  "clear_loaded p = p\<lparr>pg_flags := pg_flags p AND NOT PAGE_LOADED\<rparr>"

definition pin :: "page \<Rightarrow> page" where
  "pin p = p\<lparr>pin_count := pin_count p + 1\<rparr>"

definition try_unpin :: "page \<Rightarrow> bool \<times> page" where
  "try_unpin p =
     (if pin_count p = 0 then (False, p) else (True, p\<lparr>pin_count := pin_count p - 1\<rparr>))"

text \<open>\<open>unpin\<close>: \<open>None\<close> is the failed assertion.\<close>

definition unpin :: "page \<Rightarrow> page option" where
  "unpin p = (case try_unpin p of (was_pinned, p') \<Rightarrow> if was_pinned then Some p' else None)"

definition is_pinned :: "page \<Rightarrow> bool" where
  "is_pinned p \<longleftrightarrow> pin_count p > 0"

section \<open>The log tag\<close>

definition set_wal_tag :: "page \<Rightarrow> u64 \<Rightarrow> u32 \<Rightarrow> page" where
  "set_wal_tag p frame epoch =
     (let e = epoch AND EPOCH_MAX in p\<lparr>wal_tag := pack_tag_pair frame e\<rparr>)"

definition wal_tag_pair :: "page \<Rightarrow> u64 \<times> u32" where
  "wal_tag_pair p = unpack_tag_pair (wal_tag p)"

definition has_wal_tag :: "page \<Rightarrow> bool" where
  "has_wal_tag p \<longleftrightarrow> wal_tag p \<noteq> TAG_UNSET \<and> wal_tag p \<noteq> TAG_WRITE_PENDING"

definition set_write_pending :: "page \<Rightarrow> page" where
  "set_write_pending p = p\<lparr>wal_tag := TAG_WRITE_PENDING\<rparr>"

definition try_set_wal_tag :: "page \<Rightarrow> u64 \<Rightarrow> u32 \<Rightarrow> bool \<times> page" where
  "try_set_wal_tag p frame epoch =
     (let new_tag = pack_tag_pair frame epoch;
          current = wal_tag p
      in if current = TAG_UNSET then (False, p) else (True, p\<lparr>wal_tag := new_tag\<rparr>))"

definition is_valid_for_checkpoint :: "page \<Rightarrow> u64 \<Rightarrow> u32 \<Rightarrow> bool" where
  "is_valid_for_checkpoint p target_frame epoch \<longleftrightarrow>
     (case wal_tag_pair p of (f, s) \<Rightarrow>
        f = target_frame \<and> s = epoch \<and> \<not> is_dirty p \<and> is_loaded p \<and> \<not> is_locked p)"

section \<open>The flags are independent\<close>

named_theorems page_simps \<open>page operations seen through the accessors\<close>

lemma flag_bits:
  "PAGE_LOCKED = push_bit 1 1" "PAGE_DIRTY = push_bit 3 1"
  "PAGE_LOADED = push_bit 4 1" "PAGE_SPILLED = push_bit 5 1"
  by (simp_all add: PAGE_LOCKED_def PAGE_DIRTY_def PAGE_LOADED_def PAGE_SPILLED_def push_bit_eq_mult)

lemma flag_test: "k < 64 \<Longrightarrow> w AND push_bit k 1 \<noteq> 0 \<longleftrightarrow> bit w k" for w :: u64
  using and_exp_eq_0_iff_not_bit[of w k] by (simp add: push_bit_eq_mult)

lemma flag_iffs:
  "is_locked p \<longleftrightarrow> bit (pg_flags p) 1" "is_dirty p \<longleftrightarrow> bit (pg_flags p) 3"
  "is_loaded p \<longleftrightarrow> bit (pg_flags p) 4" "is_spilled p \<longleftrightarrow> bit (pg_flags p) 5"
  unfolding is_locked_def is_dirty_def is_loaded_def is_spilled_def flag_bits
  by (simp_all only: flag_test)

lemmas page_ops = set_locked_def clear_locked_def clear_wal_tag_def set_dirty_def
  clear_dirty_keep_wal_tag_def clear_dirty_def set_spilled_def clear_spilled_def set_loaded_def
  clear_loaded_def pin_def set_wal_tag_def set_write_pending_def

lemma bit_flag: "bit (push_bit k 1 :: u64) n \<longleftrightarrow> n = k \<and> n < 64"
  by (auto simp: bit_simps)

lemma page_flag_simps [page_simps]:
  "is_locked (set_locked p)" "is_dirty (set_locked p) = is_dirty p"
  "is_loaded (set_locked p) = is_loaded p" "is_spilled (set_locked p) = is_spilled p"
  "\<not> is_locked (clear_locked p)" "is_dirty (clear_locked p) = is_dirty p"
  "is_loaded (clear_locked p) = is_loaded p" "is_spilled (clear_locked p) = is_spilled p"
  "is_locked (set_dirty p) = is_locked p" "is_dirty (set_dirty p)"
  "is_loaded (set_dirty p) = is_loaded p" "\<not> is_spilled (set_dirty p)"
  "is_locked (clear_dirty p) = is_locked p" "\<not> is_dirty (clear_dirty p)"
  "is_loaded (clear_dirty p) = is_loaded p" "is_spilled (clear_dirty p) = is_spilled p"
  "is_locked (set_spilled p) = is_locked p" "is_dirty (set_spilled p) = is_dirty p"
  "is_loaded (set_spilled p) = is_loaded p" "is_spilled (set_spilled p)"
  "is_locked (clear_spilled p) = is_locked p" "is_dirty (clear_spilled p) = is_dirty p"
  "is_loaded (clear_spilled p) = is_loaded p" "\<not> is_spilled (clear_spilled p)"
  "is_locked (set_loaded p) = is_locked p" "is_dirty (set_loaded p) = is_dirty p"
  "is_loaded (set_loaded p)" "is_spilled (set_loaded p) = is_spilled p"
  "is_locked (clear_loaded p) = is_locked p" "is_dirty (clear_loaded p) = is_dirty p"
  "\<not> is_loaded (clear_loaded p)" "is_spilled (clear_loaded p) = is_spilled p"
  by (simp_all add: flag_iffs page_ops flag_bits bit_or_iff bit_and_iff bit_not_iff bit_flag
      del: push_bit_of_1 push_bit_numeral)

section \<open>The tag of a frame\<close>

lemma EPOCH_MAX_eq: "EPOCH_MAX = mask 20"
  by (simp add: EPOCH_MAX_def EPOCH_BITS_def mask_eq_exp_minus_1 push_bit_of_1)

lemma FRAME_MAX_eq: "FRAME_MAX = mask 44"
  by (simp add: FRAME_MAX_def FRAME_BITS_def EPOCH_BITS_def mask_eq_exp_minus_1 push_bit_of_1)

lemma EPOCH_SHIFT_eq: "EPOCH_SHIFT = 44"
  by (simp add: EPOCH_SHIFT_def FRAME_BITS_def EPOCH_BITS_def)

lemma unpack_pack_tag_pair:
  "unpack_tag_pair (pack_tag_pair frame epoch) = (take_bit 44 frame, take_bit 20 epoch)"
proof -
  have "pack_tag_pair frame epoch AND FRAME_MAX = take_bit 44 frame"
    by (rule bit_word_eqI) (auto simp: pack_tag_pair_def EPOCH_SHIFT_eq FRAME_MAX_eq bit_simps)
  moreover have "ucast (drop_bit EPOCH_SHIFT (pack_tag_pair frame epoch) AND ucast EPOCH_MAX) =
      take_bit 20 epoch"
    by (rule bit_word_eqI)
      (auto simp: pack_tag_pair_def EPOCH_SHIFT_eq FRAME_MAX_eq EPOCH_MAX_eq bit_simps)
  ultimately show ?thesis by (simp add: unpack_tag_pair_def)
qed

text \<open>\<open>set_wal_tag\<close> masks the epoch, \<open>try_set_wal_tag\<close> lets the shift drop its upper bits: the
  tags agree.\<close>

lemma pack_tag_pair_mask: "pack_tag_pair frame (epoch AND EPOCH_MAX) = pack_tag_pair frame epoch"
  by (rule bit_word_eqI) (auto simp: pack_tag_pair_def EPOCH_SHIFT_eq FRAME_MAX_eq EPOCH_MAX_eq bit_simps)

text \<open>What may happen to a page between the start of a write to the log and its completion.\<close>

datatype page_op =
    SetLocked | ClearLocked | SetDirty | ClearDirty | ClearDirtyKeepWalTag | SetSpilled
  | ClearSpilled | SetLoaded | ClearLoaded | PinOp | TryUnpin | ClearWalTag

fun run_page_op :: "page_op \<Rightarrow> page \<Rightarrow> page" where
  "run_page_op SetLocked = set_locked"
| "run_page_op ClearLocked = clear_locked"
| "run_page_op SetDirty = set_dirty"
| "run_page_op ClearDirty = clear_dirty"
| "run_page_op ClearDirtyKeepWalTag = clear_dirty_keep_wal_tag"
| "run_page_op SetSpilled = set_spilled"
| "run_page_op ClearSpilled = clear_spilled"
| "run_page_op SetLoaded = set_loaded"
| "run_page_op ClearLoaded = clear_loaded"
| "run_page_op PinOp = pin"
| "run_page_op TryUnpin = (\<lambda>p. snd (try_unpin p))"
| "run_page_op ClearWalTag = clear_wal_tag"

definition drops_tag :: "page_op \<Rightarrow> bool" where
  "drops_tag a \<longleftrightarrow> a = SetDirty \<or> a = ClearDirty \<or> a = ClearWalTag"

lemma wal_tag_page_op: "wal_tag (run_page_op a p) = (if drops_tag a then TAG_UNSET else wal_tag p)"
  by (cases a) (auto simp: page_ops drops_tag_def try_unpin_def Let_def)

lemma wal_tag_fold:
  "wal_tag (fold run_page_op ops p) = (if \<exists>a\<in>set ops. drops_tag a then TAG_UNSET else wal_tag p)"
  by (induction ops arbitrary: p) (auto simp: wal_tag_page_op)

lemma tags_differ [simp]: "TAG_WRITE_PENDING \<noteq> TAG_UNSET"
  by (simp add: TAG_WRITE_PENDING_def TAG_UNSET_def)

text \<open>C31: (\<open>Page::set_write_pending\<close>, \<open>Page::set_dirty\<close>, \<open>Page::try_set_wal_tag\<close>,
  \<open>Page::wal_tag_pair\<close>): a page is marked before it is written to the log, then anything
  may happen to its flags, and when the write completes the page is tagged with its frame. The
  tag is set if and only if the page was not modified in between, and then it reads back as the
  frame and epoch (at their widths of 44 and 20 bits); otherwise the page is left as it is, with
  no tag.\<close>

theorem tag_iff_unmodified:
  "try_set_wal_tag (fold run_page_op ops (set_write_pending p)) frame epoch = (ok, q) \<Longrightarrow>
     (ok \<longleftrightarrow> (\<forall>a\<in>set ops. a \<noteq> SetDirty \<and> a \<noteq> ClearDirty \<and> a \<noteq> ClearWalTag)) \<and>
     (if ok then wal_tag_pair q = (take_bit 44 frame, take_bit 20 epoch)
      else q = fold run_page_op ops (set_write_pending p) \<and> \<not> has_wal_tag q)"
  using wal_tag_fold[of ops "set_write_pending p"]
  by (auto simp: try_set_wal_tag_def set_write_pending_def wal_tag_pair_def unpack_pack_tag_pair
      has_wal_tag_def drops_tag_def Let_def split: if_splits)

definition demo_page :: page where
  "demo_page = \<lparr> pg_flags = 0, pg_id = 7, pin_count = 0, wal_tag = TAG_UNSET,
                 pg_buffer = None, overflow_cells = [] \<rparr>"

theorem tag_iff_unmodified_witness:
  "\<exists>q. try_set_wal_tag (fold run_page_op [SetLocked, PinOp, ClearLocked] (set_write_pending demo_page)) 9 3
       = (True, q) \<and> wal_tag_pair q = (take_bit 44 9, take_bit 20 3)"
proof -
  obtain ok q where r: "try_set_wal_tag (fold run_page_op [SetLocked, PinOp, ClearLocked]
      (set_write_pending demo_page)) 9 3 = (ok, q)"
    by (cases "try_set_wal_tag (fold run_page_op [SetLocked, PinOp, ClearLocked]
      (set_write_pending demo_page)) 9 3")
  show ?thesis using tag_iff_unmodified[OF r] r by simp
qed

end
