(* ===== verification/Page_Cache.thy ===== *)
theory Page_Cache
  imports Page_State "HOL-Library.AList" "HOL-Library.Multiset"
begin

text \<open>
  \<open>PageCache\<close> of \<open>core/storage/page_cache.rs\<close>: a hash map from page numbers to the entries of a
  queue that the SIEVE clock hand sweeps for eviction. Entries are boxed and linked by raw
  pointers in the source; here they live in an explicit store and the map, the queue and the
  clock hand hold their addresses, so that the agreement of the three is a theorem and not a
  feature of the representation. Pages are shared (\<open>Arc<Page>\<close>): the store maps references to
  pages and counts the references held outside the cache.

  A function that can fail returns its result together with the state, since the source may have
  changed the cache before it fails; \<open>None\<close> is a panic. The iteration order of the hash map, of
  which the standard library promises nothing but that every entry comes once, is a parameter
  \<open>iter\<close> of the operations that iterate.
\<close>

section \<open>State\<close>

type_synonym pref = nat
type_synonym eptr = nat

datatype cache_error =
    InternalErrorC
  | LockedPage nat
  | DirtyPage nat
  | PinnedPage nat
  | ActiveRefs
  | FullCache
  | KeyExists

datatype resize_result = ResizeDone | PendingEvictions

datatype spill_result = NotNeeded | SpillDisabled | PagesToSpill "pref list" | CacheFull

definition CLEAR :: nat where "CLEAR = 0"

definition REF_MAX :: nat where "REF_MAX = 3"

definition DEFAULT_SPILL_THRESHOLD_PERCENT :: nat where "DEFAULT_SPILL_THRESHOLD_PERCENT = 90"

definition HEADER_PAGE_ID :: nat where "HEADER_PAGE_ID = 1"

record cache_entry =
  e_key :: nat
  e_page :: pref
  ref_bit :: nat

record cache =
  capacity :: nat
  pc_map :: "(nat \<times> eptr) list"
  pc_queue :: "eptr list"
  clock_hand :: "eptr option"
  spill_threshold :: nat
  spill_enabled :: bool
  evictable_count :: nat
  pc_entries :: "eptr \<Rightarrow> cache_entry"
  pc_next :: eptr
  pc_pages :: "pref \<Rightarrow> page"
  pc_ext :: "pref \<Rightarrow> nat"

type_synonym 'a cres = "((cache_error + 'a) \<times> cache) option"

definition cache_len :: "cache \<Rightarrow> nat" where
  "cache_len c = length (pc_map c)"

definition entry_new :: "nat \<Rightarrow> pref \<Rightarrow> cache_entry" where
  "entry_new key page = \<lparr> e_key = key, e_page = page, ref_bit = CLEAR \<rparr>"

definition bump_ref :: "cache_entry \<Rightarrow> cache_entry" where
  "bump_ref e = e\<lparr>ref_bit := min (ref_bit e + 1) REF_MAX\<rparr>"

definition decrement_ref :: "cache_entry \<Rightarrow> cache_entry" where
  "decrement_ref e = e\<lparr>ref_bit := ref_bit e - 1\<rparr>"

definition cache_new_with_spill :: "nat \<Rightarrow> bool \<Rightarrow> (pref \<Rightarrow> page) \<Rightarrow> (pref \<Rightarrow> nat) \<Rightarrow> cache" where
  "cache_new_with_spill cap enabled pages ext =
     (let threshold = cap * DEFAULT_SPILL_THRESHOLD_PERCENT div 100 in
      \<lparr> capacity = cap, pc_map = [], pc_queue = [], clock_hand = None,
        spill_threshold = max threshold 1, spill_enabled = enabled, evictable_count = 0,
        pc_entries = (\<lambda>_. entry_new 0 0), pc_next = 0, pc_pages = pages, pc_ext = ext \<rparr>)"

text \<open>The store: the entry and the page behind a pointer, dropping a reference to a page held
  outside the cache, and the reference count \<open>Arc::strong_count\<close>.\<close>

definition upd_entry :: "cache \<Rightarrow> eptr \<Rightarrow> (cache_entry \<Rightarrow> cache_entry) \<Rightarrow> cache" where
  "upd_entry c p f = c\<lparr>pc_entries := (pc_entries c)(p := f (pc_entries c p))\<rparr>"

definition upd_page :: "cache \<Rightarrow> pref \<Rightarrow> (page \<Rightarrow> page) \<Rightarrow> cache" where
  "upd_page c g f = c\<lparr>pc_pages := (pc_pages c)(g := f (pc_pages c g))\<rparr>"

definition drop_ref :: "cache \<Rightarrow> pref \<Rightarrow> cache" where
  "drop_ref c g = c\<lparr>pc_ext := (pc_ext c)(g := pc_ext c g - 1)\<rparr>"

definition clone_ref :: "cache \<Rightarrow> pref \<Rightarrow> cache" where
  "clone_ref c g = c\<lparr>pc_ext := (pc_ext c)(g := pc_ext c g + 1)\<rparr>"

abbreviation entry_page :: "cache \<Rightarrow> eptr \<Rightarrow> page" where
  "entry_page c p \<equiv> pc_pages c (e_page (pc_entries c p))"

definition strong_count :: "cache \<Rightarrow> pref \<Rightarrow> nat" where
  "strong_count c g =
     pc_ext c g + length (filter (\<lambda>p. e_page (pc_entries c p) = g) (pc_queue c))"

text \<open>The intrusive list: the successor of a node, insertion after a node.\<close>

fun next_after :: "eptr list \<Rightarrow> eptr \<Rightarrow> eptr option" where
  "next_after [] p = None"
| "next_after (x # xs) p =
     (if x = p then (case xs of [] \<Rightarrow> None | y # _ \<Rightarrow> Some y) else next_after xs p)"

fun insert_after :: "eptr list \<Rightarrow> eptr \<Rightarrow> eptr \<Rightarrow> eptr list" where
  "insert_after [] p x = []"
| "insert_after (y # ys) p x = (if y = p then y # x # ys else y # insert_after ys p x)"

section \<open>Operations\<close>

definition advance_clock_hand :: "cache \<Rightarrow> cache" where
  "advance_clock_hand c =
     (case clock_hand c of
        None \<Rightarrow> c
      | Some h \<Rightarrow>
          (case next_after (pc_queue c) h of
             Some n \<Rightarrow> c\<lparr>clock_hand := Some n\<rparr>
           | None \<Rightarrow>
               (case pc_queue c of
                  f # _ \<Rightarrow> c\<lparr>clock_hand := Some f\<rparr>
                | [] \<Rightarrow> c\<lparr>clock_hand := None\<rparr>)))"

definition contains_key :: "cache \<Rightarrow> nat \<Rightarrow> bool" where
  "contains_key c key \<longleftrightarrow> map_of (pc_map c) key \<noteq> None"

definition counted_as_evictable :: "page \<Rightarrow> bool" where
  "counted_as_evictable p \<longleftrightarrow>
     (if pg_id p = HEADER_PAGE_ID then False else \<not> is_dirty p \<or> is_spilled p)"

definition evictable :: "cache \<Rightarrow> pref \<Rightarrow> bool" where
  "evictable c g \<longleftrightarrow>
     (let p = pc_pages c g in
      (\<not> is_dirty p \<or> is_spilled p) \<and> \<not> is_locked p \<and> \<not> is_pinned p \<and>
      pg_id p \<noteq> HEADER_PAGE_ID \<and> strong_count c g = 1)"

definition spillable :: "cache \<Rightarrow> pref \<Rightarrow> bool" where
  "spillable c g \<longleftrightarrow>
     (let p = pc_pages c g in
      is_dirty p \<and> \<not> is_spilled p \<and> \<not> is_locked p \<and> \<not> is_pinned p \<and>
      strong_count c g = 1 \<and> pg_id p \<noteq> HEADER_PAGE_ID \<and> overflow_cells p = [])"

text \<open>\<open>page.clear_loaded(); page.get().buffer.take()\<close>\<close>

definition clean_page :: "page \<Rightarrow> page" where
  "clean_page p = (clear_loaded p)\<lparr>pg_buffer := None\<rparr>"

definition cache_delete_inner :: "cache \<Rightarrow> nat \<Rightarrow> bool \<Rightarrow> (cache_error + unit) \<times> cache" where
  "cache_delete_inner c key clean =
     (case map_of (pc_map c) key of
        None \<Rightarrow> (Inr (), c)
      | Some ep \<Rightarrow>
          let g = e_page (pc_entries c ep);
              page = pc_pages c g in
          if is_locked page then (Inl (LockedPage (pg_id page)), c)
          else if is_dirty page then (Inl (DirtyPage (pg_id page)), c)
          else if is_pinned page then (Inl (PinnedPage (pg_id page)), c)
          else
            let was_evictable = counted_as_evictable page;
                c = (if clean then upd_page c g clean_page else c);
                c = c\<lparr>pc_map := AList.delete key (pc_map c)\<rparr>;
                c = (if clock_hand c = Some ep
                     then (let c = advance_clock_hand c in
                           if clock_hand c = Some ep then c\<lparr>clock_hand := None\<rparr> else c)
                     else c);
                c = c\<lparr>pc_queue := remove1 ep (pc_queue c)\<rparr>;
                c = (if was_evictable then c\<lparr>evictable_count := evictable_count c - 1\<rparr> else c)
            in (Inr (), c))"

definition cache_delete :: "cache \<Rightarrow> nat \<Rightarrow> (cache_error + unit) \<times> cache" where
  "cache_delete c key = cache_delete_inner c key True"

text \<open>The eviction loop, by the number of examinations left.\<close>

fun evict_loop :: "nat \<Rightarrow> cache \<Rightarrow> unit cres" where
  "evict_loop 0 c = Some (Inl FullCache, c)"
| "evict_loop (Suc left) c =
     (case clock_hand c of
        None \<Rightarrow> None
      | Some ep \<Rightarrow>
          let entry = pc_entries c ep;
              key = e_key entry;
              g = e_page entry;
              ev = evictable c g in
          if ev \<and> ref_bit entry = CLEAR then
            (if \<not> counted_as_evictable (pc_pages c g) then None
             else
               let c = advance_clock_hand c;
                   c = (if clock_hand c = Some ep then c\<lparr>clock_hand := None\<rparr> else c);
                   c = c\<lparr>pc_map := AList.delete key (pc_map c)\<rparr>;
                   c = upd_page c g clean_page;
                   c = c\<lparr>pc_queue := remove1 ep (pc_queue c)\<rparr>;
                   c = c\<lparr>evictable_count := evictable_count c - 1\<rparr>
               in Some (Inr (), c))
          else if ev then evict_loop left (advance_clock_hand (upd_entry c ep decrement_ref))
          else evict_loop left (advance_clock_hand c))"

definition evict_one :: "cache \<Rightarrow> unit cres" where
  "evict_one c =
     (if cache_len c = 0 then Some (Inl InternalErrorC, c)
      else evict_loop (cache_len c * (REF_MAX + 1)) c)"

text \<open>\<open>for _ in 0..need \{ self.evict_one()?; \}\<close>\<close>

fun evict_many :: "nat \<Rightarrow> cache \<Rightarrow> unit cres" where
  "evict_many 0 c = Some (Inr (), c)"
| "evict_many (Suc need) c =
     (case evict_one c of
        None \<Rightarrow> None
      | Some (Inl e, c) \<Rightarrow> Some (Inl e, c)
      | Some (Inr _, c) \<Rightarrow> evict_many need c)"

text \<open>The subtraction \<open>self.capacity - self.len()\<close> is checked: \<open>None\<close> when it would underflow.\<close>

definition make_room_for :: "cache \<Rightarrow> nat \<Rightarrow> unit cres" where
  "make_room_for c n =
     (if n > capacity c then Some (Inl FullCache, c)
      else if capacity c < cache_len c then None
      else
        let available = capacity c - cache_len c in
        if n \<le> available then Some (Inr (), c)
        else evict_many (n - available) c)"

definition cache_insert_entry :: "cache \<Rightarrow> nat \<Rightarrow> pref \<Rightarrow> (cache_error + unit) \<times> cache" where
  "cache_insert_entry c key value =
     (let is_evictable = counted_as_evictable (pc_pages c value);
          ep = pc_next c;
          c = drop_ref c value;
          c = c\<lparr>pc_entries := (pc_entries c)(ep := entry_new key value), pc_next := ep + 1\<rparr>;
          r = (case clock_hand c of
                 None \<Rightarrow>
                   (Inr (), c\<lparr>pc_queue := pc_queue c @ [ep], pc_map := AList.update key ep (pc_map c),
                              clock_hand := Some ep\<rparr>)
               | Some h \<Rightarrow>
                   let c = c\<lparr>pc_queue := insert_after (pc_queue c) h ep\<rparr> in
                   (case next_after (pc_queue c) h of
                      None \<Rightarrow> (Inl InternalErrorC, c)
                    | Some inserted \<Rightarrow> (Inr (), c\<lparr>pc_map := AList.update key inserted (pc_map c)\<rparr>)))
      in case r of
           (Inl e, c) \<Rightarrow> (Inl e, c)
         | (Inr _, c) \<Rightarrow>
             (Inr (), if is_evictable then c\<lparr>evictable_count := evictable_count c + 1\<rparr> else c))"

definition cache_insert_new :: "cache \<Rightarrow> nat \<Rightarrow> pref \<Rightarrow> unit cres" where
  "cache_insert_new c key value =
     (case make_room_for c 1 of
        None \<Rightarrow> None
      | Some (Inl e, c) \<Rightarrow> Some (Inl e, drop_ref c value)
      | Some (Inr _, c) \<Rightarrow> Some (cache_insert_entry c key value))"

definition cache_update_entry :: "cache \<Rightarrow> eptr \<Rightarrow> pref \<Rightarrow> bool \<Rightarrow> unit cres" where
  "cache_update_entry c ep value update_in_place =
     (let c = upd_entry c ep bump_ref;
          g = e_page (pc_entries c ep) in
      if update_in_place then
        let old_evictable = counted_as_evictable (pc_pages c g);
            new_evictable = counted_as_evictable (pc_pages c value);
            c = (if old_evictable \<and> \<not> new_evictable
                 then c\<lparr>evictable_count := evictable_count c - 1\<rparr>
                 else if \<not> old_evictable \<and> new_evictable
                 then c\<lparr>evictable_count := evictable_count c + 1\<rparr>
                 else c);
            c = drop_ref (upd_entry c ep (\<lambda>e. e\<lparr>e_page := value\<rparr>)) value
        in Some (Inr (), c)
      else if g \<noteq> value then None
      else Some (Inl KeyExists, drop_ref c value))"

definition cache_insert_inner :: "cache \<Rightarrow> nat \<Rightarrow> pref \<Rightarrow> bool \<Rightarrow> unit cres" where
  "cache_insert_inner c key value update_in_place =
     (case map_of (pc_map c) key of
        Some ep \<Rightarrow>
          let p = entry_page c ep in
          if \<not> is_loaded p \<and> \<not> is_locked p then
            (case cache_delete_inner c key True of
               (Inl e, c) \<Rightarrow> Some (Inl e, drop_ref c value)
             | (Inr _, c) \<Rightarrow> cache_insert_new c key value)
          else cache_update_entry c ep value update_in_place
      | None \<Rightarrow> cache_insert_new c key value)"

definition cache_insert :: "cache \<Rightarrow> nat \<Rightarrow> pref \<Rightarrow> unit cres" where
  "cache_insert c key value = cache_insert_inner c key value False"

definition upsert_page :: "cache \<Rightarrow> nat \<Rightarrow> pref \<Rightarrow> unit cres" where
  "upsert_page c key value = cache_insert_inner c key value True"

definition cache_get :: "cache \<Rightarrow> nat \<Rightarrow> (cache_error + pref option) \<times> cache" where
  "cache_get c key =
     (case map_of (pc_map c) key of
        None \<Rightarrow> (Inr None, c)
      | Some ep \<Rightarrow>
          let g = e_page (pc_entries c ep);
              p = pc_pages c g;
              c = clone_ref c g in
          if \<not> is_loaded p \<and> \<not> is_locked p then
            (case cache_delete c key of
               (Inl e, c) \<Rightarrow> (Inl e, drop_ref c g)
             | (Inr _, c) \<Rightarrow> (Inr None, drop_ref c g))
          else (Inr (Some g), upd_entry c ep bump_ref))"

definition cache_peek :: "cache \<Rightarrow> nat \<Rightarrow> bool \<Rightarrow> pref option \<times> cache" where
  "cache_peek c key touch =
     (case map_of (pc_map c) key of
        None \<Rightarrow> (None, c)
      | Some ep \<Rightarrow>
          let g = e_page (pc_entries c ep);
              c = clone_ref c g in
          (Some g, if touch then upd_entry c ep bump_ref else c))"

text \<open>The loop of \<open>resize\<close>, with fuel: \<open>None\<close> is a panic or the fuel running out.\<close>

fun resize_loop :: "nat \<Rightarrow> nat \<Rightarrow> cache \<Rightarrow> (bool \<times> cache) option" where
  "resize_loop fuel new_cap c =
     (if new_cap < cache_len c then
        (case fuel of
           0 \<Rightarrow> None
         | Suc fuel \<Rightarrow>
             (case evict_one c of
                None \<Rightarrow> None
              | Some (Inl e, c) \<Rightarrow> Some (False, c)
              | Some (Inr _, c) \<Rightarrow> resize_loop fuel new_cap c))
      else Some (True, c))"

declare resize_loop.simps [simp del]

definition cache_resize :: "cache \<Rightarrow> nat \<Rightarrow> (resize_result \<times> cache) option" where
  "cache_resize c new_cap =
     (if new_cap = capacity c then Some (ResizeDone, c)
      else
        (case resize_loop (cache_len c) new_cap c of
           None \<Rightarrow> None
         | Some (False, c) \<Rightarrow> Some (PendingEvictions, c)
         | Some (True, c) \<Rightarrow>
             Some (ResizeDone,
               c\<lparr>capacity := new_cap,
                 spill_threshold := max (new_cap * DEFAULT_SPILL_THRESHOLD_PERCENT div 100) 1\<rparr>)))"

definition count_evictable_pages :: "cache \<Rightarrow> nat" where
  "count_evictable_pages c =
     length (filter (\<lambda>(k, ep). evictable c (e_page (pc_entries c ep))) (pc_map c))"

definition needs_spill :: "cache \<Rightarrow> bool" where
  "needs_spill c =
     (let len = cache_len c in
      if len < spill_threshold c \<or> \<not> spill_enabled c then False
      else
        let needed_evictable = len - spill_threshold c;
            empty_slots = capacity c - len;
            available_room = evictable_count c + empty_slots in
        if available_room \<ge> needed_evictable then False
        else count_evictable_pages c < needed_evictable)"

definition set_spill_enabled :: "cache \<Rightarrow> bool \<Rightarrow> cache" where
  "set_spill_enabled c enabled = c\<lparr>spill_enabled := enabled\<rparr>"

text \<open>\<open>threshold.clamp(1, self.capacity)\<close> panics if the capacity is zero.\<close>

definition set_spill_threshold :: "cache \<Rightarrow> nat \<Rightarrow> cache option" where
  "set_spill_threshold c threshold =
     (if capacity c < 1 then None
      else Some (c\<lparr>spill_threshold := min (max threshold 1) (capacity c)\<rparr>))"

definition notify_page_dirty :: "cache \<Rightarrow> nat \<Rightarrow> cache" where
  "notify_page_dirty c key =
     (case map_of (pc_map c) key of
        None \<Rightarrow> c
      | Some ep \<Rightarrow>
          if pg_id (entry_page c ep) \<noteq> HEADER_PAGE_ID
          then c\<lparr>evictable_count := evictable_count c - 1\<rparr> else c)"

definition notify_page_spilled :: "cache \<Rightarrow> nat \<Rightarrow> cache" where
  "notify_page_spilled c key =
     (case map_of (pc_map c) key of
        None \<Rightarrow> c
      | Some ep \<Rightarrow>
          if pg_id (entry_page c ep) \<noteq> HEADER_PAGE_ID
          then c\<lparr>evictable_count := evictable_count c + 1\<rparr> else c)"

text \<open>A \<open>PinGuard\<close> of a cloned page reference adds a reference and a pin.\<close>

definition pin_guard :: "cache \<Rightarrow> pref \<Rightarrow> cache" where
  "pin_guard c g = upd_page (clone_ref c g) g pin"

fun spill_loop :: "cache \<Rightarrow> nat \<Rightarrow> pref list \<Rightarrow> (nat \<times> eptr) list \<Rightarrow> pref list \<times> cache" where
  "spill_loop c max_pages acc [] = (acc, c)"
| "spill_loop c max_pages acc ((_, ep) # rest) =
     (let g = e_page (pc_entries c ep);
          (acc, c) = (if spillable c g then (acc @ [g], pin_guard c g) else (acc, c)) in
      if length acc \<ge> max_pages then (acc, c) else spill_loop c max_pages acc rest)"

definition collect_spillable_pages ::
  "((nat \<times> eptr) list \<Rightarrow> (nat \<times> eptr) list) \<Rightarrow> cache \<Rightarrow> nat \<Rightarrow> pref list \<times> cache" where
  "collect_spillable_pages iter c max_pages =
     (if \<not> spill_enabled c \<or> max_pages = 0 then ([], c)
      else
        let (pages, c) = spill_loop c max_pages [] (iter (pc_map c))
        in (sort_key (\<lambda>g. pg_id (pc_pages c g)) pages, c))"

definition dirty_count :: "cache \<Rightarrow> nat" where
  "dirty_count c = length (filter (\<lambda>(k, ep). is_dirty (entry_page c ep)) (pc_map c))"

definition check_spill ::
  "((nat \<times> eptr) list \<Rightarrow> (nat \<times> eptr) list) \<Rightarrow> cache \<Rightarrow> nat \<Rightarrow> spill_result \<times> cache" where
  "check_spill iter c max_pages =
     (if \<not> needs_spill c then (NotNeeded, c)
      else
        let (pages, c) = collect_spillable_pages iter c max_pages in
        if pages = [] then (CacheFull, c) else (PagesToSpill pages, c))"

definition cache_clear ::
  "((nat \<times> eptr) list \<Rightarrow> (nat \<times> eptr) list) \<Rightarrow> cache \<Rightarrow> bool \<Rightarrow> (cache_error + unit) \<times> cache" where
  "cache_clear iter c clear_dirty_pages =
     (case List.find (\<lambda>(k, ep). is_dirty (entry_page c ep) \<and> \<not> clear_dirty_pages) (iter (pc_map c)) of
        Some (k, ep) \<Rightarrow> (Inl (DirtyPage (pg_id (entry_page c ep))), c)
      | None \<Rightarrow>
          let c = foldl (\<lambda>c (k, ep). upd_page c (e_page (pc_entries c ep)) clean_page) c (iter (pc_map c))
          in (Inr (), c\<lparr>pc_map := [], pc_queue := [], clock_hand := None, evictable_count := 0\<rparr>))"

fun truncate_loop :: "cache \<Rightarrow> nat list \<Rightarrow> (cache_error + unit) \<times> cache" where
  "truncate_loop c [] = (Inr (), c)"
| "truncate_loop c (key # keys) =
     (case cache_delete c key of
        (Inl e, c) \<Rightarrow> (Inl e, c)
      | (Inr _, c) \<Rightarrow> truncate_loop c keys)"

definition cache_truncate ::
  "((nat \<times> eptr) list \<Rightarrow> (nat \<times> eptr) list) \<Rightarrow> cache \<Rightarrow> nat \<Rightarrow> (cache_error + unit) \<times> cache" where
  "cache_truncate iter c max_page_num =
     truncate_loop c (filter (\<lambda>k. k > max_page_num) (map fst (iter (pc_map c))))"

text \<open>\<open>Pager::add_dirty\<close> in \<open>core/storage/pager.rs\<close>, the part that concerns the cache: the
  notification, then the flag. \<open>None\<close> is the failed assertion that the page is loaded.\<close>

definition add_dirty_cached :: "cache \<Rightarrow> pref \<Rightarrow> cache option" where
  "add_dirty_cached c g =
     (let page = pc_pages c g in
      if \<not> is_loaded page then None
      else
        let c = (if \<not> is_dirty page then notify_page_dirty c (pg_id page) else c)
        in Some (upd_page c g set_dirty))"

section \<open>The map, the queue and the hand agree\<close>

text \<open>The integrity the tests check with \<open>verify_cache_integrity\<close>, together with the bound of the
  reference counters, the freshness of the next address and the capacity.\<close>

definition cache_ok :: "cache \<Rightarrow> bool" where
  "cache_ok c \<longleftrightarrow>
     distinct (map fst (pc_map c)) \<and> distinct (pc_queue c) \<and>
     set (pc_queue c) = snd ` set (pc_map c) \<and>
     (\<forall>(k, p) \<in> set (pc_map c). e_key (pc_entries c p) = k) \<and>
     (\<forall>p \<in> set (pc_queue c). p < pc_next c \<and> ref_bit (pc_entries c p) \<le> REF_MAX) \<and>
     (case clock_hand c of None \<Rightarrow> pc_queue c = [] | Some h \<Rightarrow> h \<in> set (pc_queue c)) \<and>
     cache_len c \<le> capacity c"

text \<open>The cache as its clients see it: a partial map from page numbers to page references.\<close>

definition lookup_page :: "cache \<Rightarrow> nat \<Rightarrow> pref option" where
  "lookup_page c k = map_option (\<lambda>p. e_page (pc_entries c p)) (map_of (pc_map c) k)"

lemma cache_okD:
  assumes "cache_ok c"
  shows cache_ok_keys: "distinct (map fst (pc_map c))"
    and cache_ok_queue: "distinct (pc_queue c)"
    and cache_ok_set: "set (pc_queue c) = snd ` set (pc_map c)"
    and cache_ok_key: "(k, p) \<in> set (pc_map c) \<Longrightarrow> e_key (pc_entries c p) = k"
    and cache_ok_fresh: "p \<in> set (pc_queue c) \<Longrightarrow> p < pc_next c"
    and cache_ok_ref: "p \<in> set (pc_queue c) \<Longrightarrow> ref_bit (pc_entries c p) \<le> REF_MAX"
    and cache_ok_hand: "clock_hand c = Some h \<Longrightarrow> h \<in> set (pc_queue c)"
    and cache_ok_no_hand: "clock_hand c = None \<longleftrightarrow> pc_queue c = []"
    and cache_ok_cap: "cache_len c \<le> capacity c"
  using assms unfolding cache_ok_def by (auto split: option.splits)

lemma cache_okI:
  assumes "distinct (map fst (pc_map c))" "distinct (pc_queue c)"
    "set (pc_queue c) = snd ` set (pc_map c)"
    "\<And>k p. (k, p) \<in> set (pc_map c) \<Longrightarrow> e_key (pc_entries c p) = k"
    "\<And>p. p \<in> set (pc_queue c) \<Longrightarrow> p < pc_next c"
    "\<And>p. p \<in> set (pc_queue c) \<Longrightarrow> ref_bit (pc_entries c p) \<le> REF_MAX"
    "case clock_hand c of None \<Rightarrow> pc_queue c = [] | Some h \<Rightarrow> h \<in> set (pc_queue c)"
    "cache_len c \<le> capacity c"
  shows "cache_ok c"
  using assms unfolding cache_ok_def by blast

lemma cache_ok_mem:
  assumes "cache_ok c" "p \<in> set (pc_queue c)"
  shows "map_of (pc_map c) (e_key (pc_entries c p)) = Some p"
proof -
  obtain k where k: "(k, p) \<in> set (pc_map c)" using assms cache_ok_set[OF assms(1)] by auto
  then show ?thesis using cache_ok_key[OF assms(1) k] map_of_is_SomeI[OF cache_ok_keys[OF assms(1)] k] by simp
qed

lemma cache_ok_lookup:
  assumes "cache_ok c" "map_of (pc_map c) k = Some p"
  shows "p \<in> set (pc_queue c)" "e_key (pc_entries c p) = k"
proof -
  have m: "(k, p) \<in> set (pc_map c)" using assms(2) by (rule map_of_SomeD)
  then show "p \<in> set (pc_queue c)" by (force simp: cache_ok_set[OF assms(1)])
  show "e_key (pc_entries c p) = k" using cache_ok_key[OF assms(1) m] .
qed

lemma cache_ok_inj:
  assumes "cache_ok c" shows "inj_on snd (set (pc_map c))"
proof (rule inj_onI)
  fix x y assume x: "x \<in> set (pc_map c)" and y: "y \<in> set (pc_map c)" and s: "snd x = snd y"
  have "fst x = e_key (pc_entries c (snd x))" "fst y = e_key (pc_entries c (snd y))"
    using cache_ok_key[OF assms, of "fst x" "snd x"] cache_ok_key[OF assms, of "fst y" "snd y"] x y by auto
  with s show "x = y" by (simp add: prod_eq_iff)
qed

lemma cache_ok_len:
  assumes "cache_ok c" shows "length (pc_queue c) = cache_len c"
proof -
  have "card (set (pc_queue c)) = card (set (pc_map c))"
    using cache_ok_set[OF assms] cache_ok_inj[OF assms] by (simp add: card_image)
  then show ?thesis
    using distinct_card[OF cache_ok_queue[OF assms]]
      distinct_card[of "pc_map c"] cache_ok_keys[OF assms] by (simp add: cache_len_def distinct_map)
qed

section \<open>The sweep\<close>

text \<open>The queue as the hand will visit it.\<close>

definition sweep :: "cache \<Rightarrow> eptr list" where
  "sweep c =
     (case clock_hand c of
        None \<Rightarrow> []
      | Some h \<Rightarrow> dropWhile (\<lambda>p. p \<noteq> h) (pc_queue c) @ takeWhile (\<lambda>p. p \<noteq> h) (pc_queue c))"

lemma hand_split:
  assumes "cache_ok c" "clock_hand c = Some h"
  obtains xs ys where "pc_queue c = xs @ h # ys" "h \<notin> set xs" "h \<notin> set ys"
proof -
  obtain xs ys where q: "pc_queue c = xs @ h # ys"
    using split_list[OF cache_ok_hand[OF assms]] by blast
  then show thesis using that[OF q] cache_ok_queue[OF assms(1)] by simp
qed

lemma sweep_split:
  assumes "clock_hand c = Some h" "pc_queue c = xs @ h # ys" "h \<notin> set xs"
  shows "sweep c = h # ys @ xs"
  using assms unfolding sweep_def by (auto simp: dropWhile_append takeWhile_append dropWhile_eq_Nil_conv)

lemma sweep_set:
  assumes "cache_ok c" shows "set (sweep c) = set (pc_queue c)" "distinct (sweep c)"
    "length (sweep c) = cache_len c"
proof -
  have "set (sweep c) = set (pc_queue c) \<and> distinct (sweep c) \<and> length (sweep c) = length (pc_queue c)"
  proof (cases "clock_hand c")
    case None
    then show ?thesis using cache_ok_no_hand[OF assms] by (simp add: sweep_def)
  next
    case (Some h)
    obtain xs ys where q: "pc_queue c = xs @ h # ys" "h \<notin> set xs" "h \<notin> set ys"
      using hand_split[OF assms Some] .
    show ?thesis
      using cache_ok_queue[OF assms] unfolding sweep_split[OF Some q(1,2)] by (auto simp: q(1))
  qed
  then show "set (sweep c) = set (pc_queue c)" "distinct (sweep c)" "length (sweep c) = cache_len c"
    by (simp_all add: cache_ok_len[OF assms])
qed

lemma next_after_split: "h \<notin> set xs \<Longrightarrow>
    next_after (xs @ h # ys) h = (case ys of [] \<Rightarrow> None | y # _ \<Rightarrow> Some y)"
  by (induction xs) auto

lemma advance_split:
  assumes "clock_hand c = Some h" "pc_queue c = xs @ h # ys" "h \<notin> set xs"
  shows "advance_clock_hand c = c\<lparr>clock_hand := Some (hd (ys @ xs @ [h]))\<rparr>"
  using assms by (auto simp: advance_clock_hand_def next_after_split split: list.splits)

lemma sweep_advance:
  assumes "cache_ok c" shows "sweep (advance_clock_hand c) = rotate1 (sweep c)"
proof (cases "clock_hand c")
  case None
  then show ?thesis by (simp add: advance_clock_hand_def sweep_def)
next
  case (Some h)
  obtain xs ys where q: "pc_queue c = xs @ h # ys" "h \<notin> set xs" "h \<notin> set ys"
    using hand_split[OF assms Some] .
  let ?c = "c\<lparr>clock_hand := Some (hd (ys @ xs @ [h]))\<rparr>"
  have a: "advance_clock_hand c = ?c" by (rule advance_split[OF Some q(1,2)])
  have d: "distinct (xs @ h # ys)" using cache_ok_queue[OF assms] q by simp
  have "sweep ?c = ys @ xs @ [h]"
  proof (cases ys)
    case (Cons y zs)
    then show ?thesis using sweep_split[of ?c y "xs @ [h]" zs] q d by auto
  next
    case Nil
    show ?thesis
    proof (cases xs)
      case Nil
      with \<open>ys = []\<close> show ?thesis using sweep_split[of ?c h "[]" "[]"] q by simp
    next
      case (Cons x zs)
      with \<open>ys = []\<close> show ?thesis using sweep_split[of ?c x "[]" "zs @ [h]"] q d by simp
    qed
  qed
  then show ?thesis by (simp add: a sweep_split[OF Some q(1,2)])
qed

lemma advance_keeps [simp]:
  "pc_map (advance_clock_hand c) = pc_map c" "pc_queue (advance_clock_hand c) = pc_queue c"
  "pc_entries (advance_clock_hand c) = pc_entries c" "pc_pages (advance_clock_hand c) = pc_pages c"
  "pc_ext (advance_clock_hand c) = pc_ext c" "pc_next (advance_clock_hand c) = pc_next c"
  "capacity (advance_clock_hand c) = capacity c"
  "evictable_count (advance_clock_hand c) = evictable_count c"
  "spill_threshold (advance_clock_hand c) = spill_threshold c"
  "spill_enabled (advance_clock_hand c) = spill_enabled c"
  by (auto simp: advance_clock_hand_def split: option.splits list.splits)

lemma advance_ok: 
  assumes "cache_ok c" shows "cache_ok (advance_clock_hand c)"
proof (cases "clock_hand c")
  case None
  then show ?thesis using assms by (simp add: advance_clock_hand_def)
next
  case (Some h)
  obtain xs ys where q: "pc_queue c = xs @ h # ys" "h \<notin> set xs" "h \<notin> set ys"
    using hand_split[OF assms Some] .
  have "hd (ys @ xs @ [h]) \<in> set (ys @ xs @ [h])" by (rule hd_in_set) simp
  then have "hd (ys @ xs @ [h]) \<in> set (pc_queue c)" using q by auto
  then show ?thesis
    using assms unfolding advance_split[OF Some q(1,2)] cache_ok_def cache_len_def by simp
qed

section \<open>Removing an entry\<close>

text \<open>Deletion and eviction unlink an entry in the same way; this is the state they leave.\<close>

definition unlink :: "cache \<Rightarrow> nat \<Rightarrow> eptr \<Rightarrow> cache" where
  "unlink c key ep =
     c\<lparr>clock_hand :=
         (if clock_hand c = Some ep
          then (if clock_hand (advance_clock_hand c) = Some ep then None
                else clock_hand (advance_clock_hand c))
          else clock_hand c),
       pc_map := AList.delete key (pc_map c), pc_queue := remove1 ep (pc_queue c)\<rparr>"

lemma unlink_keeps [simp]:
  "pc_entries (unlink c k p) = pc_entries c" "pc_pages (unlink c k p) = pc_pages c"
  "pc_ext (unlink c k p) = pc_ext c" "pc_next (unlink c k p) = pc_next c"
  "capacity (unlink c k p) = capacity c" "pc_queue (unlink c k p) = remove1 p (pc_queue c)"
  "pc_map (unlink c k p) = AList.delete k (pc_map c)"
  "spill_threshold (unlink c k p) = spill_threshold c" "spill_enabled (unlink c k p) = spill_enabled c"
  "evictable_count (unlink c k p) = evictable_count c"
  by (simp_all add: unlink_def)

lemma delete_set: "distinct (map fst m) \<Longrightarrow> map_of m k = Some v \<Longrightarrow>
    set (AList.delete k m) = set m - {(k, v)}"
  by (auto simp: AList.delete_eq dest: map_of_SomeD) (metis Some_eq_map_of_iff option.inject)

lemma unlink_hand:
  assumes ok: "cache_ok c" and ep: "ep \<in> set (pc_queue c)"
  shows "case clock_hand (unlink c key ep) of
           None \<Rightarrow> remove1 ep (pc_queue c) = []
         | Some h \<Rightarrow> h \<in> set (remove1 ep (pc_queue c))"
proof (cases "clock_hand c = Some ep")
  case True
  obtain xs ys where q: "pc_queue c = xs @ ep # ys" "ep \<notin> set xs" "ep \<notin> set ys"
    using hand_split[OF ok True] .
  have r: "remove1 ep (pc_queue c) = xs @ ys" using q by (simp add: remove1_append)
  show ?thesis
  proof (cases "ys @ xs = []")
    case True
    then show ?thesis
      using \<open>clock_hand c = Some ep\<close> r by (simp add: unlink_def advance_split[OF \<open>clock_hand c = Some ep\<close> q(1,2)])
  next
    case False
    then have "hd (ys @ xs @ [ep]) = hd (ys @ xs)" by (metis append_assoc hd_append2)
    moreover have "hd (ys @ xs) \<in> set (ys @ xs)" using False by (rule hd_in_set)
    ultimately have h: "hd (ys @ xs @ [ep]) \<in> set (xs @ ys)" by auto
    then have "hd (ys @ xs @ [ep]) \<noteq> ep" using q(2,3) by auto
    with h True show ?thesis unfolding r
      by (simp add: unlink_def advance_split[OF True q(1,2)])
  qed
next
  case False
  then obtain h where "clock_hand c = Some h" "h \<noteq> ep"
    using cache_ok_no_hand[OF ok] ep by (cases "clock_hand c") auto
  then show ?thesis using cache_ok_hand[OF ok, of h] by (simp add: unlink_def)
qed

lemma unlink_ok:
  assumes ok: "cache_ok c" and m: "map_of (pc_map c) key = Some ep"
  shows "cache_ok (unlink c key ep)"
proof (rule cache_okI)
  let ?c = "unlink c key ep"
  note ep = cache_ok_lookup(1)[OF ok m]
  have s: "set (AList.delete key (pc_map c)) = set (pc_map c) - {(key, ep)}"
    by (rule delete_set[OF cache_ok_keys[OF ok] m])
  have q: "set (remove1 ep (pc_queue c)) = set (pc_queue c) - {ep}"
    using cache_ok_queue[OF ok] by simp
  have kep: "(key, ep) \<in> set (pc_map c)" using m by (rule map_of_SomeD)
  show "distinct (map fst (pc_map ?c))"
    using cache_ok_keys[OF ok] by (simp add: unlink_def distinct_delete)
  show "distinct (pc_queue ?c)" using cache_ok_queue[OF ok] by (simp add: unlink_def)
  have "snd ` (set (pc_map c) - {(key, ep)}) = snd ` set (pc_map c) - {ep}"
    using inj_on_image_set_diff[OF cache_ok_inj[OF ok], of "set (pc_map c)" "{(key, ep)}"] kep by auto
  then show "set (pc_queue ?c) = snd ` set (pc_map ?c)"
    using q s cache_ok_set[OF ok] by (simp add: unlink_def)
  show "\<And>k p. (k, p) \<in> set (pc_map ?c) \<Longrightarrow> e_key (pc_entries ?c p) = k"
    using cache_ok_key[OF ok] s by (simp add: unlink_def)
  show "\<And>p. p \<in> set (pc_queue ?c) \<Longrightarrow> p < pc_next ?c"
    using cache_ok_fresh[OF ok] q by (simp add: unlink_def)
  show "\<And>p. p \<in> set (pc_queue ?c) \<Longrightarrow> ref_bit (pc_entries ?c p) \<le> REF_MAX"
    using cache_ok_ref[OF ok] q by (simp add: unlink_def)
  show "case clock_hand ?c of None \<Rightarrow> pc_queue ?c = [] | Some h \<Rightarrow> h \<in> set (pc_queue ?c)"
    using unlink_hand[OF ok ep, of key] unfolding unlink_keeps .
  have "length (AList.delete key (pc_map c)) \<le> length (pc_map c)" by (rule length_delete_le)
  then show "cache_len ?c \<le> capacity ?c"
    using cache_ok_cap[OF ok] by (simp add: unlink_def cache_len_def)
qed

lemma unlink_len:
  assumes ok: "cache_ok c" and m: "map_of (pc_map c) key = Some ep"
  shows "Suc (cache_len (unlink c key ep)) = cache_len c"
proof -
  have "ep \<in> set (pc_queue c)" by (rule cache_ok_lookup(1)[OF ok m])
  then have "Suc (length (remove1 ep (pc_queue c))) = length (pc_queue c)"
    by (simp add: length_remove1) (metis Suc_pred length_pos_if_in_set)
  then show ?thesis
    using cache_ok_len[OF ok] cache_ok_len[OF unlink_ok[OF ok m]] by (simp add: unlink_def)
qed

lemma unlink_lookup:
  "lookup_page (unlink c key ep) = (lookup_page c)(key := None)"
  by (rule ext) (simp add: lookup_page_def unlink_def delete_conv')

text \<open>Changes that do not concern the links.\<close>

lemma cache_ok_upd_page [simp]: "cache_ok (upd_page c g f) = cache_ok c"
  by (simp add: cache_ok_def cache_len_def upd_page_def split: option.splits)

lemma cache_ok_count [simp]: "cache_ok (c\<lparr>evictable_count := n\<rparr>) = cache_ok c"
  by (simp add: cache_ok_def cache_len_def split: option.splits)

lemma cache_ok_refs [simp]: "cache_ok (drop_ref c g) = cache_ok c" "cache_ok (clone_ref c g) = cache_ok c"
  by (simp_all add: cache_ok_def cache_len_def drop_ref_def clone_ref_def split: option.splits)

lemma bump_ref_simps [simp]: "e_key (bump_ref e) = e_key e" "e_page (bump_ref e) = e_page e"
  "ref_bit (bump_ref e) \<le> REF_MAX"
  by (simp_all add: bump_ref_def)

lemma decrement_ref_simps [simp]: "e_key (decrement_ref e) = e_key e" "e_page (decrement_ref e) = e_page e"
  "ref_bit (decrement_ref e) = ref_bit e - 1"
  by (simp_all add: decrement_ref_def)

lemma upd_page_keeps [simp]:
  "pc_map (upd_page c g f) = pc_map c" "pc_queue (upd_page c g f) = pc_queue c"
  "pc_entries (upd_page c g f) = pc_entries c" "pc_ext (upd_page c g f) = pc_ext c"
  "pc_next (upd_page c g f) = pc_next c" "capacity (upd_page c g f) = capacity c"
  "spill_threshold (upd_page c g f) = spill_threshold c" "spill_enabled (upd_page c g f) = spill_enabled c"
  "clock_hand (upd_page c g f) = clock_hand c" "evictable_count (upd_page c g f) = evictable_count c"
  "pc_pages (upd_page c g f) = (pc_pages c)(g := f (pc_pages c g))"
  by (simp_all add: upd_page_def)

lemma upd_entry_keeps [simp]:
  "pc_map (upd_entry c p h) = pc_map c" "pc_queue (upd_entry c p h) = pc_queue c"
  "pc_entries (upd_entry c p h) = (pc_entries c)(p := h (pc_entries c p))"
  "pc_ext (upd_entry c p h) = pc_ext c" "pc_pages (upd_entry c p h) = pc_pages c"
  "pc_next (upd_entry c p h) = pc_next c" "capacity (upd_entry c p h) = capacity c"
  "spill_threshold (upd_entry c p h) = spill_threshold c" "spill_enabled (upd_entry c p h) = spill_enabled c"
  "clock_hand (upd_entry c p h) = clock_hand c" "evictable_count (upd_entry c p h) = evictable_count c"
  by (simp_all add: upd_entry_def)

lemma refs_keep [simp]:
  "pc_map (drop_ref c g) = pc_map c" "pc_queue (drop_ref c g) = pc_queue c"
  "pc_entries (drop_ref c g) = pc_entries c" "pc_pages (drop_ref c g) = pc_pages c"
  "pc_next (drop_ref c g) = pc_next c" "capacity (drop_ref c g) = capacity c"
  "clock_hand (drop_ref c g) = clock_hand c"
  "pc_map (clone_ref c g) = pc_map c" "pc_queue (clone_ref c g) = pc_queue c"
  "pc_entries (clone_ref c g) = pc_entries c" "pc_pages (clone_ref c g) = pc_pages c"
  "pc_next (clone_ref c g) = pc_next c" "capacity (clone_ref c g) = capacity c"
  "clock_hand (clone_ref c g) = clock_hand c"
  "spill_threshold (drop_ref c g) = spill_threshold c" "spill_enabled (drop_ref c g) = spill_enabled c"
  "spill_threshold (clone_ref c g) = spill_threshold c" "spill_enabled (clone_ref c g) = spill_enabled c"
  by (simp_all add: drop_ref_def clone_ref_def)

lemma cache_ok_upd_entry:
  assumes ok: "cache_ok c" and f: "\<And>e. e_key (f e) = e_key e"
    "\<And>e. ref_bit e \<le> REF_MAX \<Longrightarrow> ref_bit (f e) \<le> REF_MAX"
  shows "cache_ok (upd_entry c p f)"
proof (rule cache_okI)
  show "case clock_hand (upd_entry c p f) of None \<Rightarrow> pc_queue (upd_entry c p f) = []
      | Some h \<Rightarrow> h \<in> set (pc_queue (upd_entry c p f))"
    using cache_ok_hand[OF ok] cache_ok_no_hand[OF ok] by (simp split: option.split)
  show "\<And>k q. (k, q) \<in> set (pc_map (upd_entry c p f)) \<Longrightarrow> e_key (pc_entries (upd_entry c p f) q) = k"
    using cache_ok_key[OF ok] f(1) by auto
  show "\<And>q. q \<in> set (pc_queue (upd_entry c p f)) \<Longrightarrow> ref_bit (pc_entries (upd_entry c p f) q) \<le> REF_MAX"
    using cache_ok_ref[OF ok] f(2) by auto
qed (use cache_okD[OF ok] in \<open>simp_all add: cache_len_def\<close>)

lemma advance_upd_page: "advance_clock_hand (upd_page c g f) = upd_page (advance_clock_hand c) g f"
  by (simp add: advance_clock_hand_def upd_page_def split: option.splits list.splits)

lemma advance_map: "advance_clock_hand (c\<lparr>pc_map := m\<rparr>) = (advance_clock_hand c)\<lparr>pc_map := m\<rparr>"
  by (simp add: advance_clock_hand_def split: option.splits list.splits)

text \<open>\<open>_delete\<close>: refused with the state unchanged, or the entry is unlinked.\<close>

lemma advance_as_hand: "advance_clock_hand c = c\<lparr>clock_hand := clock_hand (advance_clock_hand c)\<rparr>"
  by (auto simp: advance_clock_hand_def split: option.splits list.splits)

lemma cache_delete_inner_unlink:
  assumes "map_of (pc_map c) key = Some ep" "page = entry_page c ep"
    "\<not> is_locked page" "\<not> is_dirty page" "\<not> is_pinned page"
  shows "cache_delete_inner c key True =
      (Inr (), (unlink (upd_page c (e_page (pc_entries c ep)) clean_page) key ep)
         \<lparr>evictable_count := (if counted_as_evictable page then evictable_count c - 1 else evictable_count c)\<rparr>)"
proof -
  let ?c = "upd_page c (e_page (pc_entries c ep)) clean_page"
  have h: "advance_clock_hand (?c\<lparr>pc_map := AList.delete key (pc_map ?c)\<rparr>) =
      ?c\<lparr>pc_map := AList.delete key (pc_map ?c), clock_hand := clock_hand (advance_clock_hand ?c)\<rparr>"
    by (rule cache.equality) (simp_all add: advance_map)
  show ?thesis
    using assms h
    by (auto simp: cache_delete_inner_def Let_def unlink_def intro!: cache.equality)
qed

section \<open>Eviction\<close>

text \<open>What a sweep may change: the hand, and reference counters downwards.\<close>

definition swept :: "cache \<Rightarrow> cache \<Rightarrow> bool" where
  "swept c d \<longleftrightarrow>
     (\<exists>h es. d = c\<lparr>clock_hand := h, pc_entries := es\<rparr> \<and>
       (\<forall>p. e_key (es p) = e_key (pc_entries c p) \<and> e_page (es p) = e_page (pc_entries c p) \<and>
            ref_bit (es p) \<le> ref_bit (pc_entries c p)))"

lemma swept_refl: "swept c c"
  unfolding swept_def by (intro exI[of _ "clock_hand c"] exI[of _ "pc_entries c"]) simp

lemma swept_trans:
  assumes "swept c d" "swept d e" shows "swept c e"
proof -
  obtain h es where d: "d = c\<lparr>clock_hand := h, pc_entries := es\<rparr>"
    "\<forall>p. e_key (es p) = e_key (pc_entries c p) \<and> e_page (es p) = e_page (pc_entries c p) \<and>
         ref_bit (es p) \<le> ref_bit (pc_entries c p)"
    using assms(1) unfolding swept_def by blast
  obtain h' es' where e: "e = d\<lparr>clock_hand := h', pc_entries := es'\<rparr>"
    "\<forall>p. e_key (es' p) = e_key (pc_entries d p) \<and> e_page (es' p) = e_page (pc_entries d p) \<and>
         ref_bit (es' p) \<le> ref_bit (pc_entries d p)"
    using assms(2) unfolding swept_def by blast
  have "e = c\<lparr>clock_hand := h', pc_entries := es'\<rparr>" using d(1) e(1) by simp
  moreover have "\<forall>p. e_key (es' p) = e_key (pc_entries c p) \<and> e_page (es' p) = e_page (pc_entries c p) \<and>
         ref_bit (es' p) \<le> ref_bit (pc_entries c p)"
    using d e(2) by (auto intro: order_trans)
  ultimately show ?thesis unfolding swept_def by blast
qed

lemma swept_advance: "swept c (advance_clock_hand c)"
  unfolding swept_def
  by (intro exI[of _ "clock_hand (advance_clock_hand c)"] exI[of _ "pc_entries c"])
     (simp add: advance_as_hand[symmetric] del: cache.surjective)

lemma swept_decrement: "swept c (upd_entry c p decrement_ref)"
  unfolding swept_def
  by (intro exI[of _ "clock_hand c"] exI[of _ "(pc_entries c)(p := decrement_ref (pc_entries c p))"])
     (simp add: upd_entry_def)

lemma sweptD:
  assumes "swept c d"
  shows "pc_map d = pc_map c" "pc_queue d = pc_queue c" "pc_pages d = pc_pages c" "pc_ext d = pc_ext c"
    "pc_next d = pc_next c" "capacity d = capacity c" "evictable_count d = evictable_count c"
    "spill_threshold d = spill_threshold c" "spill_enabled d = spill_enabled c"
    "e_key (pc_entries d p) = e_key (pc_entries c p)" "e_page (pc_entries d p) = e_page (pc_entries c p)"
    "ref_bit (pc_entries d p) \<le> ref_bit (pc_entries c p)"
  using assms unfolding swept_def by auto

lemma swept_evictable: "swept c d \<Longrightarrow> evictable d g = evictable c g"
  by (simp add: evictable_def strong_count_def sweptD)

lemma swept_lookup: "swept c d \<Longrightarrow> lookup_page d = lookup_page c"
  by (rule ext) (simp add: lookup_page_def sweptD)

text \<open>The state after the entry at the hand has been evicted.\<close>

definition evict_entry :: "cache \<Rightarrow> eptr \<Rightarrow> cache" where
  "evict_entry c ep =
     (upd_page (unlink c (e_key (pc_entries c ep)) ep) (e_page (pc_entries c ep)) clean_page)
       \<lparr>evictable_count := evictable_count c - 1\<rparr>"

lemma evict_loop_evict:
  assumes h: "clock_hand c = Some ep" and e: "evictable c (e_page (pc_entries c ep))"
    and r: "ref_bit (pc_entries c ep) = CLEAR"
  shows "evict_loop (Suc n) c = Some (Inr (), evict_entry c ep)"
proof -
  have "counted_as_evictable (entry_page c ep)"
    using e by (auto simp: evictable_def counted_as_evictable_def Let_def)
  then show ?thesis
    using h e r by (auto simp: Let_def evict_entry_def unlink_def intro!: cache.equality)
qed

lemma evict_loop_next:
  assumes h: "clock_hand c = Some ep"
    and e: "\<not> (evictable c (e_page (pc_entries c ep)) \<and> ref_bit (pc_entries c ep) = CLEAR)"
  obtains d where "evict_loop (Suc n) c = evict_loop n (advance_clock_hand d)" "swept c d"
    "clock_hand d = Some ep" "\<And>p. p \<noteq> ep \<Longrightarrow> pc_entries d p = pc_entries c p"
    "evictable c (e_page (pc_entries c ep)) \<Longrightarrow>
       ref_bit (pc_entries c ep) = Suc (ref_bit (pc_entries d ep))"
proof (cases "evictable c (e_page (pc_entries c ep))")
  case True
  with e have r: "ref_bit (pc_entries c ep) \<noteq> 0" by (simp add: CLEAR_def)
  show thesis
  proof (rule that)
    show "evict_loop (Suc n) c = evict_loop n (advance_clock_hand (upd_entry c ep decrement_ref))"
      using True h r by (simp add: Let_def CLEAR_def)
  qed (use r h in \<open>simp_all add: swept_decrement\<close>)
next
  case False
  show thesis
  proof (rule that)
    show "evict_loop (Suc n) c = evict_loop n (advance_clock_hand c)" using False h by (simp add: Let_def)
  qed (use False h in \<open>simp_all add: swept_refl\<close>)
qed

lemma swept_ok:
  assumes ok: "cache_ok c" and s: "swept c d" and h: "clock_hand d = clock_hand c"
  shows "cache_ok d"
proof (rule cache_okI)
  show "\<And>k q. (k, q) \<in> set (pc_map d) \<Longrightarrow> e_key (pc_entries d q) = k"
    using cache_ok_key[OF ok] by (simp add: sweptD[OF s])
  show "\<And>q. q \<in> set (pc_queue d) \<Longrightarrow> ref_bit (pc_entries d q) \<le> REF_MAX"
    unfolding sweptD(2)[OF s] using cache_ok_ref[OF ok] sweptD(12)[OF s] order_trans by blast
  show "case clock_hand d of None \<Rightarrow> pc_queue d = [] | Some h \<Rightarrow> h \<in> set (pc_queue d)"
    using cache_ok_hand[OF ok] cache_ok_no_hand[OF ok] by (simp add: h sweptD[OF s] split: option.split)
qed (use cache_okD[OF ok] in \<open>simp_all add: cache_len_def sweptD[OF s]\<close>)

lemma swept_sweep: "swept c d \<Longrightarrow> clock_hand d = clock_hand c \<Longrightarrow> sweep d = sweep c"
  by (simp add: sweep_def sweptD split: option.split)

lemma hand_is_hd:
  assumes ok: "cache_ok c" and h: "clock_hand c = Some ep" shows "\<exists>rest. sweep c = ep # rest"
proof -
  obtain xs ys where "pc_queue c = xs @ ep # ys" "ep \<notin> set xs" "ep \<notin> set ys"
    using hand_split[OF ok h] .
  then show ?thesis using sweep_split[OF h] by blast
qed

text \<open>The loop never panics: it gives up after a sweep that moved nothing, or evicts one entry
  that was evictable.\<close>

lemma evict_loop_result:
  assumes "cache_ok c" "pc_queue c \<noteq> []"
  shows "(\<exists>d. evict_loop n c = Some (Inl FullCache, d) \<and> swept c d \<and> cache_ok d) \<or>
         (\<exists>d ep. evict_loop n c = Some (Inr (), evict_entry d ep) \<and> swept c d \<and> cache_ok d \<and>
            ep \<in> set (pc_queue c) \<and> evictable c (e_page (pc_entries c ep)))"
  using assms
proof (induction n arbitrary: c)
  case 0
  then show ?case using swept_refl by auto
next
  case (Suc n)
  obtain ep where h: "clock_hand c = Some ep" using cache_ok_no_hand[OF Suc.prems(1)] Suc.prems(2) by auto
  show ?case
  proof (cases "evictable c (e_page (pc_entries c ep)) \<and> ref_bit (pc_entries c ep) = CLEAR")
    case True
    then show ?thesis
      using evict_loop_evict[OF h, of n] swept_refl[of c] Suc.prems(1) cache_ok_hand[OF Suc.prems(1) h] by blast
  next
    case False
    obtain d where d: "evict_loop (Suc n) c = evict_loop n (advance_clock_hand d)" "swept c d"
      "clock_hand d = Some ep"
      using evict_loop_next[OF h False] by blast
    have ok: "cache_ok (advance_clock_hand d)"
      using swept_ok[OF Suc.prems(1) d(2)] d(3) h by (simp add: advance_ok)
    have s: "swept c (advance_clock_hand d)" using swept_trans[OF d(2) swept_advance] .
    show ?thesis
      using Suc.IH[OF ok] Suc.prems(2) swept_trans[OF s] swept_evictable[OF s] sweptD(2,11)[OF s]
      unfolding d(1) by auto
  qed
qed

text \<open>Four revolutions are enough: an evictable entry at distance \<open>i\<close> from the hand whose
  counter is \<open>r\<close> is evicted, or another one before it, within \<open>i + r * n\<close> examinations.\<close>

lemma evict_loop_succeeds:
  assumes "cache_ok c" "i < length (sweep c)" "sweep c ! i = p"
    "evictable c (e_page (pc_entries c p))"
    "i + ref_bit (pc_entries c p) * length (sweep c) < m"
  shows "\<exists>d. evict_loop m c = Some (Inr (), d)"
  using assms
proof (induction m arbitrary: c i)
  case 0
  then show ?case by simp
next
  case (Suc m)
  obtain ep rest where h: "clock_hand c = Some ep" and sw: "sweep c = ep # rest"
    using hand_is_hd[OF Suc.prems(1)] Suc.prems(2) by (cases "clock_hand c") (auto simp: sweep_def)
  show ?case
  proof (cases "evictable c (e_page (pc_entries c ep)) \<and> ref_bit (pc_entries c ep) = CLEAR")
    case True
    then show ?thesis using evict_loop_evict[OF h, of m] by blast
  next
    case False
    obtain d where d: "evict_loop (Suc m) c = evict_loop m (advance_clock_hand d)" "swept c d"
      "clock_hand d = Some ep" "\<And>p. p \<noteq> ep \<Longrightarrow> pc_entries d p = pc_entries c p"
      "evictable c (e_page (pc_entries c ep)) \<Longrightarrow>
         ref_bit (pc_entries c ep) = Suc (ref_bit (pc_entries d ep))"
      using evict_loop_next[OF h False] by blast
    let ?d = "advance_clock_hand d" and ?n = "length (sweep c)"
    have okd: "cache_ok d" using swept_ok[OF Suc.prems(1) d(2)] d(3) h by simp
    have swd: "sweep ?d = rest @ [ep]"
      using sweep_advance[OF okd] swept_sweep[OF d(2)] d(3) h sw by simp
    have ev: "evictable ?d (e_page (pc_entries ?d p))"
      using Suc.prems(4) swept_evictable[OF swept_trans[OF d(2) swept_advance]] sweptD(11)[OF d(2)] by simp
    have n: "length (sweep ?d) = ?n" by (simp add: swd sw)
    have "\<exists>j. j < ?n \<and> sweep ?d ! j = p \<and> j + ref_bit (pc_entries ?d p) * ?n < m"
    proof (cases i)
      case 0
      then have p: "p = ep" using Suc.prems(3) sw by simp
      then have "ref_bit (pc_entries c p) = Suc (ref_bit (pc_entries d p))" using d(5) Suc.prems(4) by simp
      then show ?thesis
        using Suc.prems(5) 0 p sw by (intro exI[of _ "length rest"]) (simp add: swd nth_append)
    next
      case (Suc j)
      then have j: "j < length rest" "rest ! j = p" using Suc.prems(2,3) sw by simp_all
      moreover have "p \<noteq> ep" using j sweep_set(2)[OF Suc.prems(1)] sw by (auto simp: in_set_conv_nth)
      ultimately show ?thesis
        using Suc.prems(5) Suc d(4)[of p] sw by (intro exI[of _ j]) (simp add: swd nth_append)
    qed
    then obtain j where "j < length (sweep ?d)" "sweep ?d ! j = p"
      "j + ref_bit (pc_entries ?d p) * length (sweep ?d) < m" unfolding n by blast
    then show ?thesis unfolding d(1) by (rule Suc.IH[OF advance_ok[OF okd] _ _ ev])
  qed
qed

section \<open>What eviction may remove\<close>

lemma ran_lookup:
  assumes "cache_ok c"
  shows "ran (lookup_page c) = (\<lambda>p. e_page (pc_entries c p)) ` set (pc_queue c)"
proof
  show "ran (lookup_page c) \<subseteq> (\<lambda>p. e_page (pc_entries c p)) ` set (pc_queue c)"
    using cache_ok_lookup(1)[OF assms] by (auto simp: ran_def lookup_page_def)
  show "(\<lambda>p. e_page (pc_entries c p)) ` set (pc_queue c) \<subseteq> ran (lookup_page c)"
  proof
    fix g assume "g \<in> (\<lambda>p. e_page (pc_entries c p)) ` set (pc_queue c)"
    then obtain p where p: "p \<in> set (pc_queue c)" "g = e_page (pc_entries c p)" by blast
    then have "lookup_page c (e_key (pc_entries c p)) = Some g"
      using cache_ok_mem[OF assms p(1)] by (simp add: lookup_page_def)
    then show "g \<in> ran (lookup_page c)" by (rule ranI)
  qed
qed

text \<open>The relation between a cache and what is left of it: entries disappear only if their page
  was evictable, and only the pages of entries that disappeared are cleaned.\<close>

definition shrunk :: "cache \<Rightarrow> cache \<Rightarrow> bool" where
  "shrunk c d \<longleftrightarrow>
     cache_ok d \<and> capacity d = capacity c \<and> pc_ext d = pc_ext c \<and>
     (\<forall>k. lookup_page d k = lookup_page c k \<or>
          lookup_page d k = None \<and> (\<exists>g. lookup_page c k = Some g \<and> evictable c g)) \<and>
     (\<forall>g. pc_pages d g = pc_pages c g \<or>
          g \<in> ran (lookup_page c) \<and> evictable c g \<and> g \<notin> ran (lookup_page d) \<and>
          pc_pages d g = clean_page (pc_pages c g)) \<and>
     (\<forall>g \<in> ran (lookup_page d). evictable d g = evictable c g)"

lemma shrunk_ran: "shrunk c d \<Longrightarrow> g \<in> ran (lookup_page d) \<Longrightarrow> g \<in> ran (lookup_page c)"
  unfolding shrunk_def ran_def by (auto, metis option.distinct(1))

lemma shrunk_refl: "cache_ok c \<Longrightarrow> shrunk c c"
  by (simp add: shrunk_def)

lemma shrunk_swept: "swept c d \<Longrightarrow> cache_ok d \<Longrightarrow> shrunk c d"
  by (simp add: shrunk_def sweptD swept_lookup swept_evictable)

lemma shrunk_trans:
  assumes cd: "shrunk c d" and de: "shrunk d e" shows "shrunk c e"
proof -
  have "lookup_page e k = lookup_page c k \<or>
      lookup_page e k = None \<and> (\<exists>g. lookup_page c k = Some g \<and> evictable c g)" for k
  proof (cases "lookup_page e k = lookup_page d k")
    case True
    then show ?thesis using cd unfolding shrunk_def by simp
  next
    case False
    then obtain g where g: "lookup_page e k = None" "lookup_page d k = Some g" "evictable d g"
      using de unfolding shrunk_def by blast
    moreover have "evictable c g" using cd g ranI[of "lookup_page d", OF g(2)] unfolding shrunk_def by blast
    moreover have "lookup_page c k = Some g" using cd g(2) unfolding shrunk_def by (metis option.distinct(1))
    ultimately show ?thesis by blast
  qed
  moreover have "pc_pages e g = pc_pages c g \<or>
      g \<in> ran (lookup_page c) \<and> evictable c g \<and> g \<notin> ran (lookup_page e) \<and>
      pc_pages e g = clean_page (pc_pages c g)" for g
  proof (cases "g \<in> ran (lookup_page d)")
    case True
    then have "pc_pages d g = pc_pages c g" "evictable d g = evictable c g"
      using cd unfolding shrunk_def by blast+
    then show ?thesis using de shrunk_ran[OF cd True] unfolding shrunk_def by metis
  next
    case False
    then have "pc_pages e g = pc_pages d g" "g \<notin> ran (lookup_page e)"
      using de shrunk_ran[OF de] unfolding shrunk_def by blast+
    then show ?thesis using cd unfolding shrunk_def by metis
  qed
  moreover have "evictable e g = evictable c g" if "g \<in> ran (lookup_page e)" for g
    using that shrunk_ran[OF de that] cd de unfolding shrunk_def by simp
  ultimately show ?thesis using cd de unfolding shrunk_def by simp
qed

lemma length_filter_remove1:
  "length (filter P (remove1 x q)) = length (filter P q) - (if x \<in> set q \<and> P x then 1 else 0)"
proof (induction q)
  case (Cons a q)
  have "x \<in> set q \<Longrightarrow> P x \<Longrightarrow> 0 < length (filter P q)"
    by (rule length_pos_if_in_set[of x]) simp
  with Cons show ?case by auto
qed simp

lemma evict_entry_shrunk:
  assumes ok: "cache_ok c" and ep: "ep \<in> set (pc_queue c)" and ev: "evictable c (e_page (pc_entries c ep))"
  shows "shrunk c (evict_entry c ep)" "cache_len c = Suc (cache_len (evict_entry c ep))"
    "lookup_page (evict_entry c ep) = (lookup_page c)(e_key (pc_entries c ep) := None)"
proof -
  let ?k = "e_key (pc_entries c ep)" and ?g = "e_page (pc_entries c ep)" and ?d = "evict_entry c ep"
  note m = cache_ok_mem[OF ok ep]
  have okd: "cache_ok ?d" using unlink_ok[OF ok m] by (simp add: evict_entry_def)
  show len: "cache_len c = Suc (cache_len ?d)"
    using unlink_len[OF ok m] by (simp add: evict_entry_def cache_len_def)
  have "lookup_page ?d = lookup_page (unlink c ?k ep)"
    by (rule ext) (simp add: lookup_page_def evict_entry_def)
  then show lk: "lookup_page ?d = (lookup_page c)(?k := None)" by (simp add: unlink_lookup)
  have q: "pc_queue ?d = remove1 ep (pc_queue c)" "pc_entries ?d = pc_entries c" "pc_ext ?d = pc_ext c"
    "pc_pages ?d = (pc_pages c)(?g := clean_page (pc_pages c ?g))" "capacity ?d = capacity c"
    by (simp_all add: evict_entry_def)
  have "strong_count c ?g = 1" using ev by (simp add: evictable_def Let_def)
  moreover have "ep \<in> set (filter (\<lambda>p. e_page (pc_entries c p) = ?g) (pc_queue c))" using ep by simp
  then have "0 < length (filter (\<lambda>p. e_page (pc_entries c p) = ?g) (pc_queue c))"
    by (rule length_pos_if_in_set)
  ultimately have one: "length (filter (\<lambda>p. e_page (pc_entries c p) = ?g) (pc_queue c)) = 1"
    unfolding strong_count_def by linarith
  have gone: "?g \<notin> ran (lookup_page ?d)"
  proof
    assume "?g \<in> ran (lookup_page ?d)"
    then obtain p where p: "p \<in> set (remove1 ep (pc_queue c))" "e_page (pc_entries c p) = ?g"
      unfolding ran_lookup[OF okd] q by auto
    then have "p \<in> set (filter (\<lambda>p. e_page (pc_entries c p) = ?g) (remove1 ep (pc_queue c)))" by simp
    moreover have "length (filter (\<lambda>p. e_page (pc_entries c p) = ?g) (remove1 ep (pc_queue c))) = 0"
      unfolding length_filter_remove1 using one ep by simp
    ultimately show False by (auto simp: filter_empty_conv)
  qed
  have "evictable ?d g = evictable c g" if "g \<in> ran (lookup_page ?d)" for g
  proof -
    have "g \<noteq> ?g" using that gone by blast
    then have "strong_count ?d g = strong_count c g"
      by (simp add: strong_count_def q length_filter_remove1)
    with \<open>g \<noteq> ?g\<close> show ?thesis by (simp add: evictable_def q)
  qed
  moreover have "lookup_page c ?k = Some ?g" by (simp add: lookup_page_def m)
  moreover from this have "?g \<in> ran (lookup_page c)" by (rule ranI)
  ultimately show "shrunk c ?d"
    unfolding shrunk_def using okd gone ev by (auto simp: lk q)
qed

text \<open>\<open>evict_one\<close> evicts an entry exactly if one is evictable, and never panics.\<close>

lemma evict_one_spec:
  assumes ok: "cache_ok c"
  shows "\<exists>r d. evict_one c = Some (r, d) \<and> shrunk c d \<and>
    (if \<exists>p \<in> set (pc_queue c). evictable c (e_page (pc_entries c p))
     then r = Inr () \<and> cache_len c = Suc (cache_len d)
     else (\<exists>e. r = Inl e) \<and> lookup_page d = lookup_page c \<and> cache_len d = cache_len c)"
proof (cases "pc_queue c = []")
  case True
  then have "cache_len c = 0" using cache_ok_len[OF ok] by simp
  then show ?thesis using True shrunk_refl[OF ok] by (simp add: evict_one_def)
next
  case False
  then have l: "cache_len c \<noteq> 0" by (simp flip: cache_ok_len[OF ok])
  let ?m = "cache_len c * (REF_MAX + 1)"
  have e: "evict_one c = evict_loop ?m c" using l by (simp add: evict_one_def)
  consider
      (full) d where "evict_loop ?m c = Some (Inl FullCache, d)" "swept c d" "cache_ok d"
    | (ev) d ep where "evict_loop ?m c = Some (Inr (), evict_entry d ep)" "swept c d" "cache_ok d"
        "ep \<in> set (pc_queue c)" "evictable c (e_page (pc_entries c ep))"
    using evict_loop_result[OF ok False, of ?m] by blast
  then show ?thesis
  proof cases
    case full
    have none: "\<not> (\<exists>p \<in> set (pc_queue c). evictable c (e_page (pc_entries c p)))"
    proof
      assume "\<exists>p \<in> set (pc_queue c). evictable c (e_page (pc_entries c p))"
      then obtain p where p: "p \<in> set (pc_queue c)" "evictable c (e_page (pc_entries c p))" by blast
      then obtain i where i: "i < length (sweep c)" "sweep c ! i = p"
        by (metis in_set_conv_nth sweep_set(1)[OF ok])
      have "ref_bit (pc_entries c p) * length (sweep c) \<le> REF_MAX * length (sweep c)"
        using cache_ok_ref[OF ok p(1)] by simp
      then have "i + ref_bit (pc_entries c p) * length (sweep c) < ?m"
        unfolding sweep_set(3)[OF ok] distrib_left mult.right_neutral
        using i(1) sweep_set(3)[OF ok] by (simp only: mult.commute[of "cache_len c" REF_MAX])
      from evict_loop_succeeds[OF ok i p(2) this] show False using full(1) by auto
    qed
    show ?thesis
      using full none e shrunk_swept[OF full(2,3)] swept_lookup[OF full(2)] sweptD(1)[OF full(2)]
      by (simp add: cache_len_def)
  next
    case ev
    have 1: "ep \<in> set (pc_queue d)" "evictable d (e_page (pc_entries d ep))"
      using ev swept_evictable[OF ev(2)] sweptD(2,11)[OF ev(2)] by simp_all
    have "shrunk c (evict_entry d ep)"
      by (rule shrunk_trans[OF shrunk_swept[OF ev(2,3)] evict_entry_shrunk(1)[OF ev(3) 1]])
    moreover have "cache_len c = Suc (cache_len (evict_entry d ep))"
      using evict_entry_shrunk(2)[OF ev(3) 1] sweptD(1)[OF ev(2)] by (simp add: cache_len_def)
    ultimately show ?thesis using ev(1,4,5) e by auto
  qed
qed

lemma some_evictable_iff:
  "cache_ok c \<Longrightarrow>
     (\<exists>p \<in> set (pc_queue c). evictable c (e_page (pc_entries c p))) \<longleftrightarrow>
     (\<exists>g \<in> ran (lookup_page c). evictable c g)"
  by (simp add: ran_lookup)

lemma shrunkD:
  assumes "shrunk c d"
  shows shrunk_ok: "cache_ok d" and shrunk_capacity: "capacity d = capacity c"
    and shrunk_lookup: "lookup_page d k = lookup_page c k \<or>
          lookup_page d k = None \<and> (\<exists>g. lookup_page c k = Some g \<and> evictable c g)"
    and shrunk_evictable: "g \<in> ran (lookup_page d) \<Longrightarrow> evictable d g = evictable c g"
  using assms unfolding shrunk_def by blast+

lemma evict_many_spec:
  assumes "cache_ok c"
  shows "\<exists>r d. evict_many n c = Some (r, d) \<and> shrunk c d \<and>
    (case r of Inr _ \<Rightarrow> cache_len c = n + cache_len d
     | Inl _ \<Rightarrow> \<not> (\<exists>g \<in> ran (lookup_page d). evictable c g))"
  using assms
proof (induction n arbitrary: c)
  case 0
  then show ?case by (simp add: shrunk_refl)
next
  case (Suc n)
  obtain r d where d: "evict_one c = Some (r, d)" "shrunk c d"
    "if \<exists>g \<in> ran (lookup_page c). evictable c g
     then r = Inr () \<and> cache_len c = Suc (cache_len d)
     else (\<exists>e. r = Inl e) \<and> lookup_page d = lookup_page c \<and> cache_len d = cache_len c"
    using evict_one_spec[OF Suc.prems] unfolding some_evictable_iff[OF Suc.prems] by blast
  show ?case
  proof (cases "\<exists>g \<in> ran (lookup_page c). evictable c g")
    case False
    with d obtain e where "r = Inl e" "lookup_page d = lookup_page c" by auto
    with d(1,2) False show ?thesis by simp
  next
    case True
    with d(3) have r: "r = Inr ()" "cache_len c = Suc (cache_len d)" by simp_all
    obtain r' d' where d': "evict_many n d = Some (r', d')" "shrunk d d'"
      "case r' of Inr _ \<Rightarrow> cache_len d = n + cache_len d'
       | Inl _ \<Rightarrow> \<not> (\<exists>g \<in> ran (lookup_page d'). evictable d g)"
      using Suc.IH[OF shrunk_ok[OF d(2)]] by blast
    have "case r' of Inr _ \<Rightarrow> cache_len c = Suc n + cache_len d'
       | Inl _ \<Rightarrow> \<not> (\<exists>g \<in> ran (lookup_page d'). evictable c g)"
      using d'(3) r(2) shrunk_ran[OF d'(2)] shrunk_evictable[OF d(2)] by (auto split: sum.splits)
    then show ?thesis using d(1) d'(1) r(1) shrunk_trans[OF d(2) d'(2)] by simp
  qed
qed

lemma make_room_for_spec:
  assumes ok: "cache_ok c"
  shows "\<exists>r d. make_room_for c n = Some (r, d) \<and> shrunk c d \<and>
    (case r of Inr _ \<Rightarrow> n + cache_len d \<le> capacity d
     | Inl _ \<Rightarrow> capacity c < n \<or>
         capacity c < n + cache_len c \<and> \<not> (\<exists>g \<in> ran (lookup_page d). evictable c g))"
proof (cases "n > capacity c \<or> n \<le> capacity c - cache_len c")
  case True
  then show ?thesis
    using cache_ok_cap[OF ok] shrunk_refl[OF ok] by (auto simp: make_room_for_def Let_def)
next
  case False
  obtain r d where d: "evict_many (n - (capacity c - cache_len c)) c = Some (r, d)" "shrunk c d"
    "case r of Inr _ \<Rightarrow> cache_len c = (n - (capacity c - cache_len c)) + cache_len d
     | Inl _ \<Rightarrow> \<not> (\<exists>g \<in> ran (lookup_page d). evictable c g)"
    using evict_many_spec[OF ok] by blast
  have "make_room_for c n = Some (r, d)"
    using False d(1) cache_ok_cap[OF ok] by (simp add: make_room_for_def Let_def)
  moreover have "case r of Inr _ \<Rightarrow> n + cache_len d \<le> capacity d
     | Inl _ \<Rightarrow> capacity c < n \<or>
         capacity c < n + cache_len c \<and> \<not> (\<exists>g \<in> ran (lookup_page d). evictable c g)"
    using d(3) False cache_ok_cap[OF ok] by (auto simp: shrunk_capacity[OF d(2)] split: sum.splits)
  ultimately show ?thesis using d(2) by blast
qed

section \<open>Lookup, insertion and deletion\<close>

lemma delete_spec:
  assumes ok: "cache_ok c"
  shows "(\<exists>e g. cache_delete_inner c key True = (Inl e, c) \<and> lookup_page c key = Some g \<and>
            (is_locked (pc_pages c g) \<or> is_dirty (pc_pages c g) \<or> is_pinned (pc_pages c g))) \<or>
         (\<exists>d. cache_delete_inner c key True = (Inr (), d) \<and> cache_ok d \<and> capacity d = capacity c \<and>
            lookup_page d = (lookup_page c)(key := None) \<and>
            (case lookup_page c key of
               None \<Rightarrow> d = c
             | Some g \<Rightarrow> cache_len c = Suc (cache_len d) \<and>
                 \<not> (is_locked (pc_pages c g) \<or> is_dirty (pc_pages c g) \<or> is_pinned (pc_pages c g)) \<and>
                 pc_pages d = (pc_pages c)(g := clean_page (pc_pages c g))))"
proof (cases "map_of (pc_map c) key")
  case None
  then have "lookup_page c key = None" by (simp add: lookup_page_def)
  with None ok show ?thesis by (auto simp: cache_delete_inner_def)
next
  case (Some ep)
  define g where "g = e_page (pc_entries c ep)"
  have lk: "lookup_page c key = Some g" using Some by (simp add: lookup_page_def g_def)
  show ?thesis
  proof (cases "is_locked (pc_pages c g) \<or> is_dirty (pc_pages c g) \<or> is_pinned (pc_pages c g)")
    case True
    then show ?thesis using Some lk by (auto simp: cache_delete_inner_def g_def Let_def)
  next
    case False
    let ?d = "(unlink (upd_page c g clean_page) key ep)
       \<lparr>evictable_count := (if counted_as_evictable (pc_pages c g) then evictable_count c - 1 else evictable_count c)\<rparr>"
    have e: "cache_delete_inner c key True = (Inr (), ?d)"
      using cache_delete_inner_unlink[OF Some, of "pc_pages c g"] False by (simp add: g_def)
    have ok': "cache_ok (upd_page c g clean_page)" "map_of (pc_map (upd_page c g clean_page)) key = Some ep"
      using ok Some by simp_all
    have "cache_ok ?d" using unlink_ok[OF ok'] by simp
    moreover have "cache_len c = Suc (cache_len ?d)"
      using unlink_len[OF ok'] by (simp add: cache_len_def)
    moreover have "lookup_page ?d = (lookup_page c)(key := None)"
      by (rule ext) (simp add: lookup_page_def delete_conv')
    ultimately show ?thesis using e lk False by simp
  qed
qed

lemma insert_after_split: "h \<notin> set xs \<Longrightarrow> insert_after (xs @ h # ys) h x = xs @ h # x # ys"
  by (induction xs) auto

lemma update_set:
  "map_of m k = None \<Longrightarrow> set (AList.update k v m) = insert (k, v) (set m)"
  "map_of m k = None \<Longrightarrow> length (AList.update k v m) = Suc (length m)"
  by (induction m) (auto split: if_splits)

text \<open>The state in which \<open>_insert\<close> links a new entry, up to the count of evictable pages.\<close>

lemma insert_entry_form:
  assumes ok: "cache_ok c"
  shows "\<exists>h n q. cache_insert_entry c key v =
      (Inr (), (drop_ref c v)\<lparr>pc_entries := (pc_entries c)(pc_next c := entry_new key v),
         pc_next := pc_next c + 1, pc_queue := q, clock_hand := Some h, evictable_count := n,
         pc_map := AList.update key (pc_next c) (pc_map c)\<rparr>) \<and>
      set q = insert (pc_next c) (set (pc_queue c)) \<and> distinct q \<and> h \<in> set q"
proof (cases "clock_hand c")
  case None
  then have "pc_queue c = []" using cache_ok_no_hand[OF ok] by simp
  with None show ?thesis
    by (intro exI[of _ "pc_next c"] exI[of _ "[pc_next c]"]
        exI[of _ "evictable_count c + (if counted_as_evictable (pc_pages c v) then 1 else 0)"])
       (auto simp: cache_insert_entry_def Let_def drop_ref_def)
next
  case (Some h)
  obtain xs ys where q: "pc_queue c = xs @ h # ys" "h \<notin> set xs" "h \<notin> set ys" using hand_split[OF ok Some] .
  have fresh: "pc_next c \<notin> set (pc_queue c)" using cache_ok_fresh[OF ok] by blast
  have "distinct (xs @ h # pc_next c # ys)" using cache_ok_queue[OF ok] fresh q by auto
  moreover have "next_after (xs @ h # pc_next c # ys) h = Some (pc_next c)"
    using next_after_split[OF q(2), of "pc_next c # ys"] by simp
  ultimately show ?thesis
    using Some
    by (intro exI[of _ h] exI[of _ "evictable_count c + (if counted_as_evictable (pc_pages c v) then 1 else 0)"]
        exI[of _ "xs @ h # pc_next c # ys"])
       (auto simp: cache_insert_entry_def Let_def q insert_after_split[OF q(2)] drop_ref_def)
qed

lemma insert_entry_spec:
  assumes ok: "cache_ok c" and none: "lookup_page c key = None" and room: "cache_len c < capacity c"
  shows "\<exists>d. cache_insert_entry c key v = (Inr (), d) \<and> cache_ok d \<and> capacity d = capacity c \<and>
    lookup_page d = (lookup_page c)(key \<mapsto> v) \<and> pc_pages d = pc_pages c"
proof -
  let ?n = "pc_next c" and ?es = "(pc_entries c)(pc_next c := entry_new key v)"
  obtain h n q d where d: "cache_insert_entry c key v = (Inr (), d)"
    "d = (drop_ref c v)\<lparr>pc_entries := ?es,
         pc_next := pc_next c + 1, pc_queue := q, clock_hand := Some h, evictable_count := n,
         pc_map := AList.update key (pc_next c) (pc_map c)\<rparr>"
    and q: "set q = insert ?n (set (pc_queue c))" "distinct q" "h \<in> set q"
    using insert_entry_form[OF ok, of key v] by blast
  have m: "map_of (pc_map c) key = None" using none by (simp add: lookup_page_def)
  have fresh: "?n \<notin> set (pc_queue c)" using cache_ok_fresh[OF ok] by blast
  have memb: "(k, p) \<in> set (pc_map c) \<Longrightarrow> p \<noteq> ?n" for k p
    using fresh cache_ok_set [OF ok] by force
  have "cache_ok d"
  proof (rule cache_okI)
    show "distinct (map fst (pc_map d))"
      using cache_ok_keys[OF ok] by (simp add: d(2) distinct_update)
    show "distinct (pc_queue d)" "set (pc_queue d) = snd ` set (pc_map d)"
      using q cache_ok_set[OF ok] by (simp_all add: d(2) update_set(1)[OF m])
    show "\<And>k p. (k, p) \<in> set (pc_map d) \<Longrightarrow> e_key (pc_entries d p) = k"
      using cache_ok_key[OF ok] memb by (auto simp: d(2) update_set(1)[OF m] entry_new_def)
    show "\<And>p. p \<in> set (pc_queue d) \<Longrightarrow> p < pc_next d"
      using q cache_ok_fresh[OF ok] by (auto simp: d(2) less_Suc_eq)
    show "\<And>p. p \<in> set (pc_queue d) \<Longrightarrow> ref_bit (pc_entries d p) \<le> REF_MAX"
      using q cache_ok_ref[OF ok] by (auto simp: d(2) entry_new_def CLEAR_def)
    show "case clock_hand d of None \<Rightarrow> pc_queue d = [] | Some h \<Rightarrow> h \<in> set (pc_queue d)"
      using q by (simp add: d(2))
    show "cache_len d \<le> capacity d"
      using room by (simp add: d(2) cache_len_def update_set(2)[OF m])
  qed
  moreover have "lookup_page d k = ((lookup_page c)(key \<mapsto> v)) k" for k
  proof (cases "k = key")
    case False
    have "map_of (pc_map c) k = Some p \<Longrightarrow> p \<noteq> ?n" for p using memb by (blast dest: map_of_SomeD)
    with False show ?thesis
      by (cases "map_of (pc_map c) k") (simp_all add: lookup_page_def d(2) update_conv')
  qed (simp add: lookup_page_def d(2) update_conv' entry_new_def)
  ultimately show ?thesis using d by auto
qed

definition held :: "cache \<Rightarrow> pref \<Rightarrow> bool" where
  "held c g \<longleftrightarrow> is_loaded (pc_pages c g) \<or> is_locked (pc_pages c g)"

lemma make_room_one:
  assumes ok: "cache_ok c"
  shows "\<exists>r d. make_room_for c 1 = Some (r, d) \<and> shrunk c d \<and>
    (case r of
       Inr _ \<Rightarrow> cache_len d < capacity d \<and> (cache_len c < capacity c \<longrightarrow> d = c)
     | Inl _ \<Rightarrow> lookup_page d = lookup_page c \<and> cache_len c = capacity c \<and>
         (\<forall>g \<in> ran (lookup_page c). \<not> evictable c g))"
proof -
  consider "capacity c = 0" | "0 < capacity c" "cache_len c < capacity c" | "0 < capacity c" "cache_len c = capacity c"
    using cache_ok_cap[OF ok] by linarith
  then show ?thesis
  proof cases
    case 1
    then have "pc_queue c = []" "cache_len c = 0" using cache_ok_cap[OF ok] cache_ok_len[OF ok] by simp_all
    then have "ran (lookup_page c) = {}" by (simp add: ran_lookup[OF ok])
    with 1 \<open>cache_len c = 0\<close> show ?thesis by (simp add: make_room_for_def shrunk_refl[OF ok])
  next
    case 2
    then have "make_room_for c 1 = Some (Inr (), c)" by (auto simp: make_room_for_def Let_def)
    with 2 show ?thesis using shrunk_refl[OF ok] by simp
  next
    case 3
    obtain r d where d: "evict_one c = Some (r, d)" "shrunk c d"
      "if \<exists>g \<in> ran (lookup_page c). evictable c g
       then r = Inr () \<and> cache_len c = Suc (cache_len d)
       else (\<exists>e. r = Inl e) \<and> lookup_page d = lookup_page c \<and> cache_len d = cache_len c"
      using evict_one_spec[OF ok] unfolding some_evictable_iff[OF ok] by blast
    have m: "make_room_for c 1 = evict_many 1 c" using 3 by (simp add: make_room_for_def Let_def)
    show ?thesis
    proof (cases "\<exists>g \<in> ran (lookup_page c). evictable c g")
      case True
      then show ?thesis using d m 3 shrunk_capacity[OF d(2)] by simp
    next
      case False
      then obtain e where "r = Inl e" using d(3) by auto
      then show ?thesis using False d m 3 by simp
    qed
  qed
qed

lemma insert_new_spec:
  assumes ok: "cache_ok c" and none: "lookup_page c key = None"
  shows "\<exists>r d. cache_insert_new c key v = Some (r, d) \<and> cache_ok d \<and> capacity d = capacity c \<and>
    (cache_len c < capacity c \<longrightarrow> r = Inr () \<and> lookup_page d = (lookup_page c)(key \<mapsto> v)) \<and>
    (case r of
       Inr _ \<Rightarrow> lookup_page d key = Some v \<and>
         (\<forall>k. k \<noteq> key \<longrightarrow> lookup_page d k = lookup_page c k \<or>
            lookup_page d k = None \<and> (\<exists>g. lookup_page c k = Some g \<and> evictable c g))
     | Inl _ \<Rightarrow> lookup_page d = lookup_page c \<and> cache_len c = capacity c \<and>
         (\<forall>g \<in> ran (lookup_page c). \<not> evictable c g))"
proof -
  obtain r d where d: "make_room_for c 1 = Some (r, d)" "shrunk c d"
    "case r of
       Inr _ \<Rightarrow> cache_len d < capacity d \<and> (cache_len c < capacity c \<longrightarrow> d = c)
     | Inl _ \<Rightarrow> lookup_page d = lookup_page c \<and> cache_len c = capacity c \<and>
         (\<forall>g \<in> ran (lookup_page c). \<not> evictable c g)"
    using make_room_one[OF ok] by blast
  show ?thesis
  proof (cases r)
    case (Inl e)
    have "lookup_page (drop_ref d v) = lookup_page d" by (rule ext) (simp add: lookup_page_def)
    then show ?thesis
      using d Inl shrunk_ok[OF d(2)] shrunk_capacity[OF d(2)] by (simp add: cache_insert_new_def)
  next
    case (Inr u)
    have "lookup_page d key = None" using shrunk_lookup[OF d(2), of key] none by auto
    then obtain e where e: "cache_insert_entry d key v = (Inr (), e)" "cache_ok e" "capacity e = capacity d"
      "lookup_page e = (lookup_page d)(key \<mapsto> v)"
      using insert_entry_spec[OF shrunk_ok[OF d(2)], of key v] d(3) Inr by auto
    have "\<forall>k. k \<noteq> key \<longrightarrow> lookup_page e k = lookup_page c k \<or>
            lookup_page e k = None \<and> (\<exists>g. lookup_page c k = Some g \<and> evictable c g)"
      using shrunk_lookup[OF d(2)] by (simp add: e(4))
    then show ?thesis
      using d Inr e shrunk_capacity[OF d(2)] by (simp add: cache_insert_new_def)
  qed
qed

lemma lookup_upd_entry: "(\<And>e. e_page (f e) = e_page e) \<Longrightarrow> lookup_page (upd_entry c p f) = lookup_page c"
  by (rule ext) (auto simp: lookup_page_def intro!: option.map_cong)

lemma lookup_refs [simp]: "lookup_page (drop_ref c g) = lookup_page c" "lookup_page (clone_ref c g) = lookup_page c"
  "lookup_page (c\<lparr>evictable_count := n\<rparr>) = lookup_page c" "lookup_page (upd_page c g f) = lookup_page c"
  by (rule ext, simp add: lookup_page_def)+

lemma update_entry_spec:
  assumes ok: "cache_ok c" and m: "map_of (pc_map c) key = Some ep"
  shows "if \<not> upd \<and> e_page (pc_entries c ep) \<noteq> v then cache_update_entry c ep v upd = None
    else \<exists>r d. cache_update_entry c ep v upd = Some (r, d) \<and> cache_ok d \<and> capacity d = capacity c \<and>
      (if upd then r = Inr () \<and> lookup_page d = (lookup_page c)(key \<mapsto> v)
       else r = Inl KeyExists \<and> lookup_page d = lookup_page c)"
proof -
  have ok1: "cache_ok (upd_entry c ep bump_ref)" by (rule cache_ok_upd_entry[OF ok]) simp_all
  have lk1: "lookup_page (upd_entry c ep bump_ref) = lookup_page c" by (rule lookup_upd_entry) simp
  have other: "map_of (pc_map c) k = Some p \<Longrightarrow> k \<noteq> key \<Longrightarrow> p \<noteq> ep" for k p
    using cache_ok_lookup(2)[OF ok, of k p] cache_ok_lookup(2)[OF ok m] by auto
  have lk2: "lookup_page (upd_entry (upd_entry c ep bump_ref) ep (\<lambda>e. e\<lparr>e_page := v\<rparr>)) k =
      ((lookup_page c)(key \<mapsto> v)) k" for k
  proof (cases "k = key")
    case True
    then show ?thesis using m by (simp add: lookup_page_def)
  next
    case False
    then show ?thesis using other[of k] by (cases "map_of (pc_map c) k") (simp_all add: lookup_page_def)
  qed
  let ?d = "upd_entry (upd_entry c ep bump_ref) ep (\<lambda>e. e\<lparr>e_page := v\<rparr>)"
  have ok2: "cache_ok ?d" by (rule cache_ok_upd_entry[OF ok1]) simp_all
  have lk3: "lookup_page ?d = (lookup_page c)(key \<mapsto> v)" by (rule ext) (rule lk2)
  show ?thesis
  proof (cases upd)
    case True
    define n where "n =
      (if counted_as_evictable (entry_page c ep) \<and> \<not> counted_as_evictable (pc_pages c v)
       then evictable_count c - 1
       else if \<not> counted_as_evictable (entry_page c ep) \<and> counted_as_evictable (pc_pages c v)
       then evictable_count c + 1 else evictable_count c)"
    have "cache_update_entry c ep v upd = Some (Inr (), (drop_ref ?d v)\<lparr>evictable_count := n\<rparr>)"
      using True by (simp add: cache_update_entry_def Let_def upd_entry_def drop_ref_def n_def)
    then show ?thesis using True ok2 lk3 by (simp del: upd_entry_keeps(3))
  next
    case False
    then show ?thesis
      using ok1 lk1 by (cases "e_page (pc_entries c ep) = v") (simp_all add: cache_update_entry_def Let_def)
  qed
qed

text \<open>All of \<open>_insert\<close>: it panics exactly on the assertion that a held page is not replaced by
  another one; an error leaves the map of the cache as it was; success binds the key, and other
  keys keep their page unless it was evictable.\<close>

lemma insert_inner_spec:
  assumes ok: "cache_ok c"
  shows "if \<exists>g. lookup_page c key = Some g \<and> held c g \<and> g \<noteq> v \<and> \<not> upd
    then cache_insert_inner c key v upd = None
    else \<exists>r d. cache_insert_inner c key v upd = Some (r, d) \<and> cache_ok d \<and> capacity d = capacity c \<and>
      (case r of
         Inr _ \<Rightarrow> lookup_page d key = Some v \<and>
           (\<forall>k. k \<noteq> key \<longrightarrow> lookup_page d k = lookup_page c k \<or>
              lookup_page d k = None \<and> (\<exists>g. lookup_page c k = Some g \<and> evictable c g))
       | Inl _ \<Rightarrow> lookup_page d = lookup_page c)"
proof (cases "map_of (pc_map c) key")
  case None
  then have "lookup_page c key = None" by (simp add: lookup_page_def)
  moreover from this obtain r d where "cache_insert_new c key v = Some (r, d)" "cache_ok d"
    "capacity d = capacity c"
    "case r of
       Inr _ \<Rightarrow> lookup_page d key = Some v \<and>
         (\<forall>k. k \<noteq> key \<longrightarrow> lookup_page d k = lookup_page c k \<or>
            lookup_page d k = None \<and> (\<exists>g. lookup_page c k = Some g \<and> evictable c g))
     | Inl _ \<Rightarrow> lookup_page d = lookup_page c \<and> cache_len c = capacity c \<and>
         (\<forall>g \<in> ran (lookup_page c). \<not> evictable c g)"
    using insert_new_spec[OF ok, of key v] by blast
  ultimately show ?thesis
    using None by (cases r) (simp_all add: cache_insert_inner_def)
next
  case (Some ep)
  define g where "g = e_page (pc_entries c ep)"
  have lk: "lookup_page c key = Some g" using Some by (simp add: lookup_page_def g_def)
  show ?thesis
  proof (cases "held c g")
    case True
    then have "cache_insert_inner c key v upd = cache_update_entry c ep v upd"
      using Some by (auto simp: cache_insert_inner_def held_def g_def Let_def)
    then show ?thesis
      using update_entry_spec[OF ok Some, of upd v, folded g_def] lk True
      by (cases upd; cases "g = v") auto
  next
    case False
    then have e: "cache_insert_inner c key v upd = (case cache_delete_inner c key True of
               (Inl e, c) \<Rightarrow> Some (Inl e, drop_ref c v)
             | (Inr _, c) \<Rightarrow> cache_insert_new c key v)"
      using Some by (auto simp: cache_insert_inner_def held_def g_def Let_def)
    show ?thesis
    proof (cases "cache_delete_inner c key True")
      case (Pair r d)
      show ?thesis
      proof (cases r)
        case (Inl er)
        then have "d = c" using delete_spec[OF ok, of key] Pair by auto
        then show ?thesis using e Pair Inl ok lk False by simp
      next
        case (Inr u)
        then have d: "cache_ok d" "capacity d = capacity c" "lookup_page d = (lookup_page c)(key := None)"
          "cache_len c = Suc (cache_len d)"
          using delete_spec[OF ok, of key] Pair lk by auto
        then have room: "cache_len d < capacity d" "lookup_page d key = None"
          using cache_ok_cap[OF ok] by simp_all
        then obtain r' d' where "cache_insert_new d key v = Some (r', d')" "cache_ok d'"
          "capacity d' = capacity d" "r' = Inr ()" "lookup_page d' = (lookup_page d)(key \<mapsto> v)"
          using insert_new_spec[OF d(1) room(2), of v] by blast
        then show ?thesis using e d Pair Inr False lk by simp
      qed
    qed
  qed
qed

lemma resize_loop_spec:
  assumes "cache_ok c" "cache_len c - new_cap \<le> fuel"
  shows "\<exists>b d. resize_loop fuel new_cap c = Some (b, d) \<and> shrunk c d \<and>
    (if b then cache_len d \<le> new_cap
     else new_cap < cache_len d \<and> (\<forall>g \<in> ran (lookup_page d). \<not> evictable d g))"
  using assms
proof (induction fuel arbitrary: c)
  case 0
  then show ?case using shrunk_refl by (subst resize_loop.simps) auto
next
  case (Suc fuel)
  show ?case
  proof (cases "new_cap < cache_len c")
    case False
    then show ?thesis using shrunk_refl[OF Suc.prems(1)] by (subst resize_loop.simps) auto
  next
    case True
    obtain r d where d: "evict_one c = Some (r, d)" "shrunk c d"
      "if \<exists>g \<in> ran (lookup_page c). evictable c g
       then r = Inr () \<and> cache_len c = Suc (cache_len d)
       else (\<exists>e. r = Inl e) \<and> lookup_page d = lookup_page c \<and> cache_len d = cache_len c"
      using evict_one_spec[OF Suc.prems(1)] unfolding some_evictable_iff[OF Suc.prems(1)] by blast
    show ?thesis
    proof (cases "\<exists>g \<in> ran (lookup_page c). evictable c g")
      case False
      with d obtain e where "r = Inl e" "lookup_page d = lookup_page c" "cache_len d = cache_len c" by auto
      with d(1,2) False True show ?thesis
        using shrunk_evictable[OF d(2)] by (subst resize_loop.simps) auto
    next
      case ev: True
      with d(3) have r: "r = Inr ()" "cache_len c = Suc (cache_len d)" by simp_all
      have "cache_len d - new_cap \<le> fuel" using Suc.prems(2) r(2) True by simp
      then obtain b d' where "resize_loop fuel new_cap d = Some (b, d')" "shrunk d d'"
        "if b then cache_len d' \<le> new_cap
         else new_cap < cache_len d' \<and> (\<forall>g \<in> ran (lookup_page d'). \<not> evictable d' g)"
        using Suc.IH[OF shrunk_ok[OF d(2)]] by blast
      then show ?thesis using True d r shrunk_trans[OF d(2)] by (subst resize_loop.simps) auto
    qed
  qed
qed

lemma shrink_capacity_ok: "cache_ok c \<Longrightarrow> cache_len c \<le> n \<Longrightarrow> cache_ok (c\<lparr>capacity := n, spill_threshold := t\<rparr>)"
  by (auto simp: cache_ok_def cache_len_def split: option.splits)

lemma delete_ok:
  assumes "cache_ok c" shows "cache_ok (snd (cache_delete c key))"
  using delete_spec[OF assms, of key] assms unfolding cache_delete_def by auto

lemma get_ok:
  assumes ok: "cache_ok c" shows "cache_ok (snd (cache_get c key))"
proof -
  have "cache_ok d" if "cache_delete (clone_ref c g) key = (r, d)" for g r d
    using delete_ok[of "clone_ref c g" key] ok that by simp
  moreover have "cache_ok (upd_entry (clone_ref c g) p bump_ref)" for g p
    by (rule cache_ok_upd_entry) (simp_all add: ok)
  ultimately show ?thesis
    using ok by (auto simp: cache_get_def Let_def split: option.splits prod.splits sum.splits)
qed

lemma peek_ok: "cache_ok c \<Longrightarrow> cache_ok (snd (cache_peek c key touch))"
  by (auto simp: cache_peek_def Let_def intro!: cache_ok_upd_entry split: option.splits)

lemma spill_loop_ok: "cache_ok c \<Longrightarrow> cache_ok (snd (spill_loop c n acc es))"
  by (induction c n acc es rule: spill_loop.induct) (auto simp: Let_def pin_guard_def)

lemma check_spill_ok: "cache_ok c \<Longrightarrow> cache_ok (snd (check_spill iter c n))"
  using spill_loop_ok[of c n "[]" "iter (pc_map c)"]
  by (auto simp: check_spill_def collect_spillable_pages_def Let_def split: prod.splits)

lemma foldl_clean_ok:
  "cache_ok c \<Longrightarrow> cache_ok (foldl (\<lambda>c (k, ep). upd_page c (e_page (pc_entries c ep)) clean_page) c es)"
  by (rule foldl_invariant) (auto split: prod.splits)

lemma cache_clear_ok: "cache_ok c \<Longrightarrow> cache_ok (snd (cache_clear iter c b))"
  using foldl_clean_ok[of c "iter (pc_map c)"]
  by (auto simp: cache_clear_def Let_def cache_ok_def cache_len_def split: option.splits prod.splits)

lemma truncate_loop_ok: "cache_ok c \<Longrightarrow> cache_ok (snd (truncate_loop c keys))"
proof (induction keys arbitrary: c)
  case (Cons k ks)
  then show ?case using delete_ok[of c k] by (auto split: prod.splits sum.splits)
qed simp


section \<open>Sequences of operations\<close>

text \<open>The operations of the cache, and what the rest of the engine does to the pages it shares
  with the cache (flags, pins, references).\<close>

datatype cache_op =
    OpInsert nat pref | OpUpsert nat pref | OpDelete nat | OpGet nat | OpPeek nat bool
  | OpResize nat | OpMakeRoom nat | OpClear bool | OpTruncate nat | OpCheckSpill nat
  | OpSetSpillEnabled bool | OpSetSpillThreshold nat | OpNotifyDirty nat | OpNotifySpilled nat
  | OpPage pref page_op | OpClone pref | OpDrop pref

fun cache_step ::
  "((nat \<times> eptr) list \<Rightarrow> (nat \<times> eptr) list) \<Rightarrow> cache_op \<Rightarrow> cache \<Rightarrow> cache option" where
  "cache_step iter (OpInsert k g) c = map_option snd (cache_insert c k g)"
| "cache_step iter (OpUpsert k g) c = map_option snd (upsert_page c k g)"
| "cache_step iter (OpDelete k) c = Some (snd (cache_delete c k))"
| "cache_step iter (OpGet k) c = Some (snd (cache_get c k))"
| "cache_step iter (OpPeek k b) c = Some (snd (cache_peek c k b))"
| "cache_step iter (OpResize n) c = map_option snd (cache_resize c n)"
| "cache_step iter (OpMakeRoom n) c = map_option snd (make_room_for c n)"
| "cache_step iter (OpClear b) c = Some (snd (cache_clear iter c b))"
| "cache_step iter (OpTruncate n) c = Some (snd (cache_truncate iter c n))"
| "cache_step iter (OpCheckSpill n) c = Some (snd (check_spill iter c n))"
| "cache_step iter (OpSetSpillEnabled b) c = Some (set_spill_enabled c b)"
| "cache_step iter (OpSetSpillThreshold n) c = set_spill_threshold c n"
| "cache_step iter (OpNotifyDirty k) c = Some (notify_page_dirty c k)"
| "cache_step iter (OpNotifySpilled k) c = Some (notify_page_spilled c k)"
| "cache_step iter (OpPage g a) c = Some (upd_page c g (run_page_op a))"
| "cache_step iter (OpClone g) c = Some (clone_ref c g)"
| "cache_step iter (OpDrop g) c = Some (drop_ref c g)"

fun cache_run ::
  "((nat \<times> eptr) list \<Rightarrow> (nat \<times> eptr) list) \<Rightarrow> cache_op list \<Rightarrow> cache \<Rightarrow> cache option" where
  "cache_run iter [] c = Some c"
| "cache_run iter (a # as) c = (case cache_step iter a c of None \<Rightarrow> None | Some d \<Rightarrow> cache_run iter as d)"

text \<open>The assertions of the source that a client can trip.\<close>

fun misuse :: "cache_op \<Rightarrow> cache \<Rightarrow> bool" where
  "misuse (OpInsert k v) c = (\<exists>g. lookup_page c k = Some g \<and> held c g \<and> g \<noteq> v)"
| "misuse (OpSetSpillThreshold n) c = (capacity c = 0)"
| "misuse _ c = False"

lemma cache_new_ok: "cache_ok (cache_new_with_spill cap b pages ext)"
  by (simp add: cache_ok_def cache_new_with_spill_def cache_len_def Let_def)

lemma resize_ok:
  assumes ok: "cache_ok c"
  shows "\<exists>r d. cache_resize c n = Some (r, d) \<and> cache_ok d"
proof (cases "n = capacity c")
  case True
  then show ?thesis using ok by (simp add: cache_resize_def)
next
  case False
  obtain b d where d: "resize_loop (cache_len c) n c = Some (b, d)" "shrunk c d"
    "if b then cache_len d \<le> n else n < cache_len d \<and> (\<forall>g \<in> ran (lookup_page d). \<not> evictable d g)"
    using resize_loop_spec[OF ok, of n "cache_len c"] by auto
  then show ?thesis
    using False shrunk_ok[OF d(2)] shrink_capacity_ok[OF shrunk_ok[OF d(2)], of n]
    by (cases b) (simp_all add: cache_resize_def)
qed

lemma insert_step_ok:
  assumes ok: "cache_ok c"
  shows "if \<not> upd \<and> (\<exists>g. lookup_page c k = Some g \<and> held c g \<and> g \<noteq> v)
    then cache_insert_inner c k v upd = None
    else \<exists>r d. cache_insert_inner c k v upd = Some (r, d) \<and> cache_ok d"
  using insert_inner_spec[OF ok, of k v upd] by (auto split: if_splits)

lemma notify_ok [simp]:
  "cache_ok (notify_page_dirty c k) = cache_ok c" "cache_ok (notify_page_spilled c k) = cache_ok c"
  by (simp_all add: notify_page_dirty_def notify_page_spilled_def split: option.splits)

lemma spill_settings_ok [simp]:
  "cache_ok (set_spill_enabled c b) = cache_ok c" "cache_ok (c\<lparr>spill_threshold := t\<rparr>) = cache_ok c"
  by (auto simp: set_spill_enabled_def cache_ok_def cache_len_def split: option.splits)

lemma cache_step_ok:
  assumes ok: "cache_ok c"
  shows "if misuse a c then cache_step iter a c = None
         else \<exists>d. cache_step iter a c = Some d \<and> cache_ok d"
proof (cases a)
  case (OpInsert k v)
  then show ?thesis using insert_step_ok[OF ok, of False k v] by (auto simp: cache_insert_def split: if_splits)
next
  case (OpUpsert k v)
  then show ?thesis using insert_step_ok[OF ok, of True k v] by (auto simp: upsert_page_def)
next
  case (OpResize n)
  then show ?thesis using resize_ok[OF ok, of n] by auto
next
  case (OpMakeRoom n)
  then show ?thesis using make_room_for_spec[OF ok, of n] shrunk_ok by fastforce
qed (use ok in \<open>simp_all add: delete_ok get_ok peek_ok cache_clear_ok cache_truncate_def truncate_loop_ok
    check_spill_ok set_spill_threshold_def\<close>)

lemma cache_run_ok: "cache_run iter ops c = Some d \<Longrightarrow> cache_ok c \<Longrightarrow> cache_ok d"
proof (induction ops arbitrary: c)
  case (Cons a ops)
  then obtain e where e: "cache_step iter a c = Some e" "cache_run iter ops e = Some d"
    by (auto split: option.splits)
  then have "cache_ok e" using cache_step_ok[OF Cons.prems(2), of a iter] by (auto split: if_splits)
  then show ?case using Cons.IH[OF e(2)] by simp
qed simp

section \<open>Truncation and spilling\<close>

definition unremovable :: "cache \<Rightarrow> pref \<Rightarrow> bool" where
  "unremovable c g \<longleftrightarrow>
     is_locked (pc_pages c g) \<or> is_dirty (pc_pages c g) \<or> is_pinned (pc_pages c g)"

lemma clean_page_flags [simp]:
  "is_locked (clean_page p) = is_locked p" "is_dirty (clean_page p) = is_dirty p"
  "is_pinned (clean_page p) = is_pinned p"
  using page_flag_simps(29,30)[of p]
  by (simp_all add: clean_page_def is_locked_def is_dirty_def is_pinned_def clear_loaded_def)

lemma truncate_loop_spec:
  assumes "cache_ok c"
  shows "case truncate_loop c keys of
      (Inr _, d) \<Rightarrow> (\<forall>k. lookup_page d k = (if k \<in> set keys then None else lookup_page c k))
    | (Inl _, d) \<Rightarrow> (\<forall>k. k \<notin> set keys \<longrightarrow> lookup_page d k = lookup_page c k) \<and>
        (\<exists>k \<in> set keys. \<exists>g. lookup_page c k = Some g \<and> unremovable c g)"
  using assms
proof (induction keys arbitrary: c)
  case (Cons k ks)
  obtain r d where e: "cache_delete c k = (r, d)" by fastforce
  show ?case
  proof (cases r)
    case (Inl er)
    then have "d = c" "\<exists>g. lookup_page c k = Some g \<and> unremovable c g"
      using delete_spec[OF Cons.prems, of k] e by (auto simp: cache_delete_def unremovable_def)
    then show ?thesis using e Inl by auto
  next
    case (Inr u)
    then have d: "cache_ok d" "lookup_page d = (lookup_page c)(k := None)"
      "\<forall>g. unremovable d g = unremovable c g"
      using delete_spec[OF Cons.prems, of k] e
      by (auto simp: cache_delete_def unremovable_def split: option.splits)
    show ?thesis
      using Cons.IH[OF d(1)] e Inr d(2,3) by (auto split: prod.splits sum.splits if_splits)
  qed
qed simp

lemma pinned_fold:
  "pc_entries (fold (\<lambda>g c. pin_guard c g) acc c) = pc_entries c"
  "pc_queue (fold (\<lambda>g c. pin_guard c g) acc c) = pc_queue c"
  "pin_count (pc_pages (fold (\<lambda>g c. pin_guard c g) acc c) g) =
     pin_count (pc_pages c g) + length (filter (\<lambda>x. x = g) acc)"
  "g \<notin> set acc \<Longrightarrow> pc_pages (fold (\<lambda>g c. pin_guard c g) acc c) g = pc_pages c g"
  "g \<notin> set acc \<Longrightarrow> pc_ext (fold (\<lambda>g c. pin_guard c g) acc c) g = pc_ext c g"
  "pg_id (pc_pages (fold (\<lambda>g c. pin_guard c g) acc c) g) = pg_id (pc_pages c g)"
  by (induction acc arbitrary: c) (auto simp: pin_guard_def clone_ref_def pin_def)

lemma spill_pages:
  assumes "spill_loop (fold (\<lambda>g c. pin_guard c g) acc c) n acc es = (pages, d)"
    "\<forall>g \<in> set acc. spillable c g" "distinct acc" "length acc < n"
  shows "(\<forall>g \<in> set pages. spillable c g) \<and> distinct pages \<and> length pages \<le> n \<and>
    d = fold (\<lambda>g c. pin_guard c g) pages c"
  using assms
proof (induction es arbitrary: acc)
  case (Cons e es)
  obtain k ep where e: "e = (k, ep)" by (cases e)
  let ?c = "fold (\<lambda>g c. pin_guard c g) acc c" and ?g = "e_page (pc_entries c ep)"
  show ?case
  proof (cases "spillable ?c ?g")
    case True
    then have "pin_count (pc_pages ?c ?g) = 0" by (simp add: spillable_def is_pinned_def Let_def)
    then have new: "?g \<notin> set acc" by (auto simp: pinned_fold(3) filter_empty_conv)
    then have sp: "spillable c ?g"
      using True by (simp add: spillable_def strong_count_def pinned_fold Let_def)
    show ?thesis
    proof (cases "n \<le> length (acc @ [?g])")
      case True
      then show ?thesis using Cons.prems new sp \<open>spillable ?c ?g\<close> by (auto simp: e pinned_fold Let_def)
    next
      case False
      have "spill_loop (fold (\<lambda>g c. pin_guard c g) (acc @ [?g]) c) n (acc @ [?g]) es = (pages, d)"
        using Cons.prems(1) False True by (simp add: e pinned_fold Let_def)
      then show ?thesis by (rule Cons.IH) (use Cons.prems new sp False in auto)
    qed
  next
    case False
    have "spill_loop ?c n acc es = (pages, d)"
      using Cons.prems(1,4) False by (simp add: e pinned_fold Let_def)
    then show ?thesis by (rule Cons.IH) (use Cons.prems in auto)
  qed
qed auto

section \<open>Properties\<close>

lemma get_held:
  assumes "lookup_page c key = Some g" "held c g"
  shows "fst (cache_get c key) = Inr (Some g)" "lookup_page (snd (cache_get c key)) = lookup_page c"
  using assms lookup_upd_entry[of bump_ref "clone_ref c g"]
  by (auto simp: cache_get_def lookup_page_def held_def Let_def)

text \<open>A cache of two loaded pages that nobody else holds, which the examples below use.\<close>

definition demo_pages :: "pref \<Rightarrow> page" where
  "demo_pages g = \<lparr> pg_flags = PAGE_LOADED, pg_id = g, pin_count = 0, wal_tag = TAG_UNSET,
                    pg_buffer = None, overflow_cells = [] \<rparr>"

definition demo_ops :: "cache_op list" where
  "demo_ops = [OpInsert 5 5, OpInsert 6 6, OpGet 5, OpDrop 5]"

definition demo_empty :: cache where
  "demo_empty = cache_new_with_spill 2 True demo_pages (\<lambda>_. 1)"

definition demo_cache :: cache where
  "demo_cache = the (cache_run (\<lambda>m. m) demo_ops demo_empty)"

lemmas cache_eval = demo_cache_def demo_ops_def demo_empty_def cache_new_with_spill_def
  cache_insert_def upsert_page_def cache_insert_inner_def cache_insert_new_def cache_insert_entry_def make_room_for_def
  cache_len_def drop_ref_def clone_ref_def counted_as_evictable_def entry_new_def
  cache_get_def upd_entry_def bump_ref_def demo_pages_def is_loaded_def is_locked_def is_dirty_def
  is_spilled_def is_pinned_def PAGE_LOADED_def PAGE_DIRTY_def PAGE_LOCKED_def PAGE_SPILLED_def
  CLEAR_def REF_MAX_def HEADER_PAGE_ID_def DEFAULT_SPILL_THRESHOLD_PERCENT_def

lemma demo_cache_run: "cache_run (\<lambda>m. m) demo_ops demo_empty = Some demo_cache"
proof -
  have "cache_run (\<lambda>m. m) demo_ops demo_empty \<noteq> None" by (simp add: cache_eval Let_def)
  then show ?thesis by (simp add: demo_cache_def)
qed

lemma demo_lookup: "lookup_page demo_cache = [5 \<mapsto> 5, 6 \<mapsto> 6]"
  by (rule ext) (simp add: cache_eval Let_def lookup_page_def)

lemma demo_fields: "pc_ext demo_cache = (\<lambda>_. 1)(5 := 0, 6 := 0)" "pc_pages demo_cache = demo_pages"
  "capacity demo_cache = 2" "pc_queue demo_cache = [0, 1]"
  "e_page (pc_entries demo_cache 0) = 5" "e_page (pc_entries demo_cache 1) = 6" "cache_len demo_cache = 2"
  by (auto simp: cache_eval Let_def)

lemma demo_ok: "cache_ok demo_cache"
  using cache_run_ok[OF demo_cache_run] cache_new_ok by (simp add: demo_empty_def)

lemma demo_evictable: "evictable demo_cache 5" "evictable demo_cache 6"
  by (simp_all add: evictable_def demo_fields strong_count_def cache_eval Let_def)

text \<open>C10: (\<open>PageCache\<close>, every operation): whatever sequence of cache operations runs, and whatever
  the rest of the engine does to the flags, pins and references of the pages meanwhile, the map,
  the queue and the clock hand agree, no key and no entry occurs twice, the reference counters
  stay within their maximum and the capacity is not exceeded; and no operation panics except an
  insertion that would replace a loaded or locked page by another one and a threshold set on a
  cache of capacity zero.\<close>

theorem cache_integrity:
  assumes "cache_run iter ops (cache_new_with_spill cap enabled pages ext) = Some c"
  shows "cache_ok c \<and> (cache_step iter a c = None \<longleftrightarrow> misuse a c)"
proof -
  have ok: "cache_ok c" using cache_run_ok[OF assms cache_new_ok] .
  then show ?thesis using cache_step_ok[OF ok, of a iter] by (cases "misuse a c") auto
qed

theorem cache_integrity_witness:
  "cache_ok demo_cache \<and> cache_step (\<lambda>m. m) (OpInsert 5 7) demo_cache = None"
  using cache_integrity[OF demo_cache_run[unfolded demo_empty_def], of "OpInsert 5 7"]
  by (simp add: demo_lookup held_def demo_fields demo_pages_def is_loaded_def PAGE_LOADED_def)



text \<open>C19: (\<open>PageCache::_insert\<close>, \<open>PageCache::get\<close>): an insertion that succeeds binds the key to the
  page (a following \<open>get\<close> returns it, if it is loaded or locked), and any other key keeps its page
  unless that page was evictable; an insertion that fails leaves every key bound as it was.\<close>

theorem insert_then_get:
  assumes ok: "cache_ok c" and ins: "cache_insert_inner c key v upd = Some (r, d)"
  shows "(case r of
       Inr _ \<Rightarrow> lookup_page d key = Some v \<and>
         (held d v \<longrightarrow> fst (cache_get d key) = Inr (Some v)) \<and>
         (\<forall>k. k \<noteq> key \<longrightarrow> lookup_page d k = lookup_page c k \<or>
            lookup_page d k = None \<and> (\<exists>g. lookup_page c k = Some g \<and> evictable c g))
     | Inl _ \<Rightarrow> lookup_page d = lookup_page c)"
  using insert_inner_spec[OF ok, of key v upd] ins get_held(1)[of d key v]
  by (cases r) (auto split: if_splits)

theorem insert_then_get_witness:
  "\<exists>d. cache_insert_inner demo_cache 5 7 True = Some (Inr (), d) \<and> lookup_page d 5 = Some 7 \<and>
       fst (cache_get d 5) = Inr (Some 7)"
proof -
  have "\<exists>d. cache_insert_inner demo_cache 5 7 True = Some (Inr (), d) \<and> held d 7"
    by (simp add: cache_eval Let_def cache_update_entry_def held_def)
  then obtain d where d: "cache_insert_inner demo_cache 5 7 True = Some (Inr (), d)" "held d 7" by blast
  then show ?thesis using insert_then_get[OF demo_ok d(1)] by simp
qed

text \<open>C22: (\<open>PageCache::resize\<close>): the eviction loop of a resize ends, within as many evictions as
  the cache has entries. It reports \<open>Done\<close> with the new capacity in force, or
  \<open>PendingEvictions\<close> with the old one, and then no page left in the cache is evictable.\<close>

theorem resize_returns:
  assumes ok: "cache_ok c"
  shows "\<exists>r d. cache_resize c n = Some (r, d) \<and>
    (case r of
       ResizeDone \<Rightarrow> capacity d = n \<and> cache_len d \<le> n
     | PendingEvictions \<Rightarrow> capacity d = capacity c \<and> n < cache_len d \<and>
         (\<forall>k g. lookup_page d k = Some g \<longrightarrow> \<not> evictable d g))"
proof (cases "n = capacity c")
  case True
  then show ?thesis using cache_ok_cap[OF ok] by (simp add: cache_resize_def)
next
  case False
  obtain b d where d: "resize_loop (cache_len c) n c = Some (b, d)" "shrunk c d"
    "if b then cache_len d \<le> n else n < cache_len d \<and> (\<forall>g \<in> ran (lookup_page d). \<not> evictable d g)"
    using resize_loop_spec[OF ok, of n "cache_len c"] by auto
  have "cache_len (d\<lparr>capacity := n, spill_threshold := t\<rparr>) = cache_len d" for t by (simp add: cache_len_def)
  then show ?thesis
    using False d(1,3) shrunk_capacity[OF d(2)] by (cases b) (auto simp: cache_resize_def intro: ranI)
qed

theorem resize_returns_witness:
  "\<exists>r d. cache_resize demo_cache 1 = Some (r, d)"
  using resize_returns[OF demo_ok, of 1] by blast

text \<open>C29: (\<open>PageCache::truncate\<close>): truncation to \<open>n\<close> pages either removes exactly the pages
  numbered above \<open>n\<close>, or fails because one of them is locked, dirty or pinned; the pages up to
  \<open>n\<close> stay cached in both cases. The hypothesis on \<open>iter\<close> is what the hash map promises of an
  iteration.\<close>

theorem truncate_keeps_lower:
  assumes ok: "cache_ok c" and iter: "\<And>m. mset (iter m) = mset m"
    and t: "cache_truncate iter c n = (r, d)"
  shows "(\<forall>k \<le> n. lookup_page d k = lookup_page c k) \<and>
    (case r of
       Inr _ \<Rightarrow> (\<forall>k > n. lookup_page d k = None)
     | Inl _ \<Rightarrow> (\<exists>k > n. \<exists>g. lookup_page c k = Some g \<and> unremovable c g))"
proof -
  have "set (iter (pc_map c)) = set (pc_map c)" using iter by (metis set_mset_mset)
  then have "k \<notin> fst ` set (iter (pc_map c)) \<Longrightarrow> lookup_page c k = None" for k
    by (simp add: lookup_page_def map_of_eq_None_iff)
  then show ?thesis
    using truncate_loop_spec[OF ok, of "filter (\<lambda>k. k > n) (map fst (iter (pc_map c)))"] t
    by (cases r) (auto simp: cache_truncate_def)
qed

theorem truncate_keeps_lower_witness:
  "\<exists>d. cache_truncate (\<lambda>m. m) demo_cache 5 = (Inr (), d) \<and> lookup_page d 5 = Some 5 \<and> lookup_page d 6 = None"
proof -
  obtain r d where t: "cache_truncate (\<lambda>m. m) demo_cache 5 = (r, d)" by fastforce
  note p = truncate_keeps_lower[OF demo_ok refl t]
  have "\<not> unremovable demo_cache g" for g
    by (simp add: unremovable_def demo_fields demo_pages_def is_locked_def is_dirty_def is_pinned_def
        PAGE_LOADED_def PAGE_DIRTY_def PAGE_LOCKED_def)
  then have "r = Inr ()" using p by (cases r) auto
  then show ?thesis using p t by (simp add: demo_lookup)
qed


lemma demo_spill:
  "fst (collect_spillable_pages (\<lambda>m. m) (upd_page demo_cache 6 set_dirty) 4) = [6]"
  by (simp add: collect_spillable_pages_def cache_eval spillable_def strong_count_def pin_guard_def
      upd_page_def set_dirty_def clear_wal_tag_def pin_def Let_def)


text \<open>The count of evictable pages is described as an upper bound; it is not one, since a page that
  becomes clean again at a commit is not counted: here one cached page is dirtied and cleaned.\<close>

theorem evictable_count_not_upper_bound:
  "\<exists>c. cache_run (\<lambda>m. m) [OpInsert 5 5, OpNotifyDirty 5, OpPage 5 SetDirty, OpPage 5 ClearDirty] demo_empty
       = Some c \<and> evictable_count c < count_evictable_pages c"
  by (simp add: cache_eval notify_page_dirty_def count_evictable_pages_def evictable_def strong_count_def
      upd_page_def set_dirty_def clear_dirty_def clear_wal_tag_def Let_def)

end
