(* ===== verification/Record_Format.thy ===== *)
theory Record_Format
  imports Varint
begin

text \<open>
  The record format: the serial types of \<open>core/types.rs\<close>, the two serialisers
  (\<open>Record::serialize\<close> and \<open>ImmutableRecord::from_values\<close>), the iterator over the columns of a
  record (\<open>ValueIterator\<close>) and the readers of a column in \<open>core/storage/sqlite3_ondisk.rs\<close>.

  A 64-bit float is its bit pattern; \<open>NonNan\<close> floats are those whose pattern is not a NaN. A text
  is the sequence of its UTF-8 bytes (the reader does not validate them). An \<open>Option\<close> at the top
  of a function's result is a panic (\<open>None\<close>), in readers of corrupt data it is the error
  \<open>Panic\<close>.
\<close>

section \<open>Values and serial types\<close>

type_synonym f64 = "64 word"

definition is_nan :: "f64 \<Rightarrow> bool" where
  "is_nan f \<longleftrightarrow> f AND 0x7fffffffffffffff > 0x7ff0000000000000"

datatype val =
    VNull
  | VInteger i64
  | VFloat f64
  | VText bytes
  | VBlob bytes

text \<open>\<open>ValueRef::from_f64\<close>\<close>

definition from_f64 :: "f64 \<Rightarrow> val" where
  "from_f64 f = (if is_nan f then VNull else VFloat f)"

datatype serial_type_kind =
    KNull | KI8 | KI16 | KI24 | KI32 | KI48 | KI64 | KF64 | KConstInt0 | KConstInt1 | KText | KBlob

definition u64_is_valid_serial_type :: "u64 \<Rightarrow> bool" where
  "u64_is_valid_serial_type n \<longleftrightarrow> n \<noteq> 10 \<and> n \<noteq> 11"

definition blob_type :: "u64 \<Rightarrow> u64" where "blob_type sz = 12 + sz * 2"

definition text_type :: "u64 \<Rightarrow> u64" where "text_type sz = 13 + sz * 2"

definition serial_kind :: "u64 \<Rightarrow> serial_type_kind option" where
  "serial_kind n =
     (if n = 0 then Some KNull
      else if n = 1 then Some KI8
      else if n = 2 then Some KI16
      else if n = 3 then Some KI24
      else if n = 4 then Some KI32
      else if n = 5 then Some KI48
      else if n = 6 then Some KI64
      else if n = 7 then Some KF64
      else if n = 8 then Some KConstInt0
      else if n = 9 then Some KConstInt1
      else if n \<ge> 12 then (if n mod 2 = 0 then Some KBlob else Some KText)
      else None)"

definition serial_size :: "u64 \<Rightarrow> nat option" where
  "serial_size n =
     (case serial_kind n of
        None \<Rightarrow> None
      | Some KNull \<Rightarrow> Some 0
      | Some KI8 \<Rightarrow> Some 1
      | Some KI16 \<Rightarrow> Some 2
      | Some KI24 \<Rightarrow> Some 3
      | Some KI32 \<Rightarrow> Some 4
      | Some KI48 \<Rightarrow> Some 6
      | Some KI64 \<Rightarrow> Some 8
      | Some KF64 \<Rightarrow> Some 8
      | Some KConstInt0 \<Rightarrow> Some 0
      | Some KConstInt1 \<Rightarrow> Some 0
      | Some KText \<Rightarrow> Some ((unat n - 13) div 2)
      | Some KBlob \<Rightarrow> Some ((unat n - 12) div 2))"

definition get_serial_type_size :: "u64 \<Rightarrow> nat result" where
  "get_serial_type_size serial =
     (if serial = 0 \<or> serial = 8 \<or> serial = 9 then Inr 0
      else if serial = 1 then Inr 1
      else if serial = 2 then Inr 2
      else if serial = 3 then Inr 3
      else if serial = 4 then Inr 4
      else if serial = 5 then Inr 6
      else if serial = 6 \<or> serial = 7 then Inr 8
      else if serial \<ge> 12 then
        (if serial mod 2 = 0 then Inr (unat ((serial - 12) div 2)) else Inr (unat ((serial - 13) div 2)))
      else Inl Corrupt)"

text \<open>\<open>TryFrom<u64>\<close>\<close>

definition serial_type_try_from :: "u64 \<Rightarrow> u64 result" where
  "serial_type_try_from u = (if u = 10 \<or> u = 11 then Inl Corrupt else Inr u)"

definition in_range :: "int \<Rightarrow> int \<Rightarrow> i64 \<Rightarrow> bool" where
  "in_range lo hi i \<longleftrightarrow> lo \<le> sint i \<and> sint i \<le> hi"

text \<open>\<open>From<T: AsValueRef>\<close>: the shortest serial type of a value.\<close>

fun serial_type_of :: "val \<Rightarrow> u64" where
  "serial_type_of VNull = 0"
| "serial_type_of (VInteger i) =
     (if i = 0 then 8
      else if i = 1 then 9
      else if in_range (- 128) 127 i then 1
      else if in_range (- 32768) 32767 i then 2
      else if in_range (- 8388608) 8388607 i then 3
      else if in_range (- 2147483648) 2147483647 i then 4
      else if in_range (- 140737488355328) 140737488355327 i then 5
      else 6)"
| "serial_type_of (VFloat _) = 7"
| "serial_type_of (VText t) = text_type (word_of_nat (length t))"
| "serial_type_of (VBlob b) = blob_type (word_of_nat (length b))"

section \<open>Serialising\<close>

definition u64_be :: "u64 \<Rightarrow> bytes" where "u64_be w = be_bytes 8 (unat w)"

definition be_u64 :: "bytes \<Rightarrow> u64" where "be_u64 bs = word_of_nat (from_be bs)"

text \<open>The bytes of an integer for its serial type; the casts \<open>as i8\<close>, \<open>as i16\<close>, \<open>as i32\<close> keep the
  low bits. \<open>None\<close> is the \<open>unreachable!()\<close> of the other kinds.\<close>

fun int_content :: "serial_type_kind \<Rightarrow> i64 \<Rightarrow> bytes option" where
  "int_content KConstInt0 i = Some []"
| "int_content KConstInt1 i = Some []"
| "int_content KI8 i = Some [ucast i]"
| "int_content KI16 i = Some (u16_be (ucast i))"
| "int_content KI24 i = Some (drop 1 (u32_be (ucast i)))"
| "int_content KI32 i = Some (u32_be (ucast i))"
| "int_content KI48 i = Some (drop 2 (u64_be i))"
| "int_content KI64 i = Some (u64_be i)"
| "int_content _ i = None"

fun value_content :: "val \<Rightarrow> bytes option" where
  "value_content VNull = Some []"
| "value_content (VInteger i) =
     (case serial_kind (serial_type_of (VInteger i)) of
        None \<Rightarrow> None
      | Some k \<Rightarrow> int_content k i)"
| "value_content (VFloat f) = Some (u64_be f)"
| "value_content (VText t) = Some t"
| "value_content (VBlob b) = Some b"

text \<open>\<open>Value::serialize_serial\<close>, where the constants 0 and 1 are \<open>unreachable!()\<close>.\<close>

fun serialize_serial :: "val \<Rightarrow> bytes \<Rightarrow> bytes option" where
  "serialize_serial VNull out = Some out"
| "serialize_serial (VInteger i) out =
     (case serial_kind (serial_type_of (VInteger i)) of
        Some KI8 \<Rightarrow> Some (out @ [ucast i])
      | Some KI16 \<Rightarrow> Some (out @ u16_be (ucast i))
      | Some KI24 \<Rightarrow> Some (out @ drop 1 (u32_be (ucast i)))
      | Some KI32 \<Rightarrow> Some (out @ u32_be (ucast i))
      | Some KI48 \<Rightarrow> Some (out @ drop 2 (u64_be i))
      | Some KI64 \<Rightarrow> Some (out @ u64_be i)
      | _ \<Rightarrow> None)"
| "serialize_serial (VFloat f) out = Some (out @ u64_be f)"
| "serialize_serial (VText t) out = Some (out @ t)"
| "serialize_serial (VBlob b) out = Some (out @ b)"

text \<open>The loop of \<open>calc_header_size\<close>; \<open>None\<close> is a panic or a loop that does not end.\<close>

partial_function (option) header_size_loop :: "nat \<Rightarrow> nat \<Rightarrow> nat option" where
  "header_size_loop sizeof_serial_types header_size =
     (let prev_header_size = header_size in
      case write_varint (replicate 9 0) (word_of_nat header_size) of
        None \<Rightarrow> None
      | Some (_, n) \<Rightarrow>
          let header_size = sizeof_serial_types + n in
          if header_size = prev_header_size then Some header_size
          else header_size_loop sizeof_serial_types header_size)"

definition calc_header_size :: "nat \<Rightarrow> nat option" where
  "calc_header_size sizeof_serial_types =
     (if sizeof_serial_types < 127 then Some (sizeof_serial_types + 1)
      else header_size_loop sizeof_serial_types sizeof_serial_types)"

text \<open>\<open>Record::serialize\<close>: the serial types are appended to the buffer, then the contents, and the
  header size is spliced in before them.\<close>

fun write_serials :: "val list \<Rightarrow> bytes \<Rightarrow> bytes option" where
  "write_serials [] buf = Some buf"
| "write_serials (v # vs) buf =
     (let serial_type = serial_type_of v;
          buf = buf @ replicate 9 0;
          len = length buf in
      case write_varint (drop (len - 9) buf) serial_type of
        None \<Rightarrow> None
      | Some (tail, n) \<Rightarrow> write_serials vs (take (len - 9 + n) (take (len - 9) buf @ tail)))"

fun write_contents :: "val list \<Rightarrow> bytes \<Rightarrow> bytes option" where
  "write_contents [] buf = Some buf"
| "write_contents (v # vs) buf =
     (case value_content v of
        None \<Rightarrow> None
      | Some content \<Rightarrow> write_contents vs (buf @ content))"

definition record_serialize :: "val list \<Rightarrow> bytes \<Rightarrow> bytes option" where
  "record_serialize values buf =
     do {
       let initial_i = length buf;
       buf \<leftarrow> write_serials values buf;
       let header_size = length buf - initial_i;
       buf \<leftarrow> write_contents values buf;
       header_size \<leftarrow> calc_header_size header_size;
       (header_bytes_buf, n) \<leftarrow> write_varint (replicate 9 0) (word_of_nat header_size);
       let header_bytes_buf = take n header_bytes_buf;
       Some (take initial_i buf @ header_bytes_buf @ drop initial_i buf)
     }"

text \<open>\<open>AppendWriter\<close>: the buffer and the position; writing past its end panics.\<close>

definition extend_from_slice :: "bytes \<times> nat \<Rightarrow> bytes \<Rightarrow> (bytes \<times> nat) option" where
  "extend_from_slice w src =
     (case w of (buf, pos) \<Rightarrow>
        if pos + length src \<le> length buf
        then Some (take pos buf @ src @ drop (pos + length src) buf, pos + length src)
        else None)"

text \<open>The first pass of \<open>from_values\<close>: the encoded serial types and the two sizes. The buffer the
  varints are written into is reused, so that bytes past an encoding are left over from earlier
  ones.\<close>

fun collect_serials ::
  "val list \<Rightarrow> bytes \<Rightarrow> (bytes \<times> nat) list \<Rightarrow> nat \<Rightarrow> nat \<Rightarrow> (bytes \<times> (bytes \<times> nat) list \<times> nat \<times> nat) option"
where
  "collect_serials [] serial_type_buf serials size_header size_values =
     Some (serial_type_buf, serials, size_header, size_values)"
| "collect_serials (v # vs) serial_type_buf serials size_header size_values =
     do {
       let serial_type = serial_type_of v;
       (serial_type_buf, n) \<leftarrow> write_varint serial_type_buf serial_type;
       let serials = serials @ [(serial_type_buf, n)];
       value_size \<leftarrow> serial_size serial_type;
       collect_serials vs serial_type_buf serials (size_header + n) (size_values + value_size)
     }"

fun append_serials :: "(bytes \<times> nat) list \<Rightarrow> bytes \<times> nat \<Rightarrow> (bytes \<times> nat) option" where
  "append_serials [] w = Some w"
| "append_serials ((b, n) # ss) w =
     (case extend_from_slice w (take n b) of None \<Rightarrow> None | Some w \<Rightarrow> append_serials ss w)"

fun append_contents :: "val list \<Rightarrow> bytes \<times> nat \<Rightarrow> (bytes \<times> nat) option" where
  "append_contents [] w = Some w"
| "append_contents (v # vs) w =
     do {
       content \<leftarrow> value_content v;
       w \<leftarrow> extend_from_slice w content;
       append_contents vs w
     }"

definition from_values :: "val list \<Rightarrow> bytes option" where
  "from_values values =
     do {
       (serial_type_buf, serials, size_header, size_values) \<leftarrow>
         collect_serials values (replicate 9 0) [] 0 0;
       header_size \<leftarrow> calc_header_size size_header;
       (serial_type_buf, n) \<leftarrow> write_varint serial_type_buf (word_of_nat header_size);
       let buf = replicate (header_size + size_values) 0;
       w \<leftarrow> extend_from_slice (buf, 0) (take n serial_type_buf);
       w \<leftarrow> append_serials serials w;
       w \<leftarrow> append_contents values w;
       Some (fst w)
     }"

section \<open>Reading\<close>

text \<open>\<open>buf.get(..n)\<close>\<close>

definition get_prefix :: "bytes \<Rightarrow> nat \<Rightarrow> bytes result" where
  "get_prefix buf n = (if n \<le> length buf then Inr (take n buf) else Inl Corrupt)"

definition be_i16 :: "bytes \<Rightarrow> i64" where
  "be_i16 bs = scast (be_u16 bs)"

definition be_i32 :: "bytes \<Rightarrow> i64" where
  "be_i32 bs = scast (be_u32 bs)"

text \<open>\<open>(bytes[0] as i8 >> 7) as u8\<close>: an arithmetic shift.\<close>

definition sign_shift :: "u8 \<Rightarrow> u8" where
  "sign_shift b = word_of_int (sint b div 2 ^ 7)"

definition read_value :: "bytes \<Rightarrow> u64 \<Rightarrow> (val \<times> nat) result" where
  "read_value buf serial_type =
     (case serial_kind serial_type of
        None \<Rightarrow> Inl Panic
      | Some KNull \<Rightarrow> Inr (VNull, 0)
      | Some KI8 \<Rightarrow>
          (case slice_get buf 0 of
             None \<Rightarrow> Inl Corrupt
           | Some val \<Rightarrow> Inr (VInteger (scast val), 1))
      | Some KI16 \<Rightarrow> rbind (get_prefix buf 2) (\<lambda>bytes. Inr (VInteger (be_i16 bytes), 2))
      | Some KI24 \<Rightarrow>
          rbind (get_prefix buf 3) (\<lambda>bytes.
            let sign_extension = sign_shift (bytes ! 0) in
            Inr (VInteger (be_i32 (sign_extension # bytes)), 3))
      | Some KI32 \<Rightarrow> rbind (get_prefix buf 4) (\<lambda>bytes. Inr (VInteger (be_i32 bytes), 4))
      | Some KI48 \<Rightarrow>
          rbind (get_prefix buf 6) (\<lambda>bytes.
            let sign_extension = sign_shift (bytes ! 0) in
            Inr (VInteger (be_u64 (sign_extension # sign_extension # bytes)), 6))
      | Some KI64 \<Rightarrow> rbind (get_prefix buf 8) (\<lambda>bytes. Inr (VInteger (be_u64 bytes), 8))
      | Some KF64 \<Rightarrow> rbind (get_prefix buf 8) (\<lambda>bytes. Inr (from_f64 (be_u64 bytes), 8))
      | Some KConstInt0 \<Rightarrow> Inr (VInteger 0, 0)
      | Some KConstInt1 \<Rightarrow> Inr (VInteger 1, 0)
      | Some KBlob \<Rightarrow>
          (case serial_size serial_type of
             None \<Rightarrow> Inl Panic
           | Some content_size \<Rightarrow>
               rbind (get_prefix buf content_size) (\<lambda>data. Inr (VBlob data, content_size)))
      | Some KText \<Rightarrow>
          (case serial_size serial_type of
             None \<Rightarrow> Inl Panic
           | Some content_size \<Rightarrow>
               rbind (get_prefix buf content_size) (\<lambda>data. Inr (VText data, content_size))))"

text \<open>The sign byte of the other readers: \<open>if buf[0] <= 0x7F \{ 0 \} else \{ 0xFF \}\<close>.\<close>

definition sign_byte :: "u8 \<Rightarrow> u8" where
  "sign_byte b = (if b \<le> 0x7f then 0 else 0xff)"

definition read_value_serial_type :: "bytes \<Rightarrow> u64 \<Rightarrow> (val \<times> nat) result" where
  "read_value_serial_type buf serial_type =
     (if serial_type = 0 then Inr (VNull, 0)
      else if serial_type = 1 then
        (if buf = [] then Inl Corrupt else Inr (VInteger (scast (buf ! 0)), 1))
      else if serial_type = 2 then
        (if length buf < 2 then Inl Corrupt else Inr (VInteger (be_i16 [buf ! 0, buf ! 1]), 2))
      else if serial_type = 3 then
        (if length buf < 3 then Inl Corrupt
         else
           let sign_extension = sign_byte (buf ! 0) in
           Inr (VInteger (be_i32 [sign_extension, buf ! 0, buf ! 1, buf ! 2]), 3))
      else if serial_type = 4 then
        (if length buf < 4 then Inl Corrupt
         else Inr (VInteger (be_i32 [buf ! 0, buf ! 1, buf ! 2, buf ! 3]), 4))
      else if serial_type = 5 then
        (if length buf < 6 then Inl Corrupt
         else
           let sign_extension = sign_byte (buf ! 0) in
           Inr (VInteger (be_u64 [sign_extension, sign_extension, buf ! 0, buf ! 1, buf ! 2,
                                  buf ! 3, buf ! 4, buf ! 5]), 6))
      else if serial_type = 6 then
        (if length buf < 8 then Inl Corrupt
         else Inr (VInteger (be_u64 [buf ! 0, buf ! 1, buf ! 2, buf ! 3, buf ! 4, buf ! 5,
                                     buf ! 6, buf ! 7]), 8))
      else if serial_type = 7 then
        (if length buf < 8 then Inl Corrupt
         else Inr (from_f64 (be_u64 [buf ! 0, buf ! 1, buf ! 2, buf ! 3, buf ! 4, buf ! 5,
                                     buf ! 6, buf ! 7]), 8))
      else if serial_type = 8 then Inr (VInteger 0, 0)
      else if serial_type = 9 then Inr (VInteger 1, 0)
      else if serial_type \<ge> 12 then
        (if serial_type mod 2 = 0 then
           let content_size = unat ((serial_type - 12) div 2) in
           rbind (get_prefix buf content_size) (\<lambda>data. Inr (VBlob data, content_size))
         else
           let content_size = unat ((serial_type - 13) div 2) in
           rbind (get_prefix buf content_size) (\<lambda>data. Inr (VText data, content_size)))
      else Inl Corrupt)"

definition read_integer :: "bytes \<Rightarrow> u8 \<Rightarrow> i64 result" where
  "read_integer buf serial_type =
     (if serial_type = 1 then
        (if buf = [] then Inl Corrupt else Inr (scast (buf ! 0)))
      else if serial_type = 2 then
        (if length buf < 2 then Inl Corrupt else Inr (be_i16 [buf ! 0, buf ! 1]))
      else if serial_type = 3 then
        (if length buf < 3 then Inl Corrupt
         else
           let sign_extension = sign_byte (buf ! 0) in
           Inr (be_i32 [sign_extension, buf ! 0, buf ! 1, buf ! 2]))
      else if serial_type = 4 then
        (if length buf < 4 then Inl Corrupt
         else Inr (be_i32 [buf ! 0, buf ! 1, buf ! 2, buf ! 3]))
      else if serial_type = 5 then
        (if length buf < 6 then Inl Corrupt
         else
           let sign_extension = sign_byte (buf ! 0) in
           Inr (be_u64 [sign_extension, sign_extension, buf ! 0, buf ! 1, buf ! 2,
                        buf ! 3, buf ! 4, buf ! 5]))
      else if serial_type = 6 then
        (if length buf < 8 then Inl Corrupt
         else Inr (be_u64 [buf ! 0, buf ! 1, buf ! 2, buf ! 3, buf ! 4, buf ! 5, buf ! 6, buf ! 7]))
      else if serial_type = 8 then Inr 0
      else if serial_type = 9 then Inr 1
      else Inl Corrupt)"

text \<open>\<open>ValueIterator\<close>\<close>

record value_iterator =
  header_section :: bytes
  data_section :: bytes

definition value_iterator_new :: "bytes \<Rightarrow> value_iterator result" where
  "value_iterator_new payload =
     rbind (read_varint payload) (\<lambda>(header_size, header_varint_len).
       let header_size = unat header_size in
       if header_size > length payload \<or> header_varint_len > length payload \<or>
          header_varint_len > header_size
       then Inl Corrupt
       else Inr \<lparr> header_section = slice_range payload header_varint_len header_size,
                  data_section = drop header_size payload \<rparr>)"

text \<open>\<open>next\<close>: \<open>None\<close> at the end, else the next column or an error, with the advanced iterator.\<close>

definition value_next :: "value_iterator \<Rightarrow> val result option \<times> value_iterator" where
  "value_next it =
     (let header = header_section it in
      if header = [] then (None, it)
      else
        (case read_varint header of
           Inl e \<Rightarrow> (Some (Inl e), it)
         | Inr (serial_type, bytes_read) \<Rightarrow>
             let it = it\<lparr>header_section := drop bytes_read header\<rparr>;
                 data = data_section it in
             (case read_value_serial_type data serial_type of
                Inr (value, n) \<Rightarrow> (Some (Inr value), it\<lparr>data_section := drop n data\<rparr>)
              | Inl e \<Rightarrow> (Some (Inl e), it))))"

text \<open>The skipping loop of \<open>nth\<close>: the early return, or the rest of the header and the size of the
  skipped columns.\<close>

fun skip_columns :: "nat \<Rightarrow> bytes \<Rightarrow> nat \<Rightarrow> val result option + bytes \<times> nat" where
  "skip_columns 0 header data_sum = Inr (header, data_sum)"
| "skip_columns (Suc n) header data_sum =
     (if header = [] then Inl None
      else
        (case read_varint header of
           Inl e \<Rightarrow> Inl (Some (Inl e))
         | Inr (serial_type, bytes_read) \<Rightarrow>
             (case get_serial_type_size serial_type of
                Inl e \<Rightarrow> Inl (Some (Inl e))
              | Inr sz \<Rightarrow> skip_columns n (drop bytes_read header) (data_sum + sz))))"

definition value_nth :: "value_iterator \<Rightarrow> nat \<Rightarrow> val result option \<times> value_iterator" where
  "value_nth it n =
     (case skip_columns n (header_section it) 0 of
        Inl r \<Rightarrow> (r, it)
      | Inr (header, data_sum) \<Rightarrow>
          if data_sum > length (data_section it) then (Some (Inl Corrupt), it)
          else value_next \<lparr> header_section = header, data_section = drop data_sum (data_section it) \<rparr>)"

lemma read_varint_loop_pos: "read_varint_loop buf i v = Inr (x, l) \<Longrightarrow> 0 < l"
  by (induction buf i v rule: read_varint_loop.induct)
     (subst (asm) (2) read_varint_loop.simps, auto split: if_splits option.splits simp: Let_def)

lemma read_varint_pos: "read_varint buf = Inr (x, l) \<Longrightarrow> 0 < l"
  unfolding read_varint_def by (rule read_varint_loop_pos)

function contains_null_loop :: "bytes \<Rightarrow> bool result" where
  "contains_null_loop header =
     (if header = [] then Inr False
      else
        (case read_varint header of
           Inl e \<Rightarrow> Inl e
         | Inr (serial_type, bytes_read) \<Rightarrow>
             if serial_type = 0 then Inr True else contains_null_loop (drop bytes_read header)))"
  by pat_completeness auto
termination by (relation "measure length") (auto dest: read_varint_pos)

declare contains_null_loop.simps [simp del]

text \<open>\<open>ImmutableRecord::contains_null\<close>: the slice \<open>payload[header_varint_len..header_size]\<close> panics
  if it starts behind its end.\<close>

definition contains_null :: "bytes \<Rightarrow> bool result" where
  "contains_null payload =
     rbind (read_varint payload) (\<lambda>(header_size, header_varint_len).
       let header_size = unat header_size in
       if header_size > length payload \<or> header_varint_len > length payload then Inl Corrupt
       else if header_varint_len > header_size then Inl Panic
       else contains_null_loop (slice_range payload header_varint_len header_size))"

function count_loop :: "bytes \<Rightarrow> nat \<Rightarrow> nat" where
  "count_loop header count =
     (if header = [] then count
      else
        (case read_varint header of
           Inr (_, bytes_read) \<Rightarrow> count_loop (drop bytes_read header) (count + 1)
         | Inl _ \<Rightarrow> count))"
  by pat_completeness auto
termination by (relation "measure (\<lambda>(header, count). length header)") (auto dest: read_varint_pos)

declare count_loop.simps [simp del]

definition value_count :: "value_iterator \<Rightarrow> nat" where
  "value_count it = count_loop (header_section it) 0"

text \<open>\<open>Iterator::last\<close> of the standard library by way of \<open>fold\<close>: the iterator is run to its end.
  \<open>None\<close> is a loop that does not end.\<close>

partial_function (option) last_loop :: "value_iterator \<Rightarrow> val result option \<Rightarrow> val result option option" where
  "last_loop it acc =
     (case value_next it of
        (None, _) \<Rightarrow> Some acc
      | (Some item, it) \<Rightarrow> last_loop it (Some item))"

definition last_value :: "bytes \<Rightarrow> val result option option" where
  "last_value payload =
     (if payload = [] then Some (Some (Inl InternalError))
      else
        (case value_iterator_new payload of
           Inl e \<Rightarrow> Some (Some (Inl e))
         | Inr it \<Rightarrow> last_loop it None))"

definition first_value :: "bytes \<Rightarrow> val result" where
  "first_value payload =
     (if payload = [] then Inl InternalError
      else
        rbind (value_iterator_new payload) (\<lambda>it.
          case fst (value_next it) of
            Some v \<Rightarrow> v
          | None \<Rightarrow> Inl InternalError))"

definition get_value :: "bytes \<Rightarrow> nat \<Rightarrow> val result" where
  "get_value payload idx =
     (if payload = [] then Inl InternalError
      else
        rbind (value_iterator_new payload) (\<lambda>it.
          case fst (value_nth it idx) of
            Some v \<Rightarrow> v
          | None \<Rightarrow> Inl InternalError))"

definition get_value_opt :: "bytes \<Rightarrow> nat \<Rightarrow> val option" where
  "get_value_opt payload idx =
     (case value_iterator_new payload of
        Inl _ \<Rightarrow> None
      | Inr it \<Rightarrow>
          (case fst (value_nth it idx) of
             Some (Inr v) \<Rightarrow> Some v
           | _ \<Rightarrow> None))"

definition column_count :: "bytes \<Rightarrow> nat" where
  "column_count payload =
     (case value_iterator_new payload of Inl _ \<Rightarrow> 0 | Inr it \<Rightarrow> value_count it)"

section \<open>The size of the header\<close>

lemma groups7_mono: "m \<le> n \<Longrightarrow> groups7 m \<le> groups7 n"
  using groups7_le[of m "groups7 n"] less_groups7[of n] by simp

lemma varint_len_mono: "m \<le> n \<Longrightarrow> length (varint_enc m) \<le> length (varint_enc n)"
  using groups7_mono[of m n] groups7_le[of m 8] by (auto simp: length_varint_enc)

lemma write_varint_size:
  "9 \<le> length buf \<Longrightarrow> n < 2 ^ 64 \<Longrightarrow>
   write_varint buf (word_of_nat n) = Some (varint_enc n @ drop (length (varint_enc n)) buf, length (varint_enc n))"
  using write_varint_eq[of buf "word_of_nat n"] by (simp add: unat_of_nat)

lemma header_size_loop_step:
  "h < 2 ^ 64 \<Longrightarrow> header_size_loop s h =
     (let h' = s + length (varint_enc h) in if h' = h then Some h' else header_size_loop s h')"
  by (subst header_size_loop.simps) (simp add: write_varint_size Let_def)

lemma header_size_loop_ends:
  assumes "h \<le> s + length (varint_enc h)" "s < 2 ^ 63"
  shows "\<exists>r. header_size_loop s h = Some r \<and> r = s + length (varint_enc r)"
  using assms
proof (induction "s + 9 - h" arbitrary: h rule: less_induct)
  case less
  let ?h = "s + length (varint_enc h)"
  have b: "h < 2 ^ 64" "?h \<le> s + 9" using less.prems length_varint_enc_le[of h] by simp_all
  show ?case
  proof (cases "?h = h")
    case True
    then show ?thesis using header_size_loop_step[OF b(1), of s] by (simp add: Let_def)
  next
    case False
    then have "h < ?h" using less.prems(1) by simp
    moreover from this have "?h \<le> s + length (varint_enc ?h)" using varint_len_mono[of h ?h] by simp
    ultimately have "\<exists>r. header_size_loop s ?h = Some r \<and> r = s + length (varint_enc r)"
      using less.hyps[of ?h] b(2) less.prems(2) by simp
    then show ?thesis using header_size_loop_step[OF b(1), of s] False by (simp add: Let_def)
  qed
qed

lemma calc_header_size_ends:
  assumes "s < 2 ^ 63"
  shows "\<exists>r. calc_header_size s = Some r \<and> r = s + length (varint_enc r)"
proof (cases "s < 127")
  case True
  then show ?thesis by (simp add: calc_header_size_def length_varint_enc groups7.simps)
next
  case False
  have "s \<le> s + length (varint_enc s)" by simp
  then show ?thesis using header_size_loop_ends[OF _ assms] False by (simp add: calc_header_size_def)
qed

section \<open>Integers\<close>

lemma uint_i64: "uint i = sint i mod 2 ^ 64" for i :: i64
  using uint_sint[of i] by (simp add: take_bit_eq_mod)

lemma sint_i64_bounds: "- (2 ^ 63) \<le> sint i" "sint i < 2 ^ 63" for i :: i64
  using sint_ge[of i] sint_less[of i] by simp_all

lemma scast_ucast_i64:
  fixes i :: i64
  assumes "LENGTH('b::len) \<le> 64" "- (2 ^ (LENGTH('b) - 1)) \<le> sint i" "sint i < 2 ^ (LENGTH('b) - 1)"
  shows "scast (ucast i :: 'b word) = i"
proof -
  have "sint (ucast i :: 'b word) = signed_take_bit (LENGTH('b) - 1) (sint i)"
    using assms(1) by (simp only: signed_ucast_eq)
      (auto simp: sint_uint signed_take_bit_signed_take_bit min_def)
  also have "\<dots> = sint i" using assms by (simp add: signed_take_bit_int_eq_self)
  finally show ?thesis by (simp add: scast_eq)
qed

lemma unat_i64: "unat i = nat (sint i mod 2 ^ 64)" for i :: i64
  by (simp only: unat_eq_nat_uint uint_i64)

lemma sign_byte_nat: "sign_byte (word_of_nat b) = (if b mod 256 < 128 then 0 else 0xff)"
proof -
  have "(word_of_nat b :: u8) \<le> 0x7f \<longleftrightarrow> b mod 256 \<le> 127"
    by (simp only: word_le_nat_alt unat_byte_of_nat) simp
  then show ?thesis by (auto simp: sign_byte_def)
qed

text \<open>The leading bytes of an integer that fits a shorter width repeat its sign.\<close>

lemma neg_mod: "- m \<le> n \<Longrightarrow> n < 0 \<Longrightarrow> 0 < m \<Longrightarrow> n mod m = n + m" for n m :: int
  using mod_pos_pos_trivial[of "n + m" m] by simp

lemma be_bytes_4: "be_bytes 4 x = [word_of_nat (x div 16777216), word_of_nat (x div 65536),
    word_of_nat (x div 256), word_of_nat x]"
proof -
  have "4 = Suc (Suc (Suc (Suc 0)))" by simp
  then show ?thesis by (simp only: be_bytes.simps) simp
qed

lemma be_bytes_8: "be_bytes 8 x = [word_of_nat (x div 72057594037927936), word_of_nat (x div 281474976710656),
    word_of_nat (x div 1099511627776), word_of_nat (x div 4294967296)] @ be_bytes 4 x"
proof -
  have "8 = Suc (Suc (Suc (Suc 4)))" by simp
  then show ?thesis by (simp only: be_bytes.simps) simp
qed

lemma high_byte: "255 * 256 + 128 \<le> y \<Longrightarrow> y < 256 * 256 \<Longrightarrow> 128 \<le> y mod 256" for y :: nat
proof -
  assume y: "255 * 256 + 128 \<le> y" "y < 256 * 256"
  define r where "r = y - 255 * 256"
  have "y = r + 255 * 256" "r < 256" "128 \<le> r" using y by (simp_all add: r_def)
  then show ?thesis using mod_mult_self1[of r 255 256] by simp
qed

lemma sign_extend_24:
  assumes "in_range (- 8388608) 8388607 i"
  shows "u32_be (ucast i) = sign_byte (hd (drop 1 (u32_be (ucast i)))) # drop 1 (u32_be (ucast i))"
proof -
  define x where "x = unat (ucast i :: u32)"
  have x: "int x = sint i mod 2 ^ 32"
  proof -
    have "x = unat i mod 2 ^ 32" by (simp add: x_def unsigned_ucast_eq take_bit_eq_mod)
    then have "int x = (sint i mod 2 ^ 64) mod 2 ^ 32" by (simp add: unat_i64 zmod_int)
    then show ?thesis by (simp add: mod_mod_cancel)
  qed
  have "word_of_nat (x div 16777216) = sign_byte (word_of_nat (x div 65536))"
  proof (cases "0 \<le> sint i")
    case True
    then have "x < 8388608" using x assms by (simp add: in_range_def)
    then have "x div 16777216 = 0" "x div 65536 < 128" by (simp_all add: less_mult_imp_div_less)
    then show ?thesis by (simp add: sign_byte_nat)
  next
    case False
    then have "int x = sint i + 2 ^ 32" using x assms neg_mod[of "2 ^ 32" "sint i"] by (simp add: in_range_def)
    then have "4286578688 \<le> x" "x < 4294967296" using assms False by (simp_all add: in_range_def)
    then have q: "x div 16777216 = 255" and "65408 \<le> x div 65536" "x div 65536 < 65536"
      by (auto intro!: div_nat_eqI simp: less_eq_div_iff_mult_less_eq div_less_iff_less_mult)
    then have "128 \<le> x div 65536 mod 256" using high_byte[of "x div 65536"] by simp
    with q show ?thesis by (simp add: sign_byte_nat)
  qed
  then show ?thesis by (simp add: u32_be_def x_def[symmetric] be_bytes_4)
qed

lemma sign_extend_48:
  assumes "in_range (- 140737488355328) 140737488355327 i"
  shows "u64_be i = sign_byte (hd (drop 2 (u64_be i))) # sign_byte (hd (drop 2 (u64_be i))) # drop 2 (u64_be i)"
proof -
  define x where "x = unat i"
  have x: "int x = sint i mod 2 ^ 64" by (simp add: x_def unat_i64)
  have "word_of_nat (x div 72057594037927936) = sign_byte (word_of_nat (x div 1099511627776)) \<and>
      word_of_nat (x div 281474976710656) = sign_byte (word_of_nat (x div 1099511627776))"
  proof (cases "0 \<le> sint i")
    case True
    then have "x < 140737488355328" using x assms by (simp add: in_range_def)
    then have "x div 72057594037927936 = 0" "x div 281474976710656 = 0" "x div 1099511627776 < 128"
      by (simp_all add: less_mult_imp_div_less)
    then show ?thesis by (simp add: sign_byte_nat)
  next
    case False
    then have "int x = sint i + 2 ^ 64" using x assms neg_mod[of "2 ^ 64" "sint i"] by (simp add: in_range_def)
    then have "18446603336221196288 \<le> x" "x < 18446744073709551616"
      using assms False by (simp_all add: in_range_def)
    then have q: "x div 72057594037927936 = 255" "x div 281474976710656 = 65535"
      and "65408 + 16711680 \<le> x div 1099511627776" "x div 1099511627776 < 16777216"
      by (auto intro!: div_nat_eqI simp: less_eq_div_iff_mult_less_eq div_less_iff_less_mult)
    then have "128 \<le> (x div 1099511627776 - 16711680) mod 256" "16711680 \<le> x div 1099511627776"
      using high_byte[of "x div 1099511627776 - 16711680"] by simp_all
    then have "128 \<le> x div 1099511627776 mod 256"
      using mod_mult_self1[of "x div 1099511627776 - 16711680" 65280 256] by simp
    with q show ?thesis by (simp add: sign_byte_nat word_unat_eq_iff)
  qed
  then show ?thesis by (simp add: u64_be_def x_def[symmetric] be_bytes_8)
qed

section \<open>A column\<close>

text \<open>The values a record can hold: no NaN (the type \<open>NonNan\<close>), and texts and blobs whose length
  the serial type can express.\<close>

fun val_ok :: "val \<Rightarrow> bool" where
  "val_ok (VFloat f) = (\<not> is_nan f)"
| "val_ok (VText t) = (length t < 2 ^ 62)"
| "val_ok (VBlob b) = (length b < 2 ^ 62)"
| "val_ok _ = True"

lemma unat_blob_type: "n < 2 ^ 62 \<Longrightarrow> unat (blob_type (word_of_nat n)) = 12 + 2 * n"
  by (simp add: blob_type_def unat_word_ariths unat_of_nat)

lemma unat_text_type: "n < 2 ^ 62 \<Longrightarrow> unat (text_type (word_of_nat n)) = 13 + 2 * n"
  by (simp add: text_type_def unat_word_ariths unat_of_nat)

lemma long_type:
  fixes w :: u64
  assumes "unat w = 12 + n"
  shows "w \<noteq> 0" "w \<noteq> 1" "w \<noteq> 2" "w \<noteq> 3" "w \<noteq> 4" "w \<noteq> 5" "w \<noteq> 6" "w \<noteq> 7" "w \<noteq> 8" "w \<noteq> 9" "12 \<le> w"
    "w mod 2 = 0 \<longleftrightarrow> even n"
proof -
  show "w \<noteq> 0" "w \<noteq> 1" "w \<noteq> 2" "w \<noteq> 3" "w \<noteq> 4" "w \<noteq> 5" "w \<noteq> 6" "w \<noteq> 7" "w \<noteq> 8" "w \<noteq> 9"
    using assms by auto
  show "12 \<le> w" using assms by (simp add: word_le_nat_alt)
  show "w mod 2 = 0 \<longleftrightarrow> even n"
    using assms by (simp add: word_unat_eq_iff unat_mod even_iff_mod_2_eq_zero) presburger
qed

lemma blob_column:
  assumes "length b < 2 ^ 62" "w = blob_type (word_of_nat (length b))"
  shows "serial_kind w = Some KBlob" "serial_size w = Some (length b)"
    "get_serial_type_size w = Inr (length b)"
    "read_value_serial_type (b @ rest) w = Inr (VBlob b, length b)"
proof -
  have u: "unat w = 12 + 2 * length b" using assms unat_blob_type by simp
  note l = long_type[OF u]
  have d: "unat ((w - 12) div 2) = length b"
    using u l(11) by (simp add: unat_div unat_sub)
  show k: "serial_kind w = Some KBlob" using l by (simp add: serial_kind_def)
  show "serial_size w = Some (length b)" using u by (simp add: serial_size_def k)
  show "get_serial_type_size w = Inr (length b)" using l d by (simp add: get_serial_type_size_def)
  show "read_value_serial_type (b @ rest) w = Inr (VBlob b, length b)"
    using l d by (simp add: read_value_serial_type_def get_prefix_def)
qed

lemma text_column:
  assumes "length b < 2 ^ 62" "w = text_type (word_of_nat (length b))"
  shows "serial_kind w = Some KText" "serial_size w = Some (length b)"
    "get_serial_type_size w = Inr (length b)"
    "read_value_serial_type (b @ rest) w = Inr (VText b, length b)"
proof -
  have u: "unat w = 12 + (1 + 2 * length b)" using assms unat_text_type by simp
  note l = long_type[OF u]
  have "13 \<le> w" using u by (simp add: word_le_nat_alt)
  then have d: "unat ((w - 13) div 2) = length b"
    using u by (simp add: unat_div unat_sub)
  show k: "serial_kind w = Some KText" using l by (simp add: serial_kind_def)
  show "serial_size w = Some (length b)" using u by (simp add: serial_size_def k)
  show "get_serial_type_size w = Inr (length b)" using l d by (simp add: get_serial_type_size_def)
  show "read_value_serial_type (b @ rest) w = Inr (VText b, length b)"
    using l d by (simp add: read_value_serial_type_def get_prefix_def)
qed

lemma be_u64_u64_be [simp]: "be_u64 (u64_be w) = w"
proof -
  have "unat w mod 256 ^ 8 = unat w" using unsigned_less[of w, where 'a = nat] by simp
  then show ?thesis by (simp only: be_u64_def u64_be_def from_be_be_bytes) simp
qed

lemma length_u64_be [simp]: "length (u64_be w) = 8"
  by (simp add: u64_be_def)

text \<open>The bytes an index expression of the readers picks out of a buffer that starts with \<open>c\<close>.\<close>

lemma take_nth:
  "length c = 2 \<Longrightarrow> [(c @ rest) ! 0, (c @ rest) ! 1] = c"
  "length c = 4 \<Longrightarrow> [(c @ rest) ! 0, (c @ rest) ! 1, (c @ rest) ! 2, (c @ rest) ! 3] = c"
  "length c = 3 \<Longrightarrow> [(c @ rest) ! 0, (c @ rest) ! 1, (c @ rest) ! 2] = c"
  "length c = 6 \<Longrightarrow> [(c @ rest) ! 0, (c @ rest) ! 1, (c @ rest) ! 2, (c @ rest) ! 3,
     (c @ rest) ! 4, (c @ rest) ! 5] = c"
  "length c = 8 \<Longrightarrow> [(c @ rest) ! 0, (c @ rest) ! 1, (c @ rest) ! 2, (c @ rest) ! 3,
     (c @ rest) ! 4, (c @ rest) ! 5, (c @ rest) ! 6, (c @ rest) ! 7] = c"
  by (auto simp: nth_append eval_nat_numeral length_Suc_conv)

lemma int_column:
  assumes "w = serial_type_of (VInteger i)"
  shows "\<exists>k c. serial_kind w = Some k \<and> int_content k i = Some c \<and> serial_size w = Some (length c) \<and>
    get_serial_type_size w = Inr (length c) \<and>
    (\<forall>rest. read_value_serial_type (c @ rest) w = Inr (VInteger i, length c))"
proof -
  consider "i = 0" "w = 8" | "i = 1" "w = 9" | "in_range (- 128) 127 i" "w = 1"
    | "in_range (- 32768) 32767 i" "w = 2" | "in_range (- 8388608) 8388607 i" "w = 3"
    | "in_range (- 2147483648) 2147483647 i" "w = 4"
    | "in_range (- 140737488355328) 140737488355327 i" "w = 5" | "w = 6"
    using assms by (auto split: if_splits)
  then show ?thesis
  proof cases
    case 1
    then show ?thesis
      by (simp add: serial_kind_def serial_size_def get_serial_type_size_def read_value_serial_type_def)
  next
    case 2
    then show ?thesis
      by (simp add: serial_kind_def serial_size_def get_serial_type_size_def read_value_serial_type_def)
  next
    case 3
    have "scast (ucast i :: u8) = i" using 3 by (intro scast_ucast_i64) (simp_all add: in_range_def)
    with 3 show ?thesis
      by (simp add: serial_kind_def serial_size_def get_serial_type_size_def read_value_serial_type_def)
  next
    case 4
    have "scast (ucast i :: u16) = i" using 4 by (intro scast_ucast_i64) (simp_all add: in_range_def)
    with 4 take_nth(1)[of "u16_be (ucast i)"] show ?thesis
      by (simp add: serial_kind_def serial_size_def get_serial_type_size_def read_value_serial_type_def be_i16_def)
  next
    case 5
    have s: "scast (ucast i :: u32) = i" using 5 by (intro scast_ucast_i64) (simp_all add: in_range_def)
    let ?c = "drop 1 (u32_be (ucast i))"
    have c: "sign_byte (hd ?c) # ?c = u32_be (ucast i)" "?c \<noteq> []" "length ?c = 3"
      using sign_extend_24[OF 5(1)] by (simp_all flip: length_greater_0_conv)
    have "[sign_byte ((?c @ rest) ! 0), (?c @ rest) ! 0, (?c @ rest) ! 1, (?c @ rest) ! 2] = u32_be (ucast i)" for rest
      using take_nth(3)[OF c(3), of rest] c(1,2) by (simp add: hd_conv_nth nth_append)
    with s 5 c(3) show ?thesis
      by (simp add: serial_kind_def serial_size_def get_serial_type_size_def read_value_serial_type_def
          be_i32_def Let_def)
  next
    case 6
    have "scast (ucast i :: u32) = i" using 6 by (intro scast_ucast_i64) (simp_all add: in_range_def)
    with 6 take_nth(2)[of "u32_be (ucast i)"] show ?thesis
      by (simp add: serial_kind_def serial_size_def get_serial_type_size_def read_value_serial_type_def be_i32_def)
  next
    case 7
    let ?c = "drop 2 (u64_be i)"
    have c: "sign_byte (hd ?c) # sign_byte (hd ?c) # ?c = u64_be i" "?c \<noteq> []" "length ?c = 6"
      using sign_extend_48[OF 7(1)] by (simp_all flip: length_greater_0_conv)
    have "[sign_byte ((?c @ rest) ! 0), sign_byte ((?c @ rest) ! 0), (?c @ rest) ! 0, (?c @ rest) ! 1,
        (?c @ rest) ! 2, (?c @ rest) ! 3, (?c @ rest) ! 4, (?c @ rest) ! 5] = u64_be i" for rest
      using take_nth(4)[OF c(3), of rest] c(1,2) by (simp add: hd_conv_nth nth_append)
    with 7 c(3) show ?thesis
      by (simp add: serial_kind_def serial_size_def get_serial_type_size_def read_value_serial_type_def Let_def)
  next
    case 8
    with take_nth(5)[of "u64_be i"] show ?thesis
      by (simp add: serial_kind_def serial_size_def get_serial_type_size_def read_value_serial_type_def)
  qed
qed

text \<open>The content of a value that has one, and what the readers make of it.\<close>

definition content :: "val \<Rightarrow> bytes" where
  "content v = (case value_content v of Some c \<Rightarrow> c | None \<Rightarrow> [])"

lemma column_spec:
  assumes "val_ok v"
  shows "value_content v = Some (content v)" "serial_size (serial_type_of v) = Some (length (content v))"
    "get_serial_type_size (serial_type_of v) = Inr (length (content v))"
    "read_value_serial_type (content v @ rest) (serial_type_of v) = Inr (v, length (content v))"
proof -
  have "value_content v = Some (content v) \<and> serial_size (serial_type_of v) = Some (length (content v)) \<and>
    get_serial_type_size (serial_type_of v) = Inr (length (content v)) \<and>
    read_value_serial_type (content v @ rest) (serial_type_of v) = Inr (v, length (content v))"
  proof (cases v)
    case VNull
    then show ?thesis
      by (simp add: content_def serial_kind_def serial_size_def get_serial_type_size_def read_value_serial_type_def)
  next
    case (VInteger i)
    then show ?thesis using int_column[OF refl, of i] by (auto simp: content_def simp del: serial_type_of.simps)
  next
    case (VFloat f)
    with assms take_nth(5)[of "u64_be f" rest] show ?thesis
      by (simp add: content_def serial_kind_def serial_size_def get_serial_type_size_def
          read_value_serial_type_def from_f64_def)
  next
    case (VText t)
    with assms text_column[OF _ refl, of t] show ?thesis by (simp add: content_def)
  next
    case (VBlob b)
    with assms blob_column[OF _ refl, of b] show ?thesis by (simp add: content_def)
  qed
  then show "value_content v = Some (content v)" "serial_size (serial_type_of v) = Some (length (content v))"
    "get_serial_type_size (serial_type_of v) = Inr (length (content v))"
    "read_value_serial_type (content v @ rest) (serial_type_of v) = Inr (v, length (content v))" by blast+
qed

lemma serial_type_null: "val_ok v \<Longrightarrow> serial_type_of v = 0 \<longleftrightarrow> v = VNull"
proof (cases v)
  case (VText t)
  moreover assume "val_ok v"
  ultimately show ?thesis using unat_text_type[of "length t"] by auto
next
  case (VBlob b)
  moreover assume "val_ok v"
  ultimately show ?thesis using unat_blob_type[of "length b"] by auto
qed auto

section \<open>The layout of a record\<close>

definition header_of :: "val list \<Rightarrow> bytes" where
  "header_of vs = concat (map (\<lambda>w. varint_enc (unat w)) (map serial_type_of vs))"

definition body_of :: "val list \<Rightarrow> bytes" where
  "body_of vs = concat (map content vs)"

definition record_bytes :: "val list \<Rightarrow> nat \<Rightarrow> bytes" where
  "record_bytes vs h = varint_enc h @ header_of vs @ body_of vs"

lemma header_of_Cons [simp]: "header_of (v # vs) = varint_enc (unat (serial_type_of v)) @ header_of vs"
  by (simp add: header_of_def)

lemma body_of_Cons [simp]: "body_of (v # vs) = content v @ body_of vs"
  by (simp add: body_of_def)

lemma layout_Nil [simp]: "header_of [] = []" "body_of [] = []"
  by (simp_all add: header_of_def body_of_def)

lemma write_serials_eq: "write_serials vs buf = Some (buf @ header_of vs)"
proof (induction vs arbitrary: buf)
  case (Cons v vs)
  let ?e = "varint_enc (unat (serial_type_of v))"
  have "write_varint (replicate 9 0) (serial_type_of v) = Some (?e @ drop (length ?e) (replicate 9 0), length ?e)"
    by (rule write_varint_eq) simp
  then show ?case by (simp add: Let_def Cons.IH)
qed simp

lemma write_contents_eq: "\<forall>v \<in> set vs. val_ok v \<Longrightarrow> write_contents vs buf = Some (buf @ body_of vs)"
  by (induction vs arbitrary: buf) (simp_all add: column_spec(1))

lemma record_serialize_eq:
  assumes "\<forall>v \<in> set vs. val_ok v" "length (header_of vs) < 2 ^ 63"
  shows "\<exists>h. h = length (header_of vs) + length (varint_enc h) \<and> calc_header_size (length (header_of vs)) = Some h \<and>
    record_serialize vs buf = Some (buf @ record_bytes vs h)"
proof -
  obtain h where h: "calc_header_size (length (header_of vs)) = Some h"
    "h = length (header_of vs) + length (varint_enc h)"
    using calc_header_size_ends[OF assms(2)] by blast
  then have "h < 2 ^ 64" using assms(2) length_varint_enc_le[of h] by simp
  then have "write_varint (replicate 9 0) (word_of_nat h) =
      Some (varint_enc h @ drop (length (varint_enc h)) (replicate 9 0), length (varint_enc h))"
    by (rule write_varint_size[rotated]) simp
  then show ?thesis
    using h assms(1)
    by (intro exI[of _ h])
       (simp add: record_serialize_def write_serials_eq write_contents_eq record_bytes_def)
qed

lemma collect_serials_eq:
  assumes "\<forall>v \<in> set vs. val_ok v" "length b = 9"
  shows "\<exists>b' ss. collect_serials vs b acc sh sv = Some (b', acc @ ss, sh + length (header_of vs), sv + length (body_of vs)) \<and>
    length b' = 9 \<and> concat (map (\<lambda>(b, n). take n b) ss) = header_of vs"
  using assms
proof (induction vs arbitrary: b acc sh sv)
  case (Cons v vs)
  let ?e = "varint_enc (unat (serial_type_of v))"
  let ?b = "?e @ drop (length ?e) b"
  have w: "write_varint b (serial_type_of v) = Some (?b, length ?e)"
    using write_varint_eq[of b "serial_type_of v"] Cons.prems(2) by simp
  have l: "length ?b = 9" using Cons.prems(2) length_varint_enc_le[of "unat (serial_type_of v)"] by simp
  have v: "val_ok v" and vs: "\<forall>v \<in> set vs. val_ok v" using Cons.prems(1) by simp_all
  obtain b' ss where "collect_serials vs ?b (acc @ [(?b, length ?e)]) (sh + length ?e) (sv + length (content v)) =
      Some (b', (acc @ [(?b, length ?e)]) @ ss, sh + length ?e + length (header_of vs), sv + length (content v) + length (body_of vs))"
    "length b' = 9" "concat (map (\<lambda>(b, n). take n b) ss) = header_of vs"
    using Cons.IH[OF vs l] by blast
  then show ?case
    using w column_spec(2)[OF v]
    by (intro exI[of _ b'] exI[of _ "(?b, length ?e) # ss"]) (simp add: add.assoc Let_def)
qed simp

lemma extend_eq: "length s \<le> length r \<Longrightarrow>
    extend_from_slice (done @ r, length done) s = Some ((done @ s) @ drop (length s) r, length (done @ s))"
  by (simp add: extend_from_slice_def)

lemma append_serials_eq:
  "length (concat (map (\<lambda>(b, n). take n b) ss)) \<le> length r \<Longrightarrow>
   append_serials ss (done @ r, length done) =
     (let s = concat (map (\<lambda>(b, n). take n b) ss) in
      Some ((done @ s) @ drop (length s) r, length (done @ s)))"
proof (induction ss arbitrary: "done" r)
  case (Cons p ss)
  obtain b n where p: "p = (b, n)" by (cases p)
  have "length (take n b) \<le> length r" "length (concat (map (\<lambda>(b, n). take n b) ss)) \<le> length (drop (length (take n b)) r)"
    using Cons.prems by (auto simp: p)
  then show ?case
    using Cons.IH[of "drop (length (take n b)) r" "done @ take n b"]
    by (simp add: p extend_eq Let_def del: length_take length_append) (simp add: add.commute)
qed (simp add: Let_def)

lemma append_contents_eq:
  "\<forall>v \<in> set vs. val_ok v \<Longrightarrow> length (body_of vs) \<le> length r \<Longrightarrow>
   append_contents vs (done @ r, length done) =
     Some ((done @ body_of vs) @ drop (length (body_of vs)) r, length (done @ body_of vs))"
proof (induction vs arbitrary: "done" r)
  case (Cons v vs)
  have "length (content v) \<le> length r" "length (body_of vs) \<le> length (drop (length (content v)) r)"
    using Cons.prems(2) by auto
  then show ?case
    using Cons.IH[of "drop (length (content v)) r" "done @ content v"] Cons.prems(1)
    by (simp add: column_spec(1) extend_eq del: length_append) (simp add: add.commute)
qed simp

lemma from_values_eq:
  assumes ok: "\<forall>v \<in> set vs. val_ok v" and len: "length (header_of vs) < 2 ^ 63"
  shows "\<exists>h. h = length (header_of vs) + length (varint_enc h) \<and> h < 2 ^ 64 \<and>
    calc_header_size (length (header_of vs)) = Some h \<and> from_values vs = Some (record_bytes vs h)"
proof -
  obtain h where h: "h = length (header_of vs) + length (varint_enc h)"
    "calc_header_size (length (header_of vs)) = Some h"
    using record_serialize_eq[OF assms, of "[]"] by blast
  have h64: "h < 2 ^ 64" using h(1) len length_varint_enc_le[of h] by simp
  obtain b ss where c: "collect_serials vs (replicate 9 0) [] 0 0 =
      Some (b, ss, length (header_of vs), length (body_of vs))"
    and b: "length b = 9" and ss: "concat (map (\<lambda>(b, n). take n b) ss) = header_of vs"
    using collect_serials_eq[OF ok, of "replicate 9 0" "[]" 0 0] by auto
  have w: "write_varint b (word_of_nat h) =
      Some (varint_enc h @ drop (length (varint_enc h)) b, length (varint_enc h))"
    by (rule write_varint_size) (use b h64 in simp_all)
  let ?z = "replicate (h + length (body_of vs)) (0 :: u8)"
  have 1: "extend_from_slice (?z, 0) (varint_enc h) =
      Some (varint_enc h @ drop (length (varint_enc h)) ?z, length (varint_enc h))"
    using extend_eq[of "varint_enc h" ?z "[]"] h(1) by simp
  have 2: "append_serials ss (varint_enc h @ drop (length (varint_enc h)) ?z, length (varint_enc h)) =
      Some ((varint_enc h @ header_of vs) @ drop (length (header_of vs)) (drop (length (varint_enc h)) ?z),
        length (varint_enc h @ header_of vs))"
    using append_serials_eq[of ss "drop (length (varint_enc h)) ?z" "varint_enc h"] h(1)
    by (simp add: ss Let_def)
  have "drop (length (header_of vs)) (drop (length (varint_enc h)) ?z) = replicate (length (body_of vs)) 0"
    using h(1) by simp
  then have 3: "append_contents vs
      ((varint_enc h @ header_of vs) @ drop (length (header_of vs)) (drop (length (varint_enc h)) ?z),
        length (varint_enc h @ header_of vs)) =
      Some (varint_enc h @ header_of vs @ body_of vs, length (varint_enc h @ header_of vs @ body_of vs))"
    using append_contents_eq[OF ok, of "replicate (length (body_of vs)) 0" "varint_enc h @ header_of vs"] by simp
  have "from_values vs = Some (record_bytes vs h)"
    unfolding from_values_def c
    by (simp add: h(2) w 1 2 3 record_bytes_def del: drop_drop drop_replicate length_append append_assoc)
  then show ?thesis using h h64 by blast
qed

section \<open>Reading a record back\<close>

definition iter_of :: "val list \<Rightarrow> value_iterator" where
  "iter_of vs = \<lparr> header_section = header_of vs, data_section = body_of vs \<rparr>"

lemma header_of_Nil_iff [simp]: "header_of vs = [] \<longleftrightarrow> vs = []"
  by (cases vs) (simp_all add: varint_enc_nonempty)

lemma read_header [simp]:
  "read_varint (varint_enc (unat w) @ rest) = Inr (w, length (varint_enc (unat w)))"
  by (rule vc.dec_enc)

lemma value_iterator_new_record:
  assumes "h = length (header_of vs) + length (varint_enc h)" "h < 2 ^ 64"
  shows "value_iterator_new (record_bytes vs h) = Inr (iter_of vs)"
    "read_varint (record_bytes vs h) = Inr (word_of_nat h, length (varint_enc h))" "unat (word_of_nat h :: u64) = h"
    "h \<le> length (record_bytes vs h)" "slice_range (record_bytes vs h) (length (varint_enc h)) h = header_of vs"
proof -
  show r: "read_varint (record_bytes vs h) = Inr (word_of_nat h, length (varint_enc h))"
    using read_varint_enc[OF assms(2)] by (simp add: record_bytes_def)
  show u: "unat (word_of_nat h :: u64) = h" using assms(2) by (simp add: unat_of_nat)
  show l: "h \<le> length (record_bytes vs h)"
    using assms(1) by (simp add: record_bytes_def)
  have "h - length (varint_enc h) = length (header_of vs)" using assms(1) by simp
  then show s: "slice_range (record_bytes vs h) (length (varint_enc h)) h = header_of vs"
    by (simp add: slice_range_def record_bytes_def)
  have "drop h (record_bytes vs h) = drop (h - length (varint_enc h)) (header_of vs @ body_of vs)"
    using assms(1) by (simp add: record_bytes_def)
  also have "\<dots> = body_of vs" unfolding \<open>h - length (varint_enc h) = length (header_of vs)\<close> by simp
  finally have "drop h (record_bytes vs h) = body_of vs" .
  then show "value_iterator_new (record_bytes vs h) = Inr (iter_of vs)"
    using assms(1) l by (simp add: value_iterator_new_def r u s iter_of_def)
qed

lemma value_next_iter:
  "val_ok v \<Longrightarrow> value_next (iter_of (v # vs)) = (Some (Inr v), iter_of vs)"
  "value_next (iter_of []) = (None, iter_of [])"
  by (simp_all add: value_next_def iter_of_def Let_def column_spec(4) varint_enc_nonempty)

lemma skip_columns_eq:
  "\<forall>v \<in> set vs. val_ok v \<Longrightarrow> skip_columns n (header_of vs) d =
     (if n \<le> length vs then Inr (header_of (drop n vs), d + length (body_of (take n vs))) else Inl None)"
proof (induction n arbitrary: vs d)
  case (Suc n)
  show ?case
  proof (cases vs)
    case (Cons v ws)
    then show ?thesis using Suc by (simp add: column_spec(3) varint_enc_nonempty)
  qed simp
qed simp

lemma body_of_split: "body_of vs = body_of (take n vs) @ body_of (drop n vs)"
  by (metis append_take_drop_id body_of_def concat_append map_append)

lemma value_nth_iter:
  assumes "\<forall>v \<in> set vs. val_ok v"
  shows "value_nth (iter_of vs) n = (if n < length vs then (Some (Inr (vs ! n)), iter_of (drop (Suc n) vs))
     else (None, if n = length vs then iter_of [] else iter_of vs))"
proof (cases "n \<le> length vs")
  case True
  have "length (body_of (take n vs)) \<le> length (body_of vs)" "drop (length (body_of (take n vs))) (body_of vs) = body_of (drop n vs)"
    using body_of_split[of vs n] by simp_all
  then have e: "value_nth (iter_of vs) n = value_next (iter_of (drop n vs))"
    using True skip_columns_eq[OF assms, of n 0] by (simp add: value_nth_def iter_of_def)
  show ?thesis
  proof (cases "n < length vs")
    case True
    then have "val_ok (vs ! n)" using assms by simp
    then show ?thesis using value_next_iter(1)[of "vs ! n"] e Cons_nth_drop_Suc[OF True] True by metis
  next
    case False
    then show ?thesis using e True by (simp add: value_next_iter(2))
  qed
next
  case False
  then show ?thesis using skip_columns_eq[OF assms, of n 0] by (simp add: value_nth_def iter_of_def)
qed

lemma contains_null_loop_eq:
  "\<forall>v \<in> set vs. val_ok v \<Longrightarrow> contains_null_loop (header_of vs) = Inr (VNull \<in> set vs)"
proof (induction vs)
  case (Cons v vs)
  then show ?case
    by (subst contains_null_loop.simps) (auto simp: varint_enc_nonempty serial_type_null)
qed (simp add: contains_null_loop.simps)

lemma count_loop_eq: "count_loop (header_of vs) n = n + length vs"
proof (induction vs arbitrary: n)
  case (Cons v vs)
  then show ?case by (subst count_loop.simps) (simp add: varint_enc_nonempty)
qed (simp add: count_loop.simps)

lemma last_loop_eq:
  "\<forall>v \<in> set vs. val_ok v \<Longrightarrow>
   last_loop (iter_of vs) acc = Some (if vs = [] then acc else Some (Inr (last vs)))"
proof (induction vs arbitrary: acc)
  case (Cons v vs)
  then show ?case by (subst last_loop.simps) (simp add: value_next_iter)
qed (subst last_loop.simps, simp add: value_next_iter)

section \<open>The three readers of a column agree\<close>

lemma sign_shift_eq: "sign_shift b = sign_byte b"
proof -
  have u: "uint b < 256" "0 \<le> uint b" using uint_lt2p[of b] by simp_all
  have "sint b = (uint b + 128) mod 256 - 128"
    by (simp add: sint_uint signed_take_bit_eq_take_bit_shift take_bit_eq_mod)
  then have s: "sint b = (if uint b < 128 then uint b else uint b - 256)"
    using u mod_pos_pos_trivial[of "uint b + 128" 256] mod_pos_pos_trivial[of "uint b - 128" 256]
      mod_add_self2[of "uint b - 128" 256] by (auto simp: add.commute split: if_splits)
  have l: "b \<le> 0x7f \<longleftrightarrow> uint b < 128" by (simp add: word_le_def) linarith
  show ?thesis
  proof (cases "uint b < 128")
    case True
    then have "sint b div 2 ^ 7 = 0" using s u by (simp add: div_pos_pos_trivial)
    then show ?thesis using True l by (simp add: sign_shift_def sign_byte_def)
  next
    case False
    then have "sint b div 2 ^ 7 = - 1" using s u by simp
    then show ?thesis using False l by (simp add: sign_shift_def sign_byte_def)
  qed
qed

lemma take_eq_nths:
  "2 \<le> length b \<Longrightarrow> take 2 b = [b ! 0, b ! 1]"
  "3 \<le> length b \<Longrightarrow> take 3 b = [b ! 0, b ! 1, b ! 2]"
  "4 \<le> length b \<Longrightarrow> take 4 b = [b ! 0, b ! 1, b ! 2, b ! 3]"
  "6 \<le> length b \<Longrightarrow> take 6 b = [b ! 0, b ! 1, b ! 2, b ! 3, b ! 4, b ! 5]"
  "8 \<le> length b \<Longrightarrow> take 8 b = [b ! 0, b ! 1, b ! 2, b ! 3, b ! 4, b ! 5, b ! 6, b ! 7]"
  by (auto simp: list_eq_iff_nth_eq less_Suc_eq numeral_eq_Suc)

lemma serial_cases:
  assumes "u64_is_valid_serial_type w"
  shows "w = 0 \<or> w = 1 \<or> w = 2 \<or> w = 3 \<or> w = 4 \<or> w = 5 \<or> w = 6 \<or> w = 7 \<or> w = 8 \<or> w = 9 \<or> 12 \<le> w"
proof (rule ccontr)
  assume n: "\<not> ?thesis"
  then have "unat w < 12" by (simp add: word_le_nat_alt)
  moreover have "unat w \<noteq> 0" "unat w \<noteq> 1" "unat w \<noteq> 2" "unat w \<noteq> 3" "unat w \<noteq> 4" "unat w \<noteq> 5"
    "unat w \<noteq> 6" "unat w \<noteq> 7" "unat w \<noteq> 8" "unat w \<noteq> 9" "unat w \<noteq> 10" "unat w \<noteq> 11"
    using n assms by (auto simp: u64_is_valid_serial_type_def word_unat_eq_iff)
  ultimately show False by presburger
qed

lemma read_value_long:
  assumes w: "12 \<le> w" shows "read_value buf w = read_value_serial_type buf w"
proof -
  have u: "unat w = 12 + (unat w - 12)" using w by (simp add: word_le_nat_alt)
  note l = long_type[OF u]
  show ?thesis
  proof (cases "w mod 2 = 0")
    case True
    then have "unat ((w - 12) div 2) = (unat w - 12) div 2" using w by (simp add: unat_div unat_sub)
    with True l show ?thesis
      by (simp add: read_value_def read_value_serial_type_def serial_size_def serial_kind_def Let_def)
  next
    case False
    then have "odd (unat w - 12)" using l(12) by simp
    then have "13 \<le> unat w" using u by presburger
    then have "unat ((w - 13) div 2) = (unat w - 13) div 2" by (simp add: unat_div unat_sub word_le_nat_alt)
    with False l show ?thesis
      by (simp add: read_value_def read_value_serial_type_def serial_size_def serial_kind_def Let_def)
  qed
qed

lemma read_value_eq:
  assumes "u64_is_valid_serial_type w"
  shows "read_value buf w = read_value_serial_type buf w"
  using serial_cases[OF assms] read_value_long[of w buf]
  by (elim disjE)
     (simp_all add: read_value_def read_value_serial_type_def serial_kind_def get_prefix_def slice_get_def
        take_eq_nths sign_shift_eq Let_def)

lemma read_integer_eq:
  "read_integer buf w =
     (if w \<in> {1, 2, 3, 4, 5, 6, 8, 9}
      then rbind (read_value_serial_type buf (ucast w)) (\<lambda>(v, n). case v of VInteger i \<Rightarrow> Inr i | _ \<Rightarrow> Inl Panic)
      else Inl Corrupt)"
  by (auto simp: read_integer_def read_value_serial_type_def Let_def)

section \<open>Properties\<close>

lemma header_of_len: "length (header_of vs) \<le> 9 * length vs"
proof (induction vs)
  case (Cons v vs)
  then show ?case using length_varint_enc_le[of "unat (serial_type_of v)"] by simp
qed simp

lemma record_layout:
  assumes "\<forall>v \<in> set vs. val_ok v" "length vs < 2 ^ 59"
  obtains h where "h = length (header_of vs) + length (varint_enc h)" "h < 2 ^ 64"
    "from_values vs = Some (record_bytes vs h)"
    "\<And>buf. record_serialize vs buf = Some (buf @ record_bytes vs h)"
proof -
  have "length (header_of vs) < 2 ^ 63" using header_of_len[of vs] assms(2) by simp
  note l = from_values_eq[OF assms(1) this] record_serialize_eq[OF assms(1) this]
  obtain h where h: "h = length (header_of vs) + length (varint_enc h)" "h < 2 ^ 64"
    "calc_header_size (length (header_of vs)) = Some h" "from_values vs = Some (record_bytes vs h)"
    using l(1) by blast
  have "record_serialize vs buf = Some (buf @ record_bytes vs h)" for buf
    using l(2)[of buf] h(3) by auto
  with h(1,2,4) show thesis by (rule that)
qed

lemma record_nonempty: "record_bytes vs h \<noteq> []"
  by (simp add: record_bytes_def varint_enc_nonempty)

text \<open>C6: (\<open>ImmutableRecord::from_values\<close>, \<open>ImmutableRecord::get_value\<close>,
  \<open>ImmutableRecord::column_count\<close>) a record built from values is read back exactly: building it
  never panics, it has as many columns as there were values, column \<open>i\<close> is the value \<open>i\<close>, and
  an index behind the last column is an error.\<close>

theorem record_roundtrip:
  assumes "\<forall>v \<in> set vs. val_ok v" "length vs < 2 ^ 59"
  shows "\<exists>payload. from_values vs = Some payload \<and> column_count payload = length vs \<and>
    (\<forall>i. get_value payload i = (if i < length vs then Inr (vs ! i) else Inl InternalError))"
proof -
  obtain h where h: "h = length (header_of vs) + length (varint_enc h)" "h < 2 ^ 64"
    "from_values vs = Some (record_bytes vs h)"
    using record_layout[OF assms] by blast
  note r = value_iterator_new_record[OF h(1,2)]
  have "column_count (record_bytes vs h) = length vs"
    using count_loop_eq[of vs 0] by (simp add: column_count_def r(1) value_count_def iter_of_def)
  moreover have "get_value (record_bytes vs h) i = (if i < length vs then Inr (vs ! i) else Inl InternalError)" for i
    using value_nth_iter[OF assms(1), of i] by (simp add: get_value_def r(1) record_nonempty)
  ultimately show ?thesis using h(3) by blast
qed

theorem record_roundtrip_witness:
  "\<exists>payload. from_values [VInteger 300, VNull, VText [104, 105]] = Some payload \<and>
     get_value payload 2 = Inr (VText [104, 105])"
  using record_roundtrip[of "[VInteger 300, VNull, VText [104, 105]]"] by auto

text \<open>C23: (\<open>Record::serialize\<close>, \<open>ImmutableRecord::from_values\<close>) the serialiser that appends to a
  growing buffer and the one that fills a buffer of a precomputed size write the same bytes.\<close>

theorem serialize_eq_from_values:
  assumes "\<forall>v \<in> set vs. val_ok v" "length vs < 2 ^ 59"
  shows "record_serialize vs buf = map_option (\<lambda>payload. buf @ payload) (from_values vs)"
proof -
  obtain h where "from_values vs = Some (record_bytes vs h)"
    "record_serialize vs buf = Some (buf @ record_bytes vs h)"
    using record_layout[OF assms] by blast
  then show ?thesis by simp
qed

theorem serialize_eq_from_values_witness:
  "record_serialize [VInteger (- 1), VBlob [7]] [] = from_values [VInteger (- 1), VBlob [7]]"
  using serialize_eq_from_values[of "[VInteger (- 1), VBlob [7]]" "[]"] by (simp add: option.map_id0[unfolded id_def])

text \<open>C26: (\<open>ImmutableRecord::contains_null\<close>, \<open>first_value\<close>, \<open>last_value\<close>) on a record built from
  values, the scan of the header finds a NULL exactly if one of the values is NULL, and the first
  and the last column are the first and the last value; the iteration to the last column ends.\<close>

theorem record_queries:
  assumes "\<forall>v \<in> set vs. val_ok v" "length vs < 2 ^ 59" "from_values vs = Some payload"
  shows "contains_null payload = Inr (VNull \<in> set vs) \<and>
    first_value payload = (if vs = [] then Inl InternalError else Inr (hd vs)) \<and>
    last_value payload = Some (if vs = [] then None else Some (Inr (last vs)))"
proof -
  obtain h where h: "h = length (header_of vs) + length (varint_enc h)" "h < 2 ^ 64"
    "payload = record_bytes vs h"
    using record_layout[OF assms(1,2)] assms(3) by auto
  note r = value_iterator_new_record[OF h(1,2)]
  have "contains_null payload = Inr (VNull \<in> set vs)"
    using r(2-5) h(1) contains_null_loop_eq[OF assms(1)] by (auto simp: h(3) contains_null_def Let_def)
  moreover have "first_value payload = (if vs = [] then Inl InternalError else Inr (hd vs))"
    unfolding h(3) first_value_def r(1) using assms(1)
    by (cases vs) (simp_all add: record_nonempty value_next_iter)
  moreover have "last_value payload = Some (if vs = [] then None else Some (Inr (last vs)))"
    by (simp add: h(3) last_value_def r(1) record_nonempty last_loop_eq[OF assms(1)])
  ultimately show ?thesis by blast
qed

theorem record_queries_witness:
  "\<exists>payload. from_values [VInteger 5, VNull] = Some payload \<and> contains_null payload = Inr True"
proof -
  obtain payload where p: "from_values [VInteger 5, VNull] = Some payload"
    using record_layout[of "[VInteger 5, VNull]"] by auto
  then show ?thesis using record_queries[OF _ _ p] by simp
qed

lemma header_size_loop_least:
  assumes "h \<le> s + length (varint_enc h)" "s < 2 ^ 63" "h \<le> m" "m = s + length (varint_enc m)"
  shows "the (header_size_loop s h) \<le> m"
  using assms(1,3)
proof (induction "s + 9 - h" arbitrary: h rule: less_induct)
  case less
  let ?h = "s + length (varint_enc h)"
  have b: "h < 2 ^ 64" "?h \<le> s + 9" using less.prems assms(2) length_varint_enc_le[of h] by simp_all
  show ?case
  proof (cases "?h = h")
    case True
    then show ?thesis using header_size_loop_step[OF b(1), of s] less.prems(2) by (simp add: Let_def)
  next
    case False
    then have "h < ?h" using less.prems(1) by simp
    moreover from this have "?h \<le> s + length (varint_enc ?h)" using varint_len_mono[of h ?h] by simp
    moreover have "?h \<le> m" using varint_len_mono[OF less.prems(2)] assms(4) by simp
    ultimately have "the (header_size_loop s ?h) \<le> m" using less.hyps[of ?h] b(2) by simp
    then show ?thesis using header_size_loop_step[OF b(1), of s] False by (simp add: Let_def)
  qed
qed

text \<open>C24: (\<open>Record::calc_header_size\<close>) the search for the size of a header that contains its own
  size ends, and finds the least size that is the size of the serial types plus the length of its
  own encoding.\<close>

theorem calc_header_size_least:
  assumes "s < 2 ^ 63"
  shows "\<exists>r. calc_header_size s = Some r \<and> r = s + varint_len (word_of_nat r) \<and>
    (\<forall>m < r. m \<noteq> s + varint_len (word_of_nat m))"
proof -
  obtain r where r: "calc_header_size s = Some r" "r = s + length (varint_enc r)"
    using calc_header_size_ends[OF assms] by blast
  have len: "m \<le> r \<Longrightarrow> varint_len (word_of_nat m) = length (varint_enc m)" for m
  proof -
    assume "m \<le> r"
    then have "m < 2 ^ 64" using r(2) assms length_varint_enc_le[of r] by simp
    then show ?thesis by (simp add: varint_len_eq unat_of_nat)
  qed
  have "r \<le> m" if "m \<le> r" "m = s + length (varint_enc m)" for m
  proof (cases "s < 127")
    case True
    then have "r = s + 1" using r(1) by (simp add: calc_header_size_def)
    moreover have "length (varint_enc m) \<noteq> 0" by (simp add: varint_enc_nonempty)
    ultimately show ?thesis using that(2) by linarith
  next
    case False
    then show ?thesis
      using header_size_loop_least[of s s m, OF _ assms _ that(2)] r(1) that(2) by (simp add: calc_header_size_def)
  qed
  then show ?thesis using r len by (metis less_imp_le_nat not_less order_refl)
qed

theorem calc_header_size_least_witness: "calc_header_size 127 = Some 129"
proof -
  have g: "length (varint_enc 129) = 2" "length (varint_enc 128) = 2" "length (varint_enc 127) = 1"
    by (simp_all add: length_varint_enc groups7.simps)
  obtain r where r: "calc_header_size 127 = Some r" "r = 127 + varint_len (word_of_nat r)"
    "\<forall>m < r. m \<noteq> 127 + varint_len (word_of_nat m)"
    using calc_header_size_least[of 127] by auto
  have "129 = 127 + varint_len (word_of_nat 129)" using g by (simp add: varint_len_eq)
  then have "r \<le> 129" using r(3) by (meson not_le)
  moreover have "0 < varint_len (word_of_nat r)" by (simp add: varint_len_eq varint_enc_nonempty)
  then have "127 < r" using r(2) by simp
  moreover have "r \<noteq> 128" using g(2) r(2) by (auto simp: varint_len_eq)
  ultimately show ?thesis using r(1) by (cases "r = 129") simp_all
qed

text \<open>C25: (\<open>read_value\<close>, \<open>read_value_serial_type\<close>, \<open>read_integer\<close>) the reader by kind and the
  reader by serial number agree on every buffer for every valid serial type, errors included, and
  the integer fast path agrees with them on the integer types and refuses every other one.\<close>

theorem readers_agree:
  "(u64_is_valid_serial_type w \<longrightarrow> read_value buf w = read_value_serial_type buf w) \<and>
   read_integer buf b =
     (if b \<in> {1, 2, 3, 4, 5, 6, 8, 9}
      then rbind (read_value_serial_type buf (ucast b)) (\<lambda>(v, n). case v of VInteger i \<Rightarrow> Inr i | _ \<Rightarrow> Inl Panic)
      else Inl Corrupt)"
  using read_value_eq[of w buf] read_integer_eq[of buf b] by blast

theorem readers_agree_witness:
  "read_value [0xff, 0xfe] 2 = Inr (VInteger (- 2), 2)"
proof -
  have "u64_is_valid_serial_type 2" by (simp add: u64_is_valid_serial_type_def)
  then have "read_value [0xff, 0xfe] 2 = read_value_serial_type [0xff, 0xfe] 2"
    using readers_agree[of 2 "[0xff, 0xfe]" 0] by simp
  also have "\<dots> = Inr (VInteger (- 2), 2)"
    by (simp add: read_value_serial_type_def be_i16_def be_u16_def from_be_def)
  finally show ?thesis .
qed

section \<open>Divergences\<close>

text \<open>A record whose header size is encoded in more bytes than the size itself makes
  \<open>contains_null\<close> panic, where the iterator reports corruption.\<close>

theorem contains_null_panics:
  "contains_null [0x80, 0x01] = Inl Panic" "value_iterator_new [0x80, 0x01] = Inl Corrupt"
  by code_simp+

text \<open>An iterator whose header is a truncated varint returns an error without advancing, so that
  running it to the end, as \<open>last_value\<close> does, never returns.\<close>

lemma value_next_stuck:
  "header_section it \<noteq> [] \<Longrightarrow> read_varint (header_section it) = Inl e \<Longrightarrow> value_next it = (Some (Inl e), it)"
  by (simp add: value_next_def Let_def)

lemma last_loop_stuck:
  assumes "header_section it \<noteq> []" "read_varint (header_section it) = Inl e"
  shows "last_loop it acc = None"
proof (rule ccontr)
  assume "last_loop it acc \<noteq> None"
  then obtain r where "last_loop it acc = Some r" by blast
  then have "\<not> (header_section it \<noteq> [] \<and> read_varint (header_section it) = Inl e)"
  proof (rule last_loop.raw_induct[rotated])
    fix f :: "value_iterator \<Rightarrow> val result option \<Rightarrow> val result option option" and it acc y
    assume IH: "\<And>it acc y. f it acc = Some y \<Longrightarrow>
        \<not> (header_section it \<noteq> [] \<and> read_varint (header_section it) = Inl e)"
      and r: "(case value_next it of (None, _) \<Rightarrow> Some acc | (Some item, it) \<Rightarrow> f it (Some item)) = Some y"
    show "\<not> (header_section it \<noteq> [] \<and> read_varint (header_section it) = Inl e)"
    proof
      assume s: "header_section it \<noteq> [] \<and> read_varint (header_section it) = Inl e"
      then have "f it (Some (Inl e)) = Some y" using r by (simp add: value_next_stuck)
      from IH[OF this] s show False by blast
    qed
  qed
  with assms show False by blast
qed

theorem last_value_diverges: "last_value [0x02, 0x81] = None"
proof -
  have n: "value_iterator_new [0x02, 0x81] = Inr \<lparr> header_section = [0x81], data_section = [] \<rparr>"
    by code_simp
  have "read_varint [0x81] = Inl Corrupt" by code_simp
  then show ?thesis using last_loop_stuck[of "\<lparr> header_section = [0x81], data_section = [] \<rparr>" Corrupt None]
    by (simp add: last_value_def n)
qed

text \<open>\<open>serialize_serial\<close> panics on the integers 0 and 1, whose serial types hold no content.\<close>

theorem serialize_serial_panics: "serialize_serial (VInteger 0) out = None" "serialize_serial (VInteger 1) out = None"
  by (simp_all add: serial_kind_def)

end
