(* ===== verification/Record_Compare.thy ===== *)
theory Record_Compare
  imports Record_Format "HOL-Library.Sorting_Algorithms" "HOL-Library.Product_Lexorder" "HOL-Library.List_Lexorder"
begin

text \<open>
  The order of values and records: \<open>Numeric::cmp\<close> and \<open>sqlite_int_float_cmp\<close> of
  \<open>core/numeric/mod.rs\<close>, \<open>ValueRef::cmp\<close>, the comparisons of unpacked values and the comparison of
  a serialised record with an unpacked key of \<open>core/types.rs\<close>, with the fast paths for keys that
  start with an integer or a text, and \<open>CollationSeq::compare_strings\<close> of
  \<open>core/translate/collate.rs\<close>.

  The result type \<open>Ordering\<close> is the library's \<^typ>\<open>comp\<close>. A float is compared through its exact
  value: every finite 64-bit float is an integer multiple of \<open>2 ^ - 1074\<close>, and the infinities take
  the next value of the same formula, beyond every finite one. The case-insensitive comparison of
  the third-party package \<open>uncased\<close> is a parameter \<open>nocase\<close> of the comparisons that use it.
  Debug assertions (\<open>turso_debug_assert\<close>) are left out: they are not part of a release build.
\<close>

section \<open>Orderings\<close>

definition cmp_of :: "'a::linorder \<Rightarrow> 'a \<Rightarrow> comp" where
  "cmp_of a b = (if a < b then Less else if a = b then Equiv else Greater)"

fun ord_reverse :: "comp \<Rightarrow> comp" where
  "ord_reverse Less = Greater"
| "ord_reverse Equiv = Equiv"
| "ord_reverse Greater = Less"

text \<open>The comparison of byte slices of the standard library.\<close>

fun bytes_cmp :: "bytes \<Rightarrow> bytes \<Rightarrow> comp" where
  "bytes_cmp [] [] = Equiv"
| "bytes_cmp [] (_ # _) = Less"
| "bytes_cmp (_ # _) [] = Greater"
| "bytes_cmp (x # xs) (y # ys) =
     (if x < y then Less else if y < x then Greater else bytes_cmp xs ys)"

section \<open>Floats\<close>

definition SCALE :: int where "SCALE = 2 ^ 1074"

definition f64_exponent :: "f64 \<Rightarrow> nat" where
  "f64_exponent f = unat (take_bit 11 (drop_bit 52 f))"

definition f64_mantissa :: "f64 \<Rightarrow> nat" where
  "f64_mantissa f = unat (take_bit 52 f)"

text \<open>The value of a float that is not a NaN, in units of \<open>2 ^ - 1074\<close>.\<close>

definition f64_scaled :: "f64 \<Rightarrow> int" where
  "f64_scaled f =
     (let e = f64_exponent f;
          m = f64_mantissa f;
          magnitude = (if e = 0 then int m else int (2 ^ 52 + m) * 2 ^ (e - 1))
      in if bit f 63 then - magnitude else magnitude)"

definition f64_partial_cmp :: "f64 \<Rightarrow> f64 \<Rightarrow> comp option" where
  "f64_partial_cmp f g =
     (if is_nan f \<or> is_nan g then None else Some (cmp_of (f64_scaled f) (f64_scaled g)))"

text \<open>The cast \<open>f as i64\<close>: towards zero, saturating, and zero for a NaN.\<close>

definition f64_as_i64 :: "f64 \<Rightarrow> int" where
  "f64_as_i64 f =
     (if is_nan f then 0
      else
        let k = f64_scaled f;
            t = (if k < 0 then - (- k div SCALE) else k div SCALE)
        in max (- (2 ^ 63)) (min (2 ^ 63 - 1) t))"

text \<open>The value of the cast \<open>i as f64\<close>: rounded to 53 significant bits, ties to even.\<close>

fun bit_length :: "nat \<Rightarrow> nat" where
  "bit_length n = (if n = 0 then 0 else Suc (bit_length (n div 2)))"

declare bit_length.simps [simp del]

definition round53 :: "nat \<Rightarrow> nat" where
  "round53 n =
     (if n < 2 ^ 53 then n
      else
        let s = bit_length n - 53;
            q = n div 2 ^ s;
            r = n mod 2 ^ s;
            q = (if 2 * r > 2 ^ s \<or> (2 * r = 2 ^ s \<and> odd q) then q + 1 else q)
        in q * 2 ^ s)"

definition i64_as_f64 :: "int \<Rightarrow> int" where
  "i64_as_f64 i = (if i < 0 then - int (round53 (nat (- i))) else int (round53 (nat i))) * SCALE"

definition sqlite_int_float_cmp :: "i64 \<Rightarrow> f64 \<Rightarrow> comp" where
  "sqlite_int_float_cmp int_val float_val =
     (if is_nan float_val then Greater
      else if f64_scaled float_val < - (2 ^ 63) * SCALE then Greater
      else if f64_scaled float_val \<ge> 2 ^ 63 * SCALE then Less
      else
        let float_as_int = f64_as_i64 float_val in
        case cmp_of (sint int_val) float_as_int of
          Equiv \<Rightarrow>
            let int_as_float = i64_as_f64 (sint int_val) in
            cmp_of int_as_float (f64_scaled float_val)
        | c \<Rightarrow> c)"

section \<open>Values\<close>

text \<open>\<open>Numeric::cmp\<close> on the two numeric values.\<close>

fun numeric_cmp :: "val \<Rightarrow> val \<Rightarrow> comp" where
  "numeric_cmp (VInteger a) (VInteger b) = cmp_of (sint a) (sint b)"
| "numeric_cmp (VFloat a) (VFloat b) =
     (case f64_partial_cmp a b of Some c \<Rightarrow> c | None \<Rightarrow> Equiv)"
| "numeric_cmp (VInteger i) (VFloat f) = sqlite_int_float_cmp i f"
| "numeric_cmp (VFloat f) (VInteger i) = ord_reverse (sqlite_int_float_cmp i f)"
| "numeric_cmp _ _ = Equiv"

definition is_numeric :: "val \<Rightarrow> bool" where
  "is_numeric v \<longleftrightarrow> (\<exists>i. v = VInteger i) \<or> (\<exists>f. v = VFloat f)"

lemma is_numeric_code [code, simp]:
  "is_numeric VNull = False" "is_numeric (VInteger i) = True" "is_numeric (VFloat f) = True"
  "is_numeric (VText t) = False" "is_numeric (VBlob b) = False"
  by (simp_all add: is_numeric_def)

text \<open>\<open>ValueRef::cmp\<close>\<close>

definition value_cmp :: "val \<Rightarrow> val \<Rightarrow> comp" where
  "value_cmp a b =
     (case (a, b) of
        (VNull, VNull) \<Rightarrow> Equiv
      | (VNull, _) \<Rightarrow> Less
      | (_, VNull) \<Rightarrow> Greater
      | _ \<Rightarrow>
          if is_numeric a \<and> is_numeric b then numeric_cmp a b
          else if is_numeric a then Less
          else if is_numeric b then Greater
          else
            (case (a, b) of
               (VText l, VText r) \<Rightarrow> bytes_cmp l r
             | (VText _, VBlob _) \<Rightarrow> Less
             | (VBlob _, VText _) \<Rightarrow> Greater
             | (VBlob l, VBlob r) \<Rightarrow> bytes_cmp l r
             | _ \<Rightarrow> Equiv))"

datatype collation_seq = CUnset | CBinary | CNoCase | CRtrim

datatype sort_order = Asc | Desc

datatype nulls_order = NullsFirst | NullsLast

text \<open>The comparisons below do not read \<open>nulls_order\<close>.\<close>

record key_info =
  sort_order :: sort_order
  collation :: collation_seq
  key_nulls_order :: "nulls_order option"

record index_info =
  ii_key_info :: "key_info list"
  has_rowid :: bool
  num_cols :: nat
  is_unique :: bool

text \<open>\<open>trim_end_matches(' ')\<close>, and the comparison under a collation.\<close>

definition rtrim :: "bytes \<Rightarrow> bytes" where
  "rtrim s = rev (dropWhile (\<lambda>b. b = 0x20) (rev s))"

fun compare_strings :: "(bytes \<Rightarrow> bytes \<Rightarrow> comp) \<Rightarrow> collation_seq \<Rightarrow> bytes \<Rightarrow> bytes \<Rightarrow> comp" where
  "compare_strings nocase CUnset lhs rhs = bytes_cmp lhs rhs"
| "compare_strings nocase CBinary lhs rhs = bytes_cmp lhs rhs"
| "compare_strings nocase CNoCase lhs rhs = nocase lhs rhs"
| "compare_strings nocase CRtrim lhs rhs = bytes_cmp (rtrim lhs) (rtrim rhs)"

definition compare_immutable_single ::
  "(bytes \<Rightarrow> bytes \<Rightarrow> comp) \<Rightarrow> val \<Rightarrow> val \<Rightarrow> collation_seq \<Rightarrow> comp" where
  "compare_immutable_single nocase l r coll =
     (case (l, r) of
        (VText left, VText right) \<Rightarrow> compare_strings nocase coll left right
      | _ \<Rightarrow> value_cmp l r)"

fun directed :: "sort_order \<Rightarrow> comp \<Rightarrow> comp" where
  "directed Asc c = c"
| "directed Desc c = ord_reverse c"

fun compare_immutable_loop :: "(bytes \<Rightarrow> bytes \<Rightarrow> comp) \<Rightarrow> (val \<times> val) list \<Rightarrow> key_info list \<Rightarrow> comp" where
  "compare_immutable_loop nocase ((l, r) # rest) (k # ks) =
     (let c = compare_immutable_single nocase l r (collation k) in
      if c \<noteq> Equiv then directed (sort_order k) c else compare_immutable_loop nocase rest ks)"
| "compare_immutable_loop nocase _ _ = Equiv"

text \<open>\<open>None\<close> is one of the assertions on the numbers of columns.\<close>

definition compare_immutable ::
  "(bytes \<Rightarrow> bytes \<Rightarrow> comp) \<Rightarrow> val list \<Rightarrow> val list \<Rightarrow> key_info list \<Rightarrow> comp option" where
  "compare_immutable nocase l r column_info =
     (if length l < length column_info \<or> length r < length column_info then None
      else
        let n = length column_info in
        Some (compare_immutable_loop nocase (zip (take n l) (take n r)) column_info))"

text \<open>\<open>compare_immutable_iter\<close> over two iterators of results.\<close>

fun compare_immutable_iter ::
  "(bytes \<Rightarrow> bytes \<Rightarrow> comp) \<Rightarrow> val result list \<Rightarrow> val result list \<Rightarrow> key_info list \<Rightarrow> comp result" where
  "compare_immutable_iter nocase (l # ls) (r # rs) (k # ks) =
     rbind l (\<lambda>l. rbind r (\<lambda>r.
       let c = compare_immutable_single nocase l r (collation k) in
       if c \<noteq> Equiv then Inr (directed (sort_order k) c)
       else compare_immutable_iter nocase ls rs ks))"
| "compare_immutable_iter nocase _ _ _ = Inr Equiv"

section \<open>A serialised record against a key\<close>

text \<open>\<open>\&payload[pos..]\<close>\<close>

definition slice_from :: "bytes \<Rightarrow> nat \<Rightarrow> bytes result" where
  "slice_from payload pos = (if pos \<le> length payload then Inr (drop pos payload) else Inl Panic)"

definition size_or_panic :: "u64 \<Rightarrow> nat result" where
  "size_or_panic serial_type = (case serial_size serial_type of None \<Rightarrow> Inl Panic | Some n \<Rightarrow> Inr n)"

fun generic_skip :: "bytes \<Rightarrow> nat \<Rightarrow> nat \<Rightarrow> nat \<Rightarrow> nat \<Rightarrow> (nat \<times> nat) result" where
  "generic_skip payload 0 header_end header_pos data_pos = Inr (header_pos, data_pos)"
| "generic_skip payload (Suc n) header_end header_pos data_pos =
     (if header_pos \<ge> header_end then Inr (header_pos, data_pos)
      else
        rbind (rbind (slice_from payload header_pos) read_varint) (\<lambda>(serial_type_raw, bytes_read).
        rbind (serial_type_try_from serial_type_raw) (\<lambda>serial_type.
          if serial_kind serial_type \<notin> {Some KConstInt0, Some KConstInt1, Some KNull}
          then rbind (size_or_panic serial_type) (\<lambda>sz.
                 generic_skip payload n header_end (header_pos + bytes_read) (data_pos + sz))
          else generic_skip payload n header_end (header_pos + bytes_read) data_pos)))"

text \<open>The value of the next column and the advanced data position.\<close>

definition generic_column :: "bytes \<Rightarrow> u64 \<Rightarrow> nat \<Rightarrow> (val \<times> nat) result" where
  "generic_column payload serial_type data_pos =
     (case serial_kind serial_type of
        Some KConstInt0 \<Rightarrow> Inr (VInteger 0, data_pos)
      | Some KConstInt1 \<Rightarrow> Inr (VInteger 1, data_pos)
      | Some KNull \<Rightarrow> Inr (VNull, data_pos)
      | _ \<Rightarrow>
          rbind (slice_from payload data_pos) (\<lambda>data.
          rbind (read_value data serial_type) (\<lambda>(v, field_size). Inr (v, data_pos + field_size))))"

fun generic_loop ::
  "(bytes \<Rightarrow> bytes \<Rightarrow> comp) \<Rightarrow> bytes \<Rightarrow> key_info list \<Rightarrow> nat \<Rightarrow> nat \<Rightarrow> comp \<Rightarrow> val list \<Rightarrow> nat \<Rightarrow> nat \<Rightarrow> nat \<Rightarrow> comp result"
where
  "generic_loop nocase payload infos field_limit header_end tie_breaker [] field_idx header_pos data_pos =
     Inr tie_breaker"
| "generic_loop nocase payload infos field_limit header_end tie_breaker (rhs_value # unpacked)
     field_idx header_pos data_pos =
     (if field_idx \<ge> field_limit \<or> header_pos \<ge> header_end then Inr tie_breaker
      else
        rbind (rbind (slice_from payload header_pos) read_varint) (\<lambda>(serial_type_raw, bytes_read).
        rbind (serial_type_try_from serial_type_raw) (\<lambda>serial_type.
        rbind (generic_column payload serial_type data_pos) (\<lambda>(lhs_value, data_pos).
          let comparison = compare_immutable_single nocase lhs_value rhs_value (collation (infos ! field_idx));
              final_comparison = directed (sort_order (infos ! field_idx)) comparison in
          if final_comparison \<noteq> Equiv then Inr final_comparison
          else generic_loop nocase payload infos field_limit header_end tie_breaker unpacked
                 (field_idx + 1) (header_pos + bytes_read) data_pos))))"

definition compare_records_generic ::
  "(bytes \<Rightarrow> bytes \<Rightarrow> comp) \<Rightarrow> bytes \<Rightarrow> val list \<Rightarrow> index_info \<Rightarrow> nat \<Rightarrow> comp \<Rightarrow> comp result" where
  "compare_records_generic nocase payload unpacked info skip tie_breaker =
     (if payload = [] then Inr Less
      else
        rbind (read_varint payload) (\<lambda>(header_size, header_pos).
          let header_end = unat header_size;
              data_pos = unat header_size in
          rbind (generic_skip payload skip header_end header_pos data_pos) (\<lambda>(header_pos, data_pos).
            let field_limit = min (length unpacked) (length (ii_key_info info)) in
            generic_loop nocase payload (ii_key_info info) field_limit header_end tie_breaker
              (drop skip unpacked) skip header_pos data_pos)))"

text \<open>The fast paths. \<open>None\<close> for the first key column is the index panic of \<open>key_info[0]\<close>; taking
  the first value of an empty key is the panic of \<open>unwrap\<close>.\<close>

definition compare_records_int ::
  "(bytes \<Rightarrow> bytes \<Rightarrow> comp) \<Rightarrow> bytes \<Rightarrow> val list \<Rightarrow> index_info \<Rightarrow> comp \<Rightarrow> comp result" where
  "compare_records_int nocase payload unpacked info tie_breaker =
     (if length payload < 2 then compare_records_generic nocase payload unpacked info 0 tie_breaker
      else
        rbind (read_varint payload) (\<lambda>(header_size, offset_1st_serialtype).
          let header_size = unat header_size in
          if length payload < header_size then Inl Corrupt
          else
            rbind (rbind (slice_from payload offset_1st_serialtype) read_varint) (\<lambda>(first_serial_type, _).
              if first_serial_type \<notin> {1, 2, 3, 4, 5, 6, 8, 9}
              then compare_records_generic nocase payload unpacked info 0 tie_breaker
              else
                rbind (rbind (slice_from payload header_size) (\<lambda>data. read_integer data (ucast first_serial_type)))
                  (\<lambda>lhs_int.
                  case unpacked of
                    [] \<Rightarrow> Inl Panic
                  | VInteger rhs_int # _ \<Rightarrow>
                      (case ii_key_info info of
                         [] \<Rightarrow> Inl Panic
                       | k # _ \<Rightarrow>
                           (case directed (sort_order k) (cmp_of (sint lhs_int) (sint rhs_int)) of
                              Equiv \<Rightarrow>
                                if length unpacked > 1
                                then compare_records_generic nocase payload unpacked info 1 tie_breaker
                                else Inr tie_breaker
                            | c \<Rightarrow> Inr c))
                  | _ # _ \<Rightarrow> compare_records_generic nocase payload unpacked info 0 tie_breaker))))"

definition compare_records_string ::
  "(bytes \<Rightarrow> bytes \<Rightarrow> comp) \<Rightarrow> bytes \<Rightarrow> val list \<Rightarrow> index_info \<Rightarrow> comp \<Rightarrow> comp result" where
  "compare_records_string nocase payload unpacked info tie_breaker =
     (if length payload < 2 then compare_records_generic nocase payload unpacked info 0 tie_breaker
      else
        rbind (read_varint payload) (\<lambda>(header_size, offset_1st_serialtype).
          let header_size = unat header_size in
          if length payload < header_size then Inl Corrupt
          else
            rbind (rbind (slice_from payload offset_1st_serialtype) read_varint) (\<lambda>(first_serial_type, _).
              if \<not> (first_serial_type \<ge> 13 \<and> first_serial_type AND 1 = 1)
              then compare_records_generic nocase payload unpacked info 0 tie_breaker
              else
                (case unpacked of
                   [] \<Rightarrow> Inl Panic
                 | VText rhs_text # _ \<Rightarrow>
                     rbind (serial_type_try_from first_serial_type) (\<lambda>serial_type.
                     rbind (rbind (slice_from payload header_size) (\<lambda>data. read_value data serial_type))
                       (\<lambda>(lhs_value, _).
                       case lhs_value of
                         VText lhs_text \<Rightarrow>
                           (case ii_key_info info of
                              [] \<Rightarrow> Inl Panic
                            | k # _ \<Rightarrow>
                                (case directed (sort_order k) (compare_strings nocase (collation k) lhs_text rhs_text) of
                                   Equiv \<Rightarrow>
                                     let len_cmp = cmp_of (length lhs_text) (length rhs_text) in
                                     if len_cmp \<noteq> Equiv then Inr (directed (sort_order k) len_cmp)
                                     else if length unpacked > 1
                                     then compare_records_generic nocase payload unpacked info 1 tie_breaker
                                     else Inr tie_breaker
                                 | c \<Rightarrow> Inr c))
                       | _ \<Rightarrow> compare_records_generic nocase payload unpacked info 0 tie_breaker))
                 | _ # _ \<Rightarrow> compare_records_generic nocase payload unpacked info 0 tie_breaker))))"

datatype record_compare = CompareInt | CompareString | CompareGeneric

fun run_compare ::
  "(bytes \<Rightarrow> bytes \<Rightarrow> comp) \<Rightarrow> record_compare \<Rightarrow> bytes \<Rightarrow> val list \<Rightarrow> index_info \<Rightarrow> nat \<Rightarrow> comp \<Rightarrow> comp result"
where
  "run_compare nocase CompareInt serialized unpacked info skip tie_breaker =
     compare_records_int nocase serialized unpacked info tie_breaker"
| "run_compare nocase CompareString serialized unpacked info skip tie_breaker =
     compare_records_string nocase serialized unpacked info tie_breaker"
| "run_compare nocase CompareGeneric serialized unpacked info skip tie_breaker =
     compare_records_generic nocase serialized unpacked info skip tie_breaker"

text \<open>\<open>None\<close> is the index panic of \<open>key_info[0]\<close>.\<close>

definition find_compare :: "val list \<Rightarrow> index_info \<Rightarrow> record_compare option" where
  "find_compare unpacked info =
     (if unpacked \<noteq> [] \<and> num_cols info \<le> 13 then
        (case hd unpacked of
           VInteger _ \<Rightarrow> Some CompareInt
         | VText _ \<Rightarrow>
             (case ii_key_info info of
                [] \<Rightarrow> None
              | k # _ \<Rightarrow> if collation k = CBinary then Some CompareString else Some CompareGeneric)
         | _ \<Rightarrow> Some CompareGeneric)
      else Some CompareGeneric)"

datatype seek_op = SeekGE bool | SeekGT | SeekLE bool | SeekLT

fun get_tie_breaker_from_seek_op :: "seek_op \<Rightarrow> comp" where
  "get_tie_breaker_from_seek_op (SeekGE True) = Equiv"
| "get_tie_breaker_from_seek_op (SeekLE True) = Equiv"
| "get_tie_breaker_from_seek_op (SeekGE False) = Greater"
| "get_tie_breaker_from_seek_op SeekGT = Less"
| "get_tie_breaker_from_seek_op (SeekLE False) = Less"
| "get_tie_breaker_from_seek_op SeekLT = Greater"

section \<open>The reference: lexicographic order\<close>

definition column_cmp :: "(bytes \<Rightarrow> bytes \<Rightarrow> comp) \<Rightarrow> key_info \<Rightarrow> val \<Rightarrow> val \<Rightarrow> comp" where
  "column_cmp nocase k l r = directed (sort_order k) (compare_immutable_single nocase l r (collation k))"

fun lex_cmp :: "(bytes \<Rightarrow> bytes \<Rightarrow> comp) \<Rightarrow> comp \<Rightarrow> key_info list \<Rightarrow> val list \<Rightarrow> val list \<Rightarrow> comp" where
  "lex_cmp nocase tie (k # ks) (l # ls) (r # rs) =
     (case column_cmp nocase k l r of
        Equiv \<Rightarrow> lex_cmp nocase tie ks ls rs
      | c \<Rightarrow> c)"
| "lex_cmp nocase tie _ _ _ = tie"

lemma directed_Equiv_iff [simp]: "directed s c = Equiv \<longleftrightarrow> c = Equiv" "directed s Equiv = Equiv"
  by (cases s; cases c; auto)+

lemma compare_immutable_loop_eq:
  "length ls = length ks \<Longrightarrow> length rs = length ks \<Longrightarrow>
   compare_immutable_loop nocase (zip ls rs) ks = lex_cmp nocase Equiv ks ls rs"
proof (induction ks arbitrary: ls rs)
  case (Cons k ks)
  obtain l ls' r rs' where [simp]: "ls = l # ls'" "rs = r # rs'"
    using Cons.prems by (cases ls; cases rs) auto
  show ?case
    using Cons by (auto simp: column_cmp_def Let_def split: comp.splits)
qed simp

lemma lex_cmp_take: "lex_cmp nocase tie ks (take (length ks) ls) (take (length ks) rs) = lex_cmp nocase tie ks ls rs"
proof (induction ks arbitrary: ls rs)
  case (Cons k ks)
  then show ?case by (cases ls; cases rs) (simp_all split: comp.splits)
qed simp

lemma compare_immutable_eq:
  assumes "length ks \<le> length ls" "length ks \<le> length rs"
  shows "compare_immutable nocase ls rs ks = Some (lex_cmp nocase Equiv ks ls rs)"
  using assms compare_immutable_loop_eq[of "take (length ks) ls" ks "take (length ks) rs" nocase]
  by (simp add: compare_immutable_def lex_cmp_take Let_def)

lemma compare_immutable_iter_eq:
  "compare_immutable_iter nocase (map Inr ls) (map Inr rs) ks = Inr (lex_cmp nocase Equiv ks ls rs)"
proof (induction ks arbitrary: ls rs)
  case (Cons k ks)
  then show ?case by (cases ls; cases rs) (auto simp: column_cmp_def Let_def split: comp.splits)
qed simp

section \<open>The generic comparison is lexicographic\<close>

lemma serial_type_valid: "val_ok v \<Longrightarrow> u64_is_valid_serial_type (serial_type_of v)"
  using column_spec(2)[of v] by (auto simp: u64_is_valid_serial_type_def serial_size_def serial_kind_def)

lemma try_from_valid [simp]: "u64_is_valid_serial_type w \<Longrightarrow> serial_type_try_from w = Inr w"
  by (auto simp: serial_type_try_from_def u64_is_valid_serial_type_def)

lemma fixed_kinds:
  assumes "val_ok v"
  shows "serial_kind (serial_type_of v) = Some KConstInt0 \<Longrightarrow> v = VInteger 0 \<and> content v = []"
    "serial_kind (serial_type_of v) = Some KConstInt1 \<Longrightarrow> v = VInteger 1 \<and> content v = []"
    "serial_kind (serial_type_of v) = Some KNull \<Longrightarrow> v = VNull \<and> content v = []"
proof -
  let ?w = "serial_type_of v"
  have r: "read_value_serial_type (content v @ []) ?w = Inr (v, length (content v))"
    using column_spec(4)[OF assms] .
  have w: "serial_kind ?w = Some KConstInt0 \<Longrightarrow> ?w = 8" "serial_kind ?w = Some KConstInt1 \<Longrightarrow> ?w = 9"
    "serial_kind ?w = Some KNull \<Longrightarrow> ?w = 0"
    by (simp_all add: serial_kind_def split: if_splits)
  show "serial_kind ?w = Some KConstInt0 \<Longrightarrow> v = VInteger 0 \<and> content v = []"
    using r w(1) by (simp add: read_value_serial_type_def)
  show "serial_kind ?w = Some KConstInt1 \<Longrightarrow> v = VInteger 1 \<and> content v = []"
    using r w(2) by (simp add: read_value_serial_type_def)
  show "serial_kind ?w = Some KNull \<Longrightarrow> v = VNull \<and> content v = []"
    using r w(3) by (auto simp: read_value_serial_type_def)
qed

lemma generic_column_eq:
  assumes v: "val_ok v" and d: "pos \<le> length payload" "drop pos payload = content v @ rest"
  shows "generic_column payload (serial_type_of v) pos = Inr (v, pos + length (content v))"
proof -
  have "read_value (content v @ rest) (serial_type_of v) = Inr (v, length (content v))"
    using read_value_eq[OF serial_type_valid[OF v]] column_spec(4)[OF v] by simp
  then have r: "rbind (slice_from payload pos) (\<lambda>data.
          rbind (read_value data (serial_type_of v)) (\<lambda>(v, field_size). Inr (v, pos + field_size))) =
      Inr (v, pos + length (content v))"
    using d by (simp add: slice_from_def)
  show ?thesis
    unfolding generic_column_def r using fixed_kinds[OF v]
    by (auto split: option.split serial_type_kind.split)
qed

text \<open>Where the loop stands after \<open>k\<close> columns of a record.\<close>

lemma record_positions:
  assumes h: "h = length (header_of vs) + length (varint_enc h)" and k: "k \<le> length vs"
  defines "p \<equiv> record_bytes vs h"
  defines "hp \<equiv> length (varint_enc h) + length (header_of (take k vs))"
    and "dp \<equiv> h + length (body_of (take k vs))"
  shows "hp \<le> length p" "drop hp p = header_of (drop k vs) @ body_of vs"
    "dp \<le> length p" "drop dp p = body_of (drop k vs)" "h \<le> hp \<longleftrightarrow> k = length vs"
proof -
  have hs: "header_of vs = header_of (take k vs) @ header_of (drop k vs)"
    by (metis append_take_drop_id header_of_def concat_append map_append)
  note bs = body_of_split[of vs k]
  show "hp \<le> length p" by (simp add: hp_def p_def record_bytes_def hs)
  show "drop hp p = header_of (drop k vs) @ body_of vs"
    by (simp add: hp_def p_def record_bytes_def hs)
  have "drop h p = body_of vs"
  proof -
    have "h - length (varint_enc h) = length (header_of vs)" using h by simp
    moreover have "length (varint_enc h) \<le> h" using h by simp
    ultimately show ?thesis by (simp add: p_def record_bytes_def)
  qed
  moreover have "drop dp p = drop (length (body_of (take k vs))) (drop h p)" by (simp add: dp_def add.commute)
  ultimately show "drop dp p = body_of (drop k vs)" using bs by (metis append_eq_conv_conj)
  have "length p = h + length (body_of vs)" using h by (simp add: p_def record_bytes_def)
  then show "dp \<le> length p" using bs by (simp add: dp_def)
  have "header_of (drop k vs) = [] \<longleftrightarrow> k = length vs" using k by auto
  moreover have "h = hp + length (header_of (drop k vs))" using h hs by (simp add: hp_def)
  ultimately show "h \<le> hp \<longleftrightarrow> k = length vs" by (metis add_le_same_cancel1 le_zero_eq length_0_conv)
qed

lemma header_take_Suc: "k < length vs \<Longrightarrow>
    header_of (take (Suc k) vs) = header_of (take k vs) @ varint_enc (unat (serial_type_of (vs ! k)))"
  by (simp add: take_Suc_conv_app_nth header_of_def)

lemma body_take_Suc: "k < length vs \<Longrightarrow> body_of (take (Suc k) vs) = body_of (take k vs) @ content (vs ! k)"
  by (simp add: take_Suc_conv_app_nth body_of_def)

lemma record_column:
  assumes ok: "\<forall>v \<in> set vs. val_ok v" and h: "h = length (header_of vs) + length (varint_enc h)"
    and k: "k < length vs"
  defines "p \<equiv> record_bytes vs h"
  shows "rbind (slice_from p (length (varint_enc h) + length (header_of (take k vs)))) read_varint =
      Inr (serial_type_of (vs ! k), length (varint_enc (unat (serial_type_of (vs ! k)))))"
    "generic_column p (serial_type_of (vs ! k)) (h + length (body_of (take k vs))) =
      Inr (vs ! k, h + length (body_of (take (Suc k) vs)))"
proof -
  note pos = record_positions[OF h less_imp_le[OF k], folded p_def]
  have d: "drop k vs = vs ! k # drop (Suc k) vs" using Cons_nth_drop_Suc[OF k] by simp
  show "rbind (slice_from p (length (varint_enc h) + length (header_of (take k vs)))) read_varint =
      Inr (serial_type_of (vs ! k), length (varint_enc (unat (serial_type_of (vs ! k)))))"
    using pos(1,2) by (simp add: slice_from_def d)
  have "val_ok (vs ! k)" using ok k by simp
  then show "generic_column p (serial_type_of (vs ! k)) (h + length (body_of (take k vs))) =
      Inr (vs ! k, h + length (body_of (take (Suc k) vs)))"
    using generic_column_eq[OF _ pos(3), of "vs ! k" "body_of (drop (Suc k) vs)"] pos(4)
    by (simp add: d body_take_Suc[OF k] add.assoc)
qed

lemma generic_loop_eq:
  assumes ok: "\<forall>v \<in> set vs. val_ok v" and h: "h = length (header_of vs) + length (varint_enc h)"
    and lim: "lim = min (length us + k) (length infos)" and k: "k \<le> length vs"
  shows "generic_loop nocase (record_bytes vs h) infos lim h tie us k
      (length (varint_enc h) + length (header_of (take k vs))) (h + length (body_of (take k vs))) =
    Inr (lex_cmp nocase tie (drop k infos) (drop k vs) us)"
  using lim k
proof (induction us arbitrary: k)
  case (Cons u us)
  note pos = record_positions[OF h Cons.prems(2)]
  show ?case
  proof (cases "k < length infos \<and> k < length vs")
    case False
    then have "lim \<le> k \<or> h \<le> length (varint_enc h) + length (header_of (take k vs))"
      using Cons.prems pos(5) by auto
    then show ?thesis using False by (auto simp: not_less)
  next
    case True
    then have dk: "drop k infos = infos ! k # drop (Suc k) infos" "drop k vs = vs ! k # drop (Suc k) vs"
      by (simp_all add: Cons_nth_drop_Suc)
    have go: "\<not> (lim \<le> k \<or> h \<le> length (varint_enc h) + length (header_of (take k vs)))"
      using True Cons.prems(1) pos(5) by auto
    have v: "val_ok (vs ! k)" using ok True by simp
    have IH: "generic_loop nocase (record_bytes vs h) infos lim h tie us (Suc k)
        (length (varint_enc h) + length (header_of (take (Suc k) vs))) (h + length (body_of (take (Suc k) vs))) =
      Inr (lex_cmp nocase tie (drop (Suc k) infos) (drop (Suc k) vs) us)"
      using Cons.IH[of "Suc k"] Cons.prems True by simp
    show ?thesis
      using go IH record_column[OF ok h] True serial_type_valid[OF v]
      by (auto simp: dk column_cmp_def header_take_Suc Let_def add.assoc split: comp.split)
  qed
qed simp

lemma generic_skip_eq:
  assumes ok: "\<forall>v \<in> set vs. val_ok v" and h: "h = length (header_of vs) + length (varint_enc h)"
    and k: "k \<le> length vs"
  shows "generic_skip (record_bytes vs h) n h
      (length (varint_enc h) + length (header_of (take k vs))) (h + length (body_of (take k vs))) =
    Inr (length (varint_enc h) + length (header_of (take (min (k + n) (length vs)) vs)),
         h + length (body_of (take (min (k + n) (length vs)) vs)))"
  using k
proof (induction n arbitrary: k)
  case 0
  then show ?case by (simp add: min_absorb1)
next
  case (Suc n)
  note pos = record_positions[OF h Suc.prems]
  show ?case
  proof (cases "k < length vs")
    case False
    then show ?thesis using pos(5) Suc.prems by simp
  next
    case True
    have v: "val_ok (vs ! k)" using ok True by simp
    have go: "\<not> h \<le> length (varint_enc h) + length (header_of (take k vs))" using pos(5) True by simp
    have IH: "generic_skip (record_bytes vs h) n h
        (length (varint_enc h) + length (header_of (take (Suc k) vs))) (h + length (body_of (take (Suc k) vs))) =
      Inr (length (varint_enc h) + length (header_of (take (min (Suc k + n) (length vs)) vs)),
         h + length (body_of (take (min (Suc k + n) (length vs)) vs)))"
      using Suc.IH[of "Suc k"] True by simp
    have sz: "size_or_panic (serial_type_of (vs ! k)) = Inr (length (content (vs ! k)))"
      using column_spec(2)[OF v] by (simp add: size_or_panic_def)
    have fixed: "serial_kind (serial_type_of (vs ! k)) \<in> {Some KConstInt0, Some KConstInt1, Some KNull} \<Longrightarrow>
        content (vs ! k) = []"
      using fixed_kinds[OF v] by auto
    show ?thesis
      using go IH record_column(1)[OF ok h True] serial_type_valid[OF v] sz fixed True
      by (cases "serial_kind (serial_type_of (vs ! k)) \<in> {Some KConstInt0, Some KConstInt1, Some KNull}")
         (simp_all add: header_take_Suc body_take_Suc add.assoc)
  qed
qed

lemma compare_records_generic_eq:
  assumes ok: "\<forall>v \<in> set vs. val_ok v" and h: "h = length (header_of vs) + length (varint_enc h)" "h < 2 ^ 64"
  shows "compare_records_generic nocase (record_bytes vs h) us info skip tie =
    Inr (lex_cmp nocase tie (drop skip (ii_key_info info)) (drop skip vs) (drop skip us))"
proof -
  note r = value_iterator_new_record[OF h]
  let ?k = "min skip (length vs)" and ?lim = "min (length us) (length (ii_key_info info))"
  have skip: "generic_skip (record_bytes vs h) skip h (length (varint_enc h)) h =
      Inr (length (varint_enc h) + length (header_of (take ?k vs)), h + length (body_of (take ?k vs)))"
    using generic_skip_eq[OF ok h(1), of 0 skip] by simp
  have "generic_loop nocase (record_bytes vs h) (ii_key_info info) ?lim h tie (drop skip us) skip
      (length (varint_enc h) + length (header_of (take ?k vs))) (h + length (body_of (take ?k vs))) =
    Inr (lex_cmp nocase tie (drop skip (ii_key_info info)) (drop skip vs) (drop skip us))"
  proof (cases "skip \<le> length vs \<and> skip \<le> length us")
    case True
    then show ?thesis
      using generic_loop_eq[OF ok h(1), of ?lim "drop skip us" skip "ii_key_info info" nocase tie]
      by (simp add: min_absorb1)
  next
    case False
    have full: "h \<le> length (varint_enc h) + length (header_of vs)" using h(1) by simp
    show ?thesis
    proof (cases "drop skip us")
      case Nil
      then show ?thesis by simp
    next
      case (Cons u us')
      then have "\<not> skip \<le> length vs" using False by auto
      then show ?thesis using Cons full by simp
    qed
  qed
  then show ?thesis
    using r(2,3) skip record_nonempty[of vs h] by (simp add: compare_records_generic_def Let_def)
qed

lemma lex_cmp_Cons:
  "lex_cmp nocase tie (k # ks) (l # ls) (r # rs) =
     (if column_cmp nocase k l r = Equiv then lex_cmp nocase tie ks ls rs else column_cmp nocase k l r)"
  by (simp split: comp.split)

text \<open>What the fast paths read at the front of a record.\<close>

lemma record_front:
  assumes h: "h = length (header_of vs) + length (varint_enc h)" "h < 2 ^ 64" and vs: "vs = v # vs'" and v: "val_ok v"
  defines "p \<equiv> record_bytes vs h"
  shows "2 \<le> length p" "rbind (slice_from p (length (varint_enc h))) read_varint =
      Inr (serial_type_of v, length (varint_enc (unat (serial_type_of v))))"
    "slice_from p h = Inr (content v @ body_of vs')" "h \<le> length p"
proof -
  note pos = record_positions[OF h(1), of 0, folded p_def]
  have "varint_enc h \<noteq> []" "varint_enc (unat (serial_type_of v)) \<noteq> []" by (simp_all add: varint_enc_nonempty)
  then have "1 \<le> length (varint_enc h)" "1 \<le> length (varint_enc (unat (serial_type_of v)))"
    by (simp_all add: Suc_leI)
  then show "2 \<le> length p" by (simp add: p_def record_bytes_def vs)
  show "rbind (slice_from p (length (varint_enc h))) read_varint =
      Inr (serial_type_of v, length (varint_enc (unat (serial_type_of v))))"
    using pos(1,2) by (simp add: slice_from_def vs)
  show "slice_from p h = Inr (content v @ body_of vs')" "h \<le> length p"
    using pos(3,4) by (simp_all add: slice_from_def vs)
qed

lemma serial_int_iff:
  assumes "val_ok v"
  shows "serial_type_of v \<in> {1, 2, 3, 4, 5, 6, 8, 9} \<longleftrightarrow> (\<exists>i. v = VInteger i)"
proof (cases v)
  case (VText t)
  then show ?thesis
    using assms unat_text_type[of "length t"] long_type[of "serial_type_of v" "1 + 2 * length t"] by auto
next
  case (VBlob b)
  then show ?thesis
    using assms unat_blob_type[of "length b"] long_type[of "serial_type_of v" "2 * length b"] by auto
qed (use assms in auto)

lemma serial_text_iff:
  assumes "val_ok v"
  shows "(serial_type_of v \<ge> 13 \<and> serial_type_of v AND 1 = 1) \<longleftrightarrow> (\<exists>t. v = VText t)"
proof -
  have odd: "w AND 1 = 1 \<longleftrightarrow> odd (unat w)" for w :: u64
    by (simp add: and_one_eq odd_iff_mod_2_eq_one word_unat_eq_iff unat_mod)
  show ?thesis
  proof (cases v)
    case (VText t)
    then show ?thesis using assms unat_text_type[of "length t"] by (simp add: odd word_le_nat_alt)
  next
    case (VBlob b)
    then show ?thesis using assms unat_blob_type[of "length b"] by (simp add: odd word_le_nat_alt)
  qed (use assms in \<open>auto simp: word_le_nat_alt\<close>)
qed

section \<open>The fast paths\<close>

lemma read_integer_column:
  assumes "v = VInteger i" "w = serial_type_of v"
  shows "read_integer (content v @ rest) (ucast w) = Inr i"
proof -
  have ok: "val_ok v" by (simp add: assms)
  have w: "w \<in> {1, 2, 3, 4, 5, 6, 8, 9}" using serial_int_iff[OF ok] assms by blast
  then have "(ucast w :: u8) \<in> {1, 2, 3, 4, 5, 6, 8, 9}" "ucast (ucast w :: u8) = w" by auto
  then have "read_integer (content v @ rest) (ucast w) =
      rbind (read_value_serial_type (content v @ rest) w) (\<lambda>(v, n). case v of VInteger i \<Rightarrow> Inr i | _ \<Rightarrow> Inl Panic)"
    by (simp only: read_integer_eq if_True)
  then show ?thesis using column_spec(4)[OF ok] assms by simp
qed

lemma empty_record:
  assumes "h = length (header_of []) + length (varint_enc h)"
  shows "length (record_bytes [] h) < 2"
proof -
  have "h \<le> 9" using assms length_varint_enc_le[of h] by simp
  then have "length (varint_enc h) = 1" by (simp add: length_varint_enc groups7.simps)
  then show ?thesis by (simp add: record_bytes_def)
qed

lemma compare_records_int_eq:
  assumes ok: "\<forall>v \<in> set vs. val_ok v" and h: "h = length (header_of vs) + length (varint_enc h)" "h < 2 ^ 64"
    and us: "us \<noteq> []" and info: "ii_key_info info \<noteq> []"
  shows "compare_records_int nocase (record_bytes vs h) us info tie =
    compare_records_generic nocase (record_bytes vs h) us info 0 tie"
proof (cases vs)
  case Nil
  then show ?thesis using empty_record[of h] h(1) by (simp add: compare_records_int_def)
next
  case (Cons v vs')
  have v: "val_ok v" using ok Cons by simp
  note r = value_iterator_new_record[OF h] and f = record_front[OF h Cons v]
  obtain u us' where u: "us = u # us'" using us by (cases us) auto
  obtain k ks where k: "ii_key_info info = k # ks" using info by (cases "ii_key_info info") auto
  have front: "compare_records_int nocase (record_bytes vs h) us info tie =
      (if serial_type_of v \<notin> {1, 2, 3, 4, 5, 6, 8, 9}
       then compare_records_generic nocase (record_bytes vs h) us info 0 tie
       else rbind (read_integer (content v @ body_of vs') (ucast (serial_type_of v))) (\<lambda>lhs_int.
         case u of
           VInteger rhs_int \<Rightarrow>
             (case directed (sort_order k) (cmp_of (sint lhs_int) (sint rhs_int)) of
                Equiv \<Rightarrow> if length us > 1 then compare_records_generic nocase (record_bytes vs h) us info 1 tie
                         else Inr tie
              | c \<Rightarrow> Inr c)
         | _ \<Rightarrow> compare_records_generic nocase (record_bytes vs h) us info 0 tie))"
    unfolding compare_records_int_def
    using r(2-4) f by (simp add: u k Let_def not_less cong: val.case_cong)
  show ?thesis
  proof (cases "\<exists>i j. v = VInteger i \<and> u = VInteger j")
    case True
    then obtain i j where ij: "v = VInteger i" "u = VInteger j" by blast
    then have "serial_type_of v \<in> {1, 2, 3, 4, 5, 6, 8, 9}" using serial_int_iff[OF v] by blast
    then have e: "compare_records_int nocase (record_bytes vs h) us info tie =
        (case directed (sort_order k) (cmp_of (sint i) (sint j)) of
           Equiv \<Rightarrow> if length us > 1 then compare_records_generic nocase (record_bytes vs h) us info 1 tie
                    else Inr tie
         | c \<Rightarrow> Inr c)"
      unfolding front using read_integer_column[OF ij(1) refl] ij(2) by simp
    have c: "column_cmp nocase k v u = directed (sort_order k) (cmp_of (sint i) (sint j))"
      by (simp add: ij column_cmp_def compare_immutable_single_def value_cmp_def)
    have "us' = [] \<Longrightarrow> lex_cmp nocase tie ks vs' us' = tie" by (cases ks; cases vs') auto
    then show ?thesis
      unfolding e compare_records_generic_eq[OF ok h]
      by (auto simp: u k Cons c simp del: lex_cmp.simps(1) simp: lex_cmp_Cons split: comp.split)
  next
    case False
    show ?thesis
    proof (cases "\<exists>i. v = VInteger i")
      case True
      then obtain i where i: "v = VInteger i" by blast
      then have "\<not> (\<exists>j. u = VInteger j)" using False by blast
      then show ?thesis unfolding front using read_integer_column[OF i refl, of "body_of vs'"] by (cases u) auto
    next
      case False
      then show ?thesis unfolding front using serial_int_iff[OF v] by simp
    qed
  qed
qed

lemma bytes_cmp_eq_iff: "bytes_cmp l r = Equiv \<longleftrightarrow> l = r"
  by (induction l r rule: bytes_cmp.induct) auto

lemma compare_records_string_eq:
  assumes ok: "\<forall>v \<in> set vs. val_ok v" and h: "h = length (header_of vs) + length (varint_enc h)" "h < 2 ^ 64"
    and us: "us \<noteq> []" and info: "ii_key_info info = k # ks" "collation k = CBinary"
  shows "compare_records_string nocase (record_bytes vs h) us info tie =
    compare_records_generic nocase (record_bytes vs h) us info 0 tie"
proof (cases vs)
  case Nil
  then show ?thesis using empty_record[of h] h(1) by (simp add: compare_records_string_def)
next
  case (Cons v vs')
  have v: "val_ok v" using ok Cons by simp
  note r = value_iterator_new_record[OF h] and f = record_front[OF h Cons v]
  obtain u us' where u: "us = u # us'" using us by (cases us) auto
  have rv: "read_value (content v @ body_of vs') (serial_type_of v) = Inr (v, length (content v))"
    using read_value_eq[OF serial_type_valid[OF v]] column_spec(4)[OF v] by simp
  show ?thesis
  proof (cases "\<exists>s t. v = VText s \<and> u = VText t")
    case True
    then obtain s t where st: "v = VText s" "u = VText t" by blast
    then have ty: "serial_type_of v \<ge> 13 \<and> serial_type_of v AND 1 = 1" using serial_text_iff[OF v] by blast
    have e: "compare_records_string nocase (record_bytes vs h) us info tie =
        (case directed (sort_order k) (bytes_cmp s t) of
           Equiv \<Rightarrow>
             if cmp_of (length s) (length t) \<noteq> Equiv then Inr (directed (sort_order k) (cmp_of (length s) (length t)))
             else if length us > 1 then compare_records_generic nocase (record_bytes vs h) us info 1 tie
             else Inr tie
         | c \<Rightarrow> Inr c)"
      unfolding compare_records_string_def
      using r(2-4) f rv ty serial_type_valid[OF v] info by (simp add: u st Let_def not_less split: comp.split)
    have c: "column_cmp nocase k v u = directed (sort_order k) (bytes_cmp s t)"
      by (simp add: st column_cmp_def compare_immutable_single_def info)
    have "us' = [] \<Longrightarrow> lex_cmp nocase tie ks vs' us' = tie" by (cases ks; cases vs') auto
    moreover have "bytes_cmp s t = Equiv \<Longrightarrow> cmp_of (length s) (length t) = Equiv"
      by (simp add: bytes_cmp_eq_iff cmp_of_def)
    ultimately show ?thesis
      unfolding e compare_records_generic_eq[OF ok h]
      by (auto simp: u info Cons c lex_cmp_Cons simp del: lex_cmp.simps(1) split: comp.split)
  next
    case False
    show ?thesis
    proof (cases "\<exists>s. v = VText s")
      case True
      then have ty: "serial_type_of v \<ge> 13 \<and> serial_type_of v AND 1 = 1" using serial_text_iff[OF v] by blast
      from True have "\<not> (\<exists>t. u = VText t)" using False by blast
      then show ?thesis unfolding compare_records_string_def
        using r(2-4) f ty by (cases u) (simp_all add: u Let_def not_less)
    next
      case False
      then have "\<not> (serial_type_of v \<ge> 13 \<and> serial_type_of v AND 1 = 1)" using serial_text_iff[OF v] by blast
      then show ?thesis unfolding compare_records_string_def
        using r(2-4) f by (simp add: u Let_def not_less)
    qed
  qed
qed

section \<open>Integers against floats\<close>

lemma SCALE_pos [simp]: "0 < SCALE" "0 \<le> SCALE" "SCALE \<noteq> 0"
  by (simp_all add: SCALE_def)

lemma bit_length_eq: "2 ^ b \<le> n \<Longrightarrow> n < 2 ^ Suc b \<Longrightarrow> bit_length n = Suc b"
proof (induction b arbitrary: n)
  case 0
  then have "n = 1" by simp
  then show ?case by (simp add: bit_length.simps)
next
  case (Suc b)
  then have "2 ^ b \<le> n div 2" "n div 2 < 2 ^ Suc b" "n \<noteq> 0" by (auto simp: less_eq_div_iff_mult_less_eq)
  then show ?case using Suc.IH[of "n div 2"] by (subst bit_length.simps) simp
qed

lemma round53_exact:
  assumes q: "2 ^ 52 \<le> q" "q < 2 ^ 53"
  shows "round53 (q * 2 ^ s) = q * 2 ^ s"
proof (cases "q * 2 ^ s < 2 ^ 53")
  case True
  then show ?thesis by (simp add: round53_def)
next
  case False
  have "2 ^ (52 + s) \<le> q * 2 ^ s" "q * 2 ^ s < 2 ^ Suc (52 + s)"
    using q by (simp_all add: power_add)
  then have "bit_length (q * 2 ^ s) - 53 = s" using bit_length_eq[of "52 + s"] by simp
  with False show ?thesis by (simp add: round53_def Let_def)
qed

lemma f64_mantissa_less: "f64_mantissa f < 2 ^ 52"
  by (simp only: f64_mantissa_def unsigned_take_bit_eq) (simp add: take_bit_eq_mod)

text \<open>A float of magnitude at least \<open>2 ^ 53\<close> is an integer that casts back exactly.\<close>

lemma large_float_exact:
  assumes "2 ^ 53 * SCALE \<le> \<bar>f64_scaled f\<bar>"
  shows "\<exists>n. \<bar>f64_scaled f\<bar> = int n * SCALE \<and> round53 n = n"
proof -
  let ?m = "f64_mantissa f" and ?e = "f64_exponent f"
  have mag: "\<bar>f64_scaled f\<bar> = (if ?e = 0 then int ?m else int (2 ^ 52 + ?m) * 2 ^ (?e - 1))"
    by (simp add: f64_scaled_def Let_def)
  have "?e \<noteq> 0"
  proof
    assume "?e = 0"
    then have "2 ^ 53 * SCALE \<le> int ?m" using assms mag by simp
    moreover have "int ?m < 2 ^ 52" using f64_mantissa_less[of f] by simp
    moreover have "1 \<le> SCALE" using SCALE_pos(1) by linarith
    then have "(2 ^ 53 :: int) * 1 \<le> 2 ^ 53 * SCALE" by (intro mult_left_mono) auto
    ultimately show False by simp
  qed
  then have k: "\<bar>f64_scaled f\<bar> = int (2 ^ 52 + ?m) * 2 ^ (?e - 1)" using mag by simp
  have "1074 \<le> ?e - 1"
  proof (rule ccontr)
    assume "\<not> 1074 \<le> ?e - 1"
    then have "(2::int) ^ (?e - 1) \<le> SCALE" unfolding SCALE_def by (intro power_increasing) auto
    then have "int (2 ^ 52 + ?m) * 2 ^ (?e - 1) \<le> int (2 ^ 52 + ?m) * SCALE" by (intro mult_left_mono) auto
    moreover have "int (2 ^ 52 + ?m) * SCALE < 2 ^ 53 * SCALE"
      using f64_mantissa_less[of f] by (intro mult_strict_right_mono) auto
    ultimately show False using assms k by linarith
  qed
  then have "(2::int) ^ (?e - 1) = 2 ^ (?e - 1 - 1074) * SCALE"
    unfolding SCALE_def by (simp only: power_add[symmetric]) simp
  then have "\<bar>f64_scaled f\<bar> = int ((2 ^ 52 + ?m) * 2 ^ (?e - 1 - 1074)) * SCALE" using k by simp
  moreover have "round53 ((2 ^ 52 + ?m) * 2 ^ (?e - 1 - 1074)) = (2 ^ 52 + ?m) * 2 ^ (?e - 1 - 1074)"
    using f64_mantissa_less[of f] by (intro round53_exact) simp_all
  ultimately show ?thesis by blast
qed

lemma round53_small: "n < 2 ^ 53 \<Longrightarrow> round53 n = n"
  by (simp add: round53_def)

text \<open>The truncation of a scaled value and its comparison with an integer.\<close>

definition trunc_scaled :: "int \<Rightarrow> int" where
  "trunc_scaled k = (if k < 0 then - (- k div SCALE) else k div SCALE)"

lemma trunc_scaled_less: "i < trunc_scaled k \<Longrightarrow> i * SCALE < k"
proof (cases "k < 0")
  case False
  assume "i < trunc_scaled k"
  then have "(i + 1) * SCALE \<le> k div SCALE * SCALE"
    using False by (intro mult_right_mono) (auto simp: trunc_scaled_def)
  also have "\<dots> \<le> k" using pos_mod_sign[OF SCALE_pos(1), of k] div_mult_mod_eq[of k SCALE] by linarith
  finally have "i * SCALE + SCALE \<le> k" by (simp add: algebra_simps)
  then show ?thesis using SCALE_pos by linarith
next
  case True
  assume "i < trunc_scaled k"
  then have "(- k div SCALE + 1) * SCALE \<le> - i * SCALE"
    using True by (intro mult_right_mono) (auto simp: trunc_scaled_def)
  moreover have "- k < (- k div SCALE + 1) * SCALE"
    using pos_mod_bound[OF SCALE_pos(1), of "- k"] div_mult_mod_eq[of "- k" SCALE]
    unfolding distrib_right by linarith
  ultimately show ?thesis by simp
qed

lemma trunc_scaled_greater: "trunc_scaled k < i \<Longrightarrow> k < i * SCALE"
  using trunc_scaled_less[of "- i" "- k"] by (cases "k = 0") (auto simp: trunc_scaled_def split: if_splits)

lemma trunc_scaled_abs: "\<bar>trunc_scaled k\<bar> * SCALE \<le> \<bar>k\<bar>"
proof -
  have "\<bar>trunc_scaled k\<bar> = \<bar>k\<bar> div SCALE"
    using pos_imp_zdiv_nonneg_iff[OF SCALE_pos(1), of "\<bar>k\<bar>"] by (auto simp: trunc_scaled_def)
  moreover have "\<bar>k\<bar> div SCALE * SCALE \<le> \<bar>k\<bar>"
    using pos_mod_sign[OF SCALE_pos(1), of "\<bar>k\<bar>"] div_mult_mod_eq[of "\<bar>k\<bar>" SCALE] by linarith
  ultimately show ?thesis by simp
qed

lemma trunc_scaled_bound: "k < c * SCALE \<Longrightarrow> 0 < c \<Longrightarrow> trunc_scaled k < c"
proof -
  assume k: "k < c * SCALE" and c: "0 < c"
  show ?thesis
  proof (cases "k < 0")
    case True
    then have "0 \<le> - k div SCALE" using pos_imp_zdiv_nonneg_iff[OF SCALE_pos(1), of "- k"] by simp
    then show ?thesis using True c by (simp add: trunc_scaled_def)
  next
    case False
    have "\<not> c \<le> k div SCALE"
    proof
      assume "c \<le> k div SCALE"
      then have "c * SCALE \<le> k div SCALE * SCALE" by (intro mult_right_mono) auto
      then show False
        using k pos_mod_sign[OF SCALE_pos(1), of k] div_mult_mod_eq[of k SCALE] by linarith
    qed
    then show ?thesis using False by (simp add: trunc_scaled_def)
  qed
qed

lemma trunc_scaled_mult: "\<bar>k\<bar> = int n * SCALE \<Longrightarrow> \<bar>trunc_scaled k\<bar> = int n"
  by (cases "k < 0") (simp_all add: trunc_scaled_def)

lemma int_float_cmp_exact:
  assumes nan: "\<not> is_nan f"
  shows "sqlite_int_float_cmp i f = cmp_of (sint i * SCALE) (f64_scaled f)"
proof -
  let ?k = "f64_scaled f" and ?i = "sint i"
  have i: "- (2 ^ 63) \<le> ?i" "?i < 2 ^ 63" by (rule sint_i64_bounds)+
  have lo: "- (2 ^ 63) * SCALE \<le> ?i * SCALE" using i(1) by (intro mult_right_mono) auto
  have hi: "?i * SCALE < 2 ^ 63 * SCALE" using i(2) by (intro mult_strict_right_mono) auto
  consider "?k < - (2 ^ 63) * SCALE" | "2 ^ 63 * SCALE \<le> ?k"
    | "- (2 ^ 63) * SCALE \<le> ?k" "?k < 2 ^ 63 * SCALE" by linarith
  then show ?thesis
  proof cases
    case 1
    then have "?k < ?i * SCALE" using lo by linarith
    with 1 nan show ?thesis by (simp add: sqlite_int_float_cmp_def cmp_of_def)
  next
    case 2
    then have "?i * SCALE < ?k" "\<not> ?k < - (2 ^ 63) * SCALE"
      using hi lo by linarith+
    with 2 nan show ?thesis by (simp add: sqlite_int_float_cmp_def cmp_of_def)
  next
    case 3
    have "f64_as_i64 f = max (- (2 ^ 63)) (min (2 ^ 63 - 1) (trunc_scaled ?k))"
      using nan by (simp only: f64_as_i64_def trunc_scaled_def Let_def if_False)
    moreover have "\<not> trunc_scaled ?k < - (2 ^ 63)"
      using trunc_scaled_greater[of ?k "- (2 ^ 63)"] 3(1) by linarith
    moreover have "\<not> 2 ^ 63 - 1 < trunc_scaled ?k"
      using trunc_scaled_bound[OF 3(2)] zero_less_power[of "2::int" 63] by linarith
    ultimately have t: "f64_as_i64 f = trunc_scaled ?k" by linarith
    show ?thesis
    proof (cases "?i = trunc_scaled ?k")
      case False
      then show ?thesis
        using 3 nan t trunc_scaled_less[of ?i ?k] trunc_scaled_greater[of ?k ?i]
        by (auto simp: sqlite_int_float_cmp_def cmp_of_def Let_def)
    next
      case True
      have "round53 (nat \<bar>?i\<bar>) = nat \<bar>?i\<bar>"
      proof (cases "nat \<bar>?i\<bar> < 2 ^ 53")
        case False
        then have "2 ^ 53 * SCALE \<le> \<bar>?i\<bar> * SCALE" by (intro mult_right_mono) auto
        also have "\<dots> \<le> \<bar>?k\<bar>" using trunc_scaled_abs[of ?k] True by simp
        finally obtain n where n: "\<bar>?k\<bar> = int n * SCALE" "round53 n = n" using large_float_exact by blast
        then have "\<bar>?i\<bar> = int n" using True trunc_scaled_mult by simp
        then show ?thesis using n(2) by simp
      qed (rule round53_small)
      then have "i64_as_f64 ?i = ?i * SCALE" by (auto simp: i64_as_f64_def abs_if split: if_splits)
      then show ?thesis using 3 nan t True by (simp add: sqlite_int_float_cmp_def cmp_of_def Let_def)
    qed
  qed
qed

section \<open>The order of values\<close>

text \<open>The reference order: the storage class first, then the exact numeric value, then the bytes.\<close>

fun val_key :: "val \<Rightarrow> nat \<times> int \<times> nat list" where
  "val_key VNull = (0, 0, [])"
| "val_key (VInteger i) = (1, sint i * SCALE, [])"
| "val_key (VFloat f) = (1, f64_scaled f, [])"
| "val_key (VText t) = (2, 0, map unat t)"
| "val_key (VBlob b) = (3, 0, map unat b)"

lemma cmp_of_iff [simp]:
  "cmp_of a b = Less \<longleftrightarrow> a < b" "cmp_of a b = Equiv \<longleftrightarrow> a = b" "cmp_of a b = Greater \<longleftrightarrow> b < a"
  by (auto simp: cmp_of_def)

lemma cmp_of_scaled: "cmp_of (a * SCALE) (b * SCALE) = cmp_of a b"
  by (simp add: cmp_of_def)

lemma ord_reverse_idem [simp]: "ord_reverse (ord_reverse c) = c"
  by (cases c) auto

lemma cmp_of_swap: "cmp_of b a = ord_reverse (cmp_of a b)"
  by (auto simp: cmp_of_def)

lemma bytes_cmp_key: "bytes_cmp l r = cmp_of (map unat l) (map unat r)"
  by (induction l r rule: bytes_cmp.induct) (auto simp: cmp_of_def word_less_nat_alt)

lemma value_cmp_key:
  assumes "val_ok a" "val_ok b"
  shows "value_cmp a b = cmp_of (val_key a) (val_key b)"
  using assms
  by (cases a; cases b)
     (simp_all add: value_cmp_def f64_partial_cmp_def int_float_cmp_exact bytes_cmp_key cmp_of_def)

section \<open>Total preorders\<close>

text \<open>What sorting and searching rely on: swapping the arguments reverses the result, and the result
  is transitive. \<open>ok\<close> are the values that occur (no NaN).\<close>

locale preorder_cmp =
  fixes cmp :: "'a \<Rightarrow> 'a \<Rightarrow> comp" and ok :: "'a \<Rightarrow> bool"
  assumes swap: "ok a \<Longrightarrow> ok b \<Longrightarrow> cmp b a = ord_reverse (cmp a b)"
    and trans: "ok a \<Longrightarrow> ok b \<Longrightarrow> ok c \<Longrightarrow> cmp a b \<noteq> Greater \<Longrightarrow> cmp b c \<noteq> Greater \<Longrightarrow> cmp a c \<noteq> Greater"
begin

lemma self: "ok a \<Longrightarrow> cmp a a = Equiv"
  using swap[of a a] by (cases "cmp a a") auto

lemma equiv_left: "ok a \<Longrightarrow> ok b \<Longrightarrow> ok c \<Longrightarrow> cmp a b = Equiv \<Longrightarrow> cmp a c = cmp b c"
  using trans[of a b c] trans[of b a c] trans[of c a b] trans[of c b a] swap[of a b] swap[of a c] swap[of b c]
  by (cases "cmp a c"; cases "cmp b c") auto

lemma equiv_right: "ok a \<Longrightarrow> ok b \<Longrightarrow> ok c \<Longrightarrow> cmp b c = Equiv \<Longrightarrow> cmp a c = cmp a b"
  using equiv_left[of b c a] swap[of a b] swap[of a c] by (cases "cmp a b"; cases "cmp a c") auto

lemma less_trans: "ok a \<Longrightarrow> ok b \<Longrightarrow> ok c \<Longrightarrow> cmp a b = Less \<Longrightarrow> cmp b c = Less \<Longrightarrow> cmp a c = Less"
  using trans[of a b c] equiv_right[of b a c] swap[of a b] swap[of a c] swap[of b c]
  by (cases "cmp a c") auto

lemma directed_preorder: "preorder_cmp (\<lambda>a b. directed s (cmp a b)) ok"
proof (cases s)
  case Asc
  then show ?thesis using preorder_cmp_axioms by simp
next
  case Desc
  have r: "ord_reverse (cmp a b) = cmp b a" if "ok a" "ok b" for a b using swap[OF that] by (rule sym)
  show ?thesis
  proof
    fix a b assume "ok a" "ok b"
    then show "directed s (cmp b a) = ord_reverse (directed s (cmp a b))"
      using r[of b a] swap[of b a] by (simp add: Desc)
  next
    fix a b c assume "ok a" "ok b" "ok c" "directed s (cmp a b) \<noteq> Greater" "directed s (cmp b c) \<noteq> Greater"
    then show "directed s (cmp a c) \<noteq> Greater" using trans[of c b a] by (simp add: Desc r)
  qed
qed

end

interpretation bo: preorder_cmp bytes_cmp "\<lambda>_. True"
  unfolding bytes_cmp_key by unfold_locales (rule cmp_of_swap, auto)

interpretation vo: preorder_cmp value_cmp val_ok
proof
  fix a b assume "val_ok a" "val_ok b"
  then show "value_cmp b a = ord_reverse (value_cmp a b)" by (simp only: value_cmp_key) (rule cmp_of_swap)
qed (auto simp: value_cmp_key)

lemma compare_strings_preorder:
  assumes "preorder_cmp nocase (\<lambda>_. True)"
  shows "preorder_cmp (compare_strings nocase coll) (\<lambda>_. True)"
proof -
  have "compare_strings nocase CUnset = bytes_cmp" "compare_strings nocase CBinary = bytes_cmp"
    "compare_strings nocase CNoCase = nocase" "compare_strings nocase CRtrim = (\<lambda>l r. bytes_cmp (rtrim l) (rtrim r))"
    by (simp_all add: fun_eq_iff)
  moreover have "preorder_cmp (\<lambda>l r. bytes_cmp (rtrim l) (rtrim r)) (\<lambda>_. True)"
    by unfold_locales (rule bo.swap[OF TrueI TrueI], rule bo.trans[OF TrueI TrueI TrueI])
  ultimately show ?thesis using assms bo.preorder_cmp_axioms by (cases coll) simp_all
qed

text \<open>Against a value of another class only the class of a text matters.\<close>

lemma value_cmp_text_class:
  assumes "\<not> (\<exists>t. v = VText t)"
  shows "value_cmp (VText x) v = value_cmp (VText y) v" "value_cmp v (VText x) = value_cmp v (VText y)"
    "value_cmp (VText x) v \<noteq> Greater \<Longrightarrow> value_cmp v (VText y) = Greater"
  using assms by (cases v; simp add: value_cmp_def)+

lemma compare_immutable_single_preorder:
  assumes "preorder_cmp nocase (\<lambda>_. True)"
  shows "preorder_cmp (\<lambda>l r. compare_immutable_single nocase l r coll) val_ok"
proof -
  note s = preorder_cmp.swap[OF compare_strings_preorder[OF assms, of coll], OF TrueI TrueI]
    and t = preorder_cmp.trans[OF compare_strings_preorder[OF assms, of coll], OF TrueI TrueI TrueI]
  let ?T = "\<lambda>v. \<exists>x. v = VText x" and ?c = "\<lambda>l r. compare_immutable_single nocase l r coll"
  have other: "?c l r = value_cmp l r" if "\<not> ?T l \<or> \<not> ?T r" for l r
    using that by (auto simp: compare_immutable_single_def split: val.split)
  have both: "?c (VText x) (VText y) = compare_strings nocase coll x y" for x y
    by (simp add: compare_immutable_single_def)
  show ?thesis
  proof
    fix a b assume ok: "val_ok a" "val_ok b"
    show "?c b a = ord_reverse (?c a b)"
    proof (cases "?T a \<and> ?T b")
      case True
      then obtain x y where "a = VText x" "b = VText y" by blast
      then show ?thesis by (simp only: both) (rule s)
    next
      case False
      then have "?c b a = value_cmp b a" "?c a b = value_cmp a b" using other by blast+
      then show ?thesis by (simp only: vo.swap[OF ok])
    qed
  next
    fix a b d assume ok: "val_ok a" "val_ok b" "val_ok d" and le: "?c a b \<noteq> Greater" "?c b d \<noteq> Greater"
    consider x y z where "a = VText x" "b = VText y" "d = VText z"
      | x y where "a = VText x" "b = VText y" "\<not> ?T d" | y z where "b = VText y" "d = VText z" "\<not> ?T a"
      | x z where "a = VText x" "d = VText z" "\<not> ?T b"
      | "\<not> ?T a \<or> \<not> ?T b" "\<not> ?T b \<or> \<not> ?T d" "\<not> ?T a \<or> \<not> ?T d"
      by (cases a; cases b; cases d) simp_all
    then show "?c a d \<noteq> Greater"
    proof cases
      case (1 x y z)
      then show ?thesis using le t[of x y z] by (simp add: both)
    next
      case (2 x y)
      then show ?thesis using le(2) other[of b d] other[of a d] value_cmp_text_class(1)[of d x y] by simp
    next
      case (3 y z)
      then show ?thesis using le(1) other[of a b] other[of a d] value_cmp_text_class(2)[of a y z] by simp
    next
      case (4 x z)
      then show ?thesis using le other[of a b] other[of b d] value_cmp_text_class(3)[of b x z] by simp
    next
      case 5
      then show ?thesis using le vo.trans[OF ok] other[of a b] other[of b d] other[of a d] by simp
    qed
  qed
qed

lemma column_cmp_preorder: "preorder_cmp nocase (\<lambda>_. True) \<Longrightarrow> preorder_cmp (column_cmp nocase k) val_ok"
  unfolding column_cmp_def
  by (rule preorder_cmp.directed_preorder[OF compare_immutable_single_preorder])

definition row_ok :: "key_info list \<Rightarrow> val list \<Rightarrow> bool" where
  "row_ok ks vs \<longleftrightarrow> length ks \<le> length vs \<and> list_all val_ok vs"

lemma row_ok_Cons: "row_ok (k # ks) vs \<Longrightarrow> \<exists>v vs'. vs = v # vs' \<and> val_ok v \<and> row_ok ks vs'"
  by (cases vs) (auto simp: row_ok_def)

lemma lex_cmp_preorder:
  assumes "preorder_cmp nocase (\<lambda>_. True)"
  shows "preorder_cmp (lex_cmp nocase Equiv ks) (row_ok ks)"
proof (induction ks)
  case Nil
  show ?case by unfold_locales auto
next
  case (Cons k ks)
  note c = column_cmp_preorder[OF assms, of k]
  show ?case
  proof
    fix a b assume "row_ok (k # ks) a" "row_ok (k # ks) b"
    then obtain x a' y b' where "a = x # a'" "b = y # b'" and ok: "val_ok x" "val_ok y" "row_ok ks a'" "row_ok ks b'"
      using row_ok_Cons by blast
    then show "lex_cmp nocase Equiv (k # ks) b a = ord_reverse (lex_cmp nocase Equiv (k # ks) a b)"
      using preorder_cmp.swap[OF c ok(1,2)] preorder_cmp.swap[OF Cons ok(3,4)]
      by (cases "column_cmp nocase k x y") auto
  next
    fix a b d assume "row_ok (k # ks) a" "row_ok (k # ks) b" "row_ok (k # ks) d"
      and le: "lex_cmp nocase Equiv (k # ks) a b \<noteq> Greater" "lex_cmp nocase Equiv (k # ks) b d \<noteq> Greater"
    then obtain x a' y b' z d' where e: "a = x # a'" "b = y # b'" "d = z # d'"
      and ok: "val_ok x" "val_ok y" "val_ok z" and rows: "row_ok ks a'" "row_ok ks b'" "row_ok ks d'"
      using row_ok_Cons[of k ks a] row_ok_Cons[of k ks b] row_ok_Cons[of k ks d] by blast
    let ?c = "column_cmp nocase k"
    have le': "if ?c x y = Equiv then lex_cmp nocase Equiv ks a' b' \<noteq> Greater else ?c x y = Less"
      "if ?c y z = Equiv then lex_cmp nocase Equiv ks b' d' \<noteq> Greater else ?c y z = Less"
      using le by (auto simp: e split: comp.splits)
    have "if ?c x y = Equiv \<and> ?c y z = Equiv then ?c x z = Equiv else ?c x z = Less"
      using le' preorder_cmp.equiv_left[OF c ok] preorder_cmp.equiv_right[OF c ok] preorder_cmp.less_trans[OF c ok]
      by (cases "?c x y = Equiv"; cases "?c y z = Equiv") simp_all
    then show "lex_cmp nocase Equiv (k # ks) a d \<noteq> Greater"
      using le' preorder_cmp.trans[OF Cons rows] by (simp add: e split: if_splits)
  qed
qed

section \<open>Properties\<close>

text \<open>C34: (\<open>ValueRef::cmp\<close>, \<open>Numeric::cmp\<close>, \<open>sqlite_int_float_cmp\<close>) the order of two values is the
  order of their storage classes, then of their exact numeric values, then of their bytes. An integer
  and a float are compared without loss although the code casts in both directions: the cast of the
  float is truncated and saturated, and the cast of the integer is rounded to 53 bits.\<close>

theorem value_cmp_exact:
  assumes "val_ok a" "val_ok b"
  shows "value_cmp a b = cmp_of (val_key a) (val_key b)"
  using assms by (rule value_cmp_key)

text \<open>The witness: \<open>2 ^ 53 + 1\<close> is above the float \<open>2 ^ 53\<close>, to which it rounds.\<close>

theorem value_cmp_exact_witness:
  "val_ok (VInteger 9007199254740993) \<and> val_ok (VFloat 0x4340000000000000) \<and>
   value_cmp (VInteger 9007199254740993) (VFloat 0x4340000000000000) =
     cmp_of (val_key (VInteger 9007199254740993)) (val_key (VFloat 0x4340000000000000))"
  using value_cmp_exact[of "VInteger 9007199254740993" "VFloat 0x4340000000000000"]
  by (simp add: is_nan_def)

text \<open>C33: (\<open>find_compare\<close>, \<open>RecordCompare::compare\<close>, \<open>compare_records_int\<close>,
  \<open>compare_records_string\<close>, \<open>compare_records_generic\<close>) whichever comparator is chosen for a key, comparing a
  serialised record with the key returns the lexicographic comparison of the record's values with the
  key under the columns' collations and directions, with the tie breaker when one of them is a prefix
  of the other.\<close>

theorem run_compare_lex:
  assumes "\<forall>v \<in> set vs. val_ok v" "length vs < 2 ^ 59" and payload: "from_values vs = Some payload"
    and f: "find_compare us info = Some f" and info: "ii_key_info info \<noteq> []"
  shows "run_compare nocase f payload us info 0 tie = Inr (lex_cmp nocase tie (ii_key_info info) vs us)"
proof -
  obtain h where h: "h = length (header_of vs) + length (varint_enc h)" "h < 2 ^ 64" "payload = record_bytes vs h"
    using record_layout[OF assms(1,2)] payload by auto
  note generic = compare_records_generic_eq[OF assms(1) h(1,2), of nocase us info 0 tie]
  obtain k ks where k: "ii_key_info info = k # ks" using info by (cases "ii_key_info info") auto
  show ?thesis
  proof (cases f)
    case CompareInt
    then have "us \<noteq> []" using f by (auto simp: find_compare_def)
    then show ?thesis
      using compare_records_int_eq[OF assms(1) h(1,2) _ info, of us nocase tie] generic
      by (simp add: CompareInt h(3))
  next
    case CompareString
    then have "us \<noteq> []" "collation k = CBinary"
      using f k by (auto simp: find_compare_def split: if_splits val.splits)
    then show ?thesis
      using compare_records_string_eq[OF assms(1) h(1,2) _ k, of us nocase tie] generic
      by (simp add: CompareString h(3))
  next
    case CompareGeneric
    then show ?thesis using generic by (simp add: h(3))
  qed
qed

theorem run_compare_lex_witness:
  "\<exists>payload. from_values [VText [97], VInteger 5] = Some payload \<and>
     run_compare bytes_cmp CompareString payload [VText [97], VInteger 7]
       \<lparr>ii_key_info = [\<lparr>sort_order = Asc, collation = CBinary, key_nulls_order = None\<rparr>, \<lparr>sort_order = Desc, collation = CBinary, key_nulls_order = None\<rparr>],
        has_rowid = True, num_cols = 2, is_unique = False\<rparr> 0 Equiv = Inr Greater"
proof -
  obtain payload where p: "from_values [VText [97], VInteger 5] = Some payload"
    using record_layout[of "[VText [97], VInteger 5]"] by auto
  show ?thesis
    using run_compare_lex[of "[VText [97], VInteger 5]" payload "[VText [97], VInteger 7]"
      "\<lparr>ii_key_info = [\<lparr>sort_order = Asc, collation = CBinary, key_nulls_order = None\<rparr>, \<lparr>sort_order = Desc, collation = CBinary, key_nulls_order = None\<rparr>],
        has_rowid = True, num_cols = 2, is_unique = False\<rparr>" CompareString bytes_cmp Equiv] p
    by (simp add: find_compare_def column_cmp_def compare_immutable_single_def value_cmp_def cmp_of_def)
qed

text \<open>C40: (\<open>compare_immutable\<close>) comparing rows column by column is a total preorder: it never panics on rows
  with enough columns, swapping the rows reverses the result, and it is transitive, which sorting
  and the binary search of an index rely on. The case-insensitive comparison of the third-party
  package is assumed to be a total preorder of strings.\<close>

theorem compare_immutable_preorder:
  assumes "preorder_cmp nocase (\<lambda>_. True)" and "row_ok ks a" "row_ok ks b" "row_ok ks c"
  shows "\<exists>x y z. compare_immutable nocase a b ks = Some x \<and> compare_immutable nocase b a ks = Some (ord_reverse x) \<and>
    compare_immutable nocase b c ks = Some y \<and> compare_immutable nocase a c ks = Some z \<and>
    (x \<noteq> Greater \<and> y \<noteq> Greater \<longrightarrow> z \<noteq> Greater)"
  using assms(2-4) preorder_cmp.swap[OF lex_cmp_preorder[OF assms(1)] assms(2,3)]
    preorder_cmp.trans[OF lex_cmp_preorder[OF assms(1)] assms(2-4)]
  by (simp add: compare_immutable_eq row_ok_def)

definition ascii_lower :: "u8 \<Rightarrow> u8" where
  "ascii_lower b = (if 65 \<le> b \<and> b \<le> 90 then b + 32 else b)"

lemma ascii_nocase_preorder:
  "preorder_cmp (\<lambda>l r. bytes_cmp (map ascii_lower l) (map ascii_lower r)) (\<lambda>_. True)"
  by unfold_locales (rule bo.swap[OF TrueI TrueI], rule bo.trans[OF TrueI TrueI TrueI])

theorem compare_immutable_preorder_witness:
  "let nocase = (\<lambda>l r. bytes_cmp (map ascii_lower l) (map ascii_lower r)); ks = [\<lparr>sort_order = Desc, collation = CNoCase, key_nulls_order = None\<rparr>] in
   compare_immutable nocase [VText [66]] [VText [97]] ks = Some Less \<and>
   compare_immutable nocase [VText [97]] [VText [66]] ks = Some Greater"
  using compare_immutable_preorder[OF ascii_nocase_preorder,
      of "[\<lparr>sort_order = Desc, collation = CNoCase, key_nulls_order = None\<rparr>]" "[VText [66]]" "[VText [97]]" "[VText [97]]"]
  by (simp add: row_ok_def compare_immutable_def compare_immutable_single_def ascii_lower_def Let_def)

end
