(* ===== verification/Btree_Page.thy ===== *)
theory Btree_Page
  imports Page_State Db_Header Varint
begin

text \<open>
  The layout of a b-tree page: the accessors of \<open>PageInner\<close> in \<open>core/storage/pager.rs\<close> and the
  page operations of \<open>core/storage/btree.rs\<close>, which allocate and free the space of cells, keep the
  list of free blocks inside the page, and move cells together when the free space is scattered.

  Every access to the buffer is checked: an index or range outside it is \<open>Panic\<close>, as is a failed
  \<open>turso_assert\<close> and a subtraction of sizes below zero (\<open>usub\<close>; a build without overflow checks
  wraps instead, and the theorems show that neither happens on a well-formed page). Debug-only
  assertions are left out. A conversion of a size that was read as a \<open>u16\<close> back to \<open>u16\<close> cannot fail
  and is the identity.
\<close>

section \<open>Access to the buffer\<close>

definition usub :: "nat \<Rightarrow> nat \<Rightarrow> nat result" where
  "usub a b = (if b \<le> a then Inr (a - b) else Inl Panic)"

definition u16_try_from :: "nat \<Rightarrow> u16 result" where
  "u16_try_from n = (if n < 2 ^ 16 then Inr (word_of_nat n) else Inl Panic)"

definition patch :: "bytes \<Rightarrow> nat \<Rightarrow> bytes \<Rightarrow> bytes" where
  "patch buf pos bs = take pos buf @ bs @ drop (pos + length bs) buf"

definition region :: "bytes \<Rightarrow> nat \<Rightarrow> nat \<Rightarrow> bytes" where
  "region buf pos len = take len (drop pos buf)"

definition page_as_ptr :: "page \<Rightarrow> bytes result" where
  "page_as_ptr p = (case pg_buffer p of None \<Rightarrow> Inl Panic | Some buf \<Rightarrow> Inr buf)"

definition page_offset :: "page \<Rightarrow> nat" where
  "page_offset p = (if pg_id p = 1 then 100 else 0)"

text \<open>Reading \<open>len\<close> bytes at an absolute position, and writing bytes there.\<close>

definition page_get :: "page \<Rightarrow> nat \<Rightarrow> nat \<Rightarrow> bytes result" where
  "page_get p pos len =
     rbind (page_as_ptr p) (\<lambda>buf.
       if pos + len \<le> length buf then Inr (region buf pos len) else Inl Panic)"

definition page_put :: "page \<Rightarrow> nat \<Rightarrow> bytes \<Rightarrow> page result" where
  "page_put p pos bs =
     rbind (page_as_ptr p) (\<lambda>buf.
       if pos + length bs \<le> length buf then Inr (p\<lparr>pg_buffer := Some (patch buf pos bs)\<rparr>) else Inl Panic)"

text \<open>\<open>buf.copy_within(src..src + len, dest)\<close>\<close>

definition page_copy_within :: "page \<Rightarrow> nat \<Rightarrow> nat \<Rightarrow> nat \<Rightarrow> page result" where
  "page_copy_within p src len dest = rbind (page_get p src len) (\<lambda>bs. page_put p dest bs)"

definition page_read_u8 :: "page \<Rightarrow> nat \<Rightarrow> u8 result" where
  "page_read_u8 p pos = rbind (page_get p (page_offset p + pos) 1) (\<lambda>bs. Inr (hd bs))"

definition page_read_u16 :: "page \<Rightarrow> nat \<Rightarrow> u16 result" where
  "page_read_u16 p pos = rbind (page_get p (page_offset p + pos) 2) (\<lambda>bs. Inr (be_u16 bs))"

definition page_read_u32 :: "page \<Rightarrow> nat \<Rightarrow> u32 result" where
  "page_read_u32 p pos = rbind (page_get p (page_offset p + pos) 4) (\<lambda>bs. Inr (be_u32 bs))"

definition page_write_u8 :: "page \<Rightarrow> nat \<Rightarrow> u8 \<Rightarrow> page result" where
  "page_write_u8 p pos v = page_put p (page_offset p + pos) [v]"

definition page_write_u16 :: "page \<Rightarrow> nat \<Rightarrow> u16 \<Rightarrow> page result" where
  "page_write_u16 p pos v = page_put p (page_offset p + pos) (u16_be v)"

definition page_write_u32 :: "page \<Rightarrow> nat \<Rightarrow> u32 \<Rightarrow> page result" where
  "page_write_u32 p pos v = page_put p (page_offset p + pos) (u32_be v)"

definition read_u16_no_offset :: "page \<Rightarrow> nat \<Rightarrow> u16 result" where
  "read_u16_no_offset p pos = rbind (page_get p pos 2) (\<lambda>bs. Inr (be_u16 bs))"

definition write_u16_no_offset :: "page \<Rightarrow> nat \<Rightarrow> u16 \<Rightarrow> page result" where
  "write_u16_no_offset p pos v = page_put p pos (u16_be v)"

section \<open>The page header\<close>

definition BTREE_PAGE_TYPE :: nat where "BTREE_PAGE_TYPE = 0"
definition BTREE_FIRST_FREEBLOCK :: nat where "BTREE_FIRST_FREEBLOCK = 1"
definition BTREE_CELL_COUNT :: nat where "BTREE_CELL_COUNT = 3"
definition BTREE_CELL_CONTENT_AREA :: nat where "BTREE_CELL_CONTENT_AREA = 5"
definition BTREE_FRAGMENTED_BYTES_COUNT :: nat where "BTREE_FRAGMENTED_BYTES_COUNT = 7"
definition BTREE_RIGHTMOST_PTR :: nat where "BTREE_RIGHTMOST_PTR = 8"

definition MINIMUM_CELL_SIZE :: nat where "MINIMUM_CELL_SIZE = 4"
definition CELL_PTR_SIZE_BYTES :: nat where "CELL_PTR_SIZE_BYTES = 2"
definition INTERIOR_PAGE_HEADER_SIZE_BYTES :: nat where "INTERIOR_PAGE_HEADER_SIZE_BYTES = 12"
definition LEAF_PAGE_HEADER_SIZE_BYTES :: nat where "LEAF_PAGE_HEADER_SIZE_BYTES = 8"

definition btree_page_type :: "page \<Rightarrow> page_type result" where
  "btree_page_type p = rbind (page_read_u8 p BTREE_PAGE_TYPE) page_type_try_from"

definition write_page_type :: "page \<Rightarrow> u8 \<Rightarrow> page result" where
  "write_page_type p v = page_write_u8 p BTREE_PAGE_TYPE v"

definition write_rightmost_ptr :: "page \<Rightarrow> u32 \<Rightarrow> page result" where
  "write_rightmost_ptr p v = page_write_u32 p BTREE_RIGHTMOST_PTR v"

definition write_first_freeblock :: "page \<Rightarrow> u16 \<Rightarrow> page result" where
  "write_first_freeblock p v = page_write_u16 p BTREE_FIRST_FREEBLOCK v"

definition write_freeblock_size :: "page \<Rightarrow> u16 \<Rightarrow> u16 \<Rightarrow> page result" where
  "write_freeblock_size p ofs sz = write_u16_no_offset p (unat ofs + 2) sz"

definition write_freeblock_next_ptr :: "page \<Rightarrow> u16 \<Rightarrow> u16 \<Rightarrow> page result" where
  "write_freeblock_next_ptr p ofs next_block = write_u16_no_offset p (unat ofs) next_block"

definition write_freeblock :: "page \<Rightarrow> u16 \<Rightarrow> u16 \<Rightarrow> u16 option \<Rightarrow> page result" where
  "write_freeblock p ofs sz next_block =
     rbind (write_freeblock_next_ptr p ofs (case next_block of None \<Rightarrow> 0 | Some b \<Rightarrow> b)) (\<lambda>p.
     write_freeblock_size p ofs sz)"

definition read_freeblock :: "page \<Rightarrow> u16 \<Rightarrow> (u16 \<times> u16) result" where
  "read_freeblock p ofs =
     rbind (read_u16_no_offset p (unat ofs)) (\<lambda>next_block.
     rbind (read_u16_no_offset p (unat ofs + 2)) (\<lambda>sz. Inr (next_block, sz)))"

definition write_cell_count :: "page \<Rightarrow> u16 \<Rightarrow> page result" where
  "write_cell_count p v = page_write_u16 p BTREE_CELL_COUNT v"

definition write_cell_content_area :: "page \<Rightarrow> nat \<Rightarrow> page result" where
  "write_cell_content_area p v = page_write_u16 p BTREE_CELL_CONTENT_AREA (word_of_nat v)"

definition write_fragmented_bytes_count :: "page \<Rightarrow> u8 \<Rightarrow> page result" where
  "write_fragmented_bytes_count p v = page_write_u8 p BTREE_FRAGMENTED_BYTES_COUNT v"

definition first_freeblock :: "page \<Rightarrow> u16 result" where
  "first_freeblock p = page_read_u16 p BTREE_FIRST_FREEBLOCK"

definition cell_count :: "page \<Rightarrow> nat result" where
  "cell_count p = rbind (page_read_u16 p BTREE_CELL_COUNT) (\<lambda>n. Inr (unat n))"

definition cell_pointer_array_size :: "page \<Rightarrow> nat result" where
  "cell_pointer_array_size p = rbind (cell_count p) (\<lambda>n. Inr (n * CELL_PTR_SIZE_BYTES))"

definition cell_content_area :: "page \<Rightarrow> nat result" where
  "cell_content_area p =
     rbind (page_read_u16 p BTREE_CELL_CONTENT_AREA) (\<lambda>ofs.
       if ofs = 0 then Inr 65536 else Inr (unat ofs))"

definition header_size :: "page \<Rightarrow> nat result" where
  "header_size p =
     rbind (page_read_u8 p BTREE_PAGE_TYPE) (\<lambda>ty.
       if ty \<le> page_type_u8 TableInterior then Inr INTERIOR_PAGE_HEADER_SIZE_BYTES
       else Inr LEAF_PAGE_HEADER_SIZE_BYTES)"

definition num_frag_free_bytes :: "page \<Rightarrow> u8 result" where
  "num_frag_free_bytes p = page_read_u8 p BTREE_FRAGMENTED_BYTES_COUNT"

definition rightmost_pointer :: "page \<Rightarrow> u32 option result" where
  "rightmost_pointer p =
     rbind (btree_page_type p) (\<lambda>ty.
       case ty of
         IndexInterior \<Rightarrow> rbind (page_read_u32 p BTREE_RIGHTMOST_PTR) (\<lambda>v. Inr (Some v))
       | TableInterior \<Rightarrow> rbind (page_read_u32 p BTREE_RIGHTMOST_PTR) (\<lambda>v. Inr (Some v))
       | IndexLeaf \<Rightarrow> Inr None
       | TableLeaf \<Rightarrow> Inr None)"

definition cell_pointer_array_offset :: "page \<Rightarrow> nat result" where
  "cell_pointer_array_offset p = rbind (header_size p) (\<lambda>h. Inr (page_offset p + h))"

definition unallocated_region_start :: "page \<Rightarrow> nat result" where
  "unallocated_region_start p =
     rbind (cell_pointer_array_offset p) (\<lambda>start.
     rbind (cell_pointer_array_size p) (\<lambda>sz. Inr (start + sz)))"

definition unallocated_region_size :: "page \<Rightarrow> nat result" where
  "unallocated_region_size p =
     rbind (cell_content_area p) (\<lambda>area.
     rbind (unallocated_region_start p) (\<lambda>start. usub area start))"

definition page_is_leaf :: "page \<Rightarrow> bool result" where
  "page_is_leaf p = rbind (page_read_u8 p BTREE_PAGE_TYPE) (\<lambda>ty. Inr (ty > page_type_u8 TableInterior))"

text \<open>\<open>btree_init_page\<close>; the zeroing of the reserved bytes is part of debug builds only.\<close>

definition btree_init_page :: "page \<Rightarrow> page_type \<Rightarrow> nat \<Rightarrow> page result" where
  "btree_init_page p ty usable =
     rbind (write_page_type p (page_type_u8 ty)) (\<lambda>p.
     rbind (write_first_freeblock p 0) (\<lambda>p.
     rbind (write_cell_count p 0) (\<lambda>p.
     rbind (write_cell_content_area p usable) (\<lambda>p.
     rbind (write_fragmented_bytes_count p 0) (\<lambda>p.
     write_rightmost_ptr p 0)))))"

section \<open>The region of a cell\<close>

definition payload_overflow_threshold_max :: "page_type \<Rightarrow> nat \<Rightarrow> nat result" where
  "payload_overflow_threshold_max ty usable =
     (case ty of
        IndexInterior \<Rightarrow> rbind (usub usable 12) (\<lambda>n. usub (n * 64 div 255) 23)
      | IndexLeaf \<Rightarrow> rbind (usub usable 12) (\<lambda>n. usub (n * 64 div 255) 23)
      | TableInterior \<Rightarrow> usub usable 35
      | TableLeaf \<Rightarrow> usub usable 35)"

definition payload_overflow_threshold_min :: "page_type \<Rightarrow> nat \<Rightarrow> nat result" where
  "payload_overflow_threshold_min ty usable =
     rbind (usub usable 12) (\<lambda>n. usub (n * 32 div 255) 23)"

definition payload_overflows :: "nat \<Rightarrow> nat \<Rightarrow> nat \<Rightarrow> nat \<Rightarrow> (bool \<times> nat) result" where
  "payload_overflows payload_size threshold_max threshold_min usable_size =
     (if payload_size \<le> threshold_max then Inr (False, 0)
      else
        rbind (usub payload_size threshold_min) (\<lambda>rest.
        rbind (usub usable_size 4) (\<lambda>m.
          if m = 0 then Inl Panic
          else
            let space_left = threshold_min + rest mod m;
                space_left = (if space_left > threshold_max then threshold_min else space_left)
            in Inr (True, space_left + 4))))"

text \<open>\<open>slice_in_bounds_or_corrupt!(buf, pos..)\<close> followed by \<open>read_varint\<close>\<close>

definition varint_at :: "bytes \<Rightarrow> nat \<Rightarrow> (u64 \<times> nat) result" where
  "varint_at buf pos = (if pos \<le> length buf then read_varint (drop pos buf) else Inl Corrupt)"

definition cell_get_raw_start_offset :: "page \<Rightarrow> nat \<Rightarrow> nat result" where
  "cell_get_raw_start_offset p idx =
     rbind (cell_pointer_array_offset p) (\<lambda>start.
     rbind (read_u16_no_offset p (start + idx * CELL_PTR_SIZE_BYTES)) (\<lambda>v. Inr (unat v)))"

definition raw_region_len :: "bytes \<Rightarrow> nat \<Rightarrow> nat \<Rightarrow> nat \<Rightarrow> nat \<Rightarrow> page_type \<Rightarrow> nat result" where
  "raw_region_len buf start usable_size max_local min_local ty =
     (case ty of
        IndexInterior \<Rightarrow>
          rbind (varint_at buf (start + 4)) (\<lambda>(len_payload, n_payload).
          rbind (payload_overflows (unat len_payload) max_local min_local usable_size) (\<lambda>(overflows, to_read).
            if overflows then Inr (4 + to_read + n_payload)
            else Inr (4 + unat len_payload + n_payload)))
      | TableInterior \<Rightarrow>
          rbind (varint_at buf (start + 4)) (\<lambda>(_, n_rowid). Inr (4 + n_rowid))
      | IndexLeaf \<Rightarrow>
          rbind (varint_at buf start) (\<lambda>(len_payload, n_payload).
          rbind (payload_overflows (unat len_payload) max_local min_local usable_size) (\<lambda>(overflows, to_read).
            if overflows then Inr (to_read + n_payload)
            else Inr (max MINIMUM_CELL_SIZE (unat len_payload + n_payload))))
      | TableLeaf \<Rightarrow>
          rbind (varint_at buf start) (\<lambda>(len_payload, n_payload).
          rbind (varint_at buf (start + n_payload)) (\<lambda>(_, n_rowid).
          rbind (payload_overflows (unat len_payload) max_local min_local usable_size) (\<lambda>(overflows, to_read).
            if overflows then Inr (to_read + n_payload + n_rowid)
            else Inr (max MINIMUM_CELL_SIZE (unat len_payload + n_payload + n_rowid))))))"

definition cell_get_raw_region_faster ::
  "page \<Rightarrow> nat \<Rightarrow> nat \<Rightarrow> nat \<Rightarrow> nat \<Rightarrow> nat \<Rightarrow> page_type \<Rightarrow> (nat \<times> nat) result" where
  "cell_get_raw_region_faster p idx usable_size ncells max_local min_local ty =
     rbind (page_as_ptr p) (\<lambda>buf.
       if \<not> idx < ncells then Inl Panic
       else
         rbind (cell_get_raw_start_offset p idx) (\<lambda>start.
         rbind (raw_region_len buf start usable_size max_local min_local ty) (\<lambda>len.
           if start + len \<le> length buf then Inr (start, len) else Inl Corrupt)))"

definition cell_get_raw_region :: "page \<Rightarrow> nat \<Rightarrow> nat \<Rightarrow> (nat \<times> nat) result" where
  "cell_get_raw_region p idx usable_size =
     rbind (btree_page_type p) (\<lambda>ty.
     rbind (payload_overflow_threshold_max ty usable_size) (\<lambda>max_local.
     rbind (payload_overflow_threshold_min ty usable_size) (\<lambda>min_local.
     rbind (cell_count p) (\<lambda>n.
       cell_get_raw_region_faster p idx usable_size n max_local min_local ty))))"

section \<open>Free space\<close>

text \<open>The list of free blocks is walked by each operation in its own way; every walk checks that the
  blocks ascend, so it ends.\<close>

function free_space_loop :: "page \<Rightarrow> nat \<Rightarrow> nat \<Rightarrow> nat \<Rightarrow> nat result" where
  "free_space_loop p usable cur free_space_bytes =
     (if cur + 4 > usable then Inl Corrupt
      else
        rbind (read_u16_no_offset p cur) (\<lambda>next_block.
        rbind (read_u16_no_offset p (cur + 2)) (\<lambda>sz.
          let next_block = unat next_block;
              sz = unat sz in
          if sz < 4 then Inl Corrupt
          else if cur + sz > usable then Inl Corrupt
          else if next_block = 0 then Inr (free_space_bytes + sz)
          else if next_block \<le> cur + sz + 3 then Inl Corrupt
          else free_space_loop p usable next_block (free_space_bytes + sz))))"
  by pat_completeness auto
termination
  by (relation "measure (\<lambda>(p, usable, cur, free_space_bytes). usable - cur)") auto

declare free_space_loop.simps [simp del]

definition compute_free_space :: "page \<Rightarrow> nat \<Rightarrow> nat result" where
  "compute_free_space p usable =
     rbind (header_size p) (\<lambda>hs.
     rbind (cell_count p) (\<lambda>n.
       let first_cell = page_offset p + hs + 2 * n in
       if first_cell > usable then Inl Corrupt
       else
         rbind (cell_content_area p) (\<lambda>area_start.
           if area_start > usable then Inl Corrupt
           else
             rbind (num_frag_free_bytes p) (\<lambda>frag.
             rbind (first_freeblock p) (\<lambda>cur.
             rbind (if unat cur > 0
                    then if unat cur < area_start then Inl Corrupt
                         else free_space_loop p usable (unat cur) (area_start + unat frag)
                    else Inr (area_start + unat frag)) (\<lambda>free_space_bytes.
               if free_space_bytes > usable then Inl Corrupt
               else if free_space_bytes < first_cell then Inl Corrupt
               else Inr (free_space_bytes - first_cell)))))))"

text \<open>\<open>find_free_slot\<close>; the loop over the blocks carries the previous block.\<close>

definition take_slot :: "page \<Rightarrow> nat \<Rightarrow> nat \<Rightarrow> u16 option \<Rightarrow> u16 \<Rightarrow> u16 \<Rightarrow> u16 \<Rightarrow> (page \<times> nat option) result" where
  "take_slot p max_start_offset amount prev_block cur next_block sz =
     (let new_size = unat sz - amount in
      if new_size < 4 then
        rbind (num_frag_free_bytes p) (\<lambda>frag.
          if frag > 57 then Inr (p, None)
          else
            rbind (case prev_block of
                     Some prev \<Rightarrow> write_freeblock_next_ptr p prev next_block
                   | None \<Rightarrow> write_first_freeblock p next_block) (\<lambda>p.
            rbind (num_frag_free_bytes p) (\<lambda>frag.
            rbind (write_fragmented_bytes_count p (frag + word_of_nat new_size)) (\<lambda>p.
              Inr (p, Some (unat cur))))))
      else if new_size + unat cur > max_start_offset then Inl Corrupt
      else
        rbind (write_freeblock_size p cur (word_of_nat new_size)) (\<lambda>p.
          Inr (p, Some (unat cur + new_size))))"

function find_free_slot_loop ::
  "page \<Rightarrow> nat \<Rightarrow> nat \<Rightarrow> nat \<Rightarrow> u16 option \<Rightarrow> u16 \<Rightarrow> (page \<times> nat option) result" where
  "find_free_slot_loop p usable max_start_offset amount prev_block cur =
     (if unat cur + 4 > usable then Inl Corrupt
      else
        rbind (read_freeblock p cur) (\<lambda>(next_block, sz).
          if amount > unat sz then
            if next_block = 0 then Inr (p, None)
            else if next_block \<le> cur then Inl Corrupt
            else find_free_slot_loop p usable max_start_offset amount (Some cur) next_block
          else take_slot p max_start_offset amount prev_block cur next_block sz))"
  by pat_completeness auto
termination
  by (relation "measure (\<lambda>(p, usable, max_start_offset, amount, prev_block, cur). usable - unat cur)")
     (auto simp: word_less_nat_alt not_le)

declare find_free_slot_loop.simps [simp del]

definition find_free_slot :: "page \<Rightarrow> nat \<Rightarrow> nat \<Rightarrow> (page \<times> nat option) result" where
  "find_free_slot p usable amount =
     rbind (first_freeblock p) (\<lambda>first_block.
     rbind (usub usable amount) (\<lambda>max_start_offset.
       if first_block = 0 then Inr (p, None)
       else find_free_slot_loop p usable max_start_offset amount None first_block))"

text \<open>\<open>free_cell_range\<close>: the search for the neighbours of the freed range, then the merges.\<close>

function find_neighbours :: "page \<Rightarrow> nat \<Rightarrow> nat option \<Rightarrow> nat \<Rightarrow> (nat option \<times> nat option) result" where
  "find_neighbours p ofs prev_block next_block =
     (if (case prev_block of Some prev \<Rightarrow> next_block \<le> prev | None \<Rightarrow> False) then Inl Corrupt
      else if next_block \<ge> ofs then Inr (prev_block, Some next_block)
      else
        rbind (read_u16_no_offset p next_block) (\<lambda>n.
          if n = 0 then Inr (Some next_block, None)
          else find_neighbours p ofs (Some next_block) (unat n)))"
  by pat_completeness auto
termination
  by (relation "measure (\<lambda>(p, ofs, prev_block, next_block).
        case prev_block of None \<Rightarrow> ofs + 1 | Some prev \<Rightarrow> ofs - prev)") (auto split: option.splits)

declare find_neighbours.simps [simp del]

text \<open>The merge with the next block: the removed fragmentation, the new end and the block after it.\<close>

definition merge_next :: "page \<Rightarrow> nat \<Rightarrow> nat \<Rightarrow> nat option \<Rightarrow> (u8 \<times> nat \<times> nat option) result" where
  "merge_next p usable end next_block =
     (case next_block of
        None \<Rightarrow> Inr (0, end, None)
      | Some next_start \<Rightarrow>
          if end + 3 \<ge> next_start then
            rbind (usub next_start end) (\<lambda>gap.
            rbind (read_u16_no_offset p (next_start + 2)) (\<lambda>next_size.
              let end = next_start + unat next_size in
              if end > usable then Inl Corrupt
              else
                rbind (read_u16_no_offset p next_start) (\<lambda>n.
                  Inr (word_of_nat gap, end, if n = 0 then None else Some (unat n)))))
          else Inr (0, end, next_block))"

text \<open>The merge with the previous block: the removed fragmentation and the new start.\<close>

definition merge_prev :: "page \<Rightarrow> nat \<Rightarrow> nat option \<Rightarrow> u8 \<Rightarrow> (u8 \<times> nat) result" where
  "merge_prev p ofs prev_block removed =
     (case prev_block of
        None \<Rightarrow> Inr (removed, ofs)
      | Some prev \<Rightarrow>
          rbind (read_u16_no_offset p (prev + 2)) (\<lambda>prev_size.
            let prev_end = prev + unat prev_size in
            if prev_end > ofs then Inl Corrupt
            else if prev_end + 3 \<ge> ofs then Inr (removed + word_of_nat (ofs - prev_end), prev)
            else Inr (removed, ofs)))"

text \<open>The freed range becomes part of the unallocated region, or a free block.\<close>

definition link_freed ::
  "page \<Rightarrow> nat \<Rightarrow> nat \<Rightarrow> nat \<Rightarrow> nat \<Rightarrow> nat option \<Rightarrow> nat option \<Rightarrow> page result" where
  "link_freed p cur_content_area first_block ofs end prev_block next_block =
     (if ofs < cur_content_area then Inl Corrupt
      else if ofs = cur_content_area then
        if (case prev_block of Some prev \<Rightarrow> prev \<noteq> first_block | None \<Rightarrow> False) then Inl Corrupt
        else
          rbind (case next_block of
                   Some next_start \<Rightarrow>
                     if next_start \<le> end then Inl Corrupt
                     else rbind (u16_try_from next_start) (write_first_freeblock p)
                 | None \<Rightarrow> write_first_freeblock p 0) (\<lambda>p.
          write_cell_content_area p end)
      else
        rbind (u16_try_from ofs) (\<lambda>offset_u16.
        rbind (case prev_block of
                 Some prev \<Rightarrow> write_u16_no_offset p prev offset_u16
               | None \<Rightarrow> write_first_freeblock p offset_u16) (\<lambda>p.
        rbind (usub end ofs) (\<lambda>sz.
        rbind (u16_try_from sz) (\<lambda>size_u16.
        rbind (case next_block of
                 None \<Rightarrow> Inr None
               | Some b \<Rightarrow> rbind (u16_try_from b) (\<lambda>b. Inr (Some b))) (\<lambda>next_block_u16.
          write_freeblock p offset_u16 size_u16 next_block_u16))))))"

definition free_cell_range :: "page \<Rightarrow> nat \<Rightarrow> nat \<Rightarrow> nat \<Rightarrow> page result" where
  "free_cell_range p ofs len usable =
     (if len < 4 then Inl Corrupt
      else if ofs > usable - 4 then Inl Corrupt
      else if ofs + len > usable then Inl Corrupt
      else
        rbind (cell_content_area p) (\<lambda>cur_content_area.
        rbind (first_freeblock p) (\<lambda>first_block.
          if first_block = 0 then
            if ofs < cur_content_area then Inl Corrupt
            else if ofs = cur_content_area then write_cell_content_area p (ofs + len)
            else
              rbind (u16_try_from ofs) (\<lambda>offset_u16.
              rbind (write_first_freeblock p offset_u16) (\<lambda>p.
              rbind (u16_try_from len) (\<lambda>size_u16.
                write_freeblock p offset_u16 size_u16 None)))
          else
            rbind (find_neighbours p ofs None (unat first_block)) (\<lambda>(prev_block, next_block).
              if (case next_block of Some next_start \<Rightarrow> next_start + 4 > usable | None \<Rightarrow> False) then Inl Corrupt
              else
                rbind (merge_next p usable (ofs + len) next_block) (\<lambda>(removed, end, next_block).
                rbind (merge_prev p ofs prev_block removed) (\<lambda>(removed, ofs).
                rbind (num_frag_free_bytes p) (\<lambda>frag.
                  if removed > frag then Inl Corrupt
                  else
                    rbind (write_fragmented_bytes_count p (frag - removed)) (\<lambda>p.
                    link_freed p cur_content_area (unat first_block) ofs end prev_block next_block))))))))"

section \<open>Defragmentation\<close>

fun shift_pointers_loop :: "page \<Rightarrow> nat \<Rightarrow> nat \<Rightarrow> nat \<Rightarrow> nat \<Rightarrow> nat \<Rightarrow> nat \<Rightarrow> nat \<Rightarrow> nat \<Rightarrow> page result" where
  "shift_pointers_loop p usable array f1 f2 sum_size f2_size i 0 = Inr p"
| "shift_pointers_loop p usable array f1 f2 sum_size f2_size i (Suc n) =
     (let ptr_offset = array + i * CELL_PTR_SIZE_BYTES in
      rbind (read_u16_no_offset p ptr_offset) (\<lambda>cell_ptr.
        let cell_ptr = unat cell_ptr in
        rbind (if cell_ptr < f1 then
                 if cell_ptr + sum_size > usable then Inl Corrupt
                 else write_u16_no_offset p ptr_offset (word_of_nat (cell_ptr + sum_size))
               else if f2 > 0 \<and> cell_ptr < f2 then
                 if cell_ptr + f2_size > usable then Inl Corrupt
                 else write_u16_no_offset p ptr_offset (word_of_nat (cell_ptr + f2_size))
               else Inr p) (\<lambda>p.
        shift_pointers_loop p usable array f1 f2 sum_size f2_size (i + 1) n)))"

definition defragment_page_fast :: "page \<Rightarrow> nat \<Rightarrow> nat \<Rightarrow> nat \<Rightarrow> page result" where
  "defragment_page_fast p usable freeblock_1st freeblock_2nd =
     (if freeblock_1st = 0 then Inl Corrupt
      else if freeblock_2nd > 0 \<and> freeblock_1st \<ge> freeblock_2nd then Inl Corrupt
      else
        rbind (usub usable 4) (\<lambda>limit.
          if freeblock_1st > limit then Inl Corrupt
          else if freeblock_2nd > limit then Inl Corrupt
          else
            rbind (read_u16_no_offset p (freeblock_1st + 2)) (\<lambda>s1.
            rbind (if freeblock_2nd > 0 then read_u16_no_offset p (freeblock_2nd + 2) else Inr 0) (\<lambda>s2.
              let freeblock_1st_size = unat s1;
                  freeblock_2nd_size = unat s2;
                  freeblocks_total_size = freeblock_1st_size + freeblock_2nd_size in
              rbind (cell_content_area p) (\<lambda>area.
              rbind (if freeblock_2nd > 0 then
                       if freeblock_1st + freeblock_1st_size > freeblock_2nd then Inl Corrupt
                       else if freeblock_2nd + freeblock_2nd_size > usable then Inl Corrupt
                       else
                         let after_first_freeblock = freeblock_1st + freeblock_1st_size in
                         page_copy_within p after_first_freeblock (freeblock_2nd - after_first_freeblock)
                           (freeblock_1st + freeblocks_total_size)
                     else if freeblock_1st + freeblock_1st_size > usable then Inl Corrupt
                     else Inr p) (\<lambda>p.
              let new_cell_content_area = area + freeblocks_total_size in
              rbind (usub freeblock_1st area) (\<lambda>copy_amount.
                if new_cell_content_area + copy_amount > usable then Inl Corrupt
                else
                  rbind (page_copy_within p area copy_amount new_cell_content_area) (\<lambda>p.
                  rbind (cell_count p) (\<lambda>n.
                  rbind (cell_pointer_array_offset p) (\<lambda>array.
                  rbind (shift_pointers_loop p usable array freeblock_1st freeblock_2nd
                           freeblocks_total_size freeblock_2nd_size 0 n) (\<lambda>p.
                  rbind (write_cell_content_area p new_cell_content_area) (\<lambda>p.
                  write_first_freeblock p 0))))))))))))"

record cell_info =
  old_offset :: u16
  ci_size :: u16
  pointer_index :: nat

text \<open>The metadata of the cells, with the flag that their offsets descend.\<close>

fun gather_cells ::
  "page \<Rightarrow> nat \<Rightarrow> nat \<Rightarrow> nat \<Rightarrow> nat \<Rightarrow> page_type \<Rightarrow> nat \<Rightarrow> nat \<Rightarrow> nat \<Rightarrow> bool \<Rightarrow> u16 \<Rightarrow> (cell_info list \<times> bool) result"
where
  "gather_cells p usable cell_offset max_local min_local ty ncells i 0 in_order last_offset = Inr ([], in_order)"
| "gather_cells p usable cell_offset max_local min_local ty ncells i (Suc n) in_order last_offset =
     rbind (read_u16_no_offset p (cell_offset + i * 2)) (\<lambda>pc.
     rbind (cell_get_raw_region_faster p i usable ncells max_local min_local ty) (\<lambda>(_, sz).
     rbind (gather_cells p usable cell_offset max_local min_local ty ncells (i + 1) n
              (in_order \<and> \<not> pc > last_offset) pc) (\<lambda>(cells, in_order).
       Inr (\<lparr>old_offset = pc, ci_size = word_of_nat sz, pointer_index = i\<rparr> # cells, in_order))))"

fun move_cells :: "page \<Rightarrow> nat \<Rightarrow> nat \<Rightarrow> nat \<Rightarrow> nat \<Rightarrow> cell_info list \<Rightarrow> (page \<times> nat) result" where
  "move_cells p usable array first_cell_content_byte cbrk [] = Inr (p, cbrk)"
| "move_cells p usable array first_cell_content_byte cbrk (cell # cells) =
     rbind (usub cbrk (unat (ci_size cell))) (\<lambda>cbrk.
       let new_offset = cbrk;
           old_ofs = unat (old_offset cell);
           sz = unat (ci_size cell) in
       if \<not> (new_offset \<ge> first_cell_content_byte \<and> old_ofs + sz \<le> usable) then Inl Panic
       else
         rbind (if new_offset \<noteq> old_ofs then page_copy_within p old_ofs sz new_offset else Inr p) (\<lambda>p.
           if \<not> new_offset < 65536 then Inl Panic
           else
             rbind (write_u16_no_offset p (array + pointer_index cell * 2) (word_of_nat new_offset)) (\<lambda>p.
             move_cells p usable array first_cell_content_byte cbrk cells)))"

text \<open>The unstable sort is modelled by a stable one: the order of equal offsets is not specified, and
  the cells of a well-formed page have different offsets.\<close>

definition process_cells :: "page \<Rightarrow> nat \<Rightarrow> cell_info list \<Rightarrow> bool \<Rightarrow> page result" where
  "process_cells p usable cells is_physically_sorted =
     (let cells = (if is_physically_sorted then cells else sort_key (\<lambda>c. - int (unat (old_offset c))) cells) in
      rbind (cell_pointer_array_offset p) (\<lambda>array.
      rbind (unallocated_region_start p) (\<lambda>first_cell_content_byte.
      rbind (move_cells p usable array first_cell_content_byte usable cells) (\<lambda>(p, cbrk).
      rbind (write_cell_content_area p cbrk) (\<lambda>p.
      rbind (write_first_freeblock p 0) (\<lambda>p.
      write_fragmented_bytes_count p 0))))))"

definition defragment_slow :: "page \<Rightarrow> nat \<Rightarrow> nat \<Rightarrow> page result" where
  "defragment_slow p usable n =
     rbind (cell_pointer_array_offset p) (\<lambda>cell_offset.
     rbind (btree_page_type p) (\<lambda>ty.
     rbind (payload_overflow_threshold_max ty usable) (\<lambda>max_local.
     rbind (payload_overflow_threshold_min ty usable) (\<lambda>min_local.
     rbind (gather_cells p usable cell_offset max_local min_local ty n 0 n True 0xffff) (\<lambda>(cells, in_order).
     process_cells p usable cells in_order)))))"

definition defragment_page :: "page \<Rightarrow> nat \<Rightarrow> int \<Rightarrow> page result" where
  "defragment_page p usable max_frag_bytes =
     rbind (cell_count p) (\<lambda>n.
       if n = 0 then
         rbind (write_cell_content_area p usable) (\<lambda>p.
         rbind (write_first_freeblock p 0) (\<lambda>p.
         write_fragmented_bytes_count p 0))
       else
         rbind (num_frag_free_bytes p) (\<lambda>frag.
           if int (unat frag) \<le> max_frag_bytes then
             rbind (first_freeblock p) (\<lambda>freeblock_1st.
               if freeblock_1st = 0 then Inr p
               else
                 rbind (read_u16_no_offset p (unat freeblock_1st)) (\<lambda>freeblock_2nd.
                   if freeblock_2nd = 0 then defragment_page_fast p usable (unat freeblock_1st) 0
                   else
                     rbind (read_u16_no_offset p (unat freeblock_2nd)) (\<lambda>freeblock_3rd.
                       if freeblock_3rd = 0
                       then defragment_page_fast p usable (unat freeblock_1st) (unat freeblock_2nd)
                       else defragment_slow p usable n)))
           else defragment_slow p usable n))"

definition defragment_page_full :: "page \<Rightarrow> nat \<Rightarrow> page result" where
  "defragment_page_full p usable = defragment_page p usable (- 1)"

section \<open>Inserting and dropping cells\<close>

text \<open>The part of \<open>allocate_cell_space\<close> behind the search for a free slot.\<close>

definition allocate_at_front :: "page \<Rightarrow> nat \<Rightarrow> nat \<Rightarrow> nat \<Rightarrow> nat \<Rightarrow> nat \<Rightarrow> (page \<times> u16) result" where
  "allocate_at_front p amount usable free_space region_start area =
     rbind (if region_start + CELL_PTR_SIZE_BYTES + amount > area then
              let max_frag_bytes = min 4 (int free_space - int (CELL_PTR_SIZE_BYTES + amount)) in
              rbind (defragment_page p usable max_frag_bytes) (\<lambda>p.
              rbind (cell_content_area p) (\<lambda>area. Inr (p, area)))
            else Inr (p, area)) (\<lambda>(p, area).
     rbind (usub area amount) (\<lambda>area.
     rbind (write_cell_content_area p area) (\<lambda>p.
       if area + amount \<le> usable then Inr (p, word_of_nat area) else Inl Panic)))"

definition allocate_cell_space :: "page \<Rightarrow> nat \<Rightarrow> nat \<Rightarrow> nat \<Rightarrow> (page \<times> u16) result" where
  "allocate_cell_space p amount usable free_space =
     (let amount = max amount MINIMUM_CELL_SIZE in
      rbind (unallocated_region_start p) (\<lambda>region_start.
      rbind (cell_content_area p) (\<lambda>area.
      rbind (first_freeblock p) (\<lambda>first_block.
        if first_block \<noteq> 0 \<and> region_start + CELL_PTR_SIZE_BYTES \<le> area then
          rbind (find_free_slot p usable amount) (\<lambda>(p, slot).
            case slot of
              Some pc \<Rightarrow> Inr (p, word_of_nat pc)
            | None \<Rightarrow> allocate_at_front p amount usable free_space region_start area)
        else allocate_at_front p amount usable free_space region_start area))))"

text \<open>Shifting the pointers to the right of the new cell and storing its pointer.\<close>

definition insert_pointer :: "page \<Rightarrow> nat \<Rightarrow> u16 \<Rightarrow> page result" where
  "insert_pointer p cell_idx pc =
     rbind (cell_pointer_array_offset p) (\<lambda>array.
       let cur = array + CELL_PTR_SIZE_BYTES * cell_idx in
       rbind (cell_count p) (\<lambda>n.
       rbind (usub n cell_idx) (\<lambda>n_cells_forward.
         let n_bytes_forward = CELL_PTR_SIZE_BYTES * n_cells_forward in
         rbind (if n_bytes_forward > 0
                then page_copy_within p cur n_bytes_forward (cur + CELL_PTR_SIZE_BYTES)
                else Inr p) (\<lambda>p.
         rbind (write_u16_no_offset p cur pc) (\<lambda>p.
         rbind (cell_count p) (\<lambda>n.
         write_cell_count p (word_of_nat (n + 1))))))))"

definition insert_into_cell_inner :: "page \<Rightarrow> bytes \<Rightarrow> nat \<Rightarrow> nat \<Rightarrow> bool \<Rightarrow> page result" where
  "insert_into_cell_inner p payload cell_idx usable allow_regular_insert_despite_overflow =
     rbind (cell_count p) (\<lambda>n.
       if \<not> cell_idx \<le> n + length (overflow_cells p) then Inl Panic
       else
         rbind (compute_free_space p usable) (\<lambda>free.
           let already_has_overflow = (overflow_cells p \<noteq> []);
               enough_space =
                 (if already_has_overflow \<and> \<not> allow_regular_insert_despite_overflow then False
                  else length payload + CELL_PTR_SIZE_BYTES \<le> free) in
           if \<not> enough_space then
             Inr (p\<lparr>overflow_cells := overflow_cells p @ [(cell_idx, payload)]\<rparr>)
           else if \<not> cell_idx \<le> n then Inl Panic
           else
             rbind (allocate_cell_space p (length payload) usable free) (\<lambda>(p, pc).
               if \<not> unat pc + length payload \<le> usable then Inl Panic
               else
                 rbind (page_put p (unat pc) payload) (\<lambda>p.
                 insert_pointer p cell_idx pc))))"

definition insert_into_cell :: "page \<Rightarrow> bytes \<Rightarrow> nat \<Rightarrow> nat \<Rightarrow> page result" where
  "insert_into_cell p payload cell_idx usable = insert_into_cell_inner p payload cell_idx usable False"

definition shift_pointers_left :: "page \<Rightarrow> nat \<Rightarrow> page result" where
  "shift_pointers_left p cell_idx =
     rbind (cell_count p) (\<lambda>n.
       if \<not> n > 0 then Inl Panic
       else
         rbind (cell_pointer_array_offset p) (\<lambda>array.
           let start = array + cell_idx * 2 + 2 in
           rbind (usub n (cell_idx + 1)) (\<lambda>right_cells.
           page_copy_within p start (right_cells * 2) (start - 2))))"

definition drop_cell :: "page \<Rightarrow> nat \<Rightarrow> nat \<Rightarrow> page result" where
  "drop_cell p cell_idx usable =
     rbind (cell_get_raw_region p cell_idx usable) (\<lambda>(cell_start, cell_len).
     rbind (free_cell_range p cell_start cell_len usable) (\<lambda>p.
     rbind (cell_count p) (\<lambda>n.
     rbind (if n > 1 then shift_pointers_left p cell_idx
            else
              rbind (write_cell_content_area p usable) (\<lambda>p.
              rbind (write_first_freeblock p 0) (\<lambda>p.
              write_fragmented_bytes_count p 0))) (\<lambda>p.
     rbind (cell_count p) (\<lambda>n.
     rbind (usub n 1) (\<lambda>m. write_cell_count p (word_of_nat m)))))))"

end
