(* ===== verification/Btree_Layout.thy ===== *)
theory Btree_Layout
  imports Btree_Page "HOL-Library.Multiset"
begin

text \<open>
  The invariant of a b-tree page and the proofs that the page operations of \<open>Btree_Page\<close> keep it.

  The used part of the content area is a set of regions: the cells and the free blocks. They lie
  inside the content area, do not overlap, are at least four bytes long, and together with the
  unallocated region and the fragmented bytes they fill the page. The free blocks are linked in
  ascending order with at least four bytes between two of them.
\<close>

section \<open>Memory\<close>

lemma length_patch [simp]: "pos + length bs \<le> length buf \<Longrightarrow> length (patch buf pos bs) = length buf"
  by (simp add: patch_def)

lemma length_region [simp]: "s + l \<le> length buf \<Longrightarrow> length (region buf s l) = l"
  by (simp add: region_def)

lemma nth_region: "i < l \<Longrightarrow> s + l \<le> length buf \<Longrightarrow> region buf s l ! i = buf ! (s + i)"
  by (simp add: region_def)

lemma nth_patch:
  "pos + length bs \<le> length buf \<Longrightarrow> i < length buf \<Longrightarrow>
   patch buf pos bs ! i = (if pos \<le> i \<and> i < pos + length bs then bs ! (i - pos) else buf ! i)"
  by (auto simp: patch_def nth_append)

lemma region_eqI:
  assumes "s + l \<le> length a" "t + l \<le> length b" "\<And>i. i < l \<Longrightarrow> a ! (s + i) = b ! (t + i)"
  shows "region a s l = region b t l"
  using assms by (intro nth_equalityI) (simp_all add: nth_region)

lemma region_patch_same [simp]: "pos + length bs \<le> length buf \<Longrightarrow> region (patch buf pos bs) pos (length bs) = bs"
  by (simp add: patch_def region_def)

lemma region_patch_other:
  assumes "pos + length bs \<le> length buf" "s + l \<le> pos \<or> pos + length bs \<le> s"
  shows "region (patch buf pos bs) s l = region buf s l"
proof (cases "s + l \<le> pos")
  case True
  then show ?thesis using assms(1) by (intro region_eqI) (auto simp: nth_patch)
next
  case False
  then have "pos + length bs \<le> s" using assms(2) by simp
  then show ?thesis using assms(1) by (simp add: patch_def region_def)
qed

lemma region_patch_into:
  assumes "pos + length bs \<le> length buf" "pos \<le> s" "s + l \<le> pos + length bs"
  shows "region (patch buf pos bs) s l = region bs (s - pos) l"
  using assms by (intro region_eqI) (auto simp: nth_patch)

lemma region_region: "i + k \<le> l \<Longrightarrow> region (region buf s l) i k = region buf (s + i) k"
  by (simp add: region_def drop_take add.commute min_def)

lemma region_sub:
  assumes "region a s l = region b s l" "s \<le> t" "t + k \<le> s + l"
  shows "region a t k = region b t k"
  using arg_cong[OF assms(1), of "\<lambda>r. region r (t - s) k"] assms(2,3) by (simp add: region_region)

lemma region_append: "region buf s l @ region buf (s + l) k = region buf s (l + k)"
  by (simp only: region_def take_add drop_drop add.commute[of s])

text \<open>Two-byte numbers.\<close>

definition g16 :: "bytes \<Rightarrow> nat \<Rightarrow> nat" where "g16 buf i = from_be (region buf i 2)"

definition p16 :: "bytes \<Rightarrow> nat \<Rightarrow> nat \<Rightarrow> bytes" where "p16 buf i v = patch buf i (be_bytes 2 v)"

lemma g16_less: "g16 buf i < 65536"
proof -
  have "length (region buf i 2) \<le> 2" by (simp add: region_def)
  then have "(256::nat) ^ length (region buf i 2) \<le> 256 ^ 2" by (intro power_increasing) auto
  then show ?thesis using from_be_less[of "region buf i 2"] by (simp add: g16_def)
qed

lemma length_p16 [simp]: "i + 2 \<le> length buf \<Longrightarrow> length (p16 buf i v) = length buf"
  by (simp add: p16_def)

lemma g16_p16_same [simp]: "i + 2 \<le> length buf \<Longrightarrow> g16 (p16 buf i v) i = v mod 65536"
  using region_patch_same[of i "be_bytes 2 v" buf] by (simp add: g16_def p16_def)

lemma region_p16: "i + 2 \<le> length buf \<Longrightarrow> s + l \<le> i \<or> i + 2 \<le> s \<Longrightarrow> region (p16 buf i v) s l = region buf s l"
  by (simp add: p16_def region_patch_other)

lemma g16_p16_other: "i + 2 \<le> length buf \<Longrightarrow> j + 2 \<le> i \<or> i + 2 \<le> j \<Longrightarrow> g16 (p16 buf i v) j = g16 buf j"
  by (simp add: g16_def region_p16)

lemma g16_cong: "region a s l = region b s l \<Longrightarrow> s \<le> t \<Longrightarrow> t + 2 \<le> s + l \<Longrightarrow> g16 a t = g16 b t"
  using region_sub[of a s l b t 2] by (simp add: g16_def)

lemma be_u16_region: "be_u16 (region buf i 2) = word_of_nat (g16 buf i)"
  by (simp add: be_u16_def g16_def)

lemma unat_g16 [simp]: "unat (word_of_nat (g16 buf i) :: u16) = g16 buf i"
  using g16_less[of buf i] by (simp add: unat_of_nat take_bit_eq_mod)

lemma g16_zero_iff [simp]: "word_of_nat (g16 buf i) = (0 :: u16) \<longleftrightarrow> g16 buf i = 0"
  using unat_g16[of buf i] by (metis unat_0 unat_eq_zero)

lemma u16_be_of_nat: "u16_be (word_of_nat v) = be_bytes 2 v"
  using be_bytes_mod[of 2 v] by (simp add: u16_be_def unat_of_nat take_bit_eq_mod)

section \<open>Accessors on a loaded page\<close>

abbreviation pb :: "page \<Rightarrow> bytes \<Rightarrow> page" where "pb p buf \<equiv> p\<lparr>pg_buffer := Some buf\<rparr>"

named_theorems page_simps \<open>accessors of a page with a buffer\<close>

lemma page_access [page_simps]:
  "page_as_ptr (pb p buf) = Inr buf"
  "page_offset (pb p buf) = page_offset p"
  "pos + len \<le> length buf \<Longrightarrow> page_get (pb p buf) pos len = Inr (region buf pos len)"
  "pos + length bs \<le> length buf \<Longrightarrow> page_put (pb p buf) pos bs = Inr (pb p (patch buf pos bs))"
  "src + len \<le> length buf \<Longrightarrow> dest + len \<le> length buf \<Longrightarrow>
   page_copy_within (pb p buf) src len dest = Inr (pb p (patch buf dest (region buf src len)))"
  by (simp_all add: page_as_ptr_def page_offset_def page_get_def page_put_def page_copy_within_def)

lemma page_access16 [page_simps]:
  "pos + 2 \<le> length buf \<Longrightarrow> read_u16_no_offset (pb p buf) pos = Inr (word_of_nat (g16 buf pos))"
  "pos + 2 \<le> length buf \<Longrightarrow> write_u16_no_offset (pb p buf) pos v = Inr (pb p (p16 buf pos (unat v)))"
  by (simp_all add: read_u16_no_offset_def write_u16_no_offset_def page_simps p16_def u16_be_def be_u16_region)

definition hfree :: "nat \<Rightarrow> bytes \<Rightarrow> nat" where "hfree off buf = g16 buf (off + 1)"
definition hcount :: "nat \<Rightarrow> bytes \<Rightarrow> nat" where "hcount off buf = g16 buf (off + 3)"
definition harea :: "nat \<Rightarrow> bytes \<Rightarrow> nat" where
  "harea off buf = (if g16 buf (off + 5) = 0 then 65536 else g16 buf (off + 5))"
definition hfrag :: "nat \<Rightarrow> bytes \<Rightarrow> nat" where "hfrag off buf = unat (buf ! (off + 7))"
definition hsize :: "page_type \<Rightarrow> nat" where
  "hsize ty = (if ty = IndexInterior \<or> ty = TableInterior then 12 else 8)"
definition htype :: "nat \<Rightarrow> page_type \<Rightarrow> bytes \<Rightarrow> bool" where
  "htype off ty buf \<longleftrightarrow> page_type_try_from (buf ! off) = Inr ty"

lemma unat_hfree [simp]:
  "unat (word_of_nat (hfree off buf) :: u16) = hfree off buf"
  "word_of_nat (hfree off buf) = (0 :: u16) \<longleftrightarrow> hfree off buf = 0"
  by (simp_all add: hfree_def)

lemma hd_region1: "s < length buf \<Longrightarrow> hd (region buf s (Suc 0)) = buf ! s"
  by (simp add: region_def take_Suc hd_drop_conv_nth)

lemma type_byte: "page_type_try_from b = Inr ty \<Longrightarrow> b = page_type_u8 ty"
  by (auto simp: page_type_try_from_def split: if_splits)

lemma header_reads [page_simps]:
  assumes "page_offset p + 8 \<le> length buf"
  shows "first_freeblock (pb p buf) = Inr (word_of_nat (hfree (page_offset p) buf))"
    "cell_count (pb p buf) = Inr (hcount (page_offset p) buf)"
    "cell_content_area (pb p buf) = Inr (harea (page_offset p) buf)"
    "num_frag_free_bytes (pb p buf) = Inr (buf ! (page_offset p + 7))"
    "htype (page_offset p) ty buf \<Longrightarrow> btree_page_type (pb p buf) = Inr ty"
    "htype (page_offset p) ty buf \<Longrightarrow> header_size (pb p buf) = Inr (hsize ty)"
    "htype (page_offset p) ty buf \<Longrightarrow> cell_pointer_array_offset (pb p buf) = Inr (page_offset p + hsize ty)"
    "htype (page_offset p) ty buf \<Longrightarrow>
       unallocated_region_start (pb p buf) = Inr (page_offset p + hsize ty + 2 * hcount (page_offset p) buf)"
proof -
  show "first_freeblock (pb p buf) = Inr (word_of_nat (hfree (page_offset p) buf))"
    using assms by (simp add: hfree_def be_u16_region first_freeblock_def page_read_u16_def BTREE_FIRST_FREEBLOCK_def page_simps)
  show c: "cell_count (pb p buf) = Inr (hcount (page_offset p) buf)"
    using assms by (simp add: cell_count_def page_read_u16_def BTREE_CELL_COUNT_def page_simps hcount_def be_u16_region)
  show "cell_content_area (pb p buf) = Inr (harea (page_offset p) buf)"
    using assms by (simp add: cell_content_area_def page_read_u16_def BTREE_CELL_CONTENT_AREA_def page_simps harea_def be_u16_region)
  show "num_frag_free_bytes (pb p buf) = Inr (buf ! (page_offset p + 7))"
    using assms
    by (simp add: num_frag_free_bytes_def page_read_u8_def BTREE_FRAGMENTED_BYTES_COUNT_def page_simps hd_region1)
  have ty: "page_read_u8 (pb p buf) 0 = Inr (buf ! page_offset p)"
    using assms by (simp add: page_read_u8_def page_simps hd_region1)
  assume h: "htype (page_offset p) ty buf"
  then show "btree_page_type (pb p buf) = Inr ty"
    by (simp add: btree_page_type_def BTREE_PAGE_TYPE_def ty htype_def)
  have "buf ! page_offset p = page_type_u8 ty" using h type_byte by (simp add: htype_def)
  then show s: "header_size (pb p buf) = Inr (hsize ty)"
    by (cases ty) (simp_all add: header_size_def BTREE_PAGE_TYPE_def ty hsize_def
        INTERIOR_PAGE_HEADER_SIZE_BYTES_def LEAF_PAGE_HEADER_SIZE_BYTES_def)
  then show a: "cell_pointer_array_offset (pb p buf) = Inr (page_offset p + hsize ty)"
    by (simp add: cell_pointer_array_offset_def page_simps)
  show "unallocated_region_start (pb p buf) = Inr (page_offset p + hsize ty + 2 * hcount (page_offset p) buf)"
    using a c by (simp add: unallocated_region_start_def cell_pointer_array_size_def CELL_PTR_SIZE_BYTES_def)
qed

lemma header_writes [page_simps]:
  assumes "page_offset p + 8 \<le> length buf"
  shows "write_first_freeblock (pb p buf) v = Inr (pb p (p16 buf (page_offset p + 1) (unat v)))"
    "write_cell_count (pb p buf) v = Inr (pb p (p16 buf (page_offset p + 3) (unat v)))"
    "write_cell_content_area (pb p buf) n = Inr (pb p (p16 buf (page_offset p + 5) n))"
    "write_fragmented_bytes_count (pb p buf) b = Inr (pb p (buf[page_offset p + 7 := b]))"
proof -
  show "write_first_freeblock (pb p buf) v = Inr (pb p (p16 buf (page_offset p + 1) (unat v)))"
    using assms by (simp add: write_first_freeblock_def page_write_u16_def BTREE_FIRST_FREEBLOCK_def page_simps p16_def u16_be_def)
  show "write_cell_count (pb p buf) v = Inr (pb p (p16 buf (page_offset p + 3) (unat v)))"
    using assms by (simp add: write_cell_count_def page_write_u16_def BTREE_CELL_COUNT_def page_simps p16_def u16_be_def)
  show "write_cell_content_area (pb p buf) n = Inr (pb p (p16 buf (page_offset p + 5) n))"
    using assms by (simp add: write_cell_content_area_def page_write_u16_def BTREE_CELL_CONTENT_AREA_def page_simps p16_def
        u16_be_of_nat)
  show "write_fragmented_bytes_count (pb p buf) b = Inr (pb p (buf[page_offset p + 7 := b]))"
    using assms by (simp add: write_fragmented_bytes_count_def page_write_u8_def BTREE_FRAGMENTED_BYTES_COUNT_def page_simps
        patch_def upd_conv_take_nth_drop)
qed

section \<open>Regions\<close>

type_synonym reg = "nat \<times> nat"

definition clear_of :: "reg \<Rightarrow> reg \<Rightarrow> bool" where
  "clear_of a b \<longleftrightarrow> fst a + snd a \<le> fst b \<or> fst b + snd b \<le> fst a"

definition inside :: "nat \<Rightarrow> nat \<Rightarrow> reg \<Rightarrow> bool" where
  "inside lo hi r \<longleftrightarrow> lo \<le> fst r \<and> 4 \<le> snd r \<and> fst r + snd r \<le> hi"

definition apart :: "reg list \<Rightarrow> bool" where
  "apart rs \<longleftrightarrow> distinct rs \<and> (\<forall>a \<in> set rs. \<forall>b \<in> set rs. a \<noteq> b \<longrightarrow> clear_of a b)"

definition geo :: "nat \<Rightarrow> nat \<Rightarrow> nat \<Rightarrow> reg list \<Rightarrow> bool" where
  "geo u area frag rs \<longleftrightarrow>
     area \<le> u \<and> (\<forall>r \<in> set rs. inside area u r) \<and> apart rs \<and> area + frag + sum_list (map snd rs) = u"

lemma clear_of_sym: "clear_of a b \<longleftrightarrow> clear_of b a"
  by (auto simp: clear_of_def)

lemma apart_Cons:
  assumes "\<forall>b \<in> set rs. 0 < snd b"
  shows "apart (r # rs) \<longleftrightarrow> apart rs \<and> (\<forall>b \<in> set rs. clear_of r b)"
proof
  assume *: "apart (r # rs)"
  then show "apart rs \<and> (\<forall>b \<in> set rs. clear_of r b)" by (auto simp: apart_def)
next
  assume *: "apart rs \<and> (\<forall>b \<in> set rs. clear_of r b)"
  have "r \<notin> set rs"
  proof
    assume "r \<in> set rs"
    then have "clear_of r r" "0 < snd r" using * assms by auto
    then show False by (simp add: clear_of_def)
  qed
  with * show "apart (r # rs)" by (auto simp: apart_def clear_of_sym)
qed

lemma apart_mset: "mset rs = mset rs' \<Longrightarrow> apart rs \<longleftrightarrow> apart rs'"
  unfolding apart_def using mset_eq_imp_distinct_iff[of rs rs'] mset_eq_setD[of rs rs'] by simp

lemma sum_mset_eq: "mset rs = mset rs' \<Longrightarrow> sum_list (map snd rs) = (sum_list (map snd rs') :: nat)"
  by (metis mset_map sum_mset_sum_list)

lemma geo_mset: "mset rs = mset rs' \<Longrightarrow> geo u area frag rs \<longleftrightarrow> geo u area frag rs'"
  unfolding geo_def using apart_mset[of rs rs'] sum_mset_eq[of rs rs'] mset_eq_setD[of rs rs'] by simp

text \<open>Disjoint regions cannot fill more than the space they lie in.\<close>

lemma disjoint_sum:
  assumes "sorted_wrt clear_of rs" "\<forall>r \<in> set rs. lo \<le> fst r \<and> fst r + snd r \<le> hi"
  shows "sum_list (map snd rs) \<le> hi - lo"
proof -
  have "card (\<Union>r \<in> set rs. {fst r ..< fst r + snd r}) = sum_list (map snd rs)"
    using assms(1)
  proof (induction rs)
    case (Cons r rs)
    have "{fst r ..< fst r + snd r} \<inter> (\<Union>b \<in> set rs. {fst b ..< fst b + snd b}) = {}"
    proof -
      have "{fst r ..< fst r + snd r} \<inter> {fst b ..< fst b + snd b} = {}" if "b \<in> set rs" for b
        using Cons.prems that by (auto simp: clear_of_def)
      then show ?thesis by blast
    qed
    then have "card (\<Union>b \<in> set (r # rs). {fst b ..< fst b + snd b}) =
        card {fst r ..< fst r + snd r} + card (\<Union>b \<in> set rs. {fst b ..< fst b + snd b})"
      by (simp add: card_Un_disjoint)
    moreover have "sorted_wrt clear_of rs" using Cons.prems by simp
    ultimately show ?case using Cons.IH by simp
  qed simp
  moreover have "card (\<Union>r \<in> set rs. {fst r ..< fst r + snd r}) \<le> card {lo ..< hi}"
  proof (rule card_mono)
    show "(\<Union>r \<in> set rs. {fst r ..< fst r + snd r}) \<subseteq> {lo ..< hi}"
  proof
    fix x assume "x \<in> (\<Union>r \<in> set rs. {fst r ..< fst r + snd r})"
    then obtain r where "r \<in> set rs" "fst r \<le> x" "x < fst r + snd r" by auto
    then show "x \<in> {lo ..< hi}" using assms(2) by force
  qed
  qed simp
  ultimately show ?thesis by simp
qed

lemma apart_sorted_wrt: "apart rs \<Longrightarrow> sorted_wrt clear_of rs"
proof (induction rs)
  case (Cons r rs)
  then have "apart rs" "\<forall>b \<in> set rs. clear_of r b" by (auto simp: apart_def)
  then show ?case using Cons.IH by simp
qed simp

lemma geoD:
  assumes "geo u area frag rs"
  shows "area \<le> u" "\<And>r. r \<in> set rs \<Longrightarrow> inside area u r" "apart rs" "area + frag + sum_list (map snd rs) = u"
  using assms by (auto simp: geo_def)

lemma geo_clear: "geo u area frag rs \<Longrightarrow> a \<in> set rs \<Longrightarrow> b \<in> set rs \<Longrightarrow> a \<noteq> b \<Longrightarrow> clear_of a b"
  by (auto simp: geo_def apart_def)

text \<open>Bytes between the regions are fragments.\<close>

lemma geo_gaps:
  assumes g: "geo u area frag rs" and ga: "\<forall>r \<in> set gs. area \<le> fst r \<and> fst r + snd r \<le> u"
    and gd: "sorted_wrt clear_of gs" "\<forall>a \<in> set gs. \<forall>b \<in> set rs. clear_of a b"
  shows "sum_list (map snd gs) \<le> frag"
proof -
  have "sorted_wrt clear_of (gs @ rs)"
    using gd apart_sorted_wrt[OF geoD(3)[OF g]] by (simp add: sorted_wrt_append)
  moreover have "\<forall>r \<in> set (gs @ rs). area \<le> fst r \<and> fst r + snd r \<le> u"
    using ga geoD(2)[OF g] by (auto simp: inside_def)
  ultimately have "sum_list (map snd (gs @ rs)) \<le> u - area" by (rule disjoint_sum)
  then show ?thesis using geoD(1,4)[OF g] by simp
qed

text \<open>A region does not reach into a gap of fewer than four bytes between two others.\<close>

lemma narrow_gap:
  assumes "clear_of r a" "clear_of r b" "fst a + snd a \<le> fst b" "fst b \<le> fst a + snd a + 3" "4 \<le> snd r" "0 < snd a" "0 < snd b"
  shows "clear_of r (fst a, fst b + snd b - fst a)"
  using assms by (auto simp: clear_of_def)

lemma clear_of_part: "clear_of r (s, l) \<Longrightarrow> s \<le> s' \<Longrightarrow> s' + l' \<le> s + l \<Longrightarrow> clear_of r (s', l')"
  by (auto simp: clear_of_def)

lemma geo_Cons:
  "geo u area frag (r # rs) \<longleftrightarrow> inside area u r \<and> geo u area (frag + snd r) rs \<and> (\<forall>b \<in> set rs. clear_of r b)"
proof -
  have "apart (r # rs) \<longleftrightarrow> apart rs \<and> (\<forall>b \<in> set rs. clear_of r b)" if "\<forall>r \<in> set rs. inside area u r"
    using that by (intro apart_Cons) (fastforce simp: inside_def)
  then show ?thesis unfolding geo_def by (simp add: add.assoc) blast
qed

section \<open>The list of free blocks\<close>

text \<open>A path through the blocks of the page, from one to another.\<close>

fun path :: "bytes \<Rightarrow> nat \<Rightarrow> reg list \<Rightarrow> nat \<Rightarrow> bool" where
  "path buf a [] b \<longleftrightarrow> a = b"
| "path buf a ((s, l) # fs) b \<longleftrightarrow> a = s \<and> s \<noteq> 0 \<and> g16 buf (s + 2) = l \<and> path buf (g16 buf s) fs b"

lemma path_append: "path buf a (xs @ ys) b \<longleftrightarrow> (\<exists>c. path buf a xs c \<and> path buf c ys b)"
  by (induction xs arbitrary: a) auto

lemma path_cong:
  assumes "\<And>s l. (s, l) \<in> set fs \<Longrightarrow> region buf' s 4 = region buf s 4"
  shows "path buf' a fs b \<longleftrightarrow> path buf a fs b"
  using assms
proof (induction fs arbitrary: a)
  case (Cons r fs)
  obtain s l where r: "r = (s, l)" by (cases r)
  have "region buf' s 4 = region buf s 4" using Cons.prems r by auto
  then have "g16 buf' s = g16 buf s" "g16 buf' (s + 2) = g16 buf (s + 2)"
    using g16_cong[of buf' s 4 buf] by auto
  moreover have "path buf' c fs b \<longleftrightarrow> path buf c fs b" for c
    using Cons.IH[of c] Cons.prems by auto
  ultimately show ?case by (simp add: r)
qed simp

definition gaps :: "reg list \<Rightarrow> bool" where
  "gaps fs \<longleftrightarrow> sorted_wrt (\<lambda>a b. fst a + snd a + 3 < fst b) fs"

lemma gaps_simps [simp]:
  "gaps []" "gaps (r # fs) \<longleftrightarrow> (\<forall>b \<in> set fs. fst r + snd r + 3 < fst b) \<and> gaps fs"
  "gaps (xs @ ys) \<longleftrightarrow> gaps xs \<and> gaps ys \<and> (\<forall>a \<in> set xs. \<forall>b \<in> set ys. fst a + snd a + 3 < fst b)"
  by (auto simp: gaps_def sorted_wrt_append)

section \<open>The layout of a page\<close>

definition layout :: "nat \<Rightarrow> nat \<Rightarrow> page_type \<Rightarrow> bytes \<Rightarrow> reg list \<Rightarrow> reg list \<Rightarrow> bool" where
  "layout off u ty buf rs fs \<longleftrightarrow>
     480 \<le> u \<and> u \<le> 65536 \<and> u \<le> length buf \<and> htype off ty buf \<and>
     off + hsize ty + 2 * hcount off buf \<le> harea off buf \<and>
     path buf (hfree off buf) fs 0 \<and> gaps fs \<and> geo u (harea off buf) (hfrag off buf) (rs @ fs)"

text \<open>What an operation keeps: the type, the number of cells, the cell pointers, and the bytes of the
  regions in use.\<close>

definition kept :: "nat \<Rightarrow> page_type \<Rightarrow> reg list \<Rightarrow> bytes \<Rightarrow> bytes \<Rightarrow> bool" where
  "kept off ty rs buf buf' \<longleftrightarrow>
     length buf' = length buf \<and> buf' ! off = buf ! off \<and> hcount off buf' = hcount off buf \<and>
     region buf' (off + hsize ty) (2 * hcount off buf) = region buf (off + hsize ty) (2 * hcount off buf) \<and>
     (\<forall>r \<in> set rs. region buf' (fst r) (snd r) = region buf (fst r) (snd r))"

lemma kept_refl [simp]: "kept off ty rs buf buf"
  by (simp add: kept_def)

lemma kept_trans: "kept off ty rs a b \<Longrightarrow> kept off ty rs b c \<Longrightarrow> kept off ty rs a c"
  by (auto simp: kept_def)

lemma kept_mono: "kept off ty rs a b \<Longrightarrow> set rs' \<subseteq> set rs \<Longrightarrow> kept off ty rs' a b"
  by (auto simp: kept_def)

lemma kept_htype: "kept off ty rs a b \<Longrightarrow> htype off ty b \<longleftrightarrow> htype off ty a"
  by (simp add: kept_def htype_def)

lemma hsize_ge: "8 \<le> hsize ty"
  by (simp add: hsize_def)

lemma layoutD:
  assumes "layout off u ty buf rs fs"
  shows "480 \<le> u" "u \<le> 65536" "u \<le> length buf" "htype off ty buf"
    "off + hsize ty + 2 * hcount off buf \<le> harea off buf" "path buf (hfree off buf) fs 0" "gaps fs"
    "geo u (harea off buf) (hfrag off buf) (rs @ fs)" "harea off buf \<le> u" "off + 8 \<le> harea off buf" "off + 8 \<le> length buf"
proof -
  show 1: "480 \<le> u" "u \<le> 65536" "u \<le> length buf" "htype off ty buf"
    "off + hsize ty + 2 * hcount off buf \<le> harea off buf" "path buf (hfree off buf) fs 0" "gaps fs"
    "geo u (harea off buf) (hfrag off buf) (rs @ fs)"
    using assms by (auto simp: layout_def)
  show "harea off buf \<le> u" using 1 by (simp add: geo_def)
  then show "off + 8 \<le> harea off buf" "off + 8 \<le> length buf" using 1 hsize_ge[of ty] by linarith+
qed

lemma layout_block:
  assumes "layout off u ty buf rs fs" "(s, l) \<in> set (rs @ fs)"
  shows "harea off buf \<le> s" "4 \<le> l" "s + l \<le> u" "off + 8 \<le> s" "s + l \<le> length buf" "s < 65536" "l < 65536"
proof -
  have "inside (harea off buf) u (s, l)" using assms layoutD(8)[OF assms(1)] by (simp add: geo_def)
  then show "harea off buf \<le> s" "4 \<le> l" "s + l \<le> u" by (simp_all add: inside_def)
  then show "off + 8 \<le> s" "s + l \<le> length buf" "s < 65536" "l < 65536"
    using layoutD(1-3,9,10)[OF assms(1)] by linarith+
qed

section \<open>Writes to the header and to the content area\<close>

named_theorems hdr \<open>header fields after a write\<close>

lemma hdr_free_write [hdr]:
  assumes "off + 8 \<le> length buf"
  shows "hfree off (p16 buf (Suc off) v) = v mod 65536" "hcount off (p16 buf (Suc off) v) = hcount off buf"
    "harea off (p16 buf (Suc off) v) = harea off buf" "hfrag off (p16 buf (Suc off) v) = hfrag off buf"
    "p16 buf (Suc off) v ! off = buf ! off"
    "off + 8 \<le> s \<Longrightarrow> region (p16 buf (Suc off) v) s l = region buf s l"
  using assms
  by (auto simp: hfree_def hcount_def harea_def hfrag_def g16_p16_other region_p16)
     (auto simp: p16_def nth_patch)

lemma hdr_count_write [hdr]:
  assumes "off + 8 \<le> length buf"
  shows "hfree off (p16 buf (off + 3) v) = hfree off buf" "hcount off (p16 buf (off + 3) v) = v mod 65536"
    "harea off (p16 buf (off + 3) v) = harea off buf" "hfrag off (p16 buf (off + 3) v) = hfrag off buf"
    "p16 buf (off + 3) v ! off = buf ! off"
    "off + 8 \<le> s \<Longrightarrow> region (p16 buf (off + 3) v) s l = region buf s l"
  using assms
  by (auto simp: hfree_def hcount_def harea_def hfrag_def g16_p16_other region_p16)
     (auto simp: p16_def nth_patch)

lemma hdr_area_write [hdr]:
  assumes "off + 8 \<le> length buf" "0 < v" "v \<le> 65536"
  shows "hfree off (p16 buf (off + 5) v) = hfree off buf" "hcount off (p16 buf (off + 5) v) = hcount off buf"
    "harea off (p16 buf (off + 5) v) = v" "hfrag off (p16 buf (off + 5) v) = hfrag off buf"
    "p16 buf (off + 5) v ! off = buf ! off"
    "off + 8 \<le> s \<Longrightarrow> region (p16 buf (off + 5) v) s l = region buf s l"
proof -
  have "v mod 65536 = (if v = 65536 then 0 else v)" using assms(2,3) by auto
  then show "harea off (p16 buf (off + 5) v) = v" using assms by (auto simp: harea_def)
  show "hfree off (p16 buf (off + 5) v) = hfree off buf" "hcount off (p16 buf (off + 5) v) = hcount off buf"
    "off + 8 \<le> s \<Longrightarrow> region (p16 buf (off + 5) v) s l = region buf s l"
    using assms(1) by (simp_all add: hfree_def hcount_def g16_p16_other region_p16)
  show "hfrag off (p16 buf (off + 5) v) = hfrag off buf" "p16 buf (off + 5) v ! off = buf ! off"
    using assms(1) by (simp_all add: hfrag_def p16_def nth_patch)
qed

lemma region_update: "s + l \<le> i \<or> i < s \<Longrightarrow> region (buf[i := b]) s l = region buf s l"
  by (auto simp: region_def drop_update_swap)

lemma hdr_frag_write [hdr]:
  assumes "off + 8 \<le> length buf"
  shows "hfree off (buf[off + 7 := b]) = hfree off buf" "hcount off (buf[off + 7 := b]) = hcount off buf"
    "harea off (buf[off + 7 := b]) = harea off buf" "hfrag off (buf[off + 7 := b]) = unat b"
    "buf[off + 7 := b] ! off = buf ! off"
    "off + 8 \<le> s \<Longrightarrow> region (buf[off + 7 := b]) s l = region buf s l"
  using assms by (simp_all add: hfree_def hcount_def harea_def hfrag_def g16_def region_update)

lemma hdr_body_write [hdr]:
  assumes "off + 8 \<le> pos" "pos + length bs \<le> length buf"
  shows "hfree off (patch buf pos bs) = hfree off buf" "hcount off (patch buf pos bs) = hcount off buf"
    "harea off (patch buf pos bs) = harea off buf" "hfrag off (patch buf pos bs) = hfrag off buf"
    "patch buf pos bs ! off = buf ! off"
  using assms by (simp_all add: hfree_def hcount_def harea_def hfrag_def g16_def region_patch_other nth_patch)

lemma hdr_body_write16 [hdr]:
  assumes "off + 8 \<le> pos" "pos + 2 \<le> length buf"
  shows "hfree off (p16 buf pos v) = hfree off buf" "hcount off (p16 buf pos v) = hcount off buf"
    "harea off (p16 buf pos v) = harea off buf" "hfrag off (p16 buf pos v) = hfrag off buf"
    "p16 buf pos v ! off = buf ! off"
  using assms by (simp_all add: p16_def hdr_body_write)

lemma g16_region: "(\<And>l. region a s l = region b s l) \<Longrightarrow> g16 a s = g16 b s"
  by (simp add: g16_def)

section \<open>The free space\<close>

lemma unat_u16 [page_simps]: "n < 65536 \<Longrightarrow> unat (word_of_nat n :: u16) = n"
  by (simp add: unat_of_nat take_bit_eq_mod)

lemma path_small: "path buf a fs b \<Longrightarrow> (s, l) \<in> set fs \<Longrightarrow> l < 65536"
  by (induction fs arbitrary: a) (auto simp: g16_less)

lemma free_space_loop_eq:
  assumes "path buf s fs 0" "gaps fs" "fs \<noteq> []" "\<forall>(s, l) \<in> set fs. 4 \<le> l \<and> s + l \<le> u" "u \<le> length buf"
  shows "free_space_loop (pb p buf) u s acc = Inr (acc + sum_list (map snd fs))"
  using assms
proof (induction fs arbitrary: s acc)
  case (Cons r fs)
  obtain s' l where r: "r = (s', l)" by (cases r)
  with Cons.prems have s: "s = s'" "g16 buf (s + 2) = l" "path buf (g16 buf s) fs 0" "4 \<le> l" "s + l \<le> u" "l < 65536"
    using g16_less[of buf "s' + 2"] by auto
  note step = free_space_loop.simps[of "pb p buf" u s acc]
  show ?case
  proof (cases fs)
    case Nil
    then have "g16 buf s = 0" using s(3) by simp
    then show ?thesis using s(2,4-6) Cons.prems(5) by (subst step) (simp add: page_simps r Nil Let_def add.commute)
  next
    case (Cons r' fs')
    obtain n l' where r': "r' = (n, l')" by (cases r')
    have n: "g16 buf s = n" "n \<noteq> 0" using s(3) Cons r' by auto
    have "s + l + 3 < n" using \<open>gaps (r # fs)\<close> s(1) r r' Cons by simp
    moreover have "free_space_loop (pb p buf) u n (acc + l) = Inr (acc + l + sum_list (map snd fs))"
      using Cons.IH[of n "acc + l"] Cons.prems s(3) n(1) Cons by simp
    ultimately show ?thesis using s(2,4-6) n Cons.prems(5) g16_less[of buf s]
      by (subst step) (simp add: page_simps r Let_def add.commute add.left_commute)
  qed
qed simp

lemma path_zero: "path buf a fs 0 \<Longrightarrow> a = 0 \<longleftrightarrow> fs = []"
  by (cases fs) auto

lemma compute_free_space_eq:
  assumes l: "layout (page_offset p) u ty buf rs fs"
  shows "compute_free_space (pb p buf) u =
    Inr (u - sum_list (map snd rs) - (page_offset p + hsize ty + 2 * hcount (page_offset p) buf))"
proof -
  let ?off = "page_offset p"
  let ?first = "?off + hsize ty + 2 * hcount ?off buf" and ?area = "harea ?off buf" and ?frag = "hfrag ?off buf"
  note d = layoutD[OF l]
  have tot: "?area + ?frag + sum_list (map snd rs) + sum_list (map snd fs) = u"
    using geoD(4)[OF d(8)] by simp
  have walk: "hfree ?off buf \<noteq> 0 \<and> \<not> hfree ?off buf < ?area \<and>
      free_space_loop (pb p buf) u (hfree ?off buf) (?area + ?frag) = Inr (?area + ?frag + sum_list (map snd fs))"
    if ne: "fs \<noteq> []"
  proof -
    obtain s l' fs' where r: "fs = (s, l') # fs'" using ne by (cases fs) auto
    have s: "hfree ?off buf = s" "s \<noteq> 0" using d(6) r by auto
    have "?area \<le> s" using layout_block(1)[OF l, of s l'] r by simp
    moreover have "free_space_loop (pb p buf) u s (?area + ?frag) = Inr (?area + ?frag + sum_list (map snd fs))"
      using d(6) s(1) ne layout_block(2,3)[OF l] d(3,7) by (intro free_space_loop_eq) auto
    ultimately show ?thesis using s by simp
  qed
  show ?thesis
  proof (cases "fs = []")
    case True
    then show ?thesis
      using d(4-6,9,11) tot by (simp add: compute_free_space_def page_simps Let_def hfrag_def[symmetric])
  next
    case False
    then show ?thesis
      using d(4,5,9,11) tot walk by (simp add: compute_free_space_def page_simps Let_def hfrag_def[symmetric])
  qed
qed

section \<open>Taking a slot from the free blocks\<close>

definition spaced :: "nat \<Rightarrow> bytes \<Rightarrow> reg list \<Rightarrow> bool" where
  "spaced off buf fs \<longleftrightarrow>
     (\<forall>r \<in> set fs. off + 8 \<le> fst r \<and> fst r + 4 \<le> length buf) \<and> sorted_wrt (\<lambda>a b. fst a + 4 \<le> fst b) fs"

lemma spaced_append: "spaced off buf (xs @ ys) \<longleftrightarrow>
    spaced off buf xs \<and> spaced off buf ys \<and> (\<forall>a \<in> set xs. \<forall>b \<in> set ys. fst a + 4 \<le> fst b)"
  by (auto simp: spaced_def sorted_wrt_append)

lemma layout_spaced:
  assumes "layout off u ty buf rs fs"
  shows "spaced off buf fs"
proof -
  have l: "off + 8 \<le> s \<and> s + 4 \<le> length buf \<and> 4 \<le> l" if "(s, l) \<in> set fs" for s l
    using layout_block(2,4,5)[OF assms, of s l] that by simp
  have "sorted_wrt (\<lambda>a b. fst a + snd a + 3 < fst b) fs" using layoutD(7)[OF assms] by (simp add: gaps_def)
  then have "sorted_wrt (\<lambda>a b. fst a + 4 \<le> fst b) fs"
    by (rule sorted_wrt_mono_rel[rotated]) (use l in force)
  then show ?thesis using l by (auto simp: spaced_def)
qed

text \<open>Storing a pointer in the last block of a path, or in the header when there is none.\<close>

definition link :: "nat \<Rightarrow> bytes \<Rightarrow> reg list \<Rightarrow> nat \<Rightarrow> bytes" where
  "link off buf pre v = (if pre = [] then p16 buf (off + 1) v else p16 buf (fst (last pre)) v)"

lemma link_frame:
  assumes h: "off + 8 \<le> length buf" and sp: "spaced off buf pre"
  shows "length (link off buf pre v) = length buf" "hcount off (link off buf pre v) = hcount off buf"
    "harea off (link off buf pre v) = harea off buf" "hfrag off (link off buf pre v) = hfrag off buf"
    "link off buf pre v ! off = buf ! off" "link off buf pre v ! (off + 7) = buf ! (off + 7)"
    "off + 8 \<le> s \<Longrightarrow> \<forall>r \<in> set pre. s + l \<le> fst r \<or> fst r + 2 \<le> s \<Longrightarrow>
       region (link off buf pre v) s l = region buf s l"
proof -
  have q: "off + 8 \<le> fst (last pre)" "fst (last pre) + 2 \<le> length buf" if "pre \<noteq> []"
  proof -
    have "off + 8 \<le> fst (last pre) \<and> fst (last pre) + 4 \<le> length buf"
      using sp last_in_set[OF that] unfolding spaced_def by blast
    then show "off + 8 \<le> fst (last pre)" "fst (last pre) + 2 \<le> length buf" by linarith+
  qed
  show "length (link off buf pre v) = length buf" "hcount off (link off buf pre v) = hcount off buf"
    "harea off (link off buf pre v) = harea off buf" "hfrag off (link off buf pre v) = hfrag off buf"
    "link off buf pre v ! off = buf ! off" "link off buf pre v ! (off + 7) = buf ! (off + 7)"
    using q h by (auto simp: link_def hdr) (auto simp: p16_def nth_patch)
  show "off + 8 \<le> s \<Longrightarrow> \<forall>r \<in> set pre. s + l \<le> fst r \<or> fst r + 2 \<le> s \<Longrightarrow>
       region (link off buf pre v) s l = region buf s l"
    using q h last_in_set[of pre] by (auto simp: link_def hdr region_p16)
qed

lemma path_link:
  assumes h: "off + 8 \<le> length buf" and sp: "spaced off buf (pre @ post)"
    and pre: "path buf (hfree off buf) pre c" and post: "path buf v post e" and v: "v < 65536"
  shows "path (link off buf pre v) (hfree off (link off buf pre v)) (pre @ post) e"
proof (cases pre rule: rev_cases)
  case Nil
  have "region (p16 buf (off + 1) v) s 4 = region buf s 4" if "(s, l) \<in> set post" for s l
    using sp that h by (auto simp: spaced_def Nil hdr)
  then have "path (p16 buf (off + 1) v) v post e" using post path_cong[of post] by blast
  then show ?thesis using h v by (simp add: Nil link_def hdr)
next
  case (snoc pre' r)
  obtain q ql where r: "r = (q, ql)" by (cases r)
  have q: "off + 8 \<le> q" "q + 4 \<le> length buf" using sp snoc r by (auto simp: spaced_def)
  let ?b = "p16 buf q v"
  have b: "link off buf pre v = ?b" by (simp add: link_def snoc r)
  have p: "path buf (hfree off buf) pre' q" "q \<noteq> 0" "g16 buf (q + 2) = ql"
    using pre by (auto simp: snoc r path_append)
  have far: "s + 4 \<le> q" if "(s, l) \<in> set pre'" for s l
    using sp that by (force simp: snoc r spaced_append spaced_def sorted_wrt_append)
  have near: "q + 4 \<le> s" if "(s, l) \<in> set post" for s l
  proof -
    have "\<forall>a \<in> set pre. \<forall>b \<in> set post. fst a + 4 \<le> fst b" using sp by (simp add: spaced_append)
    then show ?thesis using that by (force simp: snoc r)
  qed
  have "region ?b s 4 = region buf s 4" if "(s, l) \<in> set pre'" for s l
    using far[OF that] q by (simp add: region_p16)
  then have "path ?b (hfree off buf) pre' q" using p(1) path_cong[of pre'] by blast
  moreover have "region ?b s 4 = region buf s 4" if "(s, l) \<in> set post" for s l
    using near[OF that] q by (simp add: region_p16)
  then have "path ?b v post e" using post path_cong[of post] by blast
  moreover have "g16 ?b q = v" "g16 ?b (q + 2) = ql" using q v p(3) by (simp_all add: g16_p16_other)
  ultimately show ?thesis unfolding b using p(2) q by (simp add: snoc r path_append hdr)
qed

definition last_start :: "u16 option \<Rightarrow> reg list \<Rightarrow> u16 option" where
  "last_start prev fs = (if fs = [] then prev else Some (word_of_nat (fst (last fs))))"

lemma find_free_slot_loop_eq:
  assumes "path buf s fs 0" "gaps fs" "fs \<noteq> []" "\<forall>(s, l) \<in> set fs. 4 \<le> l \<and> s + l \<le> u \<and> s < 65536" "u \<le> length buf"
  shows "find_free_slot_loop (pb p buf) u m amount prev (word_of_nat s) =
    (case dropWhile (\<lambda>r. snd r < amount) fs of
       [] \<Rightarrow> Inr (pb p buf, None)
     | (s, l) # _ \<Rightarrow>
         take_slot (pb p buf) m amount (last_start prev (takeWhile (\<lambda>r. snd r < amount) fs))
           (word_of_nat s) (word_of_nat (g16 buf s)) (word_of_nat l))"
  using assms
proof (induction fs arbitrary: s prev)
  case (Cons r fs)
  obtain l where r: "r = (s, l)" using Cons.prems(1) by (cases r) auto
  with Cons.prems have s: "g16 buf (s + 2) = l" "path buf (g16 buf s) fs 0" "4 \<le> l" "s + l \<le> u" "l < 65536"
    "s < 65536"
    using g16_less[of buf "s + 2"] by auto
  have us: "unat (word_of_nat s :: u16) = s" "unat (word_of_nat l :: u16) = l" using s(5,6) by (simp_all add: page_simps)
  have rd: "read_freeblock (pb p buf) (word_of_nat s) = Inr (word_of_nat (g16 buf s), word_of_nat l)"
    using s(1,3,4) Cons.prems(5) by (simp add: read_freeblock_def page_simps us)
  note step = find_free_slot_loop.simps[of "pb p buf" u m amount prev "word_of_nat s"]
  show ?case
  proof (cases "l < amount")
    case False
    then show ?thesis using s(3,4) by (subst step) (simp add: rd us r last_start_def)
  next
    case True
    show ?thesis
    proof (cases fs)
      case Nil
      then have "g16 buf s = 0" using s(2) by simp
      then show ?thesis using True s(3,4) by (subst step) (simp add: rd us r Nil)
    next
      case (Cons r' fs')
      obtain n l' where r': "r' = (n, l')" by (cases r')
      have n: "g16 buf s = n" "n \<noteq> 0" "n < 65536" using s(2) Cons r' g16_less[of buf s] by auto
      have "s < n" using \<open>gaps (r # fs)\<close> r r' Cons by simp
      then have nn: "\<not> (word_of_nat n :: u16) \<le> word_of_nat s" "(word_of_nat n :: u16) \<noteq> 0"
        using n us(1) by (simp_all add: word_le_nat_alt page_simps unat_eq_zero[symmetric])
      have "find_free_slot_loop (pb p buf) u m amount prev (word_of_nat s) =
          find_free_slot_loop (pb p buf) u m amount (Some (word_of_nat s)) (word_of_nat n)"
        using True s(3,4) n nn by (subst step) (simp add: rd us r)
      also have "\<dots> = (case dropWhile (\<lambda>r. snd r < amount) fs of
           [] \<Rightarrow> Inr (pb p buf, None)
         | (s2, l2) # _ \<Rightarrow>
             take_slot (pb p buf) m amount (last_start (Some (word_of_nat s)) (takeWhile (\<lambda>r. snd r < amount) fs))
               (word_of_nat s2) (word_of_nat (g16 buf s2)) (word_of_nat l2))"
        using Cons.IH[of n "Some (word_of_nat s)"] Cons.prems s(2) n(1) Cons by simp
      moreover have "last_start prev (takeWhile (\<lambda>r. snd r < amount) (r # fs)) =
          last_start (Some (word_of_nat s)) (takeWhile (\<lambda>r. snd r < amount) fs)"
        using True by (simp add: r last_start_def)
      ultimately show ?thesis using True by (simp only: dropWhile.simps r snd_conv if_True)
    qed
  qed
qed simp

lemma layout_intro:
  assumes l: "layout off u ty buf rs fs" and k: "kept off ty [] buf buf'"
    and "path buf' (hfree off buf') fs' 0" "gaps fs'" "geo u (harea off buf') (hfrag off buf') (rs' @ fs')"
    and "off + hsize ty + 2 * hcount off buf \<le> harea off buf'"
  shows "layout off u ty buf' rs' fs'"
  using assms layoutD[OF l] kept_htype[OF k] by (simp add: layout_def kept_def)

text \<open>A write that stays clear of the pointer array and of the regions in use.\<close>

lemma kept_intro:
  assumes l: "layout off u ty buf rs fs" and h: "length buf' = length buf" "buf' ! off = buf ! off" "hcount off buf' = hcount off buf"
    and r: "\<And>s k. off + 8 \<le> s \<Longrightarrow> s + k \<le> harea off buf \<or> (s, k) \<in> set rs \<Longrightarrow> region buf' s k = region buf s k"
  shows "kept off ty rs buf buf'"
proof -
  have "region buf' (off + hsize ty) (2 * hcount off buf) = region buf (off + hsize ty) (2 * hcount off buf)"
    using r layoutD(5)[OF l] hsize_ge[of ty] by simp
  moreover have "region buf' (fst q) (snd q) = region buf (fst q) (snd q)" if "q \<in> set rs" for q
    using r[of "fst q" "snd q"] layout_block(4)[OF l, of "fst q" "snd q"] that by simp
  ultimately show ?thesis using h by (simp add: kept_def)
qed

lemma geo_split:
  assumes "geo u area frag (xs @ (s, l) # ys)" "4 \<le> l1" "4 \<le> l2" "l1 + l2 = l"
  shows "geo u area frag ((s + l1, l2) # xs @ (s, l1) # ys)"
proof -
  have "geo u area frag ((s, l) # xs @ ys)" using assms(1) geo_mset[of "xs @ (s, l) # ys" "(s, l) # xs @ ys"] by simp
  then have g: "inside area u (s, l)" "geo u area (frag + l) (xs @ ys)" "\<forall>b \<in> set (xs @ ys). clear_of (s, l) b"
    by (simp_all add: geo_Cons)
  have c: "clear_of (s + l1, l2) b" "clear_of (s, l1) b" if "b \<in> set (xs @ ys)" for b
    using bspec[OF g(3) that] assms(4) by (auto simp: clear_of_def)
  have "geo u area frag ((s + l1, l2) # (s, l1) # xs @ ys)"
    using g(1,2) c assms(2-4) by (auto simp: geo_Cons inside_def clear_of_def add.assoc add.commute[of l2])
  then show ?thesis using geo_mset[of "(s + l1, l2) # (s, l1) # xs @ ys" "(s + l1, l2) # xs @ (s, l1) # ys"] by simp
qed

lemma geo_shrink:
  assumes "geo u area frag (xs @ (s, l) # ys)" "4 \<le> l1" "l1 \<le> l"
  shows "geo u area (frag + (l - l1)) ((s, l1) # xs @ ys)"
proof -
  have "geo u area frag ((s, l) # xs @ ys)" using assms(1) geo_mset[of "xs @ (s, l) # ys" "(s, l) # xs @ ys"] by simp
  then have g: "inside area u (s, l)" "geo u area (frag + l) (xs @ ys)" "\<forall>b \<in> set (xs @ ys). clear_of (s, l) b"
    by (simp_all add: geo_Cons)
  have "clear_of (s, l1) b" if "b \<in> set (xs @ ys)" for b
    using bspec[OF g(3) that] assms(3) by (auto simp: clear_of_def)
  then show ?thesis using g(1,2) assms(2,3) by (simp add: geo_Cons inside_def)
qed


text \<open>What the layout says about one of the free blocks.\<close>

lemma free_block:
  assumes l: "layout off u ty buf rs (pre @ (s, k) # post)"
  shows "path buf (hfree off buf) pre s" "s \<noteq> 0" "g16 buf (s + 2) = k" "path buf (g16 buf s) post 0"
    "\<And>r. r \<in> set (rs @ pre @ post) \<Longrightarrow> clear_of (s, k) r" "spaced off buf pre" "spaced off buf (pre @ post)"
proof -
  note d = layoutD[OF l]
  show "path buf (hfree off buf) pre s" "s \<noteq> 0" "g16 buf (s + 2) = k" "path buf (g16 buf s) post 0"
    using d(6) by (auto simp: path_append)
  show "clear_of (s, k) r" if "r \<in> set (rs @ pre @ post)" for r
  proof -
    have "geo u (harea off buf) (hfrag off buf) ((s, k) # rs @ pre @ post)"
      using d(8) geo_mset[of "rs @ pre @ (s, k) # post" "(s, k) # rs @ pre @ post"] by simp
    then show ?thesis using that by (simp add: geo_Cons)
  qed
  show "spaced off buf pre" "spaced off buf (pre @ post)"
    using layout_spaced[OF l] by (auto simp: spaced_def sorted_wrt_append)
qed

lemma used_clear_of_block:
  assumes l: "layout off u ty buf rs fs" and "r \<in> set rs" "b \<in> set fs"
  shows "clear_of r b"
proof -
  have "r \<noteq> b" using geoD(3)[OF layoutD(8)[OF l]] assms(2,3) by (auto simp: apart_def)
  then show ?thesis using geo_clear[OF layoutD(8)[OF l], of r b] assms(2,3) by simp
qed

lemma take_slot_shrink:
  assumes l: "layout (page_offset p) u ty buf rs (pre @ (s, k) # post)" and a: "4 \<le> amount" "amount \<le> k" "4 \<le> k - amount"
  defines "n \<equiv> k - amount" and "b \<equiv> p16 buf (s + 2) (k - amount)"
  shows "take_slot (pb p buf) (u - amount) amount prev (word_of_nat s) next_block (word_of_nat k) = Inr (pb p b, Some (s + n))"
    "layout (page_offset p) u ty b ((s + n, amount) # rs) (pre @ (s, n) # post)" "kept (page_offset p) ty rs buf b"
    "harea (page_offset p) b = harea (page_offset p) buf"
proof -
  let ?off = "page_offset p"
  note d = layoutD[OF l] and sk = layout_block[OF l, of s k, simplified] and fb = free_block[OF l]
  have un: "unat (word_of_nat n :: u16) = n" "4 \<le> n" "n + amount = k" "n < 65536"
    using sk(7) a by (simp_all add: n_def unat_u16 del: of_nat_diff)
  have us: "unat (word_of_nat s :: u16) = s" "unat (word_of_nat k :: u16) = k" using sk(6,7) by (simp_all add: unat_u16)
  have "\<not> n + s > u - amount" using un sk(3) by linarith
  then show "take_slot (pb p buf) (u - amount) amount prev (word_of_nat s) next_block (word_of_nat k) = Inr (pb p b, Some (s + n))"
    using un(2) sk(2,5)
    by (simp only: take_slot_def us n_def[symmetric] Let_def if_False not_less[symmetric])
       (simp add: write_freeblock_size_def page_simps b_def us un(1) n_def[symmetric])
  have reg: "region b x y = region buf x y" if "x + y \<le> s + 2 \<or> s + 4 \<le> x" for x y
    using that sk by (auto simp: region_p16 b_def)
  have h: "hfree ?off b = hfree ?off buf" "hcount ?off b = hcount ?off buf" "harea ?off b = harea ?off buf"
    "hfrag ?off b = hfrag ?off buf" "b ! ?off = buf ! ?off" "length b = length buf"
    using sk by (simp_all add: b_def hdr)
  show k: "kept ?off ty rs buf b"
  proof (rule kept_intro[OF l])
    fix x y assume "?off + 8 \<le> x" "x + y \<le> harea ?off buf \<or> (x, y) \<in> set rs"
    then show "region b x y = region buf x y"
      using fb(5)[of "(x, y)"] sk(1,2) by (intro reg) (auto simp: clear_of_def)
  qed (use h in simp_all)
  have r4: "region b x 4 = region buf x 4" if "(x, y) \<in> set (pre @ post)" for x y
    using fb(5)[of "(x, y)"] that layout_block(2)[OF l, of x y] sk(2) a by (intro reg) (auto simp: clear_of_def)
  have "path b (hfree ?off buf) pre s"
    using fb(1) by (rule path_cong[THEN iffD2, rotated]) (use r4 in auto)
  moreover have "path b (g16 buf s) post 0"
    using fb(4) by (rule path_cong[THEN iffD2, rotated]) (use r4 in auto)
  moreover have "g16 b s = g16 buf s" "g16 b (s + 2) = n"
    using sk un(4) by (simp_all add: b_def n_def[symmetric] g16_p16_other)
  ultimately have "path b (hfree ?off b) (pre @ (s, n) # post) 0" using fb(2) h(1) by (simp add: path_append)
  moreover have "geo u (harea ?off buf) (hfrag ?off buf) (((s + n, amount) # rs) @ pre @ (s, n) # post)"
    using geo_split[of u "harea ?off buf" "hfrag ?off buf" "rs @ pre" s k post n amount] d(8) a(1) un(2,3) by simp
  moreover have "gaps (pre @ (s, n) # post)" using d(7) un(3) by auto
  ultimately show "layout ?off u ty b ((s + n, amount) # rs) (pre @ (s, n) # post)"
    using layout_intro[OF l kept_mono[OF k]] d(5) h by simp
  show "harea ?off b = harea ?off buf" by (rule h)
qed

lemma take_slot_unlink:
  assumes l: "layout (page_offset p) u ty buf rs (pre @ (s, k) # post)" and a: "4 \<le> amount" "amount \<le> k" "k - amount < 4"
    and f57: "\<not> buf ! (page_offset p + 7) > 57"
  defines "b \<equiv> link (page_offset p) buf pre (g16 buf s)"
  defines "c \<equiv> b[page_offset p + 7 := buf ! (page_offset p + 7) + word_of_nat (k - amount)]"
  shows "take_slot (pb p buf) (u - amount) amount (last_start None pre) (word_of_nat s) (word_of_nat (g16 buf s)) (word_of_nat k) =
      Inr (pb p c, Some s)"
    "layout (page_offset p) u ty c ((s, amount) # rs) (pre @ post)" "kept (page_offset p) ty rs buf c"
    "harea (page_offset p) c = harea (page_offset p) buf"
proof -
  let ?off = "page_offset p"
  let ?f = "buf ! (?off + 7) + word_of_nat (k - amount)"
  note d = layoutD[OF l] and sk = layout_block[OF l, of s k, simplified] and fb = free_block[OF l]
  note fr = link_frame[OF d(11) fb(6), where v = "g16 buf s", folded b_def]
  have us: "unat (word_of_nat s :: u16) = s" "unat (word_of_nat k :: u16) = k" using sk(6,7) by (simp_all add: unat_u16)
  have lk: "(case last_start None pre of Some prev \<Rightarrow> write_freeblock_next_ptr (pb p buf) prev (word_of_nat (g16 buf s))
       | None \<Rightarrow> write_first_freeblock (pb p buf) (word_of_nat (g16 buf s))) = Inr (pb p b)"
  proof (cases "pre = []")
    case True
    then show ?thesis using d(11) by (simp add: last_start_def link_def page_simps b_def)
  next
    case False
    then have "(fst (last pre), snd (last pre)) \<in> set pre" using last_in_set by simp
    then have "fst (last pre) < 65536" "fst (last pre) + 4 \<le> length buf"
      using layout_block[OF l, of "fst (last pre)" "snd (last pre)"] by auto
    then show ?thesis using False by (simp add: last_start_def link_def write_freeblock_next_ptr_def page_simps b_def)
  qed
  have f: "unat ?f = hfrag ?off buf + (k - amount)"
  proof -
    have "unat (word_of_nat (k - amount) :: u8) = k - amount"
      using a(3) by (simp add: unat_of_nat take_bit_eq_mod del: of_nat_diff)
    moreover have "unat (buf ! (?off + 7)) \<le> 57" using f57 by (simp add: word_less_nat_alt not_less)
    ultimately show ?thesis
      using a(3) unat_add_lem[of "buf ! (?off + 7)" "word_of_nat (k - amount)"] by (simp add: hfrag_def del: of_nat_diff)
  qed
  show "take_slot (pb p buf) (u - amount) amount (last_start None pre) (word_of_nat s) (word_of_nat (g16 buf s)) (word_of_nat k) =
      Inr (pb p c, Some s)"
    using a(3) f57 d(11) fr(1,6) by (simp add: take_slot_def us page_simps lk c_def del: of_nat_diff)
  have len: "?off + 8 \<le> length b" using fr(1) d(11) by simp
  have h: "hcount ?off c = hcount ?off buf" "harea ?off c = harea ?off buf" "hfrag ?off c = unat ?f" "hfree ?off c = hfree ?off b"
    "c ! ?off = buf ! ?off" "length c = length buf"
    using fr len by (simp_all add: c_def hdr)
  have "path b (hfree ?off b) (pre @ post) 0"
    unfolding b_def by (rule path_link[OF d(11) fb(7,1,4) g16_less])
  moreover have "region c x 4 = region b x 4" if "(x, y) \<in> set (pre @ post)" for x y
    unfolding c_def using layout_block(4)[OF l, of x y] that len by (intro hdr_frag_write(6)) auto
  ultimately have pth: "path c (hfree ?off c) (pre @ post) 0" using path_cong[of "pre @ post" c b] h(4) by simp
  have g: "geo u (harea ?off buf) (unat ?f) (((s, amount) # rs) @ pre @ post)"
    using geo_shrink[of u "harea ?off buf" "hfrag ?off buf" "rs @ pre" s k post amount] d(8) a f by simp
  show k: "kept ?off ty rs buf c"
  proof (rule kept_intro[OF l])
    fix x y assume x: "?off + 8 \<le> x" "x + y \<le> harea ?off buf \<or> (x, y) \<in> set rs"
    have "x + y \<le> fst r \<or> fst r + 2 \<le> x" if "r \<in> set pre" for r
      using layout_block(1,2)[OF l, of "fst r" "snd r"] used_clear_of_block[OF l, of "(x, y)" r] that x(2)
      by (auto simp: clear_of_def)
    then have "region b x y = region buf x y" using fr(7)[OF x(1)] by blast
    then show "region c x y = region buf x y" using hdr_frag_write(6)[OF len x(1)] by (simp add: c_def)
  qed (use h in simp_all)
  have "gaps (pre @ post)" using d(7) by auto
  then show "layout ?off u ty c ((s, amount) # rs) (pre @ post)"
    using layout_intro[OF l kept_mono[OF k]] d(5) pth g h by simp
  show "harea ?off c = harea ?off buf" by (rule h)
qed

lemma find_free_slot_spec:
  assumes l: "layout (page_offset p) u ty buf rs fs" and a: "4 \<le> amount" "amount \<le> u"
  shows "find_free_slot (pb p buf) u amount = Inr (pb p buf, None) \<or>
    (\<exists>buf' pc fs'. find_free_slot (pb p buf) u amount = Inr (pb p buf', Some pc) \<and>
       layout (page_offset p) u ty buf' ((pc, amount) # rs) fs' \<and> kept (page_offset p) ty rs buf buf' \<and>
       harea (page_offset p) buf' = harea (page_offset p) buf)"
proof (cases "fs = []")
  case True
  then have "hfree (page_offset p) buf = 0" using layoutD(6)[OF l] by simp
  then show ?thesis using layoutD(11)[OF l] a(2) by (simp add: find_free_slot_def page_simps usub_def)
next
  case False
  let ?off = "page_offset p" and ?small = "\<lambda>r. snd r < amount"
  note d = layoutD[OF l]
  have "hfree ?off buf \<noteq> 0" using path_zero[OF d(6)] False by simp
  then have "find_free_slot (pb p buf) u amount =
      find_free_slot_loop (pb p buf) u (u - amount) amount None (word_of_nat (hfree ?off buf))"
    using d(11) a(2) by (simp add: find_free_slot_def page_simps usub_def)
  also have "\<dots> = (case dropWhile ?small fs of
       [] \<Rightarrow> Inr (pb p buf, None)
     | (s, l) # _ \<Rightarrow>
         take_slot (pb p buf) (u - amount) amount (last_start None (takeWhile ?small fs))
           (word_of_nat s) (word_of_nat (g16 buf s)) (word_of_nat l))"
  proof (rule find_free_slot_loop_eq[OF d(6,7) False _ d(3)])
    show "\<forall>(s, l) \<in> set fs. 4 \<le> l \<and> s + l \<le> u \<and> s < 65536"
      using layout_block(2,3,6)[OF l] by (metis (no_types, lifting) Un_iff case_prodI2 set_append)
  qed
  finally have e: "find_free_slot (pb p buf) u amount = \<dots>" .
  show ?thesis
  proof (cases "dropWhile ?small fs")
    case Nil
    then show ?thesis using e by (simp only: list.case) blast
  next
    case (Cons r post)
    obtain s k where r: "r = (s, k)" by (cases r)
    obtain pre where pre: "takeWhile ?small fs = pre" by blast
    then have fs: "fs = pre @ (s, k) # post" using takeWhile_dropWhile_id[of ?small fs] Cons r by simp
    have k: "amount \<le> k" using Cons r hd_dropWhile[of ?small fs] by simp
    note l' = l[unfolded fs]
    have e': "find_free_slot (pb p buf) u amount = take_slot (pb p buf) (u - amount) amount (last_start None pre)
        (word_of_nat s) (word_of_nat (g16 buf s)) (word_of_nat k)"
      using e by (simp only: Cons r pre list.case prod.case)
    show ?thesis
    proof (cases "4 \<le> k - amount")
      case True
      then show ?thesis using take_slot_shrink[OF l' a(1) k True] e' by metis
    next
      case False
      then have small: "k - amount < 4" by simp
      show ?thesis
      proof (cases "buf ! (?off + 7) > 57")
        case True
        then have "find_free_slot (pb p buf) u amount = Inr (pb p buf, None)"
          using small d(11) e' k layout_block(7)[OF l', of s k]
          by (simp add: take_slot_def page_simps Let_def del: of_nat_diff)
        then show ?thesis by blast
      next
        case False
        then show ?thesis using take_slot_unlink[OF l' a(1) k small False] e' by metis
      qed
    qed
  qed
qed

section \<open>Freeing a range\<close>

text \<open>Two neighbouring regions and the fragment between them become one.\<close>

lemma geo_merge:
  assumes g: "geo u area frag ((a, la) # (b, lb) # xs)" and ab: "a + la \<le> b" "b \<le> a + la + 3"
  shows "b - (a + la) \<le> frag" "geo u area (frag - (b - (a + la))) ((a, b + lb - a) # xs)"
proof -
  have i: "inside area u (a, la)" "inside area u (b, lb)" "geo u area (frag + la + lb) xs"
    and c: "\<And>r. r \<in> set xs \<Longrightarrow> clear_of (a, la) r" "\<And>r. r \<in> set xs \<Longrightarrow> clear_of (b, lb) r"
    using g by (auto simp: geo_Cons)
  have c': "clear_of (a, b + lb - a) r" if "r \<in> set xs" for r
    using c[OF that] geoD(2)[OF i(3) that] ab i(1,2) by (auto simp: clear_of_def inside_def)
  have "sum_list (map snd [(a + la, b - (a + la))]) \<le> frag"
  proof (rule geo_gaps[OF g])
    have "clear_of (a + la, b - (a + la)) r" if "r \<in> set xs" for r
      using c'[OF that] ab i(1,2) by (auto simp: clear_of_def inside_def)
    then show "\<forall>r \<in> set [(a + la, b - (a + la))]. \<forall>q \<in> set ((a, la) # (b, lb) # xs). clear_of r q"
      using ab i(1,2) by (auto simp: clear_of_def inside_def)
  qed (use ab i(1,2) in \<open>auto simp: inside_def\<close>)
  then show f: "b - (a + la) \<le> frag" by simp
  have "frag - (b - (a + la)) + (b + lb - a) = frag + la + lb" using f ab by simp
  moreover have "inside area u (a, b + lb - a)" using i(1,2) ab by (auto simp: inside_def)
  ultimately show "geo u area (frag - (b - (a + la))) ((a, b + lb - a) # xs)"
    using i(3) c' by (simp only: geo_Cons snd_conv) blast
qed

lemma geo_extend:
  assumes "geo u area frag ((area, l) # xs)"
  shows "geo u (area + l) frag xs"
proof -
  have g: "inside area u (area, l)" "geo u area (frag + l) xs" "\<And>r. r \<in> set xs \<Longrightarrow> clear_of (area, l) r"
    using assms by (auto simp: geo_Cons)
  have "inside (area + l) u r" if "r \<in> set xs" for r
    using geoD(2)[OF g(2) that] g(3)[OF that] g(1) by (auto simp: inside_def clear_of_def)
  then show ?thesis using g(1,2) by (auto simp: geo_def inside_def)
qed

definition opt_last :: "nat option \<Rightarrow> reg list \<Rightarrow> nat option" where
  "opt_last prev fs = (if fs = [] then prev else Some (fst (last fs)))"

definition opt_hd :: "reg list \<Rightarrow> nat option" where
  "opt_hd fs = (if fs = [] then None else Some (fst (hd fs)))"

lemma find_neighbours_eq:
  assumes "path buf s fs 0" "gaps fs" "fs \<noteq> []" "\<forall>(s, l) \<in> set fs. 4 \<le> l \<and> s + l \<le> length buf"
    "case prev of None \<Rightarrow> True | Some q \<Rightarrow> q < s"
  shows "find_neighbours (pb p buf) ofs prev s =
    Inr (opt_last prev (takeWhile (\<lambda>r. fst r < ofs) fs), opt_hd (dropWhile (\<lambda>r. fst r < ofs) fs))"
  using assms
proof (induction fs arbitrary: s prev)
  case (Cons r fs)
  obtain l where r: "r = (s, l)" using Cons.prems(1) by (cases r) auto
  with Cons.prems have s: "path buf (g16 buf s) fs 0" "4 \<le> l" "s + l \<le> length buf" by auto
  have up: "\<not> (case prev of Some q \<Rightarrow> s \<le> q | None \<Rightarrow> False)" using Cons.prems(5) by (cases prev) auto
  note step = find_neighbours.simps[of "pb p buf" ofs prev s]
  show ?case
  proof (cases "s < ofs")
    case False
    then show ?thesis using up by (subst step) (simp add: r opt_last_def opt_hd_def)
  next
    case True
    show ?thesis
    proof (cases fs)
      case Nil
      then have "g16 buf s = 0" using s(1) by simp
      then show ?thesis using True up s(2,3) by (subst step) (simp add: r Nil page_simps opt_last_def opt_hd_def)
    next
      case (Cons r' fs')
      obtain n l' where r': "r' = (n, l')" by (cases r')
      have n: "g16 buf s = n" "n \<noteq> 0" using s(1) Cons r' by auto
      have "s < n" using \<open>gaps (r # fs)\<close> r r' Cons by simp
      then have "find_neighbours (pb p buf) ofs (Some s) n =
          Inr (opt_last (Some s) (takeWhile (\<lambda>r. fst r < ofs) fs), opt_hd (dropWhile (\<lambda>r. fst r < ofs) fs))"
        using Cons.IH[of n "Some s"] Cons.prems s(1) n(1) Cons by simp
      moreover have "find_neighbours (pb p buf) ofs prev s = find_neighbours (pb p buf) ofs (Some s) n"
        using True up s(2,3) n g16_zero_iff[of buf s] by (subst step) (simp add: page_simps unat_g16[of buf s, unfolded n(1)])
      ultimately show ?thesis using True by (simp add: r opt_last_def)
    qed
  qed
qed simp

text \<open>Storing the header of a free block.\<close>

definition block_at :: "bytes \<Rightarrow> nat \<Rightarrow> nat \<Rightarrow> nat \<Rightarrow> bytes" where
  "block_at buf s nx k = p16 (p16 buf s nx) (s + 2) k"

lemma block_at_frame:
  assumes "off + 8 \<le> s" "s + 4 \<le> length buf"
  shows "length (block_at buf s nx k) = length buf" "hfree off (block_at buf s nx k) = hfree off buf"
    "hcount off (block_at buf s nx k) = hcount off buf" "harea off (block_at buf s nx k) = harea off buf"
    "hfrag off (block_at buf s nx k) = hfrag off buf" "block_at buf s nx k ! off = buf ! off"
    "x + y \<le> s \<or> s + 4 \<le> x \<Longrightarrow> region (block_at buf s nx k) x y = region buf x y"
  using assms by (auto simp: block_at_def hdr region_p16)

lemma write_freeblock_eq:
  assumes "s + 4 \<le> length buf" "s < 65536" "k < 65536"
  shows "write_freeblock (pb p buf) (word_of_nat s) (word_of_nat k) nb =
    Inr (pb p (block_at buf s (case nb of None \<Rightarrow> 0 | Some b \<Rightarrow> unat b) k))"
  using assms
  by (cases nb) (simp_all add: write_freeblock_def write_freeblock_next_ptr_def write_freeblock_size_def page_simps block_at_def)

lemma path_block:
  assumes "path buf h pre s" "path buf nx post 0" "s \<noteq> 0" "s + 4 \<le> length buf" "nx < 65536" "k < 65536"
    and far: "\<forall>r \<in> set (pre @ post). fst r + 4 \<le> s \<or> s + 4 \<le> fst r"
  shows "path (block_at buf s nx k) h (pre @ (s, k) # post) 0"
proof -
  let ?b = "block_at buf s nx k"
  have r4: "region ?b x 4 = region buf x 4" if "(x, y) \<in> set (pre @ post)" for x y
  proof -
    have "x + 4 \<le> s \<or> s + 4 \<le> x" using far that by force
    then show ?thesis using assms(4) by (auto simp: block_at_def region_p16)
  qed
  have "path ?b h pre s" using assms(1) by (rule path_cong[THEN iffD2, rotated]) (use r4 in auto)
  moreover have "path ?b nx post 0" using assms(2) by (rule path_cong[THEN iffD2, rotated]) (use r4 in auto)
  moreover have "g16 ?b s = nx" "g16 ?b (s + 2) = k"
    using assms(4-6) by (simp_all add: block_at_def g16_p16_other)
  ultimately show ?thesis using assms(3) by (simp add: path_append)
qed

lemma block_at_p16: "s + 4 \<le> length buf \<Longrightarrow> block_at (p16 buf s x) s nx k = block_at buf s nx k"
  by (simp add: block_at_def p16_def patch_def)

definition next_start :: "reg list \<Rightarrow> nat" where
  "next_start fs = (if fs = [] then 0 else fst (hd fs))"

lemma path_next_start: "path buf a fs 0 \<Longrightarrow> a = next_start fs"
  by (cases fs) (auto simp: next_start_def)

text \<open>What the last step of \<open>free_cell_range\<close> establishes.\<close>

definition freed :: "nat \<Rightarrow> nat \<Rightarrow> reg list \<Rightarrow> bytes \<Rightarrow> bytes \<Rightarrow> reg list \<Rightarrow> bool" where
  "freed off u rs buf buf' fs' \<longleftrightarrow>
     path buf' (hfree off buf') fs' 0 \<and> gaps fs' \<and> geo u (harea off buf') (hfrag off buf) (rs @ fs') \<and>
     length buf' = length buf \<and> buf' ! off = buf ! off \<and> hcount off buf' = hcount off buf \<and>
     hfrag off buf' = hfrag off buf \<and> harea off buf \<le> harea off buf' \<and>
     (\<forall>s k. off + 8 \<le> s \<longrightarrow> s + k \<le> harea off buf \<or> (s, k) \<in> set rs \<longrightarrow> region buf' s k = region buf s k)"

lemma link_freed_front:
  assumes h: "page_offset p + 8 \<le> harea (page_offset p) buf" "u \<le> length buf" "u \<le> 65536"
    and pre: "path buf (hfree (page_offset p) buf) pre c" "pre = [] \<or> (\<exists>k. pre = [(harea (page_offset p) buf, k)])"
    and post: "path buf nx post 0" "gaps ((harea (page_offset p) buf, sz) # post)"
    and g: "geo u (harea (page_offset p) buf) (hfrag (page_offset p) buf) ((harea (page_offset p) buf, sz) # rs @ post)"
  defines "area \<equiv> harea (page_offset p) buf"
  shows "\<exists>buf'. link_freed (pb p buf) area (hfree (page_offset p) buf) area (area + sz) (opt_last None pre) (opt_hd post) =
      Inr (pb p buf') \<and> freed (page_offset p) u rs buf buf' post"
proof -
  let ?off = "page_offset p"
  let ?b = "p16 buf (Suc ?off) nx" and ?c = "p16 (p16 buf (Suc ?off) nx) (?off + 5) (area + sz)"
  have g': "inside area u (area, sz)" "geo u (area + sz) (hfrag ?off buf) (rs @ post)"
    using g geo_extend[OF g] by (auto simp: geo_Cons area_def)
  have len: "?off + 8 \<le> length buf" "0 < area + sz" "area + sz \<le> 65536" "area + sz \<le> u"
    using g'(1) h by (auto simp: inside_def area_def)
  have nx: "nx = next_start post" "nx < 65536"
  proof -
    show "nx = next_start post" by (rule path_next_start[OF post(1)])
    show "nx < 65536"
    proof (cases post)
      case (Cons r post')
      then have "inside (area + sz) u r" using geoD(2)[OF g'(2)] by simp
      then show ?thesis using h(3) Cons post(1) by (cases r) (auto simp: inside_def)
    qed (use post(1) in simp)
  qed
  have first: "\<not> (case opt_last None pre of Some prev \<Rightarrow> prev \<noteq> hfree ?off buf | None \<Rightarrow> False)"
    using pre by (auto simp: opt_last_def area_def)
  have "(case opt_hd post of Some n \<Rightarrow> if n \<le> area + sz then Inl Corrupt
          else rbind (u16_try_from n) (write_first_freeblock (pb p buf))
        | None \<Rightarrow> write_first_freeblock (pb p buf) 0) = Inr (pb p ?b)"
  proof (cases "post = []")
    case True
    then show ?thesis using len(1) nx by (simp add: opt_hd_def next_start_def page_simps)
  next
    case False
    then have "area + sz + 3 < fst (hd post)" using post(2) by (cases post) (auto simp: area_def)
    then show ?thesis using False len(1) nx by (simp add: opt_hd_def next_start_def page_simps u16_try_from_def)
  qed
  then have "link_freed (pb p buf) area (hfree ?off buf) area (area + sz) (opt_last None pre) (opt_hd post) = Inr (pb p ?c)"
    using first len by (simp add: link_freed_def page_simps)
  moreover have "freed ?off u rs buf ?c post"
  proof -
    have hd: "hfree ?off ?c = nx" "harea ?off ?c = area + sz" "hfrag ?off ?c = hfrag ?off buf" "hcount ?off ?c = hcount ?off buf"
      "?c ! ?off = buf ! ?off" "length ?c = length buf"
      using len nx(2) by (simp_all add: hdr)
    have reg: "region ?c s k = region buf s k" if "?off + 8 \<le> s" for s k
      using that len by (simp add: hdr)
    have "path ?c nx post 0"
    proof (rule path_cong[THEN iffD2, OF _ post(1)])
      fix s k assume "(s, k) \<in> set post"
      then have "inside (area + sz) u (s, k)" using geoD(2)[OF g'(2)] by simp
      then show "region ?c s 4 = region buf s 4" using h(1) by (intro reg) (auto simp: inside_def area_def)
    qed
    then show ?thesis using g'(2) post(2) hd reg by (simp add: freed_def area_def)
  qed
  ultimately show ?thesis by blast
qed

lemma link_freed_middle:
  assumes h: "page_offset p + 8 \<le> harea (page_offset p) buf" "u \<le> length buf" "u \<le> 65536"
    and pre: "path buf (hfree (page_offset p) buf) pre c" "spaced (page_offset p) buf pre"
      "pre = pre' \<or> (\<exists>k. pre = pre' @ [(ofs, k)])"
    and post: "path buf nx post 0" "gaps (pre' @ (ofs, sz) # post)"
    and g: "geo u (harea (page_offset p) buf) (hfrag (page_offset p) buf) ((ofs, sz) # rs @ pre' @ post)"
    and ofs: "harea (page_offset p) buf < ofs"
  shows "\<exists>buf'. link_freed (pb p buf) (harea (page_offset p) buf) first ofs (ofs + sz) (opt_last None pre) (opt_hd post) =
      Inr (pb p buf') \<and> freed (page_offset p) u rs buf buf' (pre' @ (ofs, sz) # post)"
proof -
  let ?off = "page_offset p" and ?area = "harea (page_offset p) buf"
  have i: "4 \<le> sz" "ofs + sz \<le> u" and r: "\<And>r. r \<in> set (rs @ pre' @ post) \<Longrightarrow> clear_of (ofs, sz) r"
    "\<And>r. r \<in> set (rs @ pre' @ post) \<Longrightarrow> inside ?area u r"
    using g geoD(2)[OF g] by (auto simp: geo_Cons inside_def)
  have small: "ofs < 65536" "sz < 65536" "ofs + 4 \<le> length buf" "?off + 8 \<le> length buf" "?off + 8 \<le> ofs" "ofs \<noteq> 0"
    using i h ofs by linarith+
  have nx: "nx = next_start post" "nx < 65536"
  proof -
    show "nx = next_start post" by (rule path_next_start[OF post(1)])
    show "nx < 65536"
    proof (cases post)
      case (Cons q post')
      then show ?thesis using r(2)[of q] h(3) post(1) by (cases q) (auto simp: inside_def)
    qed (use post(1) in simp)
  qed
  have far: "\<forall>r \<in> set (pre' @ post). fst r + 4 \<le> ofs \<or> ofs + 4 \<le> fst r"
    using r i(1) by (force simp: clear_of_def inside_def)
  define b where "b = (if pre = pre' then link ?off buf pre ofs else p16 buf ofs ofs)"
  have wp: "(case opt_last None pre of Some prev \<Rightarrow> write_u16_no_offset (pb p buf) prev (word_of_nat ofs)
      | None \<Rightarrow> write_first_freeblock (pb p buf) (word_of_nat ofs)) = Inr (pb p b)"
  proof (cases "pre = []")
    case True
    then show ?thesis using pre(3) small by (auto simp: opt_last_def b_def link_def page_simps)
  next
    case False
    then have "fst (last pre) + 4 \<le> length buf" using pre(2) last_in_set by (auto simp: spaced_def)
    then show ?thesis using False pre(3) small by (auto simp: opt_last_def b_def link_def page_simps)
  qed
  have b: "length b = length buf" "hcount ?off b = hcount ?off buf" "harea ?off b = ?area" "hfrag ?off b = hfrag ?off buf"
    "b ! ?off = buf ! ?off"
    using link_frame[OF small(4) pre(2), of ofs] small by (auto simp: b_def hdr)
  let ?c = "block_at b ofs nx sz"
  note bc = block_at_frame[where off = ?off and s = ofs and buf = b and nx = nx and k = sz, unfolded b(1), OF small(5,3)]
  have "link_freed (pb p buf) ?area first ofs (ofs + sz) (opt_last None pre) (opt_hd post) = Inr (pb p ?c)"
    using ofs wp small b(1) nx
    by (cases "post = []")
       (simp_all add: link_freed_def u16_try_from_def usub_def opt_hd_def next_start_def write_freeblock_eq page_simps)
  moreover have "freed ?off u rs buf ?c (pre' @ (ofs, sz) # post)"
  proof -
    have reg: "region b s k = region buf s k"
      if "?off + 8 \<le> s" "\<forall>r \<in> set pre'. s + k \<le> fst r \<or> fst r + 2 \<le> s" "s + k \<le> ofs \<or> ofs + 2 \<le> s" for s k
      using that link_frame(7)[OF small(4) pre(2)] small(3) by (auto simp: b_def region_p16)
    have "path b nx post 0"
    proof (rule path_cong[THEN iffD2, OF _ post(1)])
      fix s k assume m: "(s, k) \<in> set post"
      have "fst q + 4 \<le> s" if "q \<in> set pre'" for q
        using post(2) m that r(2)[of q] by (force simp: inside_def)
      then show "region b s 4 = region buf s 4"
        using m r(2)[of "(s, k)"] far h(1) by (intro reg) (force simp: inside_def)+
    qed
    moreover have "path b (hfree ?off b) pre' ofs"
    proof (cases "pre = pre'")
      case True
      then show ?thesis
        using path_link[OF small(4), of pre "[]" c ofs ofs] pre(1,2) small(1) by (simp add: b_def)
    next
      case False
      then obtain k where k: "pre = pre' @ [(ofs, k)]" using pre(3) by blast
      have "path (p16 buf ofs ofs) (hfree ?off buf) pre' ofs"
      proof (rule path_cong[THEN iffD2])
        show "path buf (hfree ?off buf) pre' ofs" using pre(1) by (auto simp: k path_append)
        fix s l assume "(s, l) \<in> set pre'"
        then have "s + 4 \<le> ofs \<or> ofs + 4 \<le> s" using far by force
        then show "region (p16 buf ofs ofs) s 4 = region buf s 4" using small by (auto simp: region_p16)
      qed
      then show ?thesis using False small by (simp add: b_def hdr)
    qed
    ultimately have "path ?c (hfree ?off ?c) (pre' @ (ofs, sz) # post) 0"
      unfolding bc(2) using nx(2) small b(1) far by (intro path_block) auto
    moreover have "region ?c s k = region buf s k" if "?off + 8 \<le> s" "s + k \<le> ?area \<or> (s, k) \<in> set rs" for s k
    proof -
      have "clear_of (ofs, sz) (s, k) \<or> s + k \<le> ofs" using r(1) that(2) ofs by auto
      then have sk: "s + k \<le> ofs \<or> ofs + 4 \<le> s" using i(1) by (auto simp: clear_of_def)
      have "s + k \<le> fst q \<or> fst q + 2 \<le> s" if q: "q \<in> set pre'" for q
      proof -
        have "(s, k) \<in> set rs \<Longrightarrow> clear_of (s, k) q"
        proof -
          assume m: "(s, k) \<in> set rs"
          have "(s, k) \<noteq> q" using geoD(3)[OF g] m q by (auto simp: apart_def)
          then show ?thesis using geo_clear[OF g, of "(s, k)" q] m q by simp
        qed
        then show ?thesis using \<open>s + k \<le> ?area \<or> (s, k) \<in> set rs\<close> r(2)[of q] q by (auto simp: clear_of_def inside_def)
      qed
      then have "region b s k = region buf s k" using sk by (intro reg[OF that(1)]) auto
      then show ?thesis using bc(7)[of s k, OF sk] by simp
    qed
    moreover have "geo u ?area (hfrag ?off buf) (rs @ pre' @ (ofs, sz) # post)"
      using g geo_mset[of "(ofs, sz) # rs @ pre' @ post" "rs @ pre' @ (ofs, sz) # post"] by simp
    ultimately show ?thesis using post(2) b bc by (simp add: freed_def)
  qed
  ultimately show ?thesis by blast
qed

lemma merge_next_spec:
  assumes g: "geo u area frag ((ofs, len) # rs @ pre @ post)" and gp: "gaps (pre @ post)" and pth: "path buf c post 0"
    and post: "\<forall>r \<in> set post. ofs + len \<le> fst r" and u: "u \<le> length buf"
  shows "\<exists>gap end post' nx. merge_next (pb p buf) u (ofs + len) (opt_hd post) = Inr (word_of_nat gap, end, opt_hd post') \<and>
    gap \<le> 3 \<and> gap \<le> frag \<and> geo u area (frag - gap) ((ofs, end - ofs) # rs @ pre @ post') \<and> gaps (pre @ post') \<and>
    path buf nx post' 0 \<and> ofs + len \<le> end \<and> (\<forall>r \<in> set post'. end + 3 < fst r) \<and> set post' \<subseteq> set post"
proof (cases "\<exists>n k post'. post = (n, k) # post' \<and> n \<le> ofs + len + 3")
  case False
  have "\<forall>r \<in> set post. ofs + len + 3 < fst r"
  proof (cases post)
    case (Cons r post')
    then have "ofs + len + 3 < fst r" using False by (cases r) auto
    then show ?thesis using gp Cons by force
  qed simp
  then have "merge_next (pb p buf) u (ofs + len) (opt_hd post) = Inr (word_of_nat 0, ofs + len, opt_hd post)"
    by (cases post) (auto simp: merge_next_def opt_hd_def)
  then show ?thesis using g gp pth \<open>\<forall>r \<in> set post. ofs + len + 3 < fst r\<close>
    by (intro exI[of _ 0] exI[of _ "ofs + len"] exI[of _ post] exI[of _ c]) simp
next
  case True
  then obtain n k post' where q: "post = (n, k) # post'" "n \<le> ofs + len + 3" by blast
  have n: "ofs + len \<le> n" "inside area u (n, k)" "g16 buf (n + 2) = k" "path buf (g16 buf n) post' 0"
    using post pth geoD(2)[OF g] by (auto simp: q(1))
  have "geo u area frag ((ofs, len) # (n, k) # rs @ pre @ post')"
    using g geo_mset[of "(ofs, len) # rs @ pre @ post" "(ofs, len) # (n, k) # rs @ pre @ post'"] by (simp add: q(1))
  note m = geo_merge[OF this n(1) q(2)]
  have "merge_next (pb p buf) u (ofs + len) (opt_hd post) = Inr (word_of_nat (n - (ofs + len)), n + k, opt_hd post')"
  proof -
    have nxt: "opt_hd post' = (if g16 buf n = 0 then None else Some (g16 buf n))"
      using path_next_start[OF n(4)] path_zero[OF n(4)] by (simp add: opt_hd_def next_start_def)
    have "opt_hd post = Some n" by (simp add: opt_hd_def q(1))
    then show ?thesis
      using q(2) n(1-3) u g16_less[of buf "n + 2"]
      by (simp add: merge_next_def usub_def page_simps inside_def Let_def nxt)
  qed
  moreover have "\<forall>r \<in> set post'. n + k + 3 < fst r" "gaps (pre @ post')" using gp by (auto simp: q(1))
  ultimately show ?thesis using m n q
    by (intro exI[of _ "n - (ofs + len)"] exI[of _ "n + k"] exI[of _ post'] exI[of _ "g16 buf n"]) auto
qed

lemma merge_prev_spec:
  assumes g: "geo u area frag ((ofs, sz) # rs @ pre @ post)" and gp: "gaps pre" and pth: "path buf h pre c"
    and pre: "\<forall>r \<in> set pre. fst r + snd r \<le> ofs" and u: "u \<le> length buf"
  shows "\<exists>gap ofs' pre'. merge_prev (pb p buf) ofs (opt_last None pre) removed = Inr (removed + word_of_nat gap, ofs') \<and>
    gap \<le> 3 \<and> gap \<le> frag \<and> geo u area (frag - gap) ((ofs', ofs + sz - ofs') # rs @ pre' @ post) \<and>
    (pre = pre' \<or> (\<exists>k. pre = pre' @ [(ofs', k)])) \<and> (\<forall>r \<in> set pre'. fst r + snd r + 3 < ofs') \<and> ofs' \<le> ofs \<and>
    gaps pre'"
proof (cases pre rule: rev_cases)
  case Nil
  then show ?thesis using g by (intro exI[of _ 0] exI[of _ ofs] exI[of _ pre]) (simp add: merge_prev_def opt_last_def)
next
  case (snoc pre' r)
  obtain q k where r: "r = (q, k)" by (cases r)
  have q: "q + k \<le> ofs" "inside area u (q, k)" "g16 buf (q + 2) = k" "k < 65536"
    using pre pth geoD(2)[OF g] g16_less[of buf "q + 2"] by (auto simp: snoc r path_append)
  have p: "\<forall>r \<in> set pre'. fst r + snd r + 3 < q" "gaps pre'" using gp by (auto simp: snoc r)
  have e: "merge_prev (pb p buf) ofs (opt_last None pre) removed =
      (if q + k + 3 \<ge> ofs then Inr (removed + word_of_nat (ofs - (q + k)), q) else Inr (removed, ofs))"
    using q u by (simp add: merge_prev_def opt_last_def snoc r page_simps inside_def Let_def)
  show ?thesis
  proof (cases "q + k + 3 \<ge> ofs")
    case True
    have "geo u area frag ((q, k) # (ofs, sz) # rs @ pre' @ post)"
      using g geo_mset[of "(ofs, sz) # rs @ pre @ post" "(q, k) # (ofs, sz) # rs @ pre' @ post"] by (simp add: snoc r)
    note m = geo_merge[OF this q(1) True]
    show ?thesis using m e True p q(1) snoc r
      by (intro exI[of _ "ofs - (q + k)"] exI[of _ q] exI[of _ pre']) auto
  next
    case False
    have "\<forall>r \<in> set pre. fst r + snd r + 3 < ofs" using False p(1) by (force simp: snoc r)
    then show ?thesis using e False g gp by (intro exI[of _ 0] exI[of _ ofs] exI[of _ pre]) simp
  qed
qed

lemma layout_freed:
  assumes l: "layout off u ty buf rs0 fs" and k: "kept off ty [] buf b" and h: "harea off b = harea off buf" "hfrag off b = hfrag off buf'"
    and f: "freed off u rs b buf' fs'"
    and r: "\<And>s k. off + 8 \<le> s \<Longrightarrow> region b s k = region buf s k" and sub: "set rs \<subseteq> set rs0"
  shows "layout off u ty buf' rs fs'" "kept off ty rs buf buf'"
proof -
  have f': "path buf' (hfree off buf') fs' 0" "gaps fs'" "geo u (harea off buf') (hfrag off buf') (rs @ fs')"
    "length buf' = length buf" "buf' ! off = buf ! off" "hcount off buf' = hcount off buf" "harea off buf \<le> harea off buf'"
    using f k h by (auto simp: freed_def kept_def)
  have "region buf' (off + hsize ty) (2 * hcount off buf) = region buf (off + hsize ty) (2 * hcount off buf)"
    using f r layoutD(5)[OF l] hsize_ge[of ty] h(1) by (simp add: freed_def)
  moreover have "region buf' (fst q) (snd q) = region buf (fst q) (snd q)" if "q \<in> set rs" for q
    using layout_block(4)[OF l, of "fst q" "snd q"] f r that sub by (auto simp: freed_def)
  ultimately show "kept off ty rs buf buf'" using f' by (simp add: kept_def)
  then show "layout off u ty buf' rs fs'"
    using layout_intro[OF l kept_mono[of off ty rs]] f' layoutD(5)[OF l] by simp
qed

lemma free_range_alone:
  assumes l: "layout (page_offset p) u ty buf ((ofs, len) # rs) []"
  shows "\<exists>buf' fs'. free_cell_range (pb p buf) ofs len u = Inr (pb p buf') \<and>
    layout (page_offset p) u ty buf' rs fs' \<and> kept (page_offset p) ty rs buf buf'"
proof -
  let ?off = "page_offset p" and ?area = "harea (page_offset p) buf"
  note d = layoutD[OF l] and i = layout_block[OF l, of ofs len, simplified]
  have free: "hfree ?off buf = 0" using d(6) by simp
  show ?thesis
  proof (cases "ofs = ?area")
    case True
    let ?b = "p16 buf (?off + 5) (ofs + len)"
    have v: "0 < ofs + len" "ofs + len \<le> 65536" using i(2,3) d(2) by linarith+
    have "free_cell_range (pb p buf) ofs len u = Inr (pb p ?b)"
      using True d(11) i free by (simp add: free_cell_range_def page_simps)
    moreover have h: "hfree ?off ?b = 0" "harea ?off ?b = ofs + len" "hfrag ?off ?b = hfrag ?off buf" "hcount ?off ?b = hcount ?off buf"
      "?b ! ?off = buf ! ?off" "length ?b = length buf" "\<And>s k. ?off + 8 \<le> s \<Longrightarrow> region ?b s k = region buf s k"
      using d(11) v free by (simp_all add: hdr)
    moreover have k: "kept ?off ty rs buf ?b"
    proof (rule kept_mono)
      show "kept ?off ty ((ofs, len) # rs) buf ?b" by (rule kept_intro[OF l h(6,5,4)]) (rule h(7))
    qed auto
    moreover have "geo u (ofs + len) (hfrag ?off buf) rs"
      using geo_extend[of u ?area "hfrag ?off buf" len rs] d(8) True by simp
    ultimately have "layout ?off u ty ?b rs []"
      using d(5) True by (intro layout_intro[OF l kept_mono[OF k]]) auto
    then show ?thesis using \<open>free_cell_range (pb p buf) ofs len u = Inr (pb p ?b)\<close> k by blast
  next
    case False
    have "free_cell_range (pb p buf) ofs len u = link_freed (pb p buf) ?area 0 ofs (ofs + len) None None"
    proof -
      have "\<not> ofs > u - 4" using i(2,3) by linarith
      then show ?thesis using False d(11) i free by (simp add: free_cell_range_def link_freed_def page_simps usub_def)
    qed
    moreover have "\<exists>buf'. link_freed (pb p buf) ?area 0 ofs (ofs + len) (opt_last None []) (opt_hd []) = Inr (pb p buf') \<and>
        freed ?off u rs buf buf' ([] @ (ofs, len) # [])"
      using d i False by (intro link_freed_middle[where c = 0 and nx = 0]) (auto simp: spaced_def)
    ultimately obtain buf' where f: "free_cell_range (pb p buf) ofs len u = Inr (pb p buf')" "freed ?off u rs buf buf' [(ofs, len)]"
      by (auto simp: opt_last_def opt_hd_def)
    have "hfrag ?off buf = hfrag ?off buf'" using f(2) by (simp add: freed_def)
    then show ?thesis using layout_freed[OF l kept_refl refl _ f(2) refl] f(1) by (metis list.set_intros(2) subsetI)
  qed
qed

lemma free_cell_range_spec:
  assumes l: "layout (page_offset p) u ty buf ((ofs, len) # rs) fs"
  shows "\<exists>buf' fs'. free_cell_range (pb p buf) ofs len u = Inr (pb p buf') \<and>
    layout (page_offset p) u ty buf' rs fs' \<and> kept (page_offset p) ty rs buf buf'"
proof (cases "fs = []")
  case True
  then show ?thesis using free_range_alone[of p u ty buf ofs len rs] l by simp
next
  case False
  let ?off = "page_offset p" and ?area = "harea (page_offset p) buf" and ?frag = "hfrag (page_offset p) buf"
  note d = layoutD[OF l] and i = layout_block[OF l, of ofs len, simplified]
  define pre post where "pre = takeWhile (\<lambda>r. fst r < ofs) fs" and "post = dropWhile (\<lambda>r. fst r < ofs) fs"
  have fs: "fs = pre @ post" by (simp add: pre_def post_def)
  obtain c where pth: "path buf (hfree ?off buf) pre c" "path buf c post 0" using d(6) by (auto simp: fs path_append)
  have gp: "gaps pre" "gaps post" "gaps (pre @ post)" using d(7) by (auto simp: fs)
  have cl: "clear_of (ofs, len) r" "4 \<le> snd r" if "r \<in> set fs" for r
    using used_clear_of_block[OF l, of "(ofs, len)" r] layout_block(2)[OF l, of "fst r" "snd r"] that by auto
  have before: "\<forall>r \<in> set pre. fst r + snd r \<le> ofs"
  proof
    fix r assume r: "r \<in> set pre"
    then have "fst r < ofs" using set_takeWhileD by (fastforce simp: pre_def)
    then show "fst r + snd r \<le> ofs" using cl[of r] r i(2) by (auto simp: fs clear_of_def)
  qed
  have after: "\<forall>r \<in> set post. ofs + len \<le> fst r"
  proof
    fix r assume r: "r \<in> set post"
    have "\<not> fst r < ofs"
    proof (cases post)
      case (Cons q post')
      then have "\<not> fst q < ofs" using hd_dropWhile[of "\<lambda>r. fst r < ofs" fs] by (auto simp: post_def)
      then show ?thesis using r gp(2) Cons by auto
    qed (use r in simp)
    then show "ofs + len \<le> fst r" using cl[of r] r by (auto simp: fs clear_of_def)
  qed
  have "geo u ?area ?frag ((ofs, len) # rs @ pre @ post)" using d(8) by (simp add: fs)
  from merge_next_spec[OF this gp(3) pth(2) after d(3), of p]
  obtain g1 fin post' nx where m1: "merge_next (pb p buf) u (ofs + len) (opt_hd post) = Inr (word_of_nat g1, fin, opt_hd post')"
    "g1 \<le> 3" "g1 \<le> ?frag" "geo u ?area (?frag - g1) ((ofs, fin - ofs) # rs @ pre @ post')" "gaps (pre @ post')"
    "path buf nx post' 0" "ofs + len \<le> fin" "\<forall>r \<in> set post'. fin + 3 < fst r" "set post' \<subseteq> set post"
    by blast
  from merge_prev_spec[OF m1(4) gp(1) pth(1) before d(3), of p "word_of_nat g1"]
  obtain g2 ofs' pre' where m2: "merge_prev (pb p buf) ofs (opt_last None pre) (word_of_nat g1) = Inr (word_of_nat g1 + word_of_nat g2, ofs')"
    "g2 \<le> 3" "g2 \<le> ?frag - g1" "geo u ?area (?frag - g1 - g2) ((ofs', ofs + (fin - ofs) - ofs') # rs @ pre' @ post')"
    "pre = pre' \<or> (\<exists>k. pre = pre' @ [(ofs', k)])" "\<forall>r \<in> set pre'. fst r + snd r + 3 < ofs'" "ofs' \<le> ofs" "gaps pre'"
    by blast
  let ?sz = "fin - ofs'" and ?f = "buf ! (?off + 7) - (word_of_nat g1 + word_of_nat g2)"
  let ?b = "buf[?off + 7 := ?f]"
  have sz: "ofs + (fin - ofs) - ofs' = ?sz" "ofs' + ?sz = fin" using m1(7) m2(7) by linarith+
  have rem: "unat (word_of_nat g1 + word_of_nat g2 :: u8) = g1 + g2"
    using m1(2) m2(2) by (simp add: unat_of_nat take_bit_eq_mod flip: of_nat_add)
  then have notgt: "\<not> word_of_nat g1 + word_of_nat g2 > buf ! (?off + 7)"
    using m1(3) m2(3) by (simp add: word_less_nat_alt hfrag_def)
  then have uf: "unat ?f = ?frag - g1 - g2"
    using unat_sub[of "word_of_nat g1 + word_of_nat g2" "buf ! (?off + 7)"] rem by (simp only: not_less hfrag_def diff_diff_left)
  have hb: "length ?b = length buf" "hfree ?off ?b = hfree ?off buf" "hcount ?off ?b = hcount ?off buf" "harea ?off ?b = ?area"
    "hfrag ?off ?b = ?frag - g1 - g2" "?b ! ?off = buf ! ?off" "\<And>s k. ?off + 8 \<le> s \<Longrightarrow> region ?b s k = region buf s k"
    using d(11) uf by (simp_all add: hdr)
  have pb': "path ?b h qs e \<longleftrightarrow> path buf h qs e" if "set qs \<subseteq> set fs" for h qs e
  proof (rule path_cong)
    fix s k assume "(s, k) \<in> set qs"
    then have "?off + 8 \<le> s" using layout_block(4)[OF l, of s k] that by auto
    then show "region ?b s 4 = region buf s 4" by (rule hb(7))
  qed
  have sub: "set pre \<subseteq> set fs" "set post' \<subseteq> set fs" "set pre' \<subseteq> set fs" using m1(9) m2(5) by (auto simp: fs)
  have nolarge: "\<not> ofs > u - 4" "\<not> len < 4" "\<not> ofs + len > u" using i(2,3) by linarith+
  have run: "free_cell_range (pb p buf) ofs len u =
      link_freed (pb p ?b) ?area (hfree ?off buf) ofs' (ofs' + ?sz) (opt_last None pre) (opt_hd post')"
  proof -
    have "hfree ?off buf \<noteq> 0" using path_zero[OF d(6)] False by simp
    moreover have "find_neighbours (pb p buf) ofs None (hfree ?off buf) = Inr (opt_last None pre, opt_hd post)"
      unfolding pre_def post_def using d(6,7) False layout_block(2,5)[OF l] by (intro find_neighbours_eq) auto
    moreover have "\<not> (case opt_hd post of Some n \<Rightarrow> n + 4 > u | None \<Rightarrow> False)"
      using layout_block(2,3)[OF l, of "fst (hd post)" "snd (hd post)"] by (cases post) (auto simp: opt_hd_def fs)
    ultimately show ?thesis
      using i d(11) m1(1) m2(1) notgt nolarge by (simp add: free_cell_range_def page_simps sz(2))
  qed
  have spb: "spaced ?off ?b pre" using layout_spaced[OF l] by (simp add: fs spaced_def sorted_wrt_append)
  have "\<exists>buf' fs'. link_freed (pb p ?b) ?area (hfree ?off buf) ofs' (ofs' + ?sz) (opt_last None pre) (opt_hd post') = Inr (pb p buf') \<and>
      freed ?off u rs ?b buf' fs'"
  proof (cases "ofs' = ?area")
    case True
    have in': "inside ?area u r" if "r \<in> set pre'" for r using geoD(2)[OF m2(4)] that by simp
    have "pre' = []"
    proof (rule ccontr)
      assume "pre' \<noteq> []"
      then show False using m2(6) in'[of "hd pre'"] True by (cases pre') (auto simp: inside_def)
    qed
    have "\<exists>buf'. link_freed (pb p ?b) (harea ?off ?b) (hfree ?off ?b) (harea ?off ?b) (harea ?off ?b + ?sz) (opt_last None pre)
        (opt_hd post') = Inr (pb p buf') \<and> freed ?off u rs ?b buf' post'"
    proof (rule link_freed_front)
      show "?off + 8 \<le> harea ?off ?b" "u \<le> length ?b" "u \<le> 65536" using hb d(2,3,10) by simp_all
      show "path ?b (hfree ?off ?b) pre c" "path ?b nx post' 0" using pth(1) m1(6) hb(2) sub pb' by simp_all
      show "pre = [] \<or> (\<exists>k. pre = [(harea ?off ?b, k)])" using m2(5) \<open>pre' = []\<close> True hb(4) by auto
      show "gaps ((harea ?off ?b, ?sz) # post')" using m1(5,8) sz(2) True hb(4) by auto
      show "geo u (harea ?off ?b) (hfrag ?off ?b) ((harea ?off ?b, ?sz) # rs @ post')"
        using m2(4) sz(1) True hb(4,5) \<open>pre' = []\<close> by simp
    qed
    then show ?thesis using True hb(2,4) by auto
  next
    case False
    have "?area < ofs'" using m2(4) False by (auto simp: geo_Cons inside_def)
    moreover have "gaps (pre' @ (ofs', ?sz) # post')"
      using m1(5,8) m2(5,6,8) sz(2) by auto
    ultimately have "\<exists>buf'. link_freed (pb p ?b) (harea ?off ?b) (hfree ?off buf) ofs' (ofs' + ?sz) (opt_last None pre)
        (opt_hd post') = Inr (pb p buf') \<and> freed ?off u rs ?b buf' (pre' @ (ofs', ?sz) # post')"
    proof (intro link_freed_middle[where c = c and nx = nx])
      show "?off + 8 \<le> harea ?off ?b" "u \<le> length ?b" "u \<le> 65536" using hb d(2,3,10) by simp_all
      show "path ?b (hfree ?off ?b) pre c" "path ?b nx post' 0" using pth(1) m1(6) hb(2) sub pb' by simp_all
      show "geo u (harea ?off ?b) (hfrag ?off ?b) ((ofs', ?sz) # rs @ pre' @ post')"
        using m2(4) sz(1) hb(4,5) by simp
    qed (use spb m2(5) hb(4) in simp_all)
    then show ?thesis using hb(4) by auto
  qed
  then obtain buf' fs' where f: "free_cell_range (pb p buf) ofs len u = Inr (pb p buf')" "freed ?off u rs ?b buf' fs'"
    using run by auto
  have k: "kept ?off ty [] buf ?b"
  proof (rule kept_mono)
    show "kept ?off ty ((ofs, len) # rs) buf ?b" by (rule kept_intro[OF l hb(1,6,3)]) (rule hb(7))
  qed simp
  have "hfrag ?off ?b = hfrag ?off buf'" "set rs \<subseteq> set ((ofs, len) # rs)" using f(2) by (auto simp: freed_def)
  note layout_freed[OF l k hb(4) this(1) f(2) hb(7) this(2)]
  then show ?thesis using f(1) by blast
qed

end
