(* ===== verification/Btree_Defrag.thy ===== *)
theory Btree_Defrag
  imports Btree_Layout
begin

text \<open>
  The cells of a page as byte strings, and the proof that both ways of defragmenting a page move the
  cells without changing them: the fast one, which closes at most two gaps by moving blocks of
  cells, and the full one, which packs the cells one by one to the end of the page.
\<close>

section \<open>Cells\<close>

text \<open>The length of a cell follows from its own bytes.\<close>

definition valid_cell :: "nat \<Rightarrow> page_type \<Rightarrow> bytes \<Rightarrow> bool" where
  "valid_cell u ty c \<longleftrightarrow>
     rbind (payload_overflow_threshold_max ty u) (\<lambda>max_local.
     rbind (payload_overflow_threshold_min ty u) (\<lambda>min_local.
       raw_region_len c 0 u max_local min_local ty)) = Inr (length c)"

lemma varint_at_extend:
  assumes "varint_at (region buf s l) i = Inr (v, n)" "s + l \<le> length buf"
  shows "varint_at buf (s + i) = Inr (v, n)"
proof -
  have i: "i \<le> l" "read_varint (drop i (region buf s l)) = Inr (v, n)"
    using assms by (auto simp: varint_at_def split: if_splits)
  have "drop (s + i) buf = drop i (region buf s l) @ drop (s + l) buf"
    using i(1) by (metis append_take_drop_id add.commute drop_append drop_drop region_def length_take min.absorb2
        length_drop assms(2) le_diff_conv2 add_leD1 add_diff_cancel_left' diff_is_0_eq drop0 length_region)
  moreover have "read_varint (drop i (region buf s l) @ drop (s + l) buf) = Inr (v, n)"
    using i(2) read_varint_loop_extend[of "drop i (region buf s l)" 0 0 v n] by (simp add: read_varint_def)
  ultimately show ?thesis using i(1) assms(2) by (simp add: varint_at_def)
qed

lemma raw_region_len_extend:
  assumes "raw_region_len (region buf s l) 0 u mx mn ty = Inr k" "s + l \<le> length buf"
  shows "raw_region_len buf s u mx mn ty = Inr k"
proof -
  have e: "\<And>i v n. varint_at (region buf s l) i = Inr (v, n) \<Longrightarrow> varint_at buf (s + i) = Inr (v, n)"
    using varint_at_extend[OF _ assms(2)] by blast
  show ?thesis
    using assms(1) e[of 0] e[of 4]
    by (cases ty) (auto simp: raw_region_len_def result_simps split: prod.splits if_splits dest!: e)
qed

definition ptrs :: "nat \<Rightarrow> page_type \<Rightarrow> bytes \<Rightarrow> nat list" where
  "ptrs off ty buf = map (\<lambda>i. g16 buf (off + hsize ty + 2 * i)) [0..<hcount off buf]"

definition cells :: "bytes \<Rightarrow> reg list \<Rightarrow> bytes list" where
  "cells buf cs = map (\<lambda>(s, l). region buf s l) cs"

text \<open>A page with the cells \<open>cs\<close> in the order of the pointer array and the free blocks \<open>fs\<close>.\<close>

definition page_rep :: "nat \<Rightarrow> nat \<Rightarrow> page_type \<Rightarrow> bytes \<Rightarrow> reg list \<Rightarrow> reg list \<Rightarrow> bool" where
  "page_rep off u ty buf cs fs \<longleftrightarrow>
     layout off u ty buf cs fs \<and> ptrs off ty buf = map fst cs \<and> (\<forall>c \<in> set (cells buf cs). valid_cell u ty c)"

lemma length_ptrs [simp]: "length (ptrs off ty buf) = hcount off buf"
  by (simp add: ptrs_def)

lemma page_repD:
  assumes "page_rep off u ty buf cs fs"
  shows "layout off u ty buf cs fs" "hcount off buf = length cs"
    "\<And>i. i < length cs \<Longrightarrow> g16 buf (off + hsize ty + 2 * i) = fst (cs ! i)"
    "\<And>c. c \<in> set (cells buf cs) \<Longrightarrow> valid_cell u ty c"
proof -
  show 1: "layout off u ty buf cs fs" using assms by (simp add: page_rep_def)
  have p: "ptrs off ty buf = map fst cs" using assms by (simp add: page_rep_def)
  show n: "hcount off buf = length cs" using arg_cong[OF p, of length] by simp
  show "g16 buf (off + hsize ty + 2 * i) = fst (cs ! i)" if "i < length cs" for i
    using arg_cong[OF p, of "\<lambda>xs. xs ! i"] that n by (simp add: ptrs_def)
  show "valid_cell u ty c" if "c \<in> set (cells buf cs)" for c
    using assms that by (simp add: page_rep_def)
qed

lemma page_repI:
  assumes "layout off u ty buf cs fs" "hcount off buf = length cs"
    "\<And>i. i < length cs \<Longrightarrow> g16 buf (off + hsize ty + 2 * i) = fst (cs ! i)"
    "\<And>c. c \<in> set (cells buf cs) \<Longrightarrow> valid_cell u ty c"
  shows "page_rep off u ty buf cs fs"
  using assms by (auto simp: page_rep_def ptrs_def intro!: nth_equalityI)

lemma nth_cells: "i < length cs \<Longrightarrow> cells buf cs ! i = region buf (fst (cs ! i)) (snd (cs ! i))"
  by (simp add: cells_def case_prod_beta)

lemma length_cells [simp]: "length (cells buf cs) = length cs"
  by (simp add: cells_def)

lemma cell_thresholds:
  assumes "480 \<le> u"
  obtains mx mn where "payload_overflow_threshold_max ty u = Inr mx" "payload_overflow_threshold_min ty u = Inr mn"
proof -
  have "23 \<le> (u - 12) * 32 div 255" "23 \<le> (u - 12) * 64 div 255"
    using assms div_le_mono[of "5865" "(u - 12) * 32" 255] div_le_mono[of "5865" "(u - 12) * 64" 255] by simp_all
  then show ?thesis
    using assms that
    by (cases ty) (simp_all add: payload_overflow_threshold_max_def payload_overflow_threshold_min_def usub_def)
qed

lemma cell_region:
  assumes r: "page_rep (page_offset p) u ty buf cs fs" and i: "i < length cs"
    and t: "payload_overflow_threshold_max ty u = Inr mx" "payload_overflow_threshold_min ty u = Inr mn"
  shows "cell_get_raw_region_faster (pb p buf) i u (length cs) mx mn ty = Inr (cs ! i)"
    "cell_get_raw_region (pb p buf) i u = Inr (cs ! i)"
proof -
  note d = page_repD[OF r] and l = layoutD[OF page_repD(1)[OF r]]
  obtain s k where sk: "cs ! i = (s, k)" by (cases "cs ! i")
  have b: "4 \<le> k" "s + k \<le> length buf" using layout_block(2,5)[OF d(1), of s k] nth_mem[OF i] sk by auto
  have "valid_cell u ty (region buf s k)"
    using d(4)[of "region buf s k"] nth_mem[of i "cells buf cs"] i nth_cells[OF i, of buf] sk by simp
  then have "raw_region_len (region buf s k) 0 u mx mn ty = Inr k" using t b(2) by (simp add: valid_cell_def)
  then have len: "raw_region_len buf s u mx mn ty = Inr k" by (rule raw_region_len_extend[OF _ b(2)])
  have "page_offset p + hsize ty + 2 * i + 2 \<le> length buf" using l(3,5,9) d(2) i by linarith
  then have st: "cell_get_raw_start_offset (pb p buf) i = Inr s"
    using d(3)[OF i] sk l(4,11)
    by (simp add: cell_get_raw_start_offset_def page_simps CELL_PTR_SIZE_BYTES_def mult.commute) (metis unat_g16)
  then show f: "cell_get_raw_region_faster (pb p buf) i u (length cs) mx mn ty = Inr (cs ! i)"
    using i len b(2) sk by (simp add: cell_get_raw_region_faster_def page_simps)
  show "cell_get_raw_region (pb p buf) i u = Inr (cs ! i)"
    using f t l(4,11) d(2) by (simp add: cell_get_raw_region_def page_simps)
qed

section \<open>Packing the cells to the end of the page\<close>

abbreviation ci_start :: "cell_info \<Rightarrow> nat" where "ci_start c \<equiv> unat (old_offset c)"
abbreviation ci_len :: "cell_info \<Rightarrow> nat" where "ci_len c \<equiv> unat (ci_size c)"

fun placed :: "nat \<Rightarrow> cell_info list \<Rightarrow> reg list" where
  "placed cbrk [] = []"
| "placed cbrk (c # cs) = (cbrk - ci_len c, ci_len c) # placed (cbrk - ci_len c) cs"

lemma geo_raise: "geo u area frag rs \<Longrightarrow> geo (u + k) area (frag + k) rs"
  by (auto simp: geo_def inside_def)

lemma placed_geo:
  assumes "sum_list (map ci_len cs) \<le> cbrk" "\<forall>c \<in> set cs. 4 \<le> ci_len c"
  shows "geo cbrk (cbrk - sum_list (map ci_len cs)) 0 (placed cbrk cs)"
  using assms
proof (induction cs arbitrary: cbrk)
  case Nil
  then show ?case by (simp add: geo_def apart_def)
next
  case (Cons c cs)
  let ?l = "ci_len c" and ?s = "sum_list (map ci_len cs)"
  have g: "geo (cbrk - ?l) (cbrk - ?l - ?s) 0 (placed (cbrk - ?l) cs)"
    using Cons.IH[of "cbrk - ?l"] Cons.prems by simp
  have "geo cbrk (cbrk - ?l - ?s) ?l (placed (cbrk - ?l) cs)"
    using geo_raise[OF g, of ?l] Cons.prems(1) by simp
  moreover have "clear_of (cbrk - ?l, ?l) r" if "r \<in> set (placed (cbrk - ?l) cs)" for r
    using geoD(2)[OF g that] by (simp add: inside_def clear_of_def)
  moreover have "cbrk - sum_list (map ci_len (c # cs)) = cbrk - ?l - ?s" by simp
  ultimately show ?case using Cons.prems by (simp add: geo_Cons inside_def)
qed

definition descending :: "cell_info list \<Rightarrow> bool" where
  "descending cs \<longleftrightarrow> sorted_wrt (\<lambda>a b. ci_start b + ci_len b \<le> ci_start a) cs"

text \<open>What moving the cells does to the page: every cell of the list is copied to its new place and
  its pointer is set; everything else below the moved cells stays.\<close>

lemma move_cells_spec:
  assumes "descending cs" "\<forall>c \<in> set cs. first \<le> ci_start c \<and> ci_start c + ci_len c \<le> cbrk \<and> 4 \<le> ci_len c"
    "cbrk \<le> u" "u \<le> 65536" "u \<le> length buf" "distinct (map pointer_index cs)"
    "\<forall>c \<in> set cs. array + 2 * pointer_index c + 2 \<le> first" "first \<le> cbrk"
  shows "\<exists>b. move_cells (pb p buf) u array first cbrk cs = Inr (pb p b, cbrk - sum_list (map ci_len cs)) \<and>
    length b = length buf \<and> first \<le> cbrk - sum_list (map ci_len cs) \<and> sum_list (map ci_len cs) \<le> cbrk \<and>
    map (\<lambda>c. (g16 b (array + 2 * pointer_index c), ci_len c)) cs = placed cbrk cs \<and>
    (\<forall>c \<in> set cs. region b (g16 b (array + 2 * pointer_index c)) (ci_len c) = region buf (ci_start c) (ci_len c)) \<and>
    (\<forall>x y. (x + y \<le> first \<or> cbrk \<le> x) \<longrightarrow>
       (\<forall>c \<in> set cs. x + y \<le> array + 2 * pointer_index c \<or> array + 2 * pointer_index c + 2 \<le> x) \<longrightarrow>
       region b x y = region buf x y)"
  using assms
proof (induction cs arbitrary: cbrk buf)
  case Nil
  then show ?case by (intro exI[of _ buf]) simp
next
  case (Cons c cs)
  let ?l = "ci_len c" and ?s = "ci_start c" and ?i = "pointer_index c"
  let ?new = "cbrk - ?l"
  have c: "first \<le> ?s" "?s + ?l \<le> cbrk" "4 \<le> ?l" "array + 2 * ?i + 2 \<le> first" using Cons.prems(2,7) by auto
  then have n: "?s \<le> ?new" "?new + ?l = cbrk" "?new < 65536" "?new + ?l \<le> length buf" "first \<le> ?new"
    using Cons.prems(3-5) by linarith+
  let ?m = "if ?new \<noteq> ?s then patch buf ?new (region buf ?s ?l) else buf"
  let ?b1 = "p16 ?m (array + 2 * ?i) ?new"
  have len: "length (region buf ?s ?l) = ?l" using c(2) Cons.prems(3,5) by simp
  have lm: "length ?m = length buf" using n len by simp
  have slot: "array + 2 * ?i + 2 \<le> length buf" using c n by linarith
  have mreg: "region ?m x y = region buf x y" if "x + y \<le> ?new \<or> cbrk \<le> x" for x y
    using that n len by (auto simp: region_patch_other)
  have mnew: "region ?m ?new ?l = region buf ?s ?l"
    using region_patch_same[of ?new "region buf ?s ?l" buf] n len by auto
  have breg: "region ?b1 x y = region buf x y"
    if "x + y \<le> ?new \<or> cbrk \<le> x" "x + y \<le> array + 2 * ?i \<or> array + 2 * ?i + 2 \<le> x" for x y
    using that mreg[OF that(1)] slot lm by (simp add: region_p16)
  have step: "move_cells (pb p buf) u array first cbrk (c # cs) = move_cells (pb p ?b1) u array first ?new cs"
  proof -
    have cp: "(if ?new \<noteq> ?s then page_copy_within (pb p buf) ?s ?l ?new else Inr (pb p buf)) = Inr (pb p ?m)"
      using n c(2) Cons.prems(3,5) by (simp add: page_simps)
    have "write_u16_no_offset (pb p ?m) (array + ?i * 2) (word_of_nat ?new) = Inr (pb p ?b1)"
      using slot lm n(3) by (simp add: page_access16 unat_u16 mult.commute del: of_nat_diff)
    moreover have "\<not> \<not> (first \<le> ?new \<and> ?s + ?l \<le> u)" using n(5) c(2) Cons.prems(3) by simp
    ultimately show ?thesis using n(2,3) cp by (simp add: usub_def Let_def del: of_nat_diff)
  qed
  have sub: "descending cs" "\<forall>d \<in> set cs. ci_start d + ci_len d \<le> ?s" using Cons.prems(1) by (auto simp: descending_def)
  have pre: "\<forall>d \<in> set cs. first \<le> ci_start d \<and> ci_start d + ci_len d \<le> ?new \<and> 4 \<le> ci_len d"
    using Cons.prems(2) sub(2) n(1) by (meson list.set_intros(2) order_trans)
  have slots: "\<forall>d \<in> set cs. array + 2 * pointer_index d + 2 \<le> first" "distinct (map pointer_index cs)" "?i \<notin> pointer_index ` set cs"
    using Cons.prems(6,7) by auto
  have b1: "?new \<le> u" "u \<le> length ?b1" using Cons.prems(3,5) slot lm by simp_all
  obtain b where all: "move_cells (pb p ?b1) u array first ?new cs = Inr (pb p b, ?new - sum_list (map ci_len cs)) \<and>
    length b = length ?b1 \<and> first \<le> ?new - sum_list (map ci_len cs) \<and> sum_list (map ci_len cs) \<le> ?new \<and>
    map (\<lambda>c. (g16 b (array + 2 * pointer_index c), ci_len c)) cs = placed ?new cs \<and>
    (\<forall>c \<in> set cs. region b (g16 b (array + 2 * pointer_index c)) (ci_len c) = region ?b1 (ci_start c) (ci_len c)) \<and>
    (\<forall>x y. (x + y \<le> first \<or> ?new \<le> x) \<longrightarrow>
       (\<forall>c \<in> set cs. x + y \<le> array + 2 * pointer_index c \<or> array + 2 * pointer_index c + 2 \<le> x) \<longrightarrow>
       region b x y = region ?b1 x y)"
    using Cons.IH[OF sub(1) pre b1(1) Cons.prems(4) b1(2) slots(2,1) n(5)] by (elim exE)
  note b = all[THEN conjunct1] all[THEN conjunct2, THEN conjunct1] all[THEN conjunct2, THEN conjunct2, THEN conjunct1]
    all[THEN conjunct2, THEN conjunct2, THEN conjunct2, THEN conjunct1]
    all[THEN conjunct2, THEN conjunct2, THEN conjunct2, THEN conjunct2, THEN conjunct1]
    all[THEN conjunct2, THEN conjunct2, THEN conjunct2, THEN conjunct2, THEN conjunct2, THEN conjunct1]
  have frame: "region b x y = region ?b1 x y"
    if "x + y \<le> first \<or> ?new \<le> x" "\<forall>d \<in> set cs. x + y \<le> array + 2 * pointer_index d \<or> array + 2 * pointer_index d + 2 \<le> x"
    for x y
    using all that by blast
  have other: "array + 2 * ?i + 2 \<le> array + 2 * pointer_index d \<or> array + 2 * pointer_index d + 2 \<le> array + 2 * ?i"
    if "d \<in> set cs" for d
  proof -
    have "?i \<noteq> pointer_index d" using slots(3) that by auto
    then show ?thesis by linarith
  qed
  have ptr: "g16 b (array + 2 * ?i) = ?new"
  proof -
    have "region b (array + 2 * ?i) 2 = region ?b1 (array + 2 * ?i) 2" using c(4) other by (intro frame) auto
    then have "g16 b (array + 2 * ?i) = g16 ?b1 (array + 2 * ?i)" by (simp only: g16_def)
    then show ?thesis using g16_p16_same[of "array + 2 * ?i" ?m ?new] slot lm n(3) by (simp only: mod_less)
  qed
  have new: "region b ?new ?l = region buf ?s ?l"
  proof -
    have "region b ?new ?l = region ?b1 ?new ?l"
      using slots(1) n(5) by (intro frame) force+
    also have "\<dots> = region ?m ?new ?l" using slot lm c(4) n(5) by (simp add: region_p16)
    finally show ?thesis using mnew by simp
  qed
  have rest: "region b (g16 b (array + 2 * pointer_index d)) (ci_len d) = region buf (ci_start d) (ci_len d)"
    if "d \<in> set cs" for d
    using b(6) that breg[of "ci_start d" "ci_len d"] pre c(4) by auto
  have fr: "region b x y = region buf x y"
    if "x + y \<le> first \<or> cbrk \<le> x"
      "\<forall>d \<in> set (c # cs). x + y \<le> array + 2 * pointer_index d \<or> array + 2 * pointer_index d + 2 \<le> x" for x y
  proof -
    have "region b x y = region ?b1 x y" using that n(5) by (intro frame) auto
    also have "\<dots> = region buf x y" using that n(5) by (intro breg) auto
    finally show ?thesis .
  qed
  have sum: "cbrk - sum_list (map ci_len (c # cs)) = ?new - sum_list (map ci_len cs)" by simp
  show ?case
    unfolding sum step using b lm slot ptr new rest fr n(2) by (intro exI[of _ b]) auto
qed


definition info_of :: "reg list \<Rightarrow> nat \<Rightarrow> cell_info" where
  "info_of cs i = \<lparr>old_offset = word_of_nat (fst (cs ! i)), ci_size = word_of_nat (snd (cs ! i)), pointer_index = i\<rparr>"

fun falling :: "u16 \<Rightarrow> cell_info list \<Rightarrow> bool" where
  "falling m [] \<longleftrightarrow> True"
| "falling m (c # cs) \<longleftrightarrow> old_offset c \<le> m \<and> falling (old_offset c) cs"

lemma falling_sorted: "falling m cs \<Longrightarrow> sorted_wrt (\<lambda>a b. old_offset b \<le> old_offset a) cs \<and> (\<forall>c \<in> set cs. old_offset c \<le> m)"
  by (induction m cs rule: falling.induct) (auto intro: order_trans)

lemma gather_cells_eq:
  assumes r: "page_rep (page_offset p) u ty buf cs fs" and n: "i + n = length cs"
    and t: "payload_overflow_threshold_max ty u = Inr mx" "payload_overflow_threshold_min ty u = Inr mn"
  shows "gather_cells (pb p buf) u (page_offset p + hsize ty) mx mn ty (length cs) i n ord m =
    Inr (map (info_of cs) [i..<length cs], ord \<and> falling m (map (info_of cs) [i..<length cs]))"
  using n
proof (induction n arbitrary: i ord m)
  case (Suc n)
  let ?a = "page_offset p + hsize ty"
  note l = layoutD[OF page_repD(1)[OF r]]
  have i: "i < length cs" using Suc.prems by simp
  have "?a + 2 * i + 2 \<le> length buf" using l(3,5,9) page_repD(2)[OF r] i by linarith
  then have pc: "read_u16_no_offset (pb p buf) (?a + i * 2) = Inr (word_of_nat (fst (cs ! i)))"
    using page_repD(3)[OF r i] by (simp add: page_access16 mult.commute)
  have u: "map (info_of cs) [i..<length cs] = info_of cs i # map (info_of cs) [Suc i..<length cs]"
    using i by (simp add: upt_conv_Cons)
  have IH: "gather_cells (pb p buf) u ?a mx mn ty (length cs) (Suc i) n ord' m' =
      Inr (map (info_of cs) [Suc i..<length cs], ord' \<and> falling m' (map (info_of cs) [Suc i..<length cs]))" for ord' m'
    using Suc.IH[of "Suc i"] Suc.prems by simp
  show ?case
    unfolding gather_cells.simps pc cell_region(1)[OF r i t] u
    by (cases "cs ! i") (auto simp: IH info_of_def not_less)
qed simp

lemma sum_perm: "mset xs = mset ys \<Longrightarrow> sum_list (map f xs) = (sum_list (map f ys) :: nat)"
  by (metis mset_map sum_mset_sum_list)

text \<open>Cells sorted by falling offsets are packed without overlap.\<close>

lemma sorted_descending:
  assumes l: "layout off u ty buf cs fs" and m: "mset is = mset (map (info_of cs) [0..<length cs])"
    and s: "sorted_wrt (\<lambda>a b. old_offset b \<le> old_offset a) is"
  shows "descending is" "\<And>c. c \<in> set is \<Longrightarrow> pointer_index c < length cs \<and> cs ! pointer_index c = (ci_start c, ci_len c)"
    "distinct (map pointer_index is)" "mset (map pointer_index is) = mset [0..<length cs]"
proof -
  have c: "pointer_index c < length cs \<and> cs ! pointer_index c = (ci_start c, ci_len c) \<and> c = info_of cs (pointer_index c)"
    if mem: "c \<in> set is" for c
  proof -
    obtain i where i: "i < length cs" "c = info_of cs i" using mset_eq_setD[OF m] mem by auto
    have "fst (cs ! i) < 65536" "snd (cs ! i) < 65536"
      using layout_block(6,7)[OF l, of "fst (cs ! i)" "snd (cs ! i)"] nth_mem[OF i(1)] by simp_all
    then show ?thesis using i by (simp add: info_of_def unat_u16)
  qed
  then show "\<And>c. c \<in> set is \<Longrightarrow> pointer_index c < length cs \<and> cs ! pointer_index c = (ci_start c, ci_len c)" by blast
  have "mset (map pointer_index is) = mset (map pointer_index (map (info_of cs) [0..<length cs]))"
    by (simp only: mset_map m)
  also have "map pointer_index (map (info_of cs) [0..<length cs]) = [0..<length cs]"
    by (simp add: map_idI info_of_def)
  finally show i: "mset (map pointer_index is) = mset [0..<length cs]" .
  then show d: "distinct (map pointer_index is)" by (metis distinct_upt mset_eq_imp_distinct_iff)
  show "descending is"
    unfolding descending_def sorted_wrt_iff_nth_less
  proof (intro allI impI)
    fix i j assume ij: "i < j" "j < length is"
    let ?a = "is ! i" and ?b = "is ! j"
    have mem: "?a \<in> set is" "?b \<in> set is" using ij by auto
    have "old_offset ?b \<le> old_offset ?a" using s ij by (simp add: sorted_wrt_iff_nth_less)
    then have le: "ci_start ?b \<le> ci_start ?a" by (simp add: word_le_nat_alt)
    have "pointer_index ?a \<noteq> pointer_index ?b" using d ij by (auto simp: distinct_conv_nth)
    then have "(ci_start ?a, ci_len ?a) \<noteq> (ci_start ?b, ci_len ?b)"
    proof -
      have "distinct cs" using geoD(3)[OF layoutD(8)[OF l]] by (simp add: apart_def)
      then show ?thesis
        using c[OF mem(1)] c[OF mem(2)] \<open>pointer_index ?a \<noteq> pointer_index ?b\<close>
          nth_eq_iff_index_eq[of cs "pointer_index ?a" "pointer_index ?b"] by metis
    qed
    then have "clear_of (ci_start ?a, ci_len ?a) (ci_start ?b, ci_len ?b)"
      using geo_clear[OF layoutD(8)[OF l]] c[OF mem(1)] c[OF mem(2)] nth_mem[of _ cs] by (metis Un_iff set_append)
    moreover have "4 \<le> ci_len ?a" "4 \<le> ci_len ?b"
      using layout_block(2)[OF l] c[OF mem(1)] c[OF mem(2)] nth_mem[of _ cs] by (metis Un_iff set_append)+
    ultimately show "ci_start ?b + ci_len ?b \<le> ci_start ?a" using le by (auto simp: clear_of_def)
  qed
qed


lemma header_same:
  assumes "region b off 8 = region buf off 8" "off + 8 \<le> length buf" "length b = length buf"
  shows "hfree off b = hfree off buf" "hcount off b = hcount off buf" "harea off b = harea off buf" "hfrag off b = hfrag off buf"
    "b ! off = buf ! off"
proof -
  have n: "b ! (off + i) = buf ! (off + i)" if "i < 8" for i
    using arg_cong[OF assms(1), of "\<lambda>r. r ! i"] that assms(2,3) by (simp add: nth_region)
  show "b ! off = buf ! off" using n[of 0] by simp
  show "hfrag off b = hfrag off buf" using n[of 7] by (simp add: hfrag_def)
  show "hfree off b = hfree off buf" "hcount off b = hcount off buf" "harea off b = harea off buf"
    using g16_cong[OF assms(1), of "off + 1"] g16_cong[OF assms(1), of "off + 3"] g16_cong[OF assms(1), of "off + 5"]
    by (simp_all add: hfree_def hcount_def harea_def)
qed

lemma set_eq_nth_upt: "mset (map f is) = mset [0..<n] \<Longrightarrow> i < n \<Longrightarrow> \<exists>c \<in> set is. f c = i"
  using mset_eq_setD[of "map f is" "[0..<n]"] by (metis (no_types, lifting) atLeastLessThan_iff image_iff le0 list.set_map set_upt)

text \<open>The page after the cells were moved and the header was reset.\<close>

lemma packed_page:
  assumes r: "page_rep off u ty buf cs fs" and m: "mset is = mset (map (info_of cs) [0..<length cs])"
    and s: "sorted_wrt (\<lambda>a b. old_offset b \<le> old_offset a) is" and ne: "cs \<noteq> []"
  defines "array \<equiv> off + hsize ty"
  defines "first \<equiv> array + 2 * length cs"
  assumes b: "length b = length buf" "first \<le> u - sum_list (map ci_len is)"
    "map (\<lambda>c. (g16 b (array + 2 * pointer_index c), ci_len c)) is = placed u is"
    "\<forall>c \<in> set is. region b (g16 b (array + 2 * pointer_index c)) (ci_len c) = region buf (ci_start c) (ci_len c)"
    "region b off 8 = region buf off 8"
  defines "b' \<equiv> (p16 (p16 b (off + 5) (u - sum_list (map ci_len is))) (Suc off) 0)[off + 7 := 0]"
  shows "\<exists>cs'. page_rep off u ty b' cs' [] \<and> cells b' cs' = cells buf cs \<and> hfrag off b' = 0"
proof -
  note l = page_repD(1)[OF r] and d = layoutD[OF page_repD(1)[OF r]]
  note sd = sorted_descending[OF l m s]
  let ?n = "length cs" and ?S = "sum_list (map ci_len is)"
  let ?f = "\<lambda>i. (g16 b (array + 2 * i), snd (cs ! i))"
  define cs' where "cs' = map ?f [0..<?n]"
  have f: "?f (pointer_index c) = (g16 b (array + 2 * pointer_index c), ci_len c)" if "c \<in> set is" for c
    using sd(2)[OF that] by simp
  have "mset cs' = mset (map ?f (map pointer_index is))"
    using arg_cong[OF sd(4), of "image_mset ?f"] by (simp only: cs'_def mset_map)
  also have "map ?f (map pointer_index is) = placed u is" using f by (simp add: b(3)[symmetric])
  finally have mp: "mset cs' = mset (placed u is)" .
  have S: "?S = sum_list (map snd cs)"
  proof -
    have "sum_list (map ci_len is) = sum_list (map (\<lambda>i. snd (cs ! i)) (map pointer_index is))"
      using sd(2) by (intro arg_cong[of _ _ sum_list]) simp
    also have "\<dots> = sum_list (map (\<lambda>i. snd (cs ! i)) [0..<?n])" by (rule sum_perm[OF sd(4)])
    also have "map (\<lambda>i. snd (cs ! i)) [0..<?n] = map snd cs" by (rule nth_equalityI) simp_all
    finally show ?thesis .
  qed
  have sum: "?S \<le> u" using geoD(4)[OF d(8)] S by simp
  have len: "\<forall>c \<in> set is. 4 \<le> ci_len c" using sd(2) layout_block(2)[OF l] nth_mem[of _ cs] by (metis Un_iff set_append)
  have area: "0 < u - ?S" "u - ?S \<le> 65536" "off + 8 \<le> u - ?S" "off + 8 \<le> length b"
    using b(1,2) d(2,3,11) hsize_ge[of ty] by (auto simp: first_def array_def)
  note hb = header_same[OF b(5) d(11) b(1)]
  have h: "hfree off b' = 0" "hcount off b' = ?n" "harea off b' = u - ?S" "hfrag off b' = 0" "b' ! off = buf ! off" "length b' = length buf"
    "\<And>s k. off + 8 \<le> s \<Longrightarrow> region b' s k = region b s k"
    using area hb page_repD(2)[OF r] b(1) by (simp_all add: b'_def hdr)
  have g: "geo u (u - ?S) 0 (cs' @ [])"
    using placed_geo[OF sum len] geo_mset[OF mp] by simp
  have ln: "length cs' = ?n" by (simp add: cs'_def)
  have lay: "layout off u ty b' cs' []"
    using d h g b(2) by (simp add: layout_def htype_def first_def array_def)
  have cell: "region b' (fst (cs' ! i)) (snd (cs' ! i)) = region buf (fst (cs ! i)) (snd (cs ! i))" if i: "i < ?n" for i
  proof -
    obtain c where c: "c \<in> set is" "pointer_index c = i" using set_eq_nth_upt[OF sd(4) i] by blast
    have e: "cs' ! i = (g16 b (array + 2 * i), ci_len c)" "cs ! i = (ci_start c, ci_len c)"
      using f[OF c(1)] sd(2)[OF c(1)] c(2) i by (simp_all add: cs'_def)
    have "off + 8 \<le> g16 b (array + 2 * i)"
      using layout_block(4)[OF lay, of "fst (cs' ! i)" "snd (cs' ! i)"] nth_mem[of i cs'] i ln e by simp
    then show ?thesis using b(4) c e h(7) by auto
  qed
  have cl: "cells b' cs' = cells buf cs"
    using cell ln by (intro nth_equalityI) (simp_all add: nth_cells)
  have "page_rep off u ty b' cs' []"
  proof (rule page_repI[OF lay])
    show "hcount off b' = length cs'" using h(2) ln by simp
    fix i assume i: "i < length cs'"
    have "off + 8 \<le> array + 2 * i" using hsize_ge[of ty] by (simp add: array_def)
    then show "g16 b' (off + hsize ty + 2 * i) = fst (cs' ! i)"
      using h(7) i ln by (simp add: g16_def cs'_def array_def)
  qed (use cl page_repD(4)[OF r] in simp)
  then show ?thesis using cl h(4) by blast
qed

lemma process_cells_spec:
  assumes r: "page_rep (page_offset p) u ty buf cs fs" and ne: "cs \<noteq> []"
    and flag: "flag \<Longrightarrow> sorted_wrt (\<lambda>a b. old_offset b \<le> old_offset a) (map (info_of cs) [0..<length cs])"
  shows "\<exists>buf' cs'. process_cells (pb p buf) u (map (info_of cs) [0..<length cs]) flag = Inr (pb p buf') \<and>
    page_rep (page_offset p) u ty buf' cs' [] \<and> cells buf' cs' = cells buf cs \<and> hfrag (page_offset p) buf' = 0"
proof -
  let ?off = "page_offset p" and ?infos = "map (info_of cs) [0..<length cs]" and ?key = "\<lambda>c. - int (unat (old_offset c))"
  note l = page_repD(1)[OF r] and d = layoutD[OF page_repD(1)[OF r]] and n = page_repD(2)[OF r]
  define ics where "ics = (if flag then ?infos else sort_key ?key ?infos)"
  have m: "mset ics = mset ?infos" by (cases flag) (simp_all only: ics_def mset_sort if_True if_False)
  have "sorted_wrt (\<lambda>a b. ?key a \<le> ?key b) (sort_key ?key ?infos)"
    using sorted_sort_key[of ?key ?infos] by (simp add: sorted_map)
  then have s: "sorted_wrt (\<lambda>a b. old_offset b \<le> old_offset a) ics"
    using flag by (auto simp: ics_def word_le_def)
  note sd = sorted_descending[OF l m s]
  let ?a = "?off + hsize ty"
  let ?first = "?a + 2 * length cs"
  have c: "\<forall>c \<in> set ics. ?first \<le> ci_start c \<and> ci_start c + ci_len c \<le> u \<and> 4 \<le> ci_len c"
  proof
    fix c assume "c \<in> set ics"
    then have "(ci_start c, ci_len c) \<in> set (cs @ fs)" using sd(2) nth_mem[of _ cs] by (metis Un_iff set_append)
    then show "?first \<le> ci_start c \<and> ci_start c + ci_len c \<le> u \<and> 4 \<le> ci_len c"
      using layout_block(1-3)[OF l] d(5) n by fastforce
  qed
  have i: "\<forall>c \<in> set ics. ?a + 2 * pointer_index c + 2 \<le> ?first" using sd(2) by fastforce
  have fu: "?first \<le> u" using d(5,9) n by linarith
  obtain b where b: "move_cells (pb p buf) u ?a ?first u ics = Inr (pb p b, u - sum_list (map ci_len ics))"
      "length b = length buf" "?first \<le> u - sum_list (map ci_len ics)"
      "map (\<lambda>c. (g16 b (?a + 2 * pointer_index c), ci_len c)) ics = placed u ics"
      "\<forall>c \<in> set ics. region b (g16 b (?a + 2 * pointer_index c)) (ci_len c) = region buf (ci_start c) (ci_len c)"
      "\<And>x y. x + y \<le> ?first \<or> u \<le> x \<Longrightarrow>
       \<forall>c \<in> set ics. x + y \<le> ?a + 2 * pointer_index c \<or> ?a + 2 * pointer_index c + 2 \<le> x \<Longrightarrow> region b x y = region buf x y"
    using move_cells_spec[OF sd(1) c order_refl d(2,3) sd(3) i fu, of p] by blast
  have h: "region b ?off 8 = region buf ?off 8" using b(6)[of ?off 8] hsize_ge[of ty] by auto
  obtain cs' where "page_rep ?off u ty ((p16 (p16 b (?off + 5) (u - sum_list (map ci_len ics))) (Suc ?off) 0)[?off + 7 := 0]) cs' []"
      "cells ((p16 (p16 b (?off + 5) (u - sum_list (map ci_len ics))) (Suc ?off) 0)[?off + 7 := 0]) cs' = cells buf cs"
      "hfrag ?off ((p16 (p16 b (?off + 5) (u - sum_list (map ci_len ics))) (Suc ?off) 0)[?off + 7 := 0]) = 0"
    using packed_page[OF r m s ne b(2-5) h] by blast
  moreover have "process_cells (pb p buf) u ?infos flag =
      Inr (pb p ((p16 (p16 b (?off + 5) (u - sum_list (map ci_len ics))) (Suc ?off) 0)[?off + 7 := 0]))"
    unfolding process_cells_def ics_def[symmetric] Let_def
    using b(1,2) d(4,11) n by (simp add: page_simps)
  ultimately show ?thesis by blast
qed

lemma defragment_slow_spec:
  assumes r: "page_rep (page_offset p) u ty buf cs fs" and ne: "cs \<noteq> []"
  shows "\<exists>buf' cs'. defragment_slow (pb p buf) u (length cs) = Inr (pb p buf') \<and>
    page_rep (page_offset p) u ty buf' cs' [] \<and> cells buf' cs' = cells buf cs \<and> hfrag (page_offset p) buf' = 0"
proof -
  note d = layoutD[OF page_repD(1)[OF r]]
  let ?infos = "map (info_of cs) [0..<length cs]"
  obtain mx mn where t: "payload_overflow_threshold_max ty u = Inr mx" "payload_overflow_threshold_min ty u = Inr mn"
    using cell_thresholds[OF d(1)] by blast
  have g: "gather_cells (pb p buf) u (page_offset p + hsize ty) mx mn ty (length cs) 0 (length cs) True 0xffff =
      Inr (?infos, falling 0xffff ?infos)"
    using gather_cells_eq[OF r _ t, of 0 "length cs" True "0xffff"] by simp
  have "defragment_slow (pb p buf) u (length cs) = process_cells (pb p buf) u ?infos (falling 0xffff ?infos)"
    using d(4,11) t by (simp add: defragment_slow_def page_simps g del: map_upt_eqI)
  then show ?thesis
    using process_cells_spec[OF r ne, of "falling 0xffff ?infos"] falling_sorted[of "0xffff" ?infos] by metis
qed

section \<open>Closing one or two gaps\<close>

definition shifted :: "nat \<Rightarrow> nat \<Rightarrow> nat \<Rightarrow> nat \<Rightarrow> nat \<Rightarrow> nat" where
  "shifted f1 s1 f2 s2 s = (if s < f1 then s + (s1 + s2) else if 0 < f2 \<and> s < f2 then s + s2 else s)"

definition copied :: "nat \<Rightarrow> nat \<Rightarrow> nat \<Rightarrow> nat \<Rightarrow> nat \<Rightarrow> bytes \<Rightarrow> bytes" where
  "copied area f1 s1 f2 s2 buf =
     (let b = if 0 < f2 then patch buf (f1 + (s1 + s2)) (region buf (f1 + s1) (f2 - (f1 + s1))) else buf in
      patch b (area + (s1 + s2)) (region b area (f1 - area)))"

lemma shift_pointers_loop_spec:
  assumes "\<And>j. i \<le> j \<Longrightarrow> j < i + n \<Longrightarrow> shifted f1 s1 f2 s2 (g16 buf (array + 2 * j)) < 65536 \<and>
      shifted f1 s1 f2 s2 (g16 buf (array + 2 * j)) \<le> u"
    "array + 2 * (i + n) \<le> length buf"
  shows "\<exists>b. shift_pointers_loop (pb p buf) u array f1 f2 (s1 + s2) s2 i n = Inr (pb p b) \<and> length b = length buf \<and>
    (\<forall>j. i \<le> j \<and> j < i + n \<longrightarrow> g16 b (array + 2 * j) = shifted f1 s1 f2 s2 (g16 buf (array + 2 * j))) \<and>
    (\<forall>x y. x + y \<le> array + 2 * i \<or> array + 2 * (i + n) \<le> x \<longrightarrow> region b x y = region buf x y)"
  using assms
proof (induction n arbitrary: i buf)
  case 0
  then show ?case by (intro exI[of _ buf]) simp
next
  case (Suc n)
  let ?at = "array + 2 * i" and ?v = "shifted f1 s1 f2 s2 (g16 buf (array + 2 * i))"
  define b where "b = (if g16 buf ?at < f1 \<or> 0 < f2 \<and> g16 buf ?at < f2 then p16 buf ?at ?v else buf)"
  have v: "?v < 65536" "?v \<le> u" using Suc.prems(1)[of i] by simp_all
  have at: "?at + 2 \<le> length buf" using Suc.prems(2) by simp
  have "g16 buf ?at < f1 \<or> 0 < f2 \<and> g16 buf ?at < f2 \<or> ?v = g16 buf ?at" by (auto simp: shifted_def)
  then have b: "length b = length buf" "g16 b ?at = ?v"
    "\<And>x y. x + y \<le> ?at \<or> ?at + 2 \<le> x \<Longrightarrow> region b x y = region buf x y"
    using at v by (auto simp: b_def region_p16)
  then have other: "g16 b (array + 2 * j) = g16 buf (array + 2 * j)" if "i < j" for j
    using that by (simp add: g16_def)
  have step: "shift_pointers_loop (pb p buf) u array f1 f2 (s1 + s2) s2 i (Suc n) =
      shift_pointers_loop (pb p b) u array f1 f2 (s1 + s2) s2 (Suc i) n"
  proof -
    have r: "read_u16_no_offset (pb p buf) (array + i * CELL_PTR_SIZE_BYTES) = Inr (word_of_nat (g16 buf ?at))"
      "\<And>v. write_u16_no_offset (pb p buf) (array + i * CELL_PTR_SIZE_BYTES) v = Inr (pb p (p16 buf ?at (unat v)))"
      using at by (simp_all add: page_access16 CELL_PTR_SIZE_BYTES_def mult.commute)
    consider "g16 buf ?at < f1" | "\<not> g16 buf ?at < f1" "0 < f2 \<and> g16 buf ?at < f2" |
      "\<not> g16 buf ?at < f1" "\<not> (0 < f2 \<and> g16 buf ?at < f2)" by blast
    then show ?thesis
    proof cases
      case 1
      then show ?thesis using v r by (simp add: b_def shifted_def unat_u16 del: of_nat_add)
    next
      case 2
      then show ?thesis using v r by (simp add: b_def shifted_def unat_u16 del: of_nat_add)
    next
      case 3
      then show ?thesis using v r by (auto simp: b_def)
    qed
  qed
  have "\<exists>b'. shift_pointers_loop (pb p b) u array f1 f2 (s1 + s2) s2 (Suc i) n = Inr (pb p b') \<and> length b' = length b \<and>
    (\<forall>j. Suc i \<le> j \<and> j < Suc i + n \<longrightarrow> g16 b' (array + 2 * j) = shifted f1 s1 f2 s2 (g16 b (array + 2 * j))) \<and>
    (\<forall>x y. x + y \<le> array + 2 * Suc i \<or> array + 2 * (Suc i + n) \<le> x \<longrightarrow> region b' x y = region b x y)"
  proof (rule Suc.IH)
    show "shifted f1 s1 f2 s2 (g16 b (array + 2 * j)) < 65536 \<and> shifted f1 s1 f2 s2 (g16 b (array + 2 * j)) \<le> u"
      if "Suc i \<le> j" "j < Suc i + n" for j
      using Suc.prems(1)[of j] other[of j] that by simp
    show "array + 2 * (Suc i + n) \<le> length b" using Suc.prems(2) b(1) by simp
  qed
  then obtain b' where b': "shift_pointers_loop (pb p b) u array f1 f2 (s1 + s2) s2 (Suc i) n = Inr (pb p b')" "length b' = length b"
      "\<And>j. Suc i \<le> j \<and> j < Suc i + n \<Longrightarrow> g16 b' (array + 2 * j) = shifted f1 s1 f2 s2 (g16 b (array + 2 * j))"
      "\<And>x y. x + y \<le> array + 2 * Suc i \<or> array + 2 * (Suc i + n) \<le> x \<Longrightarrow> region b' x y = region b x y"
    by blast
  have "g16 b' (array + 2 * j) = shifted f1 s1 f2 s2 (g16 buf (array + 2 * j))" if "i \<le> j" "j < i + Suc n" for j
  proof (cases "j = i")
    case True
    then show ?thesis using b'(4)[of ?at 2] b(2) by (simp add: g16_def)
  next
    case False
    then show ?thesis using b'(3)[of j] other[of j] that by simp
  qed
  moreover have "region b' x y = region buf x y" if "x + y \<le> array + 2 * i \<or> array + 2 * (i + Suc n) \<le> x" for x y
    using b'(4)[of x y] b(3)[of x y] that by auto
  ultimately show ?case using step b'(1,2) b(1) by (intro exI[of _ b']) simp
qed

lemma copied_region:
  assumes a: "area \<le> f1" "f1 + s1 \<le> u" "0 < f2 \<Longrightarrow> f1 + s1 \<le> f2 \<and> f2 + s2 \<le> u" "f2 = 0 \<Longrightarrow> s2 = 0" "u \<le> length buf"
  shows "length (copied area f1 s1 f2 s2 buf) = length buf"
    "\<And>x y. x + y \<le> area \<Longrightarrow> region (copied area f1 s1 f2 s2 buf) x y = region buf x y"
    "\<And>s l. area \<le> s \<Longrightarrow> s + l \<le> u \<Longrightarrow> s + l \<le> f1 \<or> f1 + s1 \<le> s \<Longrightarrow> f2 = 0 \<or> s + l \<le> f2 \<or> f2 + s2 \<le> s \<Longrightarrow> 0 < l \<Longrightarrow>
       region (copied area f1 s1 f2 s2 buf) (shifted f1 s1 f2 s2 s) l = region buf s l"
proof -
  define b where "b = (if 0 < f2 then patch buf (f1 + (s1 + s2)) (region buf (f1 + s1) (f2 - (f1 + s1))) else buf)"
  have r: "0 < f2 \<Longrightarrow> length (region buf (f1 + s1) (f2 - (f1 + s1))) = f2 - (f1 + s1)" using a by (intro length_region) linarith
  have lb: "length b = length buf" using a r by (cases "0 < f2") (simp_all add: b_def)
  have ob: "region b x y = region buf x y" if "x + y \<le> f1 + (s1 + s2) \<or> f2 = 0 \<or> f2 + s2 \<le> x" for x y
  proof (cases "0 < f2")
    case True
    then show ?thesis using a r that by (simp add: b_def) (rule region_patch_other, simp_all, linarith+)
  qed (simp add: b_def)
  have c: "copied area f1 s1 f2 s2 buf = patch b (area + (s1 + s2)) (region b area (f1 - area))"
    by (simp add: copied_def b_def Let_def)
  have fit: "area + (s1 + s2) + (f1 - area) \<le> length buf" "area + (f1 - area) \<le> length buf" using a by (cases f2; simp)+
  have rl: "length (region b area (f1 - area)) = f1 - area" using fit lb by simp
  show "length (copied area f1 s1 f2 s2 buf) = length buf" using fit lb rl by (simp add: c)
  have oc: "region (copied area f1 s1 f2 s2 buf) x y = region b x y" if "x + y \<le> area + (s1 + s2) \<or> f1 + (s1 + s2) \<le> x" for x y
    unfolding c using fit lb rl that a(1) by (intro region_patch_other) (simp_all, linarith)
  show "region (copied area f1 s1 f2 s2 buf) x y = region buf x y" if "x + y \<le> area" for x y
    using oc[of x y] ob[of x y] that a(1) by simp
  show "region (copied area f1 s1 f2 s2 buf) (shifted f1 s1 f2 s2 s) l = region buf s l"
    if s: "area \<le> s" "s + l \<le> u" "s + l \<le> f1 \<or> f1 + s1 \<le> s" "f2 = 0 \<or> s + l \<le> f2 \<or> f2 + s2 \<le> s" "0 < l" for s l
  proof -
    consider "s < f1" | "f1 \<le> s" "0 < f2" "s < f2" | "f1 \<le> s" "f2 = 0 \<or> f2 \<le> s" by linarith
    then show ?thesis
    proof cases
      case 1
      then have e: "s + l \<le> f1" "shifted f1 s1 f2 s2 s = s + (s1 + s2)" using s by (auto simp: shifted_def)
      have "region (copied area f1 s1 f2 s2 buf) (s + (s1 + s2)) l = region (region b area (f1 - area)) (s - area) l"
        unfolding c using fit lb rl s e(1) by (subst region_patch_into) simp_all
      also have "\<dots> = region b s l" using s e(1) by (simp add: region_region)
      finally show ?thesis using ob[of s l] e by simp
    next
      case 2
      then have e: "f1 + s1 \<le> s" "s + l \<le> f2" "shifted f1 s1 f2 s2 s = s + s2" using s by (auto simp: shifted_def)
      have "region b (s + s2) l = region (region buf (f1 + s1) (f2 - (f1 + s1))) (s - (f1 + s1)) l"
        unfolding b_def using 2 a r e(1,2) by (simp, subst region_patch_into) simp_all
      also have "\<dots> = region buf s l" using e(1,2) by (simp add: region_region)
      finally show ?thesis using oc[of "s + s2" l] e by simp
    next
      case 3
      then have e: "f1 + s1 \<le> s" "f2 = 0 \<or> f2 + s2 \<le> s" "shifted f1 s1 f2 s2 s = s" using s by (auto simp: shifted_def)
      have "f1 + (s1 + s2) \<le> s" using e a(3,4) by (cases "f2 = 0") auto
      then show ?thesis using oc[of s l] ob[of s l] e by auto
    qed
  qed
qed

definition two_gaps :: "nat \<Rightarrow> nat \<Rightarrow> nat \<Rightarrow> nat \<Rightarrow> reg list \<Rightarrow> bool" where
  "two_gaps f1 s1 f2 s2 fs \<longleftrightarrow> fs = [(f1, s1)] \<and> f2 = 0 \<and> s2 = 0 \<or> fs = [(f1, s1), (f2, s2)] \<and> 0 < f2"

lemma two_gapsD:
  assumes l: "layout off u ty buf cs fs" and t: "two_gaps f1 s1 f2 s2 fs"
  shows "harea off buf \<le> f1" "f1 + s1 \<le> u" "0 < f2 \<Longrightarrow> f1 + s1 \<le> f2 \<and> f2 + s2 \<le> u" "f2 = 0 \<Longrightarrow> s2 = 0"
    "0 < f1" "g16 buf (f1 + 2) = s1" "0 < f2 \<Longrightarrow> g16 buf (f2 + 2) = s2" "4 \<le> s1" "0 < f2 \<Longrightarrow> 4 \<le> s2"
    "sum_list (map snd fs) = s1 + s2"
    "\<And>s l. (s, l) \<in> set cs \<Longrightarrow> harea off buf \<le> s \<and> s + l \<le> u \<and> (s + l \<le> f1 \<or> f1 + s1 \<le> s) \<and>
       (f2 = 0 \<or> s + l \<le> f2 \<or> f2 + s2 \<le> s) \<and> 4 \<le> l"
proof -
  note d = layoutD[OF l] and b = layout_block[OF l]
  have 1: "(f1, s1) \<in> set fs" "0 < f2 \<Longrightarrow> (f2, s2) \<in> set fs" using t by (auto simp: two_gaps_def)
  show "harea off buf \<le> f1" "f1 + s1 \<le> u" "4 \<le> s1" using b(1-3)[of f1 s1] 1 by simp_all
  show "0 < f2 \<Longrightarrow> f1 + s1 \<le> f2 \<and> f2 + s2 \<le> u" "0 < f2 \<Longrightarrow> 4 \<le> s2"
    using b(2,3)[of f2 s2] 1(2) d(7) t by (auto simp: two_gaps_def)
  show "f2 = 0 \<Longrightarrow> s2 = 0" "0 < f1" "g16 buf (f1 + 2) = s1" "0 < f2 \<Longrightarrow> g16 buf (f2 + 2) = s2" "sum_list (map snd fs) = s1 + s2"
    using d(6) t by (auto simp: two_gaps_def)
  fix s k assume m: "(s, k) \<in> set cs"
  have x: "clear_of (s, k) r" if "r \<in> set fs" for r
  proof -
    have "distinct (cs @ fs)" using geoD(3)[OF d(8)] by (simp add: apart_def)
    then have "(s, k) \<noteq> r" using m that by auto
    then show ?thesis using geo_clear[OF d(8), of "(s, k)" r] m that by simp
  qed
  show "harea off buf \<le> s \<and> s + k \<le> u \<and> (s + k \<le> f1 \<or> f1 + s1 \<le> s) \<and> (f2 = 0 \<or> s + k \<le> f2 \<or> f2 + s2 \<le> s) \<and> 4 \<le> k"
    using x[OF 1(1)] x[of "(f2, s2)"] 1(2) b(1-3)[of s k] m by (auto simp: clear_of_def)
qed

lemma shifted_geo:
  assumes l: "layout off u ty buf cs fs" and t: "two_gaps f1 s1 f2 s2 fs"
  defines "sh \<equiv> \<lambda>(s, l). (shifted f1 s1 f2 s2 s, l :: nat)"
  shows "geo u (harea off buf + (s1 + s2)) (hfrag off buf) (map sh cs)"
proof -
  let ?area = "harea off buf"
  note d = layoutD[OF l] and g = two_gapsD[OF l t]
  have ins: "inside (?area + (s1 + s2)) u (sh r)" if r: "r \<in> set cs" for r
  proof -
    obtain s k where sk: "r = (s, k)" by (cases r)
    show ?thesis using g(1-4,9) g(11)[of s k] r
      by (cases "f2 = 0") (auto simp: sk sh_def inside_def shifted_def)
  qed
  have cl: "clear_of (sh a) (sh b)" if ab: "a \<in> set cs" "b \<in> set cs" "a \<noteq> b" for a b
  proof -
    obtain s k s' k' where e: "a = (s, k)" "b = (s', k')" by (cases a; cases b)
    have c: "s + k \<le> s' \<or> s' + k' \<le> s" using geo_clear[OF d(8), of a b] ab by (simp add: e clear_of_def)
    have m: "shifted f1 s1 f2 s2 x + y \<le> shifted f1 s1 f2 s2 x'"
      if "x + y \<le> x'" "(x, y) \<in> set cs" "(x', y') \<in> set cs" for x y x' y'
      using that(1) g(1-4) g(11)[OF that(2)] g(11)[OF that(3)] by (cases "f2 = 0") (auto simp: shifted_def)
    show ?thesis using c m[of s k s' k'] m[of s' k' s k] ab by (auto simp: e sh_def clear_of_def)
  qed
  have inj: "inj_on sh (set cs)"
  proof (rule inj_onI, rule ccontr)
    fix a b assume "a \<in> set cs" "b \<in> set cs" "sh a = sh b" "a \<noteq> b"
    then show False using cl[of a b] ins[of a] by (simp add: clear_of_def inside_def)
  qed
  have dist: "distinct cs" using geoD(3)[OF d(8)] by (simp add: apart_def)
  have "\<forall>a \<in> set (map sh cs). \<forall>b \<in> set (map sh cs). a \<noteq> b \<longrightarrow> clear_of a b"
    using cl by (metis (no_types) imageE set_map)
  then have "apart (map sh cs)" using inj dist by (simp add: apart_def distinct_map)
  moreover have "map snd (map sh cs) = map snd cs" by (simp add: sh_def case_prod_beta)
  moreover have "?area + hfrag off buf + sum_list (map snd cs) + (s1 + s2) = u" using geoD(4)[OF d(8)] g(10) by simp
  ultimately show ?thesis using ins by (auto simp: geo_def simp del: map_map)
qed

lemma page_rep_moved:
  assumes r: "page_rep off u ty buf cs fs" and h: "hfree off b = 0" "hcount off b = length cs" "b ! off = buf ! off" "length b = length buf"
    and g: "geo u (harea off b) (hfrag off b) cs'" "off + hsize ty + 2 * length cs \<le> harea off b" "length cs' = length cs"
    and p: "\<And>i. i < length cs \<Longrightarrow> g16 b (off + hsize ty + 2 * i) = fst (cs' ! i)"
    and c: "\<And>i. i < length cs \<Longrightarrow> region b (fst (cs' ! i)) (snd (cs' ! i)) = region buf (fst (cs ! i)) (snd (cs ! i))"
  shows "page_rep off u ty b cs' [] \<and> cells b cs' = cells buf cs"
proof -
  note d = layoutD[OF page_repD(1)[OF r]]
  have e: "cells b cs' = cells buf cs"
    using c g(3) by (intro nth_equalityI) (simp_all add: nth_cells)
  have "layout off u ty b cs' []" using d h g by (simp add: layout_def htype_def)
  then have "page_rep off u ty b cs' []"
    by (rule page_repI) (use h(2) g(3) p e page_repD(4)[OF r] in simp_all)
  then show ?thesis using e by simp
qed


lemma defragment_page_fast_spec:
  assumes r: "page_rep (page_offset p) u ty buf cs fs" and t: "two_gaps f1 s1 f2 s2 fs"
  shows "\<exists>buf' cs'. defragment_page_fast (pb p buf) u f1 f2 = Inr (pb p buf') \<and>
    page_rep (page_offset p) u ty buf' cs' [] \<and> cells buf' cs' = cells buf cs \<and>
    hfrag (page_offset p) buf' = hfrag (page_offset p) buf"
proof -
  let ?off = "page_offset p" and ?area = "harea (page_offset p) buf" and ?sh = "shifted f1 s1 f2 s2"
  let ?n = "length cs" and ?a = "page_offset p + hsize ty" and ?t = "s1 + s2"
  note l = page_repD(1)[OF r] and n = page_repD(2)[OF r] and ptr = page_repD(3)[OF r]
  note d = layoutD[OF l] and g = two_gapsD[OF l t]
  define c where "c = copied ?area f1 s1 f2 s2 buf"
  note cr = copied_region[OF g(1-4) d(3), folded c_def]
  have an: "?a + 2 * ?n \<le> ?area" using d(5) n by simp
  have ol: "?off + 8 \<le> length c" "?off + 8 \<le> ?area" using d(10,11) cr(1) by simp_all
  have hc: "region c ?off 8 = region buf ?off 8" using cr(2) d(10) by simp
  note hh = header_same[OF hc d(11) cr(1)]
  have gc: "g16 c (?a + 2 * i) = fst (cs ! i)" if "i < ?n" for i
    using cr(2)[of "?a + 2 * i" 2] an ptr[OF that] that by (simp add: g16_def)
  have sg: "geo u (?area + ?t) (hfrag ?off buf) (map (\<lambda>(s, l). (?sh s, l)) cs)" by (rule shifted_geo[OF l t])
  have sm: "?area + ?t \<le> ?sh (fst (cs ! i)) \<and> ?sh (fst (cs ! i)) + snd (cs ! i) \<le> u \<and> 4 \<le> snd (cs ! i)" if "i < ?n" for i
    using geoD(2)[OF sg, of "(?sh (fst (cs ! i)), snd (cs ! i))"] nth_mem[OF that] by (force simp: inside_def)
  have sb: "?sh (g16 c (?a + 2 * i)) < 65536 \<and> ?sh (g16 c (?a + 2 * i)) \<le> u" if "i < ?n" for i
    using sm[OF that] gc[OF that] d(2) by simp
  have "?a + 2 * ?n \<le> length c" using an d(3,9) cr(1) by simp
  then have "\<exists>b. shift_pointers_loop (pb p c) u ?a f1 f2 ?t s2 0 ?n = Inr (pb p b) \<and> length b = length c \<and>
      (\<forall>j. j < ?n \<longrightarrow> g16 b (?a + 2 * j) = ?sh (g16 c (?a + 2 * j))) \<and>
      (\<forall>x y. x + y \<le> ?a \<or> ?a + 2 * ?n \<le> x \<longrightarrow> region b x y = region c x y)"
    using shift_pointers_loop_spec[of 0 ?n f1 s1 f2 s2 c ?a u p] sb by simp
  then obtain b where b: "shift_pointers_loop (pb p c) u ?a f1 f2 ?t s2 0 ?n = Inr (pb p b)" "length b = length c"
      "\<And>j. j < ?n \<Longrightarrow> g16 b (?a + 2 * j) = ?sh (g16 c (?a + 2 * j))"
      "\<And>x y. x + y \<le> ?a \<or> ?a + 2 * ?n \<le> x \<Longrightarrow> region b x y = region c x y"
    by blast
  have hb: "region b ?off 8 = region c ?off 8" using b(4)[of ?off 8] hsize_ge[of ty] by simp
  note hb' = header_same[OF hb ol(1) b(2)]
  define b' where "b' = p16 (p16 b (?off + 5) (?area + ?t)) (?off + 1) 0"
  have new: "0 < ?area + ?t" "?area + ?t \<le> u" using geoD(1)[OF sg] g(8) by simp_all
  have h: "hfree ?off b' = 0" "hcount ?off b' = ?n" "harea ?off b' = ?area + ?t" "hfrag ?off b' = hfrag ?off buf"
    "b' ! ?off = buf ! ?off" "length b' = length buf" "\<And>s k. ?off + 8 \<le> s \<Longrightarrow> region b' s k = region b s k"
    using new d(2) ol hh hb' n b(2) cr(1) by (simp_all add: b'_def hdr)
  have "page_rep ?off u ty b' (map (\<lambda>(s, l). (?sh s, l)) cs) [] \<and> cells b' (map (\<lambda>(s, l). (?sh s, l)) cs) = cells buf cs"
  proof (rule page_rep_moved[OF r h(1,2,5,6)])
    show "geo u (harea ?off b') (hfrag ?off b') (map (\<lambda>(s, l). (?sh s, l)) cs)" using sg h(3,4) by simp
    show "?a + 2 * ?n \<le> harea ?off b'" using h(3) an by simp
    fix i assume i: "i < ?n"
    have e: "map (\<lambda>(s, l). (?sh s, l)) cs ! i = (?sh (fst (cs ! i)), snd (cs ! i))" using i by (simp add: case_prod_beta)
    have "?off + 8 \<le> ?a + 2 * i" using hsize_ge[of ty] by simp
    then show "g16 b' (?a + 2 * i) = fst (map (\<lambda>(s, l). (?sh s, l)) cs ! i)"
      using h(7) b(3)[OF i] gc[OF i] e by (simp add: g16_def)
    have "(fst (cs ! i), snd (cs ! i)) \<in> set cs" using i by simp
    note gi = g(11)[OF this]
    have "region c (?sh (fst (cs ! i))) (snd (cs ! i)) = region buf (fst (cs ! i)) (snd (cs ! i))"
      by (rule cr(3)) (use gi in linarith)+
    then show "region b' (fst (map (\<lambda>(s, l). (?sh s, l)) cs ! i)) (snd (map (\<lambda>(s, l). (?sh s, l)) cs ! i)) =
        region buf (fst (cs ! i)) (snd (cs ! i))"
      using e h(7) b(4) sm[OF i] an ol(2) by simp
  qed simp
  moreover have "defragment_page_fast (pb p buf) u f1 f2 = Inr (pb p b')"
  proof (cases "f2 = 0")
    case True
    then have "copied ?area f1 s1 f2 s2 buf = patch buf (?area + ?t) (region buf ?area (f1 - ?area))" by (simp add: copied_def)
    moreover have "htype ?off ty c" using d(4) hh(5) by (simp add: htype_def)
    ultimately show ?thesis
      using True g(1,2,4,5,6,8) d(2,3,11) ol(1) b(1,2) hh(2) n new cr(1)
      by (simp add: defragment_page_fast_def usub_def page_simps c_def b'_def)
  next
    case False
    define m where "m = patch buf (f1 + ?t) (region buf (f1 + s1) (f2 - (f1 + s1)))"
    have c: "patch m (?area + ?t) (region m ?area (f1 - ?area)) = c" using False by (simp add: copied_def m_def c_def Let_def)
    have f: "0 < f2" "f1 + s1 \<le> f2" "f2 + s2 \<le> u" "4 \<le> s2" using False g(3,9) by simp_all
    have m: "length m = length buf" using f d(3) by (simp add: m_def)
    have st: "page_copy_within (pb p buf) (f1 + s1) (f2 - (f1 + s1)) (f1 + (s1 + s2)) = Inr (pb p m)"
      "page_copy_within (pb p m) ?area (f1 - ?area) (?area + (s1 + s2)) = Inr (pb p c)"
      using f d(3) g(1,2) m by (simp_all add: page_simps m_def[symmetric] c[symmetric])
    have ty: "htype ?off ty c" using d(4) hh(5) by (simp add: htype_def)
    show ?thesis
      using f g(1,2,5,6,8) g(7)[OF f(1)] d(2,3,11) ol(1) b(1,2) hh(2) n new st ty
      by (simp add: defragment_page_fast_def usub_def page_simps b'_def)
  qed
  ultimately show ?thesis using h(4) by blast
qed

lemma defragment_empty:
  assumes r: "page_rep (page_offset p) u ty buf [] fs"
  defines "b \<equiv> (p16 (p16 buf (page_offset p + 5) u) (page_offset p + 1) 0)[page_offset p + 7 := 0]"
  shows "defragment_page (pb p buf) u m = Inr (pb p b)" "page_rep (page_offset p) u ty b [] []" "hfrag (page_offset p) b = 0"
proof -
  let ?off = "page_offset p"
  note d = layoutD[OF page_repD(1)[OF r]] and n = page_repD(2)[OF r]
  show "defragment_page (pb p buf) u m = Inr (pb p b)"
    using d(11) n by (simp add: defragment_page_def page_simps b_def)
  have h: "hfree ?off b = 0" "hcount ?off b = 0" "harea ?off b = u" "hfrag ?off b = 0" "b ! ?off = buf ! ?off" "length b = length buf"
    using d(1,2,11) n by (simp_all add: b_def hdr)
  then show "hfrag ?off b = 0" by simp
  have "layout ?off u ty b [] []"
    using d h n by (simp add: layout_def htype_def geo_def apart_def)
  then show "page_rep ?off u ty b [] []" by (rule page_repI) (use h in \<open>simp_all add: cells_def\<close>)
qed

lemma defragment_page_spec:
  assumes r: "page_rep (page_offset p) u ty buf cs fs"
  shows "\<exists>buf' cs'. defragment_page (pb p buf) u m = Inr (pb p buf') \<and> page_rep (page_offset p) u ty buf' cs' [] \<and>
    cells buf' cs' = cells buf cs \<and> int (hfrag (page_offset p) buf') \<le> max m 0"
proof (cases "cs = []")
  case True
  note e = defragment_empty[OF r[unfolded True]]
  show ?thesis using e(1)[of m] e(2,3) True by (intro exI conjI) (auto simp: cells_def)
next
  case False
  let ?off = "page_offset p"
  note l = page_repD(1)[OF r]
  note d = layoutD[OF l] and n = page_repD(2)[OF r] and slow = defragment_slow_spec[OF r False]
  have ev: "defragment_page (pb p buf) u m =
      (if int (hfrag ?off buf) \<le> m then
         if hfree ?off buf = 0 then Inr (pb p buf)
         else rbind (read_u16_no_offset (pb p buf) (hfree ?off buf)) (\<lambda>f2.
           if f2 = 0 then defragment_page_fast (pb p buf) u (hfree ?off buf) 0
           else rbind (read_u16_no_offset (pb p buf) (unat f2)) (\<lambda>f3.
             if f3 = 0 then defragment_page_fast (pb p buf) u (hfree ?off buf) (unat f2)
             else defragment_slow (pb p buf) u (length cs)))
       else defragment_slow (pb p buf) u (length cs))"
    using d(11) n False by (simp add: defragment_page_def page_simps hfrag_def cong: if_cong)
  have fin: ?thesis if "defragment_page (pb p buf) u m = x"
      "\<exists>buf' cs'. x = Inr (pb p buf') \<and> page_rep ?off u ty buf' cs' [] \<and> cells buf' cs' = cells buf cs \<and> k \<le> max m 0 \<and> int (hfrag ?off buf') = k" for x k
    using that by metis
  show ?thesis
  proof (cases "int (hfrag ?off buf) \<le> m")
    case False
    then show ?thesis using ev slow by (intro fin[of _ 0]) simp_all
  next
    case True
    have fast: ?thesis if "two_gaps f1 s1 f2 s2 fs" "defragment_page (pb p buf) u m = defragment_page_fast (pb p buf) u f1 f2"
      for f1 s1 f2 s2
      using defragment_page_fast_spec[OF r that(1)] that(2) True by (intro fin[of _ "int (hfrag ?off buf)"]) auto
    have rd: "read_u16_no_offset (pb p buf) s = Inr (word_of_nat (g16 buf s))" if "(s, k) \<in> set fs" for s k
      using layout_block(2,5)[OF l, of s k] that by (simp add: page_access16)
    consider "fs = []" | f1 s1 where "fs = [(f1, s1)]" | f1 s1 f2 s2 where "fs = [(f1, s1), (f2, s2)]"
      | f1 s1 f2 s2 f3 s3 fs' where "fs = (f1, s1) # (f2, s2) # (f3, s3) # fs'"
      by (metis list.exhaust prod.exhaust)
    then show ?thesis
    proof cases
      case 1
      then have "defragment_page (pb p buf) u m = Inr (pb p buf)" using ev True d(6) by simp
      then show ?thesis using r 1 True by (intro fin[of _ "int (hfrag ?off buf)"]) auto
    next
      case (2 f1 s1)
      then have "defragment_page (pb p buf) u m = defragment_page_fast (pb p buf) u f1 0"
        using ev True d(6) rd[of f1 s1] by simp
      then show ?thesis using fast[of f1 s1 0 0] 2 by (simp add: two_gaps_def)
    next
      case (3 f1 s1 f2 s2)
      then have "defragment_page (pb p buf) u m = defragment_page_fast (pb p buf) u f1 f2"
        using ev True d(6) rd[of f1 s1] rd[of f2 s2] unat_g16[of buf f1] by (auto simp del: unat_g16)
      then show ?thesis using fast[of f1 s1 f2 s2] 3 d(6) by (auto simp: two_gaps_def)
    next
      case (4 f1 s1 f2 s2 f3 s3 fs')
      then have "defragment_page (pb p buf) u m = defragment_slow (pb p buf) u (length cs)"
        using ev True d(6) rd[of f1 s1] rd[of f2 s2] g16_zero_iff[of buf f1] g16_zero_iff[of buf f2] unat_g16[of buf f1]
        by (auto simp del: unat_g16 g16_zero_iff)
      then show ?thesis using slow by (intro fin[of _ 0]) simp_all
    qed
  qed
qed

end
