(* ===== verification/Btree_Insert.thy ===== *)
theory Btree_Insert
  imports Btree_Defrag
begin

text \<open>
  Inserting a cell into a page and dropping one, as operations on the list of its cells; and the
  refinement: a sequence of operations on a page in its byte format is the same sequence on a list.
\<close>

section \<open>Reserving the space of a new cell\<close>

text \<open>The region \<open>(pc, k)\<close> belongs to no cell yet, and the pointer array has room for one more.\<close>

definition reserved :: "nat \<Rightarrow> nat \<Rightarrow> page_type \<Rightarrow> bytes \<Rightarrow> nat \<Rightarrow> nat \<Rightarrow> reg list \<Rightarrow> reg list \<Rightarrow> bool" where
  "reserved off u ty buf pc k cs fs \<longleftrightarrow>
     layout off u ty buf ((pc, k) # cs) fs \<and> ptrs off ty buf = map fst cs \<and>
     off + hsize ty + 2 * length cs + 2 \<le> harea off buf"

lemma kept_ptrs:
  assumes "kept off ty rs buf buf'"
  shows "ptrs off ty buf' = ptrs off ty buf"
proof -
  have k: "hcount off buf' = hcount off buf"
    "region buf' (off + hsize ty) (2 * hcount off buf) = region buf (off + hsize ty) (2 * hcount off buf)"
    using assms by (simp_all add: kept_def)
  have "g16 buf' (off + hsize ty + 2 * i) = g16 buf (off + hsize ty + 2 * i)" if "i < hcount off buf" for i
    by (rule g16_cong[OF k(2)]) (use that in simp_all)
  then show ?thesis using k(1) by (simp add: ptrs_def)
qed

lemma kept_cells: "kept off ty rs buf buf' \<Longrightarrow> cells buf' rs = cells buf rs"
  by (auto simp: kept_def cells_def)

lemma layout_perm: "mset rs = mset rs' \<Longrightarrow> layout off u ty buf rs fs \<longleftrightarrow> layout off u ty buf rs' fs"
  using geo_mset[of "rs @ fs" "rs' @ fs"] by (simp add: layout_def)

definition free_bytes :: "nat \<Rightarrow> nat \<Rightarrow> page_type \<Rightarrow> nat list \<Rightarrow> nat" where
  "free_bytes off u ty lens = u - sum_list lens - (off + hsize ty + 2 * length lens)"

lemma cells_lens:
  assumes "layout off u ty buf cs fs"
  shows "map length (cells buf cs) = map snd cs"
  using layout_block(5)[OF assms] by (fastforce simp: cells_def case_prod_beta)

lemma geo_lower: "geo u (a + k) f rs \<Longrightarrow> geo u a (f + k) rs"
  by (auto simp: geo_def inside_def)

text \<open>The new cell in front of the content area.\<close>

lemma front_reserved:
  assumes r: "page_rep (page_offset p) u ty buf cs fs" and k: "4 \<le> k"
    and fit: "page_offset p + hsize ty + 2 * length cs + 2 + k \<le> harea (page_offset p) buf"
  defines "area \<equiv> harea (page_offset p) buf - k"
  defines "b \<equiv> p16 buf (page_offset p + 5) area"
  shows "write_cell_content_area (pb p buf) area = Inr (pb p b)" "area + k \<le> u" "area < 65536"
    "reserved (page_offset p) u ty b area k cs fs" "cells b cs = cells buf cs"
proof -
  let ?off = "page_offset p"
  note l = page_repD(1)[OF r]
  note d = layoutD[OF l] and n = page_repD(2)[OF r]
  show "write_cell_content_area (pb p buf) area = Inr (pb p b)" using d(11) by (simp add: page_simps b_def)
  show au: "area + k \<le> u" using d(9) fit by (simp add: area_def)
  then show a: "area < 65536" using d(2) k by simp
  have a0: "0 < area" "?off + hsize ty + 2 * length cs + 2 \<le> area" "area + k = harea ?off buf" using fit by (simp_all add: area_def)
  have h: "hfree ?off b = hfree ?off buf" "hcount ?off b = hcount ?off buf" "harea ?off b = area" "hfrag ?off b = hfrag ?off buf"
    "b ! ?off = buf ! ?off" "length b = length buf" "\<And>s j. ?off + 8 \<le> s \<Longrightarrow> region b s j = region buf s j"
    using a0(1) a d(11) by (simp_all add: b_def hdr)
  have kp: "kept ?off ty cs buf b" by (rule kept_intro[OF l h(6,5,2)]) (simp add: h(7))
  have "geo u area (hfrag ?off buf + k) (cs @ fs)"
    using d(8) by (intro geo_lower) (simp add: a0(3))
  moreover have "clear_of (area, k) r" if "r \<in> set (cs @ fs)" for r
    using geoD(2)[OF d(8) that] a0(3) by (simp add: inside_def clear_of_def)
  ultimately have g: "geo u (harea ?off b) (hfrag ?off b) (((area, k) # cs) @ fs)"
    using au k by (simp add: geo_Cons inside_def h)
  have pth: "path b (hfree ?off b) fs 0"
    unfolding h(1) by (rule path_cong[THEN iffD2, OF _ d(6)]) (rule h(7), use layout_block(4)[OF l] in auto)
  have "layout ?off u ty b ((area, k) # cs) fs"
    by (rule layout_intro[OF l kept_mono[OF kp] pth d(7) g]) (use a0 n h in auto)
  then show "reserved ?off u ty b area k cs fs"
    using kept_ptrs[OF kp] r a0(2) h(3) by (simp add: reserved_def page_rep_def)
  show "cells b cs = cells buf cs" by (rule kept_cells[OF kp])
qed

lemma allocate_at_front_spec:
  assumes r: "page_rep (page_offset p) u ty buf cs fs" and k: "4 \<le> k"
    and fit: "k + 2 \<le> free_bytes (page_offset p) u ty (map snd cs)"
  shows "\<exists>buf' pc cs' fs'.
    allocate_at_front (pb p buf) k u (free_bytes (page_offset p) u ty (map snd cs))
      (page_offset p + hsize ty + 2 * length cs) (harea (page_offset p) buf) = Inr (pb p buf', word_of_nat pc) \<and>
    reserved (page_offset p) u ty buf' pc k cs' fs' \<and> cells buf' cs' = cells buf cs"
proof -
  let ?off = "page_offset p" and ?f = "free_bytes (page_offset p) u ty (map snd cs)"
  let ?first = "page_offset p + hsize ty + 2 * length cs"
  note d = layoutD[OF page_repD(1)[OF r]]
  have fin: ?thesis
    if a: "allocate_at_front (pb p buf) k u ?f ?first (harea ?off buf) =
        rbind (usub (harea ?off b) k) (\<lambda>area. rbind (write_cell_content_area (pb p b) area) (\<lambda>p.
          if area + k \<le> u then Inr (p, word_of_nat area) else Inl Panic))"
      and s: "page_rep ?off u ty b cs' fs'" "cells b cs' = cells buf cs" "?first + 2 + k \<le> harea ?off b" for b cs' fs'
  proof -
    have "length cs' = length cs" using arg_cong[OF s(2), of length] by simp
    then have f: "?off + hsize ty + 2 * length cs' + 2 + k \<le> harea ?off b" using s(3) by simp
    note fr = front_reserved[OF s(1) k f]
    have "allocate_at_front (pb p buf) k u ?f ?first (harea ?off buf) =
        Inr (pb p (p16 b (?off + 5) (harea ?off b - k)), word_of_nat (harea ?off b - k))"
      using a fr(1,2) f by (simp add: usub_def del: of_nat_diff)
    then show ?thesis using fr(4,5) s(2) by (intro exI conjI) (assumption, assumption, simp)
  qed
  show ?thesis
  proof (cases "?first + 2 + k \<le> harea ?off buf")
    case True
    then show ?thesis using r by (intro fin[of buf cs fs]) (simp_all add: allocate_at_front_def CELL_PTR_SIZE_BYTES_def)
  next
    case False
    let ?m = "min 4 (int ?f - int (2 + k))"
    obtain b cs' where b: "defragment_page (pb p buf) u ?m = Inr (pb p b)" "page_rep ?off u ty b cs' []"
        "cells b cs' = cells buf cs" "int (hfrag ?off b) \<le> max ?m 0"
      using defragment_page_spec[OF r, of ?m] by blast
    have n: "length cs' = length cs" using arg_cong[OF b(3), of length] by simp
    have e: "map snd cs' = map snd cs"
      using cells_lens[OF page_repD(1)[OF b(2)]] cells_lens[OF page_repD(1)[OF r]] b(3) by simp
    have "harea ?off b + hfrag ?off b + sum_list (map snd cs) = u"
      using geoD(4)[OF layoutD(8)[OF page_repD(1)[OF b(2)]]] e by simp
    then have "?first + 2 + k \<le> harea ?off b" using b(4) fit by (simp add: free_bytes_def)
    moreover have "allocate_at_front (pb p buf) k u ?f ?first (harea ?off buf) =
        rbind (usub (harea ?off b) k) (\<lambda>area. rbind (write_cell_content_area (pb p b) area) (\<lambda>p.
          if area + k \<le> u then Inr (p, word_of_nat area) else Inl Panic))"
      using False b(1) layoutD(11)[OF page_repD(1)[OF b(2)]]
      by (simp add: allocate_at_front_def CELL_PTR_SIZE_BYTES_def Let_def page_simps)
    ultimately show ?thesis using b(2,3) by (intro fin)
  qed
qed

lemma allocate_cell_space_spec:
  assumes r: "page_rep (page_offset p) u ty buf cs fs" and k: "4 \<le> k"
    and fit: "k + 2 \<le> free_bytes (page_offset p) u ty (map snd cs)"
  shows "\<exists>buf' pc cs' fs'.
    allocate_cell_space (pb p buf) k u (free_bytes (page_offset p) u ty (map snd cs)) = Inr (pb p buf', word_of_nat pc) \<and>
    reserved (page_offset p) u ty buf' pc k cs' fs' \<and> cells buf' cs' = cells buf cs"
proof -
  let ?off = "page_offset p" and ?f = "free_bytes (page_offset p) u ty (map snd cs)"
  let ?first = "page_offset p + hsize ty + 2 * length cs" and ?area = "harea (page_offset p) buf"
  note l = page_repD(1)[OF r]
  note d = layoutD[OF l] and n = page_repD(2)[OF r] and front = allocate_at_front_spec[OF r k fit]
  have ku: "k \<le> u" using fit by (simp add: free_bytes_def)
  have ev: "allocate_cell_space (pb p buf) k u ?f =
      (if hfree ?off buf \<noteq> 0 \<and> ?first + 2 \<le> ?area
       then rbind (find_free_slot (pb p buf) u k) (\<lambda>(p, slot).
         case slot of Some pc \<Rightarrow> Inr (p, word_of_nat pc) | None \<Rightarrow> allocate_at_front p k u ?f ?first ?area)
       else allocate_at_front (pb p buf) k u ?f ?first ?area)"
    using d(4,11) n k
    by (simp add: allocate_cell_space_def MINIMUM_CELL_SIZE_def CELL_PTR_SIZE_BYTES_def page_simps cong: if_cong)
  have fin: ?thesis if "allocate_cell_space (pb p buf) k u ?f = allocate_at_front (pb p buf) k u ?f ?first ?area"
    using front that by metis
  show ?thesis
  proof (cases "hfree ?off buf \<noteq> 0 \<and> ?first + 2 \<le> ?area")
    case True
    consider "find_free_slot (pb p buf) u k = Inr (pb p buf, None)"
      | buf' pc fs' where "find_free_slot (pb p buf) u k = Inr (pb p buf', Some pc)"
        "layout ?off u ty buf' ((pc, k) # cs) fs'" "kept ?off ty cs buf buf'" "harea ?off buf' = ?area"
      using find_free_slot_spec[OF l k ku] by blast
    then show ?thesis
    proof cases
      case 1
      then show ?thesis using ev True by (intro fin) simp
    next
      case (2 buf' pc fs')
      then have "allocate_cell_space (pb p buf) k u ?f = Inr (pb p buf', word_of_nat pc)" using ev True by simp
      moreover have "reserved ?off u ty buf' pc k cs fs'"
        using 2 True kept_ptrs[OF 2(3)] r by (simp add: reserved_def page_rep_def)
      ultimately show ?thesis using kept_cells[OF 2(3)] by metis
    qed
  qed (use ev fin in auto)
qed

text \<open>Storing the bytes of the cell in the reserved region.\<close>

lemma reserved_put:
  assumes r: "reserved off u ty buf pc (length payload) cs fs"
  defines "b \<equiv> patch buf pc payload"
  shows "reserved off u ty b pc (length payload) cs fs" "region b pc (length payload) = payload" "cells b cs = cells buf cs"
    "pc + length payload \<le> u" "pc + length payload \<le> length buf" "pc < 65536"
proof -
  have l: "layout off u ty buf ((pc, length payload) # cs) fs" using r by (simp add: reserved_def)
  note d = layoutD[OF l] and i = layout_block[OF l, of pc "length payload", simplified]
  show "pc + length payload \<le> u" "pc + length payload \<le> length buf" "pc < 65536" by (rule i)+
  have h: "hfree off b = hfree off buf" "hcount off b = hcount off buf" "harea off b = harea off buf" "hfrag off b = hfrag off buf"
    "b ! off = buf ! off" "length b = length buf"
    using i by (simp_all add: b_def hdr)
  have same: "region b s j = region buf s j" if "s + j \<le> pc \<or> pc + length payload \<le> s" for s j
    unfolding b_def by (rule region_patch_other[OF i(5) that])
  have cl: "region b s j = region buf s j" if "(s, j) \<in> set (cs @ fs)" for s j
  proof -
    have "clear_of (pc, length payload) (s, j)" using d(8) that by (simp add: geo_Cons)
    then show ?thesis by (intro same) (auto simp: clear_of_def)
  qed
  have kp: "kept off ty cs buf b"
  proof -
    have "region b (off + hsize ty) (2 * hcount off buf) = region buf (off + hsize ty) (2 * hcount off buf)"
      using d(5) i(1) by (intro same) simp
    then show ?thesis using h cl by (auto simp: kept_def)
  qed
  have pth: "path b (hfree off b) fs 0"
    unfolding h(1)
  proof (rule path_cong[THEN iffD2, OF _ d(6)])
    fix s j assume m: "(s, j) \<in> set fs"
    show "region b s 4 = region buf s 4"
      by (rule region_sub[OF cl[of s j]]) (use m layout_block(2)[OF l, of s j] in simp_all)
  qed
  have "layout off u ty b ((pc, length payload) # cs) fs"
    by (rule layout_intro[OF l kept_mono[OF kp] pth d(7)]) (use d(5,8) h in auto)
  then show "reserved off u ty b pc (length payload) cs fs"
    using kept_ptrs[OF kp] r h(3) by (simp add: reserved_def)
  show "region b pc (length payload) = payload" using i(5) by (simp add: b_def)
  show "cells b cs = cells buf cs" by (rule kept_cells[OF kp])
qed


lemma ptrs_insert:
  assumes n: "hcount off buf = length cs" "ptrs off ty buf = map fst cs" "i \<le> length cs" "length cs + 1 < 65536" "pc < 65536"
    and fit: "off + hsize ty + 2 * length cs + 2 \<le> length buf"
  defines "cur \<equiv> off + hsize ty + 2 * i"
  defines "b \<equiv> p16 (p16 (patch buf (cur + 2) (region buf cur (2 * (length cs - i)))) cur pc) (off + 3) (length cs + 1)"
  shows "ptrs off ty b = take i (map fst cs) @ pc # drop i (map fst cs)" "hcount off b = length cs + 1"
    "hfree off b = hfree off buf" "harea off b = harea off buf" "hfrag off b = hfrag off buf" "b ! off = buf ! off"
    "length b = length buf"
    "\<And>x y. off + hsize ty + 2 * length cs + 2 \<le> x \<Longrightarrow> region b x y = region buf x y"
proof -
  let ?a = "off + hsize ty" and ?n = "length cs"
  let ?m = "patch buf (cur + 2) (region buf cur (2 * (?n - i)))"
  have o8: "off + 8 \<le> ?a" using hsize_ge[of ty] by simp
  have cur: "cur + 2 + 2 * (?n - i) = ?a + 2 * ?n + 2" "cur + 2 * (?n - i) = ?a + 2 * ?n" using n(3) by (simp_all add: cur_def)
  have lr: "length (region buf cur (2 * (?n - i))) = 2 * (?n - i)" using cur(2) fit by simp
  have lm: "length ?m = length buf" using cur fit lr by simp
  have c8: "off + 8 \<le> cur" "cur + 2 \<le> length buf" using o8 cur(1) fit by (simp_all add: cur_def)
  have l8: "off + 8 \<le> length buf" using o8 fit by simp
  have h: "hcount off ?m = hcount off buf" "hfree off ?m = hfree off buf" "harea off ?m = harea off buf" "hfrag off ?m = hfrag off buf"
    "?m ! off = buf ! off"
    using c8 cur(1) lr fit by (simp_all add: hdr)
  show "hfree off b = hfree off buf" "harea off b = harea off buf" "hfrag off b = hfrag off buf" "b ! off = buf ! off"
    "length b = length buf" and hc: "hcount off b = ?n + 1"
    using h c8 l8 lm n(4) by (simp_all add: b_def hdr)
  show "region b x y = region buf x y" if "?a + 2 * ?n + 2 \<le> x" for x y
    using that c8 l8 lm cur lr fit o8 unfolding b_def by (simp add: hdr region_p16 region_patch_other)
  have old: "g16 buf (?a + 2 * j) = fst (cs ! j)" if "j < ?n" for j
    using arg_cong[OF n(2), of "\<lambda>xs. xs ! j"] that n(1) by (simp add: ptrs_def)
  have up: "g16 b (?a + 2 * j) = g16 (p16 ?m cur pc) (?a + 2 * j)" for j
    using l8 lm o8 c8 by (simp add: b_def g16_def hdr)
  have new: "g16 b (?a + 2 * j) = (if j < i then fst (cs ! j) else if j = i then pc else fst (cs ! (j - 1)))" if j: "j < ?n + 1" for j
  proof -
    consider "j < i" | "j = i" | "i < j" by linarith
    then show ?thesis
    proof cases
      case 1
      then have "g16 (p16 ?m cur pc) (?a + 2 * j) = g16 ?m (?a + 2 * j)" using c8 lm by (intro g16_p16_other) (auto simp: cur_def)
      also have "\<dots> = g16 buf (?a + 2 * j)"
        unfolding g16_def using 1 cur fit lr by (subst region_patch_other) (auto simp: cur_def)
      finally show ?thesis using 1 up old n(3) by simp
    next
      case 2
      then show ?thesis using up c8 lm n(5) by (simp add: cur_def)
    next
      case 3
      then have "g16 (p16 ?m cur pc) (?a + 2 * j) = g16 ?m (?a + 2 * j)" using c8 lm by (intro g16_p16_other) (auto simp: cur_def)
      also have "\<dots> = g16 buf (?a + 2 * (j - 1))"
      proof -
        obtain j' where j': "j = Suc j'" "i \<le> j'" using 3 by (cases j) auto
        have "region ?m (?a + 2 * j) 2 = region (region buf cur (2 * (?n - i))) (2 * (j' - i)) 2"
          using j j' cur fit lr by (subst region_patch_into) (simp_all add: cur_def diff_mult_distrib2)
        also have "\<dots> = region buf (?a + 2 * j') 2" using j j' by (subst region_region) (simp_all add: cur_def diff_mult_distrib2 add.assoc)
        finally show ?thesis using j'(1) by (simp add: g16_def)
      qed
      finally show ?thesis using 3 up old[of "j - 1"] j by simp
    qed
  qed
  show "ptrs off ty b = take i (map fst cs) @ pc # drop i (map fst cs)"
  proof (rule nth_equalityI)
    show "length (ptrs off ty b) = length (take i (map fst cs) @ pc # drop i (map fst cs))" using hc n(3) by simp
    fix j assume "j < length (ptrs off ty b)"
    then have j: "j < ?n + 1" using hc by simp
    have "ptrs off ty b ! j = g16 b (?a + 2 * j)" using j hc by (simp add: ptrs_def del: upt_Suc)
    then show "ptrs off ty b ! j = (take i (map fst cs) @ pc # drop i (map fst cs)) ! j"
      using new[OF j] n(3) j by (auto simp: nth_append nth_Cons' min_def)
  qed
qed


lemma insert_pointer_spec:
  assumes r: "reserved (page_offset p) u ty buf pc k cs fs" and i: "i \<le> length cs"
    and v: "\<forall>c \<in> set (region buf pc k # cells buf cs). valid_cell u ty c"
  shows "\<exists>buf' cs'. insert_pointer (pb p buf) i (word_of_nat pc) = Inr (pb p buf') \<and>
    page_rep (page_offset p) u ty buf' cs' fs \<and>
    cells buf' cs' = take i (cells buf cs) @ region buf pc k # drop i (cells buf cs)"
proof -
  let ?off = "page_offset p" and ?n = "length cs" and ?a = "page_offset p + hsize ty"
  have l: "layout ?off u ty buf ((pc, k) # cs) fs" and pt: "ptrs ?off ty buf = map fst cs"
    and room: "?a + 2 * ?n + 2 \<le> harea ?off buf"
    using r by (simp_all add: reserved_def)
  note d = layoutD[OF l]
  have n: "hcount ?off buf = ?n" using arg_cong[OF pt, of length] by simp
  have n1: "?n + 1 < 65536" and fit: "?a + 2 * ?n + 2 \<le> length buf" using room d(2,3,9) by linarith+
  have pc: "pc < 65536" using layout_block(6)[OF l, of pc k] by simp
  let ?cur = "?a + 2 * i" and ?cs = "take i cs @ (pc, k) # drop i cs"
  let ?m = "patch buf (?cur + 2) (region buf ?cur (2 * (?n - i)))"
  let ?b = "p16 (p16 ?m ?cur pc) (?off + 3) (?n + 1)"
  note b = ptrs_insert[OF n pt i n1 pc fit]
  have lr: "length (region buf ?cur (2 * (?n - i))) = 2 * (?n - i)" using i fit by simp
  have lm: "length ?m = length buf" using lr i fit by simp
  have "hcount ?off ?m = ?n" using lr i fit n hsize_ge[of ty] by (simp add: hdr)
  then have hm: "hcount ?off (p16 ?m ?cur pc) = ?n" using lm i fit hsize_ge[of ty] by (simp add: hdr)
  have z: "patch buf x [] = buf" for x by (simp add: patch_def)
  have ev: "insert_pointer (pb p buf) i (word_of_nat pc) = Inr (pb p ?b)"
    using d(4,11) n i fit lm hm pc n1 lr z
    by (cases "i = ?n")
      (simp_all add: insert_pointer_def usub_def CELL_PTR_SIZE_BYTES_def page_simps Let_def region_def del: of_nat_Suc)
  have body: "region ?b s j = region buf s j" if "(s, j') \<in> set (((pc, k) # cs) @ fs)" for s j j'
    using b(8) layout_block(1)[OF l that] room by simp
  have cl: "cells ?b ?cs = take i (cells buf cs) @ region buf pc k # drop i (cells buf cs)"
  proof -
    have "cells ?b ?cs = cells buf ?cs"
      unfolding cells_def by (rule map_cong[OF refl]) (use body in \<open>auto dest: in_set_takeD in_set_dropD\<close>)
    then show ?thesis by (simp add: cells_def take_map drop_map)
  qed
  have pth: "path ?b (hfree ?off ?b) fs 0"
    unfolding b(3) by (rule path_cong[THEN iffD2, OF _ d(6)]) (rule body, auto)
  have ms: "mset (?cs @ fs) = mset (((pc, k) # cs) @ fs)"
    using mset_append[of "take i cs" "drop i cs", symmetric] by simp
  have "layout ?off u ty ?b ?cs fs"
    unfolding layout_def htype_def b(2-7) using d room pth[unfolded b(3)] geo_mset[OF ms] by (simp add: htype_def)
  moreover have "ptrs ?off ty ?b = map fst ?cs" using b(1) by (simp add: take_map drop_map)
  moreover have "\<forall>c \<in> set (cells ?b ?cs). valid_cell u ty c"
    unfolding cl using v by (auto dest: in_set_takeD in_set_dropD)
  ultimately have "page_rep ?off u ty ?b ?cs fs" by (simp add: page_rep_def)
  then show ?thesis using ev cl by blast
qed


section \<open>Inserting a cell\<close>

text \<open>A cell of at least four bytes goes to its place in the list of cells when its bytes and its
  pointer fit; otherwise it becomes an overflow cell of the page.\<close>

lemma insert_into_cell_inner_spec:
  assumes r: "page_rep (page_offset p) u ty buf cs fs" and i: "i \<le> length cs"
    and v: "valid_cell u ty payload" "4 \<le> length payload" and a: "overflow_cells p = [] \<or> allow"
    and fit: "length payload + 2 \<le> free_bytes (page_offset p) u ty (map snd cs)"
  shows "\<exists>buf' cs' fs'. insert_into_cell_inner (pb p buf) payload i u allow = Inr (pb p buf') \<and>
    page_rep (page_offset p) u ty buf' cs' fs' \<and>
    cells buf' cs' = take i (cells buf cs) @ payload # drop i (cells buf cs)"
proof -
  let ?off = "page_offset p" and ?f = "free_bytes (page_offset p) u ty (map snd cs)" and ?k = "length payload"
  note l = page_repD(1)[OF r] and n = page_repD(2)[OF r]
  have f: "compute_free_space (pb p buf) u = Inr ?f"
    using compute_free_space_eq[OF l] n by (simp add: free_bytes_def)
  obtain b pc cs' fs' where b: "allocate_cell_space (pb p buf) ?k u ?f = Inr (pb p b, word_of_nat pc)"
      "reserved ?off u ty b pc ?k cs' fs'" "cells b cs' = cells buf cs"
    using allocate_cell_space_spec[OF r v(2) fit] by blast
  have n': "length cs' = length cs" using arg_cong[OF b(3), of length] by simp
  let ?b = "patch b pc payload"
  note w = reserved_put[OF b(2)]
  have "\<forall>c \<in> set (region ?b pc ?k # cells ?b cs'). valid_cell u ty c"
    using w(2,3) b(3) v(1) page_repD(4)[OF r] by simp
  then obtain b' cs'' where b': "insert_pointer (pb p ?b) i (word_of_nat pc) = Inr (pb p b')" "page_rep ?off u ty b' cs'' fs'"
      "cells b' cs'' = take i (cells ?b cs') @ region ?b pc ?k # drop i (cells ?b cs')"
    using insert_pointer_spec[OF w(1), of i] i n' by auto
  have a': "(overflow_cells p \<noteq> [] \<and> \<not> allow) = False" using a by blast
  have "insert_into_cell_inner (pb p buf) payload i u allow = Inr (pb p b')"
    using layoutD(11)[OF l] n i f fit b(1) w(4-6) b'(1)
    by (simp add: insert_into_cell_inner_def CELL_PTR_SIZE_BYTES_def page_simps Let_def a' del: de_Morgan_conj)
  then show ?thesis using b'(2,3) w(2,3) b(3) by auto
qed

lemma insert_into_cell_overflow:
  assumes r: "page_rep (page_offset p) u ty buf cs fs" and i: "i \<le> length cs + length (overflow_cells p)"
    and no: "overflow_cells p \<noteq> [] \<and> \<not> allow \<or> free_bytes (page_offset p) u ty (map snd cs) < length payload + 2"
  shows "insert_into_cell_inner (pb p buf) payload i u allow =
    Inr ((pb p buf)\<lparr>overflow_cells := overflow_cells p @ [(i, payload)]\<rparr>)"
proof -
  note l = page_repD(1)[OF r] and n = page_repD(2)[OF r]
  have f: "compute_free_space (pb p buf) u = Inr (free_bytes (page_offset p) u ty (map snd cs))"
    using compute_free_space_eq[OF l] n by (simp add: free_bytes_def)
  show ?thesis
    using layoutD(11)[OF l] n i f no
    by (auto simp add: insert_into_cell_inner_def CELL_PTR_SIZE_BYTES_def page_simps Let_def)
qed


section \<open>Dropping a cell\<close>

lemma ptrs_remove:
  assumes n: "hcount off buf = length cs" "ptrs off ty buf = map fst cs" "i < length cs"
    and fit: "off + hsize ty + 2 * length cs \<le> length buf" "length cs < 65536"
  defines "cur \<equiv> off + hsize ty + 2 * i"
  defines "b \<equiv> p16 (patch buf cur (region buf (cur + 2) (2 * (length cs - (i + 1))))) (off + 3) (length cs - 1)"
  shows "ptrs off ty b = take i (map fst cs) @ drop (Suc i) (map fst cs)" "hcount off b = length cs - 1"
    "hfree off b = hfree off buf" "harea off b = harea off buf" "hfrag off b = hfrag off buf" "b ! off = buf ! off"
    "length b = length buf"
    "\<And>x y. off + hsize ty + 2 * length cs \<le> x \<Longrightarrow> region b x y = region buf x y"
proof -
  let ?a = "off + hsize ty" and ?n = "length cs"
  let ?r = "region buf (cur + 2) (2 * (?n - (i + 1)))"
  let ?m = "patch buf cur ?r"
  have o8: "off + 8 \<le> cur" "off + 8 \<le> length buf" using hsize_ge[of ty] fit by (simp_all add: cur_def)
  have cur: "cur + 2 + 2 * (?n - (i + 1)) = ?a + 2 * ?n" using n(3) by (simp add: cur_def)
  have lr: "length ?r = 2 * (?n - (i + 1))" using cur fit by (intro length_region) simp
  have lm: "length ?m = length buf" using cur fit lr by (intro length_patch) simp
  have "cur + length ?r \<le> length buf" using lr cur fit by simp
  note h = hdr_body_write[OF o8(1) this]
  show "hfree off b = hfree off buf" "harea off b = harea off buf" "hfrag off b = hfrag off buf" "b ! off = buf ! off"
    "length b = length buf" and hc: "hcount off b = ?n - 1"
    using h o8 lm fit(2) by (simp_all add: b_def hdr_count_write)
  show "region b x y = region buf x y" if "?a + 2 * ?n \<le> x" for x y
  proof -
    have "region b x y = region ?m x y" using that o8 lm cur by (simp add: b_def hdr_count_write)
    also have "\<dots> = region buf x y" using that lr cur fit by (intro region_patch_other) simp_all
    finally show ?thesis .
  qed
  have old: "g16 buf (?a + 2 * j) = fst (cs ! j)" if "j < ?n" for j
    using arg_cong[OF n(2), of "\<lambda>xs. xs ! j"] that n(1) by (simp add: ptrs_def)
  have up: "g16 b (?a + 2 * j) = g16 ?m (?a + 2 * j)" for j
    using o8 lm hsize_ge[of ty] by (simp add: b_def g16_def hdr_count_write)
  have new: "g16 b (?a + 2 * j) = fst (cs ! (if j < i then j else Suc j))" if j: "j < ?n - 1" for j
  proof (cases "j < i")
    case True
    then have "g16 ?m (?a + 2 * j) = g16 buf (?a + 2 * j)"
      unfolding g16_def using cur fit lr by (subst region_patch_other) (auto simp: cur_def)
    then show ?thesis using True up old n(3) by simp
  next
    case False
    then have "region ?m (?a + 2 * j) 2 = region ?r (2 * (j - i)) 2"
      using j cur fit lr by (subst region_patch_into) (simp_all add: cur_def diff_mult_distrib2)
    also have "\<dots> = region buf (?a + 2 * Suc j) 2"
      using False j by (subst region_region) (simp_all add: cur_def diff_mult_distrib2 add.assoc)
    finally show ?thesis using False up old[of "Suc j"] j by (simp add: g16_def)
  qed
  show "ptrs off ty b = take i (map fst cs) @ drop (Suc i) (map fst cs)"
  proof (rule nth_equalityI)
    show "length (ptrs off ty b) = length (take i (map fst cs) @ drop (Suc i) (map fst cs))" using hc n(3) by simp
    fix j assume "j < length (ptrs off ty b)"
    then have j: "j < ?n - 1" using hc by simp
    then have "ptrs off ty b ! j = g16 b (?a + 2 * j)" using hc by (simp add: ptrs_def del: upt_Suc)
    then show "ptrs off ty b ! j = (take i (map fst cs) @ drop (Suc i) (map fst cs)) ! j"
      using new[OF j] n(3) j by (auto simp: nth_append min_def)
  qed
qed

text \<open>The last step of \<open>drop_cell\<close>: the pointer goes when its cell has gone.\<close>

lemma drop_pointer:
  assumes l: "layout (page_offset p) u ty buf rs fs" and pt: "ptrs (page_offset p) ty buf = map fst cs"
    and i: "i < length cs" and rs: "rs = take i cs @ drop (Suc i) cs"
    and v: "\<forall>c \<in> set (cells buf rs). valid_cell u ty c"
  defines "cur \<equiv> page_offset p + hsize ty + 2 * i"
  defines "m \<equiv> patch buf cur (region buf (cur + 2) (2 * (length cs - (i + 1))))"
  defines "b \<equiv> p16 m (page_offset p + 3) (length cs - 1)"
  shows "shift_pointers_left (pb p buf) i = Inr (pb p m)" "cell_count (pb p m) = Inr (length cs)"
    "write_cell_count (pb p m) (word_of_nat (length cs - 1)) = Inr (pb p b)" "page_rep (page_offset p) u ty b rs fs"
    "cells b rs = cells buf rs"
proof -
  let ?off = "page_offset p" and ?a = "page_offset p + hsize ty" and ?n = "length cs"
  note d = layoutD[OF l]
  have n: "hcount ?off buf = ?n" using arg_cong[OF pt, of length] by simp
  have fit: "?a + 2 * ?n \<le> length buf" "?n < 65536" using d(2,3,5,9) n hsize_ge[of ty] by linarith+
  have cur: "cur + 2 + 2 * (?n - (i + 1)) = ?a + 2 * ?n" "?off + 8 \<le> cur" using i hsize_ge[of ty] by (simp_all add: cur_def)
  have lr: "length (region buf (cur + 2) (2 * (?n - (i + 1)))) = 2 * (?n - (i + 1))" using cur fit by (intro length_region) simp
  have lm: "length m = length buf" unfolding m_def using lr cur fit by (intro length_patch) simp
  note b = ptrs_remove[OF n pt i fit, folded cur_def, folded m_def, folded b_def]
  have fit2: "cur + length (region buf (cur + 2) (2 * (?n - (i + 1)))) \<le> length buf" using lr cur fit by simp
  have "hcount ?off m = ?n" unfolding m_def hdr_body_write[OF cur(2) fit2] by (rule n)
  then show "cell_count (pb p m) = Inr ?n" using header_reads(2)[of p m] d(11) lm by simp
  have "page_copy_within (pb p buf) (cur + 2) (2 * (?n - (i + 1))) cur = Inr (pb p m)"
    unfolding m_def using cur fit by (intro page_access(5)) simp_all
  then have "page_copy_within (pb p buf) (?a + i * 2 + 2) ((?n - (i + 1)) * 2) (?a + i * 2 + 2 - 2) = Inr (pb p m)"
    by (simp add: cur_def mult.commute)
  then show "shift_pointers_left (pb p buf) i = Inr (pb p m)"
    using d(4,11) n i by (auto simp: shift_pointers_left_def page_simps usub_def Let_def)
  show "write_cell_count (pb p m) (word_of_nat (?n - 1)) = Inr (pb p b)"
    unfolding b_def using header_writes(2)[of p m] unat_u16[of "?n - 1"] d(11) lm fit(2) by simp
  have body: "region b s j = region buf s j" if "(s, j') \<in> set (rs @ fs)" for s j j'
    using b(8) layout_block(1)[OF l that] d(5) n by simp
  show cl: "cells b rs = cells buf rs"
    unfolding cells_def by (rule map_cong[OF refl]) (use body in auto)
  have pth: "path b (hfree ?off buf) fs 0"
    by (rule path_cong[THEN iffD2, OF _ d(6)]) (rule body, auto)
  have "layout ?off u ty b rs fs"
    unfolding layout_def htype_def b(2-7) using d pth n by (simp add: htype_def)
  then show "page_rep ?off u ty b rs fs"
    using b(1) v by (simp add: page_rep_def rs take_map drop_map cl[unfolded rs])
qed

lemma mset_remove_nth: "i < length cs \<Longrightarrow> mset (cs ! i # take i cs @ drop (Suc i) cs) = mset cs"
  by (metis id_take_nth_drop mset.simps(2) mset_append union_mset_add_mset_right)

lemma drop_cell_spec:
  assumes r: "page_rep (page_offset p) u ty buf cs fs" and i: "i < length cs"
  shows "\<exists>buf' cs' fs'. drop_cell (pb p buf) i u = Inr (pb p buf') \<and> page_rep (page_offset p) u ty buf' cs' fs' \<and>
    cells buf' cs' = take i (cells buf cs) @ drop (Suc i) (cells buf cs)"
proof -
  let ?off = "page_offset p" and ?n = "length cs"
  note l = page_repD(1)[OF r] and n = page_repD(2)[OF r]
  define rs where "rs = take i cs @ drop (Suc i) cs"
  obtain s k where sk: "cs ! i = (s, k)" by (cases "cs ! i")
  obtain mx mn where t: "payload_overflow_threshold_max ty u = Inr mx" "payload_overflow_threshold_min ty u = Inr mn"
    using cell_thresholds[OF layoutD(1)[OF l]] by blast
  have "layout ?off u ty buf ((s, k) # rs) fs"
    using l layout_perm[of "(s, k) # rs" cs] mset_remove_nth[OF i] by (simp add: rs_def sk)
  then obtain b fs' where b: "free_cell_range (pb p buf) s k u = Inr (pb p b)" "layout ?off u ty b rs fs'" "kept ?off ty rs buf b"
    using free_cell_range_spec by blast
  note d = layoutD[OF b(2)]
  have hb: "hcount ?off b = ?n" using b(3) n by (simp add: kept_def)
  have cr: "cells b rs = take i (cells buf cs) @ drop (Suc i) (cells buf cs)"
    using kept_cells[OF b(3)] by (simp add: rs_def cells_def take_map drop_map)
  have v: "\<forall>c \<in> set (cells b rs). valid_cell u ty c"
    unfolding cr using page_repD(4)[OF r] by (auto dest: in_set_takeD in_set_dropD)
  have pt: "ptrs ?off ty b = map fst cs" using kept_ptrs[OF b(3)] r by (simp add: page_rep_def)
  have step: "drop_cell (pb p buf) i u =
      rbind (if ?n > 1 then shift_pointers_left (pb p b) i
             else rbind (write_cell_content_area (pb p b) u) (\<lambda>p. rbind (write_first_freeblock p 0) (\<lambda>p.
               write_fragmented_bytes_count p 0))) (\<lambda>p. rbind (cell_count p) (\<lambda>n. rbind (usub n 1) (\<lambda>m.
                 write_cell_count p (word_of_nat m))))"
    using cell_region(2)[OF r i t] sk b(1) d(11) hb by (simp add: drop_cell_def page_simps)
  show ?thesis
  proof (cases "?n > 1")
    case True
    note q = drop_pointer[OF b(2) pt i rs_def v]
    let ?c = "?off + hsize ty + 2 * i"
    let ?m = "patch b ?c (region b (?c + 2) (2 * (?n - (i + 1))))"
    have "drop_cell (pb p buf) i u = Inr (pb p (p16 ?m (?off + 3) (?n - 1)))"
      using step True q(1-3) by (simp add: usub_def del: of_nat_diff)
    then show ?thesis using q(4,5) cr by (intro exI conjI) auto
  next
    case False
    then have e: "?n = 1" "i = 0" "rs = []" using i by (auto simp: rs_def)
    let ?b = "p16 ((p16 (p16 b (?off + 5) u) (?off + 1) 0)[?off + 7 := 0]) (?off + 3) 0"
    have h: "hfree ?off ?b = 0" "hcount ?off ?b = 0" "harea ?off ?b = u" "hfrag ?off ?b = 0" "?b ! ?off = b ! ?off" "length ?b = length b"
      using d(1,2,11) by (simp_all add: hdr)
    have hm: "hcount ?off ((p16 (p16 b (?off + 5) u) (?off + 1) 0)[?off + 7 := 0]) = 1"
      using d(1,2,11) hb e by (simp add: hdr)
    have ev: "drop_cell (pb p buf) i u = Inr (pb p ?b)"
      using step e d(11) hm by (simp add: page_simps usub_def)
    have "layout ?off u ty ?b [] []"
      unfolding layout_def htype_def h using d hb e by (simp add: htype_def geo_def apart_def)
    then have "page_rep ?off u ty ?b [] []" by (rule page_repI) (use h in \<open>simp_all add: cells_def\<close>)
    then show ?thesis using ev e by (intro exI conjI) (auto simp: cells_def)
  qed
qed

section \<open>A page as a list of cells\<close>

text \<open>What the page promises: it holds a list of cells, and only \<open>u\<close> bytes of it are usable.\<close>

definition page_holds :: "page \<Rightarrow> nat \<Rightarrow> page_type \<Rightarrow> bytes list \<Rightarrow> bool" where
  "page_holds p u ty cl \<longleftrightarrow>
     (\<exists>buf rs fs. pg_buffer p = Some buf \<and> page_rep (page_offset p) u ty buf rs fs \<and> cells buf rs = cl)"

datatype page_op = Insert_cell nat bytes | Drop_cell nat | Defragment int

definition apply_page_op :: "nat \<Rightarrow> page \<Rightarrow> page_op \<Rightarrow> page result" where
  "apply_page_op u p c =
     (case c of
        Insert_cell i payload \<Rightarrow> insert_into_cell p payload i u
      | Drop_cell i \<Rightarrow> drop_cell p i u
      | Defragment m \<Rightarrow> defragment_page p u m)"

definition apply_list_op :: "nat \<Rightarrow> nat \<Rightarrow> page_type \<Rightarrow> bytes list \<Rightarrow> page_op \<Rightarrow> bytes list option" where
  "apply_list_op off u ty cl c =
     (case c of
        Insert_cell i payload \<Rightarrow>
          if i \<le> length cl \<and> valid_cell u ty payload \<and> 4 \<le> length payload \<and>
             length payload + 2 \<le> free_bytes off u ty (map length cl)
          then Some (take i cl @ payload # drop i cl) else None
      | Drop_cell i \<Rightarrow> if i < length cl then Some (take i cl @ drop (Suc i) cl) else None
      | Defragment m \<Rightarrow> Some cl)"

fun run_result :: "('s \<Rightarrow> 'c \<Rightarrow> 's result) \<Rightarrow> 's \<Rightarrow> 'c list \<Rightarrow> 's result" where
  "run_result step s [] = Inr s"
| "run_result step s (c # cs) = rbind (step s c) (\<lambda>s'. run_result step s' cs)"

fun run_option :: "('a \<Rightarrow> 'c \<Rightarrow> 'a option) \<Rightarrow> 'a \<Rightarrow> 'c list \<Rightarrow> 'a option" where
  "run_option astep a [] = Some a"
| "run_option astep a (c # cs) = (case astep a c of None \<Rightarrow> None | Some a' \<Rightarrow> run_option astep a' cs)"

text \<open>A component that implements the steps of an abstract one, for as long as the abstract one can step.\<close>

locale implements =
  fixes rel :: "'s \<Rightarrow> 'a \<Rightarrow> bool"
    and step :: "'s \<Rightarrow> 'c \<Rightarrow> 's result"
    and astep :: "'a \<Rightarrow> 'c \<Rightarrow> 'a option"
  assumes implement: "rel s a \<Longrightarrow> astep a c = Some a' \<Longrightarrow> \<exists>s'. step s c = Inr s' \<and> rel s' a'"
begin

lemma runs: "rel s a \<Longrightarrow> run_option astep a cs = Some a' \<Longrightarrow> \<exists>s'. run_result step s cs = Inr s' \<and> rel s' a'"
proof (induction cs arbitrary: s a)
  case (Cons c cs)
  then obtain b where b: "astep a c = Some b" "run_option astep b cs = Some a'" by (auto split: option.splits)
  then obtain s' where "step s c = Inr s'" "rel s' b" using implement[OF Cons.prems(1) b(1)] by blast
  then show ?case using Cons.IH[OF _ b(2)] by auto
qed simp

lemma runs_inv:
  assumes "\<And>s a. rel s a \<Longrightarrow> ok a" "rel s a" "run_option astep a cs = Some a'"
  shows "ok a'"
  using runs[OF assms(2,3)] assms(1) by blast

end

lemma page_holdsE:
  assumes "page_holds p u ty cl"
  obtains buf rs fs where "p = pb p buf" "page_rep (page_offset p) u ty buf rs fs" "cells buf rs = cl" "map length cl = map snd rs"
proof -
  obtain buf rs fs where b: "pg_buffer p = Some buf" "page_rep (page_offset p) u ty buf rs fs" "cells buf rs = cl"
    using assms by (auto simp: page_holds_def)
  show ?thesis using that[OF _ b(2,3)] b(1) cells_lens[OF page_repD(1)[OF b(2)]] b(3) by simp
qed

lemma page_holdsI: "page_rep (page_offset p) u ty buf rs fs \<Longrightarrow> page_holds (pb p buf) u ty (cells buf rs)"
  by (auto simp: page_holds_def page_access(2))

definition page_rel :: "nat \<Rightarrow> nat \<Rightarrow> page_type \<Rightarrow> page \<Rightarrow> bytes list \<Rightarrow> bool" where
  "page_rel off u ty p cl \<longleftrightarrow> page_holds p u ty cl \<and> page_offset p = off \<and> overflow_cells p = []"

lemma page_relI:
  assumes "page_rel off u ty p cl" "page_rep off u ty buf rs fs" "cells buf rs = cl'"
  shows "page_rel off u ty (pb p buf) cl'"
  using assms page_holdsI[of p u ty buf rs fs] by (simp add: page_rel_def page_access(2))

interpretation pg: implements "page_rel off u ty" "apply_page_op u" "apply_list_op off u ty" for off u ty
proof
  fix p cl c cl' assume rel: "page_rel off u ty p cl" and ap: "apply_list_op off u ty cl c = Some cl'"
  then obtain buf rs fs where b: "p = pb p buf" "page_rep off u ty buf rs fs" "cells buf rs = cl" "map length cl = map snd rs"
    using page_holdsE by (metis page_rel_def)
  have off: "page_offset p = off" "overflow_cells p = []" using rel by (simp_all add: page_rel_def)
  have n: "length rs = length cl" using b(3) by auto
  have fin: "\<exists>p'. apply_page_op u p c = Inr p' \<and> page_rel off u ty p' cl'"
    if "apply_page_op u (pb p buf) c = Inr (pb p buf')" "page_rep off u ty buf' rs' fs'" "cells buf' rs' = cl'" for buf' rs' fs'
    using page_relI[OF rel that(2,3)] that(1) b(1) by metis
  note rp = b(2)[folded off(1)]
  show "\<exists>p'. apply_page_op u p c = Inr p' \<and> page_rel off u ty p' cl'"
  proof (cases c)
    case (Insert_cell i payload)
    then show ?thesis
      using ap insert_into_cell_inner_spec[OF rp, of i payload False] off n b(3,4) fin
      by (auto simp: apply_list_op_def apply_page_op_def insert_into_cell_def split: if_splits)
  next
    case (Drop_cell i)
    then show ?thesis
      using ap drop_cell_spec[OF rp, of i] off n b(3) fin
      by (auto simp: apply_list_op_def apply_page_op_def split: if_splits)
  next
    case (Defragment m)
    then show ?thesis
      using ap defragment_page_spec[OF rp, of m] off b(3) fin
      by (auto simp: apply_list_op_def apply_page_op_def)
  qed
qed

section \<open>A new page\<close>

lemma init_page_rep:
  assumes u: "480 \<le> u" "u \<le> 65536" "u \<le> length buf" and p: "pg_buffer p = Some buf"
  shows "\<exists>buf'. btree_init_page p ty u = Inr (pb p buf') \<and> page_rep (page_offset p) u ty buf' [] []"
proof -
  let ?off = "page_offset p"
  have off: "?off + 12 \<le> length buf" using u by (simp add: page_offset_def)
  have pp: "p = pb p buf" using p by simp
  let ?t = "patch buf ?off [page_type_u8 ty]"
  let ?m = "(p16 (p16 (p16 ?t (?off + 1) 0) (?off + 3) 0) (?off + 5) u)[?off + 7 := 0]"
  let ?b = "patch ?m (?off + 8) (u32_be 0)"
  have len: "length (u32_be 0) = 4" by (simp add: u32_be_def)
  have lt: "length ?t = length buf" "?t ! ?off = page_type_u8 ty" using off by (simp_all add: nth_patch)
  have lm: "length ?m = length buf" using off lt by simp
  have w: "write_page_type (pb p buf) (page_type_u8 ty) = Inr (pb p ?t)"
    "write_rightmost_ptr (pb p ?m) 0 = Inr (pb p ?b)"
    using off lm len
    by (simp_all add: write_page_type_def write_rightmost_ptr_def page_write_u8_def page_write_u32_def BTREE_PAGE_TYPE_def
        BTREE_RIGHTMOST_PTR_def page_simps)
  have ev: "btree_init_page (pb p buf) ty u = Inr (pb p ?b)"
    unfolding btree_init_page_def w using off lt w(2) by (simp add: page_simps)
  have h: "hfree ?off ?b = 0" "hcount ?off ?b = 0" "harea ?off ?b = u" "hfrag ?off ?b = 0" "?b ! ?off = page_type_u8 ty"
    "length ?b = length buf"
    using off lt lm len u by (simp_all add: hdr)
  have "page_type_try_from (page_type_u8 ty) = Inr ty" by (cases ty) (simp_all add: page_type_try_from_def)
  then have "layout ?off u ty ?b [] []"
    unfolding layout_def htype_def h using u off by (simp add: geo_def apart_def hsize_def page_offset_def)
  then have "page_rep ?off u ty ?b [] []" by (rule page_repI) (use h in \<open>simp_all add: cells_def\<close>)
  then show ?thesis using ev pp by metis
qed

definition empty_page :: page where
  "empty_page = \<lparr> pg_flags = 0, pg_id = 2, pin_count = 0, wal_tag = TAG_UNSET,
                  pg_buffer = Some (replicate 512 0), overflow_cells = [] \<rparr>"

lemma empty_page_rel:
  obtains p where "btree_init_page empty_page TableLeaf 512 = Inr p" "page_rel 0 512 TableLeaf p []"
proof -
  obtain buf where b: "btree_init_page empty_page TableLeaf 512 = Inr (pb empty_page buf)"
      "page_rep (page_offset empty_page) 512 TableLeaf buf [] []"
    using init_page_rep[of 512 "replicate 512 0" empty_page TableLeaf] by (auto simp: empty_page_def)
  have "page_rel 0 512 TableLeaf (pb empty_page buf) []"
    using page_holdsI[OF b(2)] by (simp add: page_rel_def cells_def page_access(2)) (simp add: page_offset_def empty_page_def)
  then show ?thesis using that b(1) by blast
qed

definition demo_cells :: "bytes list" where
  "demo_cells = [[2, 1, 10, 11], [3, 2, 20, 21, 22], [2, 3, 30, 31]]"

lemma demo_cells_valid: "list_all (valid_cell 512 TableLeaf) demo_cells"
  by (simp add: demo_cells_def valid_cell_def payload_overflow_threshold_max_def payload_overflow_threshold_min_def usub_def
      raw_region_len_def varint_at_def read_varint_def read_varint_loop.simps slice_get_def payload_overflows_def
      MINIMUM_CELL_SIZE_def)

definition demo_page_ops :: "page_op list" where
  "demo_page_ops = [Insert_cell 0 (demo_cells ! 0), Insert_cell 1 (demo_cells ! 1), Insert_cell 0 (demo_cells ! 2), Drop_cell 1, Defragment 0]"

lemma demo_list_run: "run_option (apply_list_op 0 512 TableLeaf) [] demo_page_ops = Some [[2, 3, 30, 31], [3, 2, 20, 21, 22]]"
  using demo_cells_valid by (simp add: demo_page_ops_def apply_list_op_def free_bytes_def demo_cells_def hsize_def)

lemma demo_page_rel: "\<exists>p. page_rel 0 512 TableLeaf p [[2, 3, 30, 31], [3, 2, 20, 21, 22]]"
  using empty_page_rel pg.runs[OF _ demo_list_run] by blast

section \<open>Properties\<close>

text \<open>C7: (\<open>insert_into_cell\<close>, \<open>drop_cell\<close>, \<open>defragment_page\<close> with \<open>allocate_cell_space\<close>, \<open>find_free_slot\<close>,
  \<open>free_cell_range\<close>) a page refines a list of byte strings: every sequence of insertions, removals and
  defragmentations that is possible on the list, where a cell is inserted only if its bytes and its
  two-byte pointer fit into what the cells leave free, succeeds on the page, and the page then
  holds that list. No free block list, fragment count or defragmentation is visible.\<close>

theorem page_ops_refine_list:
  assumes "page_rel off u ty p cl" and "run_option (apply_list_op off u ty) cl cs = Some cl'"
  shows "\<exists>p'. run_result (apply_page_op u) p cs = Inr p' \<and> page_rel off u ty p' cl'"
  using assms by (rule pg.runs)

theorem page_ops_refine_list_witness:
  "\<exists>p p'. btree_init_page empty_page TableLeaf 512 = Inr p \<and> run_result (apply_page_op 512) p demo_page_ops = Inr p' \<and>
     page_rel 0 512 TableLeaf p' [[2, 3, 30, 31], [3, 2, 20, 21, 22]]"
proof -
  obtain p where p: "btree_init_page empty_page TableLeaf 512 = Inr p" "page_rel 0 512 TableLeaf p []"
    by (rule empty_page_rel)
  show ?thesis using p(1) page_ops_refine_list[OF p(2) demo_list_run] by blast
qed



text \<open>C21: (\<open>_insert_into_cell\<close>) a cell that does not fit, or that comes while the page has overflow cells, leaves
  the bytes of the page as they are and is appended to its overflow cells with its index.\<close>

theorem insert_overflow_cell:
  assumes "page_holds p u ty cl" "i \<le> length cl + length (overflow_cells p)"
    and "overflow_cells p \<noteq> [] \<and> \<not> allow \<or> free_bytes (page_offset p) u ty (map length cl) < length payload + 2"
  shows "insert_into_cell_inner p payload i u allow = Inr (p\<lparr>overflow_cells := overflow_cells p @ [(i, payload)]\<rparr>)"
proof -
  obtain buf rs fs where b: "p = pb p buf" "page_rep (page_offset p) u ty buf rs fs" "cells buf rs = cl" "map length cl = map snd rs"
    by (rule page_holdsE[OF assms(1)])
  have "i \<le> length rs + length (overflow_cells p)" using assms(2) b(3) by auto
  then show ?thesis using insert_into_cell_overflow[OF b(2), of i allow payload] assms(3) b(1,4) by metis
qed

theorem insert_overflow_cell_witness:
  "\<exists>p. insert_into_cell_inner p (replicate 505 1) 2 512 False = Inr (p\<lparr>overflow_cells := [(2, replicate 505 1)]\<rparr>)"
proof -
  obtain p where p: "page_rel 0 512 TableLeaf p [[2, 3, 30, 31], [3, 2, 20, 21, 22]]" using demo_page_rel by blast
  then show ?thesis
    using insert_overflow_cell[of p 512 TableLeaf "[[2, 3, 30, 31], [3, 2, 20, 21, 22]]" 2 False "replicate 505 1"]
    by (auto simp: page_rel_def free_bytes_def hsize_def)
qed

text \<open>C20: (\<open>compute_free_space\<close>) the free space a page reports is exactly what its cells leave: the usable bytes
  without the header, two bytes per cell and the bytes of the cells, whatever the history of the
  page left in fragments and free blocks.\<close>

theorem compute_free_space_exact:
  assumes "page_holds p u ty cl"
  shows "compute_free_space p u =
    Inr (u - (page_offset p + (if ty \<in> {TableLeaf, IndexLeaf} then 8 else 12)) - 2 * length cl - sum_list (map length cl))"
proof -
  obtain buf rs fs where b: "p = pb p buf" "page_rep (page_offset p) u ty buf rs fs" "cells buf rs = cl" "map length cl = map snd rs"
    by (rule page_holdsE[OF assms(1)])
  note d = layoutD[OF page_repD(1)[OF b(2)]]
  have n: "hcount (page_offset p) buf = length cl" using page_repD(2)[OF b(2)] b(3) by auto
  have lf: "(if ty \<in> {TableLeaf, IndexLeaf} then 8 else 12) = hsize ty" by (cases ty) (simp_all add: hsize_def)
  show ?thesis
    using compute_free_space_eq[OF page_repD(1)[OF b(2)]] b(1,4) lf n
    by (simp add: add.commute diff_diff_left)
qed

theorem compute_free_space_exact_witness:
  "\<exists>p. page_rel 0 512 TableLeaf p [[2, 3, 30, 31], [3, 2, 20, 21, 22]] \<and> compute_free_space p 512 = Inr 491"
proof -
  obtain p where p: "page_rel 0 512 TableLeaf p [[2, 3, 30, 31], [3, 2, 20, 21, 22]]" using demo_page_rel by blast
  then show ?thesis
    using compute_free_space_exact[of p 512 TableLeaf "[[2, 3, 30, 31], [3, 2, 20, 21, 22]]"]
    by (intro exI[of _ p]) (simp add: page_rel_def)
qed

text \<open>C18: (\<open>defragment_page\<close> with \<open>defragment_page_fast\<close>, \<open>process_cells\<close>) defragmenting keeps the cells and their order,
  leaves no free block and no more fragmented bytes than the caller allows, so that all other
  free bytes lie between the pointer array and the first cell.\<close>

theorem defragment_page_packs:
  assumes "page_holds p u ty cl"
  shows "\<exists>p' n area start free. defragment_page p u m = Inr p' \<and> page_holds p' u ty cl \<and> first_freeblock p' = Inr 0 \<and>
    num_frag_free_bytes p' = Inr n \<and> int (unat n) \<le> max m 0 \<and> cell_content_area p' = Inr area \<and>
    unallocated_region_start p' = Inr start \<and> compute_free_space p u = Inr free \<and> area = start + (free - unat n) \<and>
    unat n \<le> free"
proof -
  obtain buf rs fs where b: "p = pb p buf" "page_rep (page_offset p) u ty buf rs fs" "cells buf rs = cl" "map length cl = map snd rs"
    by (rule page_holdsE[OF assms(1)])
  obtain b' rs' where b': "defragment_page (pb p buf) u m = Inr (pb p b')" "page_rep (page_offset p) u ty b' rs' []"
      "cells b' rs' = cells buf rs" "int (hfrag (page_offset p) b') \<le> max m 0"
    using defragment_page_spec[OF b(2), of m] by blast
  note d = layoutD[OF page_repD(1)[OF b'(2)]] and l = page_repD(1)[OF b(2)] and l' = page_repD(1)[OF b'(2)]
  have e: "map snd rs' = map snd rs" using cells_lens[OF l] cells_lens[OF l'] b'(3) by simp
  have n: "hcount (page_offset p) b' = hcount (page_offset p) buf"
    using page_repD(2)[OF b(2)] page_repD(2)[OF b'(2)] arg_cong[OF e, of length] by simp
  have sum: "harea (page_offset p) b' + hfrag (page_offset p) b' + sum_list (map snd rs) = u" using geoD(4)[OF d(8)] e by simp
  note f = compute_free_space_eq[OF l, folded n]
  have "page_holds (pb p b') u ty cl" using page_holdsI[OF b'(2)] b'(3) b(3) by simp
  moreover have "first_freeblock (pb p b') = Inr 0" using d(6,11) by (simp add: page_simps)
  moreover have "num_frag_free_bytes (pb p b') = Inr (b' ! (page_offset p + 7))"
    "cell_content_area (pb p b') = Inr (harea (page_offset p) b')"
    "unallocated_region_start (pb p b') = Inr (page_offset p + hsize ty + 2 * hcount (page_offset p) b')"
    using d(4,11) by (simp_all add: page_simps)
  moreover have "unat (b' ! (page_offset p + 7)) = hfrag (page_offset p) b'" by (simp add: hfrag_def)
  ultimately show ?thesis
    using f b'(1,4) b(1) sum d(5)
    by (intro exI[of _ "pb p b'"] exI[of _ "b' ! (page_offset p + 7)"] exI[of _ "harea (page_offset p) b'"]
          exI[of _ "page_offset p + hsize ty + 2 * hcount (page_offset p) b'"] exI) auto
qed

theorem defragment_page_packs_witness:
  "\<exists>p p'. defragment_page p 512 (- 1) = Inr p' \<and> page_holds p' 512 TableLeaf [[2, 3, 30, 31], [3, 2, 20, 21, 22]] \<and>
     num_frag_free_bytes p' = Inr 0"
proof -
  obtain p where p: "page_holds p 512 TableLeaf [[2, 3, 30, 31], [3, 2, 20, 21, 22]]"
    using demo_page_rel by (auto simp: page_rel_def)
  then show ?thesis using defragment_page_packs[OF p, of "- 1"] by (auto simp: uint_0_iff)
qed

text \<open>C28: (\<open>btree_init_page\<close>) initialising a buffer of at least the usable size, which is at least 480 and at most
  65536 bytes, whatever it held before, makes it a well-formed empty page of the given type.\<close>

theorem init_page_well_formed:
  assumes "480 \<le> u" "u \<le> 65536" "pg_buffer p = Some buf" "u \<le> length buf"
  shows "\<exists>p'. btree_init_page p ty u = Inr p' \<and> page_holds p' u ty [] \<and> btree_page_type p' = Inr ty \<and> cell_count p' = Inr 0"
proof -
  obtain b where b: "btree_init_page p ty u = Inr (pb p b)" "page_rep (page_offset p) u ty b [] []"
    using init_page_rep[OF assms(1,2,4,3), of ty] by blast
  note d = layoutD[OF page_repD(1)[OF b(2)]] and n = page_repD(2)[OF b(2)]
  have "page_holds (pb p b) u ty []" using page_holdsI[OF b(2)] by (simp add: cells_def)
  then show ?thesis using b(1) d(4,11) n by (simp add: page_simps)
qed

theorem init_page_well_formed_witness:
  "\<exists>p'. btree_init_page empty_page IndexInterior 512 = Inr p' \<and> page_holds p' 512 IndexInterior []"
  using init_page_well_formed[of 512 empty_page "replicate 512 0" IndexInterior] by (auto simp: empty_page_def)

end
