(* ===== verification/Spec2Isabelle.thy ===== *)
theory Spec2Isabelle
  imports Varint Wal_Snapshot Wal_Durability Page_Cache Record_Compare Btree_Insert
begin

text \<open>
  A verification development for pgmicro, an embedded SQL database in Rust.
\<close>

end
